(* ===== verification/Prelude.thy ===== *)
theory Prelude
  imports Complex_Main "HOL-Library.Multiset" "HOL-Library.Monad_Syntax"
    "HOL-Library.Char_ord" "HOL-Library.List_Lexorder"
begin

text \<open>
  Shared vocabulary of the development: the C++ containers and conversions that
  the modelled files use (\<open>std::vector::resize\<close>, \<open>std::map<int,int>\<close> used as a
  histogram, truncating integer division, conversion of \<open>double\<close> to \<open>int\<close>,
  \<open>boost::lexical_cast<std::string>\<close> of integers, \<open>std::sort\<close> by a comparison) with
  the lemmas about them that the component theories use.

  Conventions of all theories. A C++ \<open>int\<close> is an \<open>int\<close> (signed overflow is undefined in
  C++ and is not modelled), \<open>std::size_t\<close> and \<open>uint32_t\<close> values are \<open>nat\<close> unless the
  code relies on their wrap-around, a \<open>double\<close> is an exact \<open>real\<close> (rounding is not
  modelled), a \<open>std::string\<close> is a \<open>string\<close> ordered lexicographically by bytes. A read
  or write outside a vector, which C++ leaves undefined, is \<open>None\<close> in an option-valued
  definition.
\<close>

named_theorems vec_simps \<open>facts about resized and updated vectors\<close>
named_theorems hist_simps \<open>facts about cost histograms\<close>

section \<open>Vectors\<close>

text \<open>\<open>std::vector::resize(n, d)\<close>: keeps the first \<open>n\<close> elements, pads with \<open>d\<close>.\<close>

definition resize :: "nat \<Rightarrow> 'a \<Rightarrow> 'a list \<Rightarrow> 'a list" where
  "resize n d xs = take n xs @ replicate (n - length xs) d"

text \<open>Grow-only resizing, as in \<open>if (n > v.size()) v.resize(n)\<close>.\<close>

definition grow :: "nat \<Rightarrow> 'a \<Rightarrow> 'a list \<Rightarrow> 'a list" where
  "grow n d xs = (if n > length xs then resize n d xs else xs)"

text \<open>Indexing that makes an access outside the vector visible.\<close>

definition vec_at :: "'a list \<Rightarrow> nat \<Rightarrow> 'a option" where
  "vec_at xs i = (if i < length xs then Some (xs ! i) else None)"

section \<open>Conversions\<close>

text \<open>C++ integer division truncates towards zero.\<close>

definition cdiv :: "int \<Rightarrow> int \<Rightarrow> int" where
  "cdiv a b = sgn a * sgn b * (\<bar>a\<bar> div \<bar>b\<bar>)"

text \<open>Conversion of a \<open>double\<close> to \<open>int\<close> truncates towards zero.\<close>

definition to_int :: "real \<Rightarrow> int" where
  "to_int x = (if 0 \<le> x then \<lfloor>x\<rfloor> else \<lceil>x\<rceil>)"

definition digit :: "nat \<Rightarrow> char" where
  "digit d = ''0123456789'' ! d"

text \<open>\<open>boost::lexical_cast<std::string>\<close> of an unsigned and of a signed integer.\<close>

fun dec :: "nat \<Rightarrow> string" where
  "dec n = (if n < 10 then [digit n] else dec (n div 10) @ [digit (n mod 10)])"

declare dec.simps [simp del]

definition dec_int :: "int \<Rightarrow> string" where
  "dec_int i = (if i < 0 then CHR ''-'' # dec (nat (- i)) else dec (nat i))"

section \<open>Histograms: \<open>std::map<int, int>\<close>\<close>

text \<open>
  The maps from a click cost to a number of clicks, as association lists in the
  order of the keys. \<open>hist_add k n\<close> is the pattern
  \<open>r = m.insert(make_pair(k, n)); if (!r.second) r.first->second += n;\<close>.
\<close>

type_synonym histogram = "(int \<times> int) list"

fun hist_add :: "int \<Rightarrow> int \<Rightarrow> histogram \<Rightarrow> histogram" where
  "hist_add k n [] = [(k, n)]"
| "hist_add k n ((k', n') # h) =
     (if k < k' then (k, n) # (k', n') # h
      else if k = k' then (k', n' + n) # h
      else (k', n') # hist_add k n h)"

text \<open>The sums the code accumulates while it iterates over a histogram.\<close>

definition hist_num :: "histogram \<Rightarrow> int" where
  "hist_num h = sum_list (map snd h)"

definition hist_cost :: "histogram \<Rightarrow> int" where
  "hist_cost h = sum_list (map (\<lambda>(c, n). c * n) h)"

definition hist_ok :: "histogram \<Rightarrow> bool" where
  "hist_ok h \<longleftrightarrow> sorted_wrt (<) (map fst h) \<and> (\<forall>(c, n) \<in> set h. 0 < n)"

section \<open>Sorting by a comparison: \<open>std::sort\<close>\<close>

fun insert_by :: "('a \<Rightarrow> 'a \<Rightarrow> bool) \<Rightarrow> 'a \<Rightarrow> 'a list \<Rightarrow> 'a list" where
  "insert_by lt x [] = [x]"
| "insert_by lt x (y # ys) = (if lt y x then y # insert_by lt x ys else x # y # ys)"

fun sort_by :: "('a \<Rightarrow> 'a \<Rightarrow> bool) \<Rightarrow> 'a list \<Rightarrow> 'a list" where
  "sort_by lt [] = []"
| "sort_by lt (x # xs) = insert_by lt x (sort_by lt xs)"

section \<open>Splitting and joining\<close>

text \<open>\<open>boost::split\<close> by a set of separators; adjacent separators give empty tokens.\<close>

fun split_any :: "(char \<Rightarrow> bool) \<Rightarrow> string \<Rightarrow> string list" where
  "split_any sep [] = [[]]"
| "split_any sep (c # cs) =
     (if sep c then [] # split_any sep cs
      else (c # hd (split_any sep cs)) # tl (split_any sep cs))"

fun join :: "char \<Rightarrow> string list \<Rightarrow> string" where
  "join c [] = []"
| "join c [s] = s"
| "join c (s # t # ts) = s @ c # join c (t # ts)"

section \<open>Lemmas on vectors\<close>

lemma length_resize [simp]: "length (resize n d xs) = n"
  by (simp add: resize_def min_def)

lemma length_grow [simp]: "length (grow n d xs) = max n (length xs)"
  by (simp add: grow_def max_def)

lemma nth_resize [vec_simps]:
  "i < n \<Longrightarrow> resize n d xs ! i = (if i < length xs then xs ! i else d)"
  by (auto simp: resize_def nth_append min_def)

lemma nth_grow [vec_simps]:
  "i < n \<or> i < length xs \<Longrightarrow> grow n d xs ! i = (if i < length xs then xs ! i else d)"
  by (auto simp: grow_def nth_resize)

lemma resize_same [simp]: "resize (length xs) d xs = xs"
  by (simp add: resize_def)

lemma resize_longer: "length xs \<le> n \<Longrightarrow> resize n d xs = xs @ replicate (n - length xs) d"
  by (simp add: resize_def)

lemma grow_append: "grow n d xs = xs @ replicate (n - length xs) d"
  by (auto simp: grow_def resize_def)

lemma set_resize: "set (resize n d xs) \<subseteq> insert d (set xs)"
  by (auto simp: resize_def dest: in_set_takeD)

lemma set_grow: "set (grow n d xs) \<subseteq> insert d (set xs)"
  by (auto simp: grow_def dest: set_resize [THEN subsetD])

lemma vec_at_Some [simp]: "vec_at xs i = Some x \<longleftrightarrow> i < length xs \<and> xs ! i = x"
  by (auto simp: vec_at_def)

lemma vec_at_None [simp]: "vec_at xs i = None \<longleftrightarrow> length xs \<le> i"
  by (auto simp: vec_at_def)

lemma those_eq_Some: "those xs = Some ys \<longleftrightarrow> xs = map Some ys"
  by (induction xs arbitrary: ys) (auto split: option.splits)

lemma sum_list_update_int:
  "i < length xs \<Longrightarrow> sum_list (xs[i := (v :: int)]) = sum_list xs - xs ! i + v"
  by (induction xs arbitrary: i) (auto split: nat.splits)

section \<open>Lemmas on conversions\<close>

lemma digit_inj: "a < 10 \<Longrightarrow> b < 10 \<Longrightarrow> digit a = digit b \<Longrightarrow> a = b"
proof -
  have d: "distinct ''0123456789''" by simp
  show "a < 10 \<Longrightarrow> b < 10 \<Longrightarrow> digit a = digit b \<Longrightarrow> a = b"
    using nth_eq_iff_index_eq [OF d, of a b] by (simp add: digit_def)
qed

lemma digit_chars: "d < 10 \<Longrightarrow> digit d \<in> set ''0123456789''"
  unfolding digit_def by (rule nth_mem) simp

lemma digit_not_minus: "d < 10 \<Longrightarrow> digit d \<noteq> CHR ''-''"
  using digit_chars [of d] by auto

lemma dec_nonempty [simp]: "dec n \<noteq> []" "[] \<noteq> dec n"
  by (subst dec.simps, simp)+

lemma dec_chars: "set (dec n) \<subseteq> set ''0123456789''"
proof (induction n rule: dec.induct)
  case (1 n)
  show ?case
  proof (cases "n < 10")
    case True
    then show ?thesis using digit_chars [of n] by (subst dec.simps) simp
  next
    case False
    with 1 have "set (dec (n div 10)) \<subseteq> set ''0123456789''" by simp
    with False digit_chars [of "n mod 10"] show ?thesis by (subst dec.simps) simp
  qed
qed

lemma dec_not_minus: "CHR ''-'' \<notin> set (dec n)"
  using dec_chars [of n] by auto

lemma dec_inject: "dec m = dec n \<Longrightarrow> m = n"
proof (induction m arbitrary: n rule: dec.induct)
  case (1 m)
  show ?case
  proof (cases "m < 10")
    case True
    then have m: "dec m = [digit m]" by (simp add: dec.simps [of m])
    show ?thesis
    proof (cases "n < 10")
      case n: True
      then have "dec n = [digit n]" by (simp add: dec.simps [of n])
      with "1.prems" m True n show ?thesis by (auto dest: digit_inj)
    next
      case False
      then have "dec n = dec (n div 10) @ [digit (n mod 10)]" by (simp add: dec.simps [of n])
      with "1.prems" m show ?thesis by simp
    qed
  next
    case False
    then have m: "dec m = dec (m div 10) @ [digit (m mod 10)]" by (simp add: dec.simps [of m])
    show ?thesis
    proof (cases "n < 10")
      case True
      then have "dec n = [digit n]" by (simp add: dec.simps [of n])
      with "1.prems" m show ?thesis by simp
    next
      case n: False
      then have "dec n = dec (n div 10) @ [digit (n mod 10)]" by (simp add: dec.simps [of n])
      with "1.prems" m have "dec (m div 10) = dec (n div 10)"
        and "digit (m mod 10) = digit (n mod 10)" by simp_all
      then have "m div 10 = n div 10" and "m mod 10 = n mod 10"
        using "1.IH" [OF False] digit_inj [of "m mod 10" "n mod 10"] by simp_all
      then show ?thesis by (metis div_mult_mod_eq)
    qed
  qed
qed

lemma split_at_sep:
  assumes "c \<notin> set xs" and "c \<notin> set ys" and "xs @ c # us = ys @ c # vs"
  shows "xs = ys \<and> us = vs"
  using assms
proof (induction xs arbitrary: ys)
  case Nil
  then show ?case by (cases ys) auto
next
  case (Cons x xs)
  then show ?case by (cases ys) auto
qed

lemma cdiv_nonneg: "0 \<le> a \<Longrightarrow> 0 \<le> b \<Longrightarrow> cdiv a b = a div b"
  by (cases "a = 0"; cases "b = 0") (simp_all add: cdiv_def)

lemma to_int_nonneg: "0 \<le> x \<Longrightarrow> to_int x = \<lfloor>x\<rfloor>"
  by (simp add: to_int_def)

section \<open>Lemmas on histograms\<close>

lemma hist_num_Nil [simp]: "hist_num [] = 0"
  by (simp add: hist_num_def)

lemma hist_num_Cons [simp]: "hist_num ((c, n) # h) = n + hist_num h"
  by (simp add: hist_num_def)

lemma hist_cost_Nil [simp]: "hist_cost [] = 0"
  by (simp add: hist_cost_def)

lemma hist_cost_Cons [simp]: "hist_cost ((c, n) # h) = c * n + hist_cost h"
  by (simp add: hist_cost_def)

lemma hist_num_add [hist_simps]: "hist_num (hist_add k n h) = hist_num h + n"
  by (induction k n h rule: hist_add.induct) auto

lemma hist_cost_add [hist_simps]: "hist_cost (hist_add k n h) = hist_cost h + k * n"
  by (induction k n h rule: hist_add.induct) (auto simp: algebra_simps)

lemma hist_add_keys: "fst ` set (hist_add k n h) = insert k (fst ` set h)"
  by (induction k n h rule: hist_add.induct) auto

lemma hist_ok_Nil [simp]: "hist_ok []"
  by (simp add: hist_ok_def)

lemma hist_ok_Cons: "hist_ok ((c, n) # h) \<longleftrightarrow> 0 < n \<and> (\<forall>c' \<in> fst ` set h. c < c') \<and> hist_ok h"
  by (auto simp: hist_ok_def)

lemma hist_ok_add: "hist_ok h \<Longrightarrow> 0 < n \<Longrightarrow> hist_ok (hist_add k n h)"
proof (induction k n h rule: hist_add.induct)
  case (1 k n)
  then show ?case by (simp add: hist_ok_Cons)
next
  case (2 k n k' n' h)
  then show ?case
    by (auto simp: hist_ok_Cons hist_add_keys)
qed

lemma hist_num_nonneg: "hist_ok h \<Longrightarrow> 0 \<le> hist_num h"
  by (induction h) (auto simp: hist_ok_Cons)

lemma hist_num_pos: "hist_ok h \<Longrightarrow> h \<noteq> [] \<Longrightarrow> 0 < hist_num h"
  using hist_num_nonneg by (cases h) (fastforce simp: hist_ok_Cons)+

lemma hist_cost_bounds:
  assumes "hist_ok h" and "\<forall>(c, n) \<in> set h. lo \<le> c \<and> c \<le> hi"
  shows "lo * hist_num h \<le> hist_cost h \<and> hist_cost h \<le> hi * hist_num h"
  using assms
proof (induction h)
  case Nil
  then show ?case by simp
next
  case (Cons p h)
  obtain c n where p: "p = (c, n)" by (cases p)
  with Cons have IH: "lo * hist_num h \<le> hist_cost h" "hist_cost h \<le> hi * hist_num h"
    and c: "lo \<le> c" "c \<le> hi" and n: "0 < n" by (auto simp: hist_ok_Cons)
  have "lo * n \<le> c * n" "c * n \<le> hi * n" using c n by simp_all
  with IH show ?case by (simp add: p algebra_simps)
qed

section \<open>Lemmas on sorting\<close>

lemma mset_insert_by [simp]: "mset (insert_by lt x ys) = add_mset x (mset ys)"
  by (induction ys) auto

lemma mset_sort_by [simp]: "mset (sort_by lt xs) = mset xs"
  by (induction xs) auto

lemma set_sort_by [simp]: "set (sort_by lt xs) = set xs"
  by (metis mset_sort_by set_mset_mset)

lemma length_sort_by [simp]: "length (sort_by lt xs) = length xs"
  by (metis mset_sort_by size_mset)

section \<open>Lemmas on splitting\<close>

lemma split_any_one: "\<forall>c \<in> set s. \<not> sep c \<Longrightarrow> split_any sep s = [s]"
  by (induction s) auto

lemma split_any_first: "\<forall>c \<in> set s. \<not> sep c \<Longrightarrow> sep d \<Longrightarrow> split_any sep (s @ d # t) = s # split_any sep t"
  by (induction s) auto

lemma split_join:
  "ss \<noteq> [] \<Longrightarrow> \<forall>s \<in> set ss. \<forall>c \<in> set s. \<not> sep c \<Longrightarrow> sep d \<Longrightarrow> split_any sep (join d ss) = ss"
  by (induction d ss rule: join.induct) (simp_all add: split_any_one split_any_first)

lemma set_join: "set (join d ss) \<subseteq> insert d (\<Union>s \<in> set ss. set s)"
  by (induction d ss rule: join.induct) auto

end
