(* ===== verification/ImageFile.thy ===== *)
theory ImageFile
  imports Prelude "HOL-Library.Word"
begin

text \<open>
  The on-disk format shared by every \<open>save()\<close> and \<open>load()\<close> of the ad managers: a
  sequence of blocks, each an 8-byte little-endian \<open>std::size_t\<close> length followed by
  that many bytes, the image that \<open>izenelib::util::izene_serialization\<close> produces. The
  serialization library is not part of the repository; it enters the model as a pair of
  functions, and \<open>image_ok\<close> states of one value what the library promises: its image
  reads back as the value.
\<close>

type_synonym byte = "8 word"

record ifstream =
  if_rest :: "byte list"
  if_fail :: bool

section \<open>Blocks\<close>

text \<open>\<open>ofs.write((const char*)&len, sizeof(len))\<close> and the matching read.\<close>

fun enc_size :: "nat \<Rightarrow> nat \<Rightarrow> byte list" where
  "enc_size 0 n = []"
| "enc_size (Suc w) n = of_nat (n mod 256) # enc_size w (n div 256)"

fun dec_size :: "byte list \<Rightarrow> nat" where
  "dec_size [] = 0"
| "dec_size (b # bs) = unat b + 256 * dec_size bs"

definition write_block :: "byte list \<Rightarrow> byte list" where
  "write_block buf = enc_size 8 (length buf) @ buf"

text \<open>
  One block of a \<open>load()\<close>:
  \<open>len = 0; ifs.read((char*)&len, 8); data.resize(len); ifs.read(&data[0], len);\<close>
  The string \<open>data\<close> is shared by the blocks of a file, so a read that fails leaves its
  old contents in place; a stream that has failed reads nothing.
\<close>

definition read_block :: "byte list \<Rightarrow> ifstream \<Rightarrow> byte list \<times> ifstream" where
  "read_block data ifs =
     (let head = (if if_fail ifs then [] else take 8 (if_rest ifs));
          len = dec_size head;
          fail1 = (length head < 8);
          rest = drop (length head) (if_rest ifs);
          got = (if fail1 then [] else take len rest)
      in (got @ drop (length got) (resize len 0 data),
          \<lparr>if_rest = drop (length got) rest, if_fail = fail1 \<or> length got < len\<rparr>))"

definition image_ok :: "('a \<Rightarrow> byte list) \<Rightarrow> (byte list \<Rightarrow> 'a) \<Rightarrow> 'a \<Rightarrow> bool" where
  "image_ok ser deser x \<longleftrightarrow> deser (ser x) = x \<and> length (ser x) < 2 ^ 64"

section \<open>Reading back what was written\<close>

lemma length_enc_size [simp]: "length (enc_size w n) = w"
  by (induction w n rule: enc_size.induct) auto

lemma dec_enc_size: "dec_size (enc_size w n) = n mod 256 ^ w"
proof (induction w n rule: enc_size.induct)
  case (1 n)
  then show ?case by simp
next
  case (2 w n)
  have "unat (of_nat (n mod 256) :: byte) = n mod 256"
    by (simp add: unat_of_nat)
  with 2 show ?case
    by (simp add: mod_mult2_eq)
qed

lemma read_block_full:
  assumes h: "length hdr = 8" and d: "dec_size hdr = length buf"
  shows "read_block data \<lparr>if_rest = hdr @ buf @ rest, if_fail = False\<rparr>
           = (buf, \<lparr>if_rest = rest, if_fail = False\<rparr>)"
proof -
  have t: "take 8 (hdr @ buf @ rest) = hdr" using h by simp
  show ?thesis
    unfolding read_block_def Let_def
    by (simp only: t h d ifstream.simps if_False length_append take_append drop_append order_refl
        diff_self_eq_0 take_all drop_all drop0 take0 append_Nil2 append_Nil length_resize
        less_irrefl simp_thms)
qed

lemma bytes_of_size: "(256 :: nat) ^ 8 = 2 ^ 64"
  by simp

lemma dec_enc_size_8: "n < 2 ^ 64 \<Longrightarrow> dec_size (enc_size 8 n) = n"
  by (simp only: dec_enc_size bytes_of_size mod_less)

lemma read_write_block:
  "length buf < 2 ^ 64 \<Longrightarrow>
   read_block data \<lparr>if_rest = write_block buf @ rest, if_fail = False\<rparr>
     = (buf, \<lparr>if_rest = rest, if_fail = False\<rparr>)"
  unfolding write_block_def append_assoc
  by (rule read_block_full [OF length_enc_size dec_enc_size_8])

lemma image_block:
  assumes "image_ok ser deser x"
  shows "read_block data \<lparr>if_rest = write_block (ser x) @ rest, if_fail = False\<rparr>
           = (ser x, \<lparr>if_rest = rest, if_fail = False\<rparr>)"
    and "read_block data \<lparr>if_rest = write_block (ser x), if_fail = False\<rparr>
           = (ser x, \<lparr>if_rest = [], if_fail = False\<rparr>)"
    and "deser (ser x) = x"
proof -
  have l: "length (ser x) < 2 ^ 64" and "deser (ser x) = x"
    using assms unfolding image_ok_def by blast+
  then show "deser (ser x) = x" by blast
  show "read_block data \<lparr>if_rest = write_block (ser x) @ rest, if_fail = False\<rparr>
          = (ser x, \<lparr>if_rest = rest, if_fail = False\<rparr>)"
    by (rule read_write_block [OF l])
  show "read_block data \<lparr>if_rest = write_block (ser x), if_fail = False\<rparr>
          = (ser x, \<lparr>if_rest = [], if_fail = False\<rparr>)"
    using read_write_block [OF l, of data "[]"] by (simp only: append_Nil2)
qed

end
