(* ===== verification/ManualBidInfo.thy ===== *)
theory ManualBidInfo
  imports ImageFile
begin

text \<open>
  \<open>AdManualBidInfoMgr\<close> (\<open>sponsored-ad-search/AdManualBidInfoMgr.h, .cpp\<close>): the bid
  prices an advertiser sets by hand, per campaign and per ad and phrase, and the daily
  budgets of the campaigns. The two hash maps are partial maps, the inner \<open>std::map\<close>
  from a key to a price is a partial map too (the code never iterates over it). The locks
  around the operations are not modelled: each operation is one atomic step.
\<close>

section \<open>State and operations\<close>

type_synonym bid_info_value = "string \<rightharpoonup> int"

record manual_bid_mgr =
  ad_campaign_budget_list :: "string \<rightharpoonup> int"
  manual_bidprice_list :: "string \<rightharpoonup> bid_info_value"

definition manual_bid_mgr_init :: manual_bid_mgr where
  "manual_bid_mgr_init = \<lparr>ad_campaign_budget_list = Map.empty, manual_bidprice_list = Map.empty\<rparr>"

definition DEFAULT_AD_BUDGET :: int where
  "DEFAULT_AD_BUDGET = 100"

definition getManualKeyForAd :: "nat \<Rightarrow> string \<Rightarrow> string" where
  "getManualKeyForAd adid bidstr = dec adid @ ''-'' @ bidstr"

text \<open>\<open>manual_bidprice_list_[campaign]\<close> creates an empty entry when there is none.\<close>

definition campaign_prices :: "manual_bid_mgr \<Rightarrow> string \<Rightarrow> bid_info_value" where
  "campaign_prices m campaign =
     (case manual_bidprice_list m campaign of None \<Rightarrow> Map.empty | Some v \<Rightarrow> v)"

fun remove_prices :: "nat \<Rightarrow> string list \<Rightarrow> bid_info_value \<Rightarrow> bid_info_value" where
  "remove_prices adid [] v = v"
| "remove_prices adid (k # ks) v = remove_prices adid ks (v(getManualKeyForAd adid k := None))"

definition removeManualBidPrice ::
  "manual_bid_mgr \<Rightarrow> string \<Rightarrow> nat \<Rightarrow> string list \<Rightarrow> manual_bid_mgr" where
  "removeManualBidPrice m campaign adid key_list =
     m\<lparr>manual_bidprice_list := (manual_bidprice_list m)
         (campaign \<mapsto> remove_prices adid key_list (campaign_prices m campaign))\<rparr>"

text \<open>
  The loop of \<open>setManualBidPrice\<close>; \<open>price_list[i]\<close> outside the vector is undefined
  behaviour, here \<open>None\<close>.
\<close>

fun set_prices :: "nat \<Rightarrow> string list \<Rightarrow> int list \<Rightarrow> bid_info_value \<Rightarrow> bid_info_value option" where
  "set_prices adid [] ps v = Some v"
| "set_prices adid (k # ks) [] v = None"
| "set_prices adid (k # ks) (p # ps) v =
     (let key = getManualKeyForAd adid k;
          v1 = v(key \<mapsto> p);
          v2 = (if p = 0 then v1(key := None) else v1)
      in set_prices adid ks ps v2)"

definition setManualBidPrice ::
  "manual_bid_mgr \<Rightarrow> string \<Rightarrow> nat \<Rightarrow> string list \<Rightarrow> int list \<Rightarrow> manual_bid_mgr option" where
  "setManualBidPrice m campaign adid key_list price_list =
     (case set_prices adid key_list price_list (campaign_prices m campaign) of
        None \<Rightarrow> None
      | Some v \<Rightarrow> Some (m\<lparr>manual_bidprice_list := (manual_bidprice_list m)(campaign \<mapsto> v)\<rparr>))"

definition getManualBidPrice :: "manual_bid_mgr \<Rightarrow> string \<Rightarrow> nat \<Rightarrow> string \<Rightarrow> int" where
  "getManualBidPrice m campaign adid bidstr =
     (case manual_bidprice_list m campaign of
        None \<Rightarrow> 0
      | Some v \<Rightarrow> (case v (getManualKeyForAd adid bidstr) of None \<Rightarrow> 0 | Some p \<Rightarrow> p))"

definition hasManualBidPrice :: "manual_bid_mgr \<Rightarrow> string \<Rightarrow> bool" where
  "hasManualBidPrice m campaign =
     (case manual_bidprice_list m campaign of None \<Rightarrow> False | Some v \<Rightarrow> v \<noteq> Map.empty)"

definition getManualBidPriceList :: "manual_bid_mgr \<Rightarrow> string \<Rightarrow> bid_info_value" where
  "getManualBidPriceList m campaign =
     (case manual_bidprice_list m campaign of None \<Rightarrow> Map.empty | Some v \<Rightarrow> v)"

definition setBidBudget :: "manual_bid_mgr \<Rightarrow> string \<Rightarrow> int \<Rightarrow> manual_bid_mgr" where
  "setBidBudget m campaign budget =
     m\<lparr>ad_campaign_budget_list := (ad_campaign_budget_list m)(campaign \<mapsto> budget)\<rparr>"

definition getBidBudget :: "manual_bid_mgr \<Rightarrow> string \<Rightarrow> int" where
  "getBidBudget m campaign =
     (case ad_campaign_budget_list m campaign of None \<Rightarrow> DEFAULT_AD_BUDGET | Some b \<Rightarrow> b)"

text \<open>
  \<open>save()\<close> writes the two maps as two blocks; \<open>load()\<close> reads them back in that order
  and does nothing when the file cannot be opened (\<open>None\<close>). The pairs of functions are
  the serialization library's for the two map types.
\<close>

definition manual_save ::
  "((string \<rightharpoonup> bid_info_value) \<Rightarrow> byte list) \<Rightarrow> ((string \<rightharpoonup> int) \<Rightarrow> byte list) \<Rightarrow>
   manual_bid_mgr \<Rightarrow> byte list" where
  "manual_save ser_p ser_b m =
     write_block (ser_p (manual_bidprice_list m)) @ write_block (ser_b (ad_campaign_budget_list m))"

definition manual_load ::
  "(byte list \<Rightarrow> (string \<rightharpoonup> bid_info_value)) \<Rightarrow> (byte list \<Rightarrow> (string \<rightharpoonup> int)) \<Rightarrow>
   byte list option \<Rightarrow> manual_bid_mgr \<Rightarrow> manual_bid_mgr" where
  "manual_load deser_p deser_b file m =
     (case file of
        None \<Rightarrow> m
      | Some bs \<Rightarrow>
          (let (d1, s1) = read_block [] \<lparr>if_rest = bs, if_fail = False\<rparr>;
               (d2, s2) = read_block d1 s1
           in m\<lparr>manual_bidprice_list := deser_p d1, ad_campaign_budget_list := deser_b d2\<rparr>))"

section \<open>Keys\<close>

text \<open>The decimal ad id contains no separator, so a key determines its ad and its phrase.\<close>

lemma getManualKeyForAd_inject [simp]:
  "getManualKeyForAd a k = getManualKeyForAd a' k' \<longleftrightarrow> a = a' \<and> k = k'"
proof
  assume "getManualKeyForAd a k = getManualKeyForAd a' k'"
  then have "dec a @ CHR ''-'' # k = dec a' @ CHR ''-'' # k'"
    by (simp add: getManualKeyForAd_def)
  then have "dec a = dec a' \<and> k = k'"
    by (rule split_at_sep [OF dec_not_minus dec_not_minus])
  then show "a = a' \<and> k = k'" by (auto dest: dec_inject)
qed auto

section \<open>Prices\<close>

lemma getManualBidPrice_prices:
  "getManualBidPrice m c a k =
     (case campaign_prices m c (getManualKeyForAd a k) of None \<Rightarrow> 0 | Some p \<Rightarrow> p)"
  by (simp add: getManualBidPrice_def campaign_prices_def split: option.splits)

lemma campaign_prices_upd [simp]:
  "campaign_prices (m\<lparr>manual_bidprice_list := (manual_bidprice_list m)(c \<mapsto> v)\<rparr>) c' =
     (if c' = c then v else campaign_prices m c')"
  by (simp add: campaign_prices_def)

lemma set_prices_defined: "set_prices a ks ps v \<noteq> None \<longleftrightarrow> length ks \<le> length ps"
  by (induction a ks ps v rule: set_prices.induct) (simp_all add: Let_def)

lemma remove_prices_at:
  "remove_prices a ks v (getManualKeyForAd a' k') =
     (if a' = a \<and> k' \<in> set ks then None else v (getManualKeyForAd a' k'))"
  by (induction ks arbitrary: v) auto

lemma set_prices_at:
  assumes "set_prices a ks ps v = Some v'"
  shows "(case v' (getManualKeyForAd a' k') of None \<Rightarrow> 0 | Some p \<Rightarrow> p) =
     (case (if a' = a then map_of (rev (zip ks ps)) k' else None) of
        Some p \<Rightarrow> p
      | None \<Rightarrow> (case v (getManualKeyForAd a' k') of None \<Rightarrow> 0 | Some p \<Rightarrow> p))"
  using assms
proof (induction a ks ps v arbitrary: v' rule: set_prices.induct)
  case (3 a k ks p ps v)
  then show ?case
    by (cases "a' = a"; cases "map_of (rev (zip ks ps)) k'")
       (auto simp: Let_def map_add_def split: if_splits option.splits)
qed simp_all

text \<open>A stored price is never 0: \<open>hasManualBidPrice\<close> means that some price is set.\<close>

definition manual_ok :: "manual_bid_mgr \<Rightarrow> bool" where
  "manual_ok m \<longleftrightarrow> (\<forall>c. \<forall>p \<in> ran (campaign_prices m c). p \<noteq> 0)"

lemma ran_remove_prices: "ran (remove_prices a ks v) \<subseteq> ran v"
proof (induction ks arbitrary: v)
  case (Cons k ks)
  have "ran (v(getManualKeyForAd a k := None)) \<subseteq> ran v" by (auto simp: ran_def)
  with Cons show ?case by fastforce
qed simp

lemma ran_set_prices:
  "set_prices a ks ps v = Some v' \<Longrightarrow> 0 \<notin> ran v \<Longrightarrow> 0 \<notin> ran v'"
proof (induction a ks ps v arbitrary: v' rule: set_prices.induct)
  case (3 a k ks p ps v)
  let ?key = "getManualKeyForAd a k"
  have "0 \<notin> ran (if p = 0 then (v(?key \<mapsto> p))(?key := None) else v(?key \<mapsto> p))"
    using "3.prems"(2) by (auto simp: ran_def)
  then show ?case
    using "3.IH" [OF refl refl refl] "3.prems"(1) by (simp add: Let_def)
qed simp_all

lemma manual_ok_iff: "manual_ok m \<longleftrightarrow> (\<forall>c. 0 \<notin> ran (campaign_prices m c))"
  by (auto simp: manual_ok_def)

lemma manual_ok_init: "manual_ok manual_bid_mgr_init"
  by (simp add: manual_ok_iff manual_bid_mgr_init_def campaign_prices_def)

lemma manual_ok_set:
  "manual_ok m \<Longrightarrow> setManualBidPrice m c a ks ps = Some m' \<Longrightarrow> manual_ok m'"
  using ran_set_prices by (auto simp: manual_ok_iff setManualBidPrice_def split: option.splits if_splits)

lemma manual_ok_remove: "manual_ok m \<Longrightarrow> manual_ok (removeManualBidPrice m c a ks)"
  using ran_remove_prices by (fastforce simp: manual_ok_iff removeManualBidPrice_def)

lemma manual_ok_budget: "manual_ok m \<Longrightarrow> manual_ok (setBidBudget m c b)"
  by (simp add: manual_ok_iff setBidBudget_def campaign_prices_def)

section \<open>Properties\<close>

text \<open>
  After a successful \<open>setManualBidPrice\<close> the price of a phrase of that ad in that
  campaign is the last price the call gives for it (0 when the call withdraws it), and the
  price of every other phrase, ad and campaign is what it was. The call reads outside
  \<open>price_list\<close> exactly when there are more keys than prices.
\<close>

lemma manual_price_after_set:
  "(setManualBidPrice m c a ks ps = None \<longleftrightarrow> length ps < length ks) \<and>
   (setManualBidPrice m c a ks ps = Some m' \<longrightarrow>
      getManualBidPrice m' c' a' k' =
        (case (if c' = c \<and> a' = a then map_of (rev (zip ks ps)) k' else None) of
           Some p \<Rightarrow> p
         | None \<Rightarrow> getManualBidPrice m c' a' k'))"
proof
  show "setManualBidPrice m c a ks ps = None \<longleftrightarrow> length ps < length ks"
    using set_prices_defined [of a ks ps "campaign_prices m c"]
    by (auto simp: setManualBidPrice_def split: option.splits)
  show "setManualBidPrice m c a ks ps = Some m' \<longrightarrow>
      getManualBidPrice m' c' a' k' =
        (case (if c' = c \<and> a' = a then map_of (rev (zip ks ps)) k' else None) of
           Some p \<Rightarrow> p
         | None \<Rightarrow> getManualBidPrice m c' a' k')"
  proof
    assume "setManualBidPrice m c a ks ps = Some m'"
    then obtain v' where v': "set_prices a ks ps (campaign_prices m c) = Some v'"
      and m': "m' = m\<lparr>manual_bidprice_list := (manual_bidprice_list m)(c \<mapsto> v')\<rparr>"
      by (auto simp: setManualBidPrice_def split: option.splits)
    show "getManualBidPrice m' c' a' k' =
        (case (if c' = c \<and> a' = a then map_of (rev (zip ks ps)) k' else None) of
           Some p \<Rightarrow> p
         | None \<Rightarrow> getManualBidPrice m c' a' k')"
      using set_prices_at [OF v', of a' k'] 
      by (auto simp: getManualBidPrice_prices m' cong: option.case_cong)
  qed
qed

text \<open>
  \<open>removeManualBidPrice\<close> withdraws the prices of exactly the listed phrases of one ad
  in one campaign: they read 0 afterwards and every other price is unchanged.
\<close>

lemma manual_price_after_remove:
  "getManualBidPrice (removeManualBidPrice m c a ks) c' a' k' =
     (if c' = c \<and> a' = a \<and> k' \<in> set ks then 0 else getManualBidPrice m c' a' k')"
  by (simp add: getManualBidPrice_prices removeManualBidPrice_def remove_prices_at)

text \<open>
  No operation ever leaves a price of 0 in the table, so \<open>hasManualBidPrice\<close> is true of
  a campaign exactly when some key of it has a price different from 0: a campaign whose
  prices have all been withdrawn goes back to automatic bidding.
\<close>

lemma manual_ok_preserved:
  "manual_ok manual_bid_mgr_init \<and>
   (manual_ok m \<longrightarrow>
      (\<forall>c a ks ps m'. setManualBidPrice m c a ks ps = Some m' \<longrightarrow> manual_ok m') \<and>
      (\<forall>c a ks. manual_ok (removeManualBidPrice m c a ks)) \<and>
      (\<forall>c b. manual_ok (setBidBudget m c b)) \<and>
      (\<forall>c. hasManualBidPrice m c \<longleftrightarrow> (\<exists>key p. getManualBidPriceList m c key = Some p \<and> p \<noteq> 0)))"
proof -
  have "hasManualBidPrice m c \<longleftrightarrow> (\<exists>key p. getManualBidPriceList m c key = Some p \<and> p \<noteq> 0)"
    if "manual_ok m" for c
    using that by (force simp: manual_ok_iff hasManualBidPrice_def getManualBidPriceList_def
        campaign_prices_def ran_def fun_eq_iff split: option.splits)
  then show ?thesis
    using manual_ok_init manual_ok_set manual_ok_remove manual_ok_budget by blast
qed

text \<open>
  \<open>load()\<close> reads back what \<open>save()\<close> wrote: whatever the state of the manager that
  loads, it ends with the prices and budgets that were saved.
\<close>

lemma manual_load_save:
  assumes "image_ok ser_p deser_p (manual_bidprice_list m)"
    and "image_ok ser_b deser_b (ad_campaign_budget_list m)"
  shows "manual_load deser_p deser_b (Some (manual_save ser_p ser_b m)) m0 = m"
  using image_block [OF assms(1)] image_block [OF assms(2)]
  by (simp add: manual_load_def manual_save_def)

end
