(* ===== verification/AuctionLog.thy ===== *)
theory AuctionLog
  imports ImageFile
begin

text \<open>
  \<open>AdAuctionLogMgr\<close> (\<open>sponsored-ad-search/AdAuctionLogMgr.h, .cpp\<close>), the part that records:
  hourly statistics of impressions and clicks per ad, per bid keyword and globally, and the
  48-hour history that is merged from them when a new hour begins. The hash maps and the
  \<open>std::map\<close>s from an hour to its data are partial maps, the cost maps are histograms.

  Every operation reads the clock; the model passes one broken-down UTC time (\<open>tm\<close>, what
  \<open>gmtime_r\<close> returns) to an operation, so an operation runs within one hour. The mutexes
  make each operation on a key one atomic step and are not modelled.
\<close>

section \<open>Time\<close>

record tm =
  tm_year :: int
  tm_yday :: int
  tm_hour :: int

definition HISTORY_HOURS :: nat where "HISTORY_HOURS = 48"
definition HOURS_OF_DAY :: int where "HOURS_OF_DAY = 24"
definition MAX_AD_SLOT :: nat where "MAX_AD_SLOT = 20"

definition gettimestr :: "tm \<Rightarrow> int \<Rightarrow> string" where
  "gettimestr now hours =
     (let h = tm_hour now + hours;
          (h1, yd1) = (if h < 0 then (h + HOURS_OF_DAY, tm_yday now - 1)
                       else if h \<ge> HOURS_OF_DAY then (h - HOURS_OF_DAY, tm_yday now + 1)
                       else (h, tm_yday now));
          (yr, yd2) = (if yd1 < 0 then (tm_year now - 1, yd1 + 365)
                       else if yd1 > 365 then (tm_year now + 1, yd1 - 365)
                       else (tm_year now, yd1))
      in dec_int yr @ dec_int yd2 @ dec_int h1)"

definition getCurrentDayBegin :: "tm \<Rightarrow> int" where
  "getCurrentDayBegin now = 0 - tm_hour now"

definition getCurrentDayEnd :: "tm \<Rightarrow> int" where
  "getCurrentDayEnd now = HOURS_OF_DAY - tm_hour now"

text \<open>What \<open>gmtime_r\<close> returns for the years in question.\<close>

definition tm_ok :: "tm \<Rightarrow> bool" where
  "tm_ok now \<longleftrightarrow> 0 < tm_year now \<and> 0 \<le> tm_yday now \<and> tm_yday now \<le> 365 \<and>
     0 \<le> tm_hour now \<and> tm_hour now < 24"

section \<open>State\<close>

record ad_view_slot =
  impression_num :: int
  click_num :: int
  keyword_cpc :: histogram

definition ad_view_slot0 :: ad_view_slot where
  "ad_view_slot0 = \<lparr>impression_num = 0, click_num = 0, keyword_cpc = []\<rparr>"

type_synonym ad_view_info = "ad_view_slot list"
type_synonym ad_view_periods = "string \<rightharpoonup> ad_view_info"

record keyword_view_slot =
  kw_click_num :: int
  cost_list :: histogram

definition keyword_view_slot0 :: keyword_view_slot where
  "keyword_view_slot0 = \<lparr>kw_click_num = 0, cost_list = []\<rparr>"

record keyword_view_info =
  searched_num :: int
  view_info :: "keyword_view_slot list"

definition keyword_view_info0 :: keyword_view_info where
  "keyword_view_info0 = \<lparr>searched_num = 0, view_info = []\<rparr>"

type_synonym keyword_view_periods = "string \<rightharpoonup> keyword_view_info"
type_synonym global_info = "int list"

record auction_log =
  ad_stat_data :: "string \<rightharpoonup> ad_view_periods"
  keyword_stat_data :: "string \<rightharpoonup> keyword_view_periods"
  global_stat_data :: "string \<rightharpoonup> global_info"
  ad_history_stat_data :: "string \<rightharpoonup> ad_view_info"
  keyword_history_stat_data :: "string \<rightharpoonup> keyword_view_info"
  global_history_stat_data :: global_info

definition auction_log_init :: auction_log where
  "auction_log_init = \<lparr>ad_stat_data = Map.empty, keyword_stat_data = Map.empty,
     global_stat_data = Map.empty, ad_history_stat_data = Map.empty,
     keyword_history_stat_data = Map.empty, global_history_stat_data = []\<rparr>"

text \<open>\<open>m[k]\<close> of a C++ map of maps: the entry, default-constructed when absent.\<close>

definition entry :: "'v \<Rightarrow> ('k \<rightharpoonup> 'v) \<Rightarrow> 'k \<Rightarrow> 'v" where
  "entry d m k = (case m k of None \<Rightarrow> d | Some v \<Rightarrow> v)"

section \<open>Merging the history\<close>

text \<open>
  The loop \<open>for (slot = 0; slot < a.size(); ++slot) h[slot] op= a[slot]\<close> after
  \<open>h\<close> has been grown to the size of \<open>a\<close>.
\<close>

fun merge_slots :: "('a \<Rightarrow> 'a \<Rightarrow> 'a) \<Rightarrow> 'a list \<Rightarrow> 'a list \<Rightarrow> 'a list" where
  "merge_slots f hs [] = hs"
| "merge_slots f [] (a # as) = []"
| "merge_slots f (h # hs) (a # as) = f h a # merge_slots f hs as"

definition merge_hist :: "histogram \<Rightarrow> histogram \<Rightarrow> histogram" where
  "merge_hist h a = fold (\<lambda>(c, n). hist_add c n) a h"

definition merge_ad_slot :: "ad_view_slot \<Rightarrow> ad_view_slot \<Rightarrow> ad_view_slot" where
  "merge_ad_slot h a = \<lparr>impression_num = impression_num h + impression_num a,
     click_num = click_num h + click_num a,
     keyword_cpc = merge_hist (keyword_cpc h) (keyword_cpc a)\<rparr>"

definition merge_keyword_slot :: "keyword_view_slot \<Rightarrow> keyword_view_slot \<Rightarrow> keyword_view_slot" where
  "merge_keyword_slot h a = \<lparr>kw_click_num = kw_click_num h + kw_click_num a,
     cost_list = merge_hist (cost_list h) (cost_list a)\<rparr>"

definition merge_ad_view :: "ad_view_info \<Rightarrow> ad_view_info \<Rightarrow> ad_view_info" where
  "merge_ad_view h a = merge_slots merge_ad_slot (grow (length a) ad_view_slot0 h) a"

definition merge_keyword_view :: "keyword_view_info \<Rightarrow> keyword_view_info \<Rightarrow> keyword_view_info" where
  "merge_keyword_view h a = \<lparr>searched_num = searched_num h + searched_num a,
     view_info = merge_slots merge_keyword_slot
       (grow (length (view_info a)) keyword_view_slot0 (view_info h)) (view_info a)\<rparr>"

definition merge_global :: "global_info \<Rightarrow> global_info \<Rightarrow> global_info" where
  "merge_global h a = merge_slots (+) (grow (length a) 0 h) a"

text \<open>The loop over the past hours that the three history updates share.\<close>

definition merge_history :: "('v \<Rightarrow> 'v \<Rightarrow> 'v) \<Rightarrow> 'v \<Rightarrow> tm \<Rightarrow> (string \<rightharpoonup> 'v) \<Rightarrow> 'v" where
  "merge_history merge v0 now periods =
     fold (\<lambda>i h. case periods (gettimestr now (- int i)) of None \<Rightarrow> h | Some v \<Rightarrow> merge h v)
       [1..<HISTORY_HOURS + 1] v0"

definition updateHistoryGlobalLogData :: "tm \<Rightarrow> auction_log \<Rightarrow> auction_log" where
  "updateHistoryGlobalLogData now lg =
     lg\<lparr>global_history_stat_data := merge_history merge_global [] now (global_stat_data lg)\<rparr>"

definition updateHistoryAdLogData :: "tm \<Rightarrow> string \<Rightarrow> ad_view_periods \<Rightarrow> auction_log \<Rightarrow> auction_log" where
  "updateHistoryAdLogData now adid ad_period_info lg =
     lg\<lparr>ad_history_stat_data := (ad_history_stat_data lg)
       (adid \<mapsto> merge_history merge_ad_view [] now ad_period_info)\<rparr>"

definition updateHistoryKeywordLogData ::
  "tm \<Rightarrow> string \<Rightarrow> keyword_view_periods \<Rightarrow> auction_log \<Rightarrow> auction_log" where
  "updateHistoryKeywordLogData now kid keyword_period_info lg =
     lg\<lparr>keyword_history_stat_data := (keyword_history_stat_data lg)
       (kid \<mapsto> merge_history merge_keyword_view keyword_view_info0 now keyword_period_info)\<rparr>"

section \<open>Recording impressions\<close>

text \<open>
  The beginning of every update of an ad: look the ad up, merge its history when the
  current hour has no data yet, return the data of the current hour.
\<close>

definition open_ad_period :: "tm \<Rightarrow> string \<Rightarrow> auction_log \<Rightarrow> auction_log \<times> ad_view_info" where
  "open_ad_period now ad_id lg =
     (let ad_stat = entry Map.empty (ad_stat_data lg) ad_id;
          t = gettimestr now 0;
          lg1 = (if ad_stat t = None then updateHistoryAdLogData now ad_id ad_stat lg else lg)
      in (lg1, entry [] ad_stat t))"

definition store_ad_period :: "tm \<Rightarrow> string \<Rightarrow> ad_view_info \<Rightarrow> auction_log \<Rightarrow> auction_log" where
  "store_ad_period now ad_id v lg =
     lg\<lparr>ad_stat_data := (ad_stat_data lg)(ad_id \<mapsto>
       (entry Map.empty (ad_stat_data lg) ad_id)(gettimestr now 0 \<mapsto> v))\<rparr>"

definition open_keyword_period :: "tm \<Rightarrow> string \<Rightarrow> auction_log \<Rightarrow> auction_log \<times> keyword_view_info" where
  "open_keyword_period now kid lg =
     (let key_stat = entry Map.empty (keyword_stat_data lg) kid;
          t = gettimestr now 0;
          lg1 = (if key_stat t = None then updateHistoryKeywordLogData now kid key_stat lg else lg)
      in (lg1, entry keyword_view_info0 key_stat t))"

definition store_keyword_period :: "tm \<Rightarrow> string \<Rightarrow> keyword_view_info \<Rightarrow> auction_log \<Rightarrow> auction_log" where
  "store_keyword_period now kid v lg =
     lg\<lparr>keyword_stat_data := (keyword_stat_data lg)(kid \<mapsto>
       (entry Map.empty (keyword_stat_data lg) kid)(gettimestr now 0 \<mapsto> v))\<rparr>"

definition impress_ad_view :: "nat \<Rightarrow> ad_view_info \<Rightarrow> ad_view_info" where
  "impress_ad_view slot v =
     (let v1 = grow (slot + 1) ad_view_slot0 v; s = v1 ! slot
      in v1[slot := s\<lparr>impression_num := impression_num s + 1\<rparr>])"

text \<open>
  The loops of \<open>updateAdSearchStat\<close>. The first returns from the whole operation when a
  slot is out of range, which the flag records.
\<close>

fun search_stat_ads :: "tm \<Rightarrow> nat \<Rightarrow> string list \<Rightarrow> auction_log \<Rightarrow> auction_log \<times> bool" where
  "search_stat_ads now slot [] lg = (lg, True)"
| "search_stat_ads now slot (ad_id # ads) lg =
     (let (lg1, v) = open_ad_period now ad_id lg
      in if slot > MAX_AD_SLOT then (store_ad_period now ad_id v lg1, False)
         else search_stat_ads now (Suc slot) ads
                (store_ad_period now ad_id (impress_ad_view slot v) lg1))"

fun search_stat_keywords :: "tm \<Rightarrow> string list \<Rightarrow> auction_log \<Rightarrow> auction_log" where
  "search_stat_keywords now [] lg = lg"
| "search_stat_keywords now (k # ks) lg =
     (let (lg1, v) = open_keyword_period now k lg
      in search_stat_keywords now ks
           (store_keyword_period now k (v\<lparr>searched_num := searched_num v + 1\<rparr>) lg1))"

text \<open>\<open>keyword_list\<close> is the \<open>std::set\<close> in iteration order.\<close>

definition updateAdSearchStat :: "tm \<Rightarrow> string list \<Rightarrow> string list \<Rightarrow> auction_log \<Rightarrow> auction_log" where
  "updateAdSearchStat now keyword_list ranked_ad_list lg =
     (case search_stat_ads now 0 ranked_ad_list lg of
        (lg1, ok) \<Rightarrow> if ok then search_stat_keywords now keyword_list lg1 else lg1)"

section \<open>Recording clicks\<close>

definition click_ad_view :: "int \<Rightarrow> nat \<Rightarrow> ad_view_info \<Rightarrow> ad_view_info" where
  "click_ad_view cost slot v =
     (let v1 = grow (slot + 1) ad_view_slot0 v; s = v1 ! slot
      in v1[slot := s\<lparr>click_num := click_num s + 1,
                      keyword_cpc := hist_add cost 1 (keyword_cpc s)\<rparr>])"

definition click_keyword_view :: "int \<Rightarrow> nat \<Rightarrow> keyword_view_info \<Rightarrow> keyword_view_info" where
  "click_keyword_view cost slot v =
     (let vs = resize (slot + 1) keyword_view_slot0 (view_info v); s = vs ! slot
      in v\<lparr>view_info := vs[slot := s\<lparr>kw_click_num := kw_click_num s + 1,
                                   cost_list := hist_add cost 1 (cost_list s)\<rparr>]\<rparr>)"

definition click_global :: "tm \<Rightarrow> nat \<Rightarrow> auction_log \<Rightarrow> auction_log" where
  "click_global now slot lg =
     (let t = gettimestr now 0;
          lg1 = (if global_stat_data lg t = None then updateHistoryGlobalLogData now lg else lg);
          g = resize (slot + 1) 0 (entry [] (global_stat_data lg1) t)
      in lg1\<lparr>global_stat_data := (global_stat_data lg1)(t \<mapsto> g[slot := g ! slot + 1])\<rparr>)"

definition updateAuctionLogData ::
  "tm \<Rightarrow> string \<Rightarrow> string \<Rightarrow> int \<Rightarrow> nat \<Rightarrow> auction_log \<Rightarrow> auction_log" where
  "updateAuctionLogData now ad_id keyword_str click_cost_in_fen click_slot lg =
     (let (lg1, v) = open_ad_period now ad_id lg
      in if click_slot > MAX_AD_SLOT then store_ad_period now ad_id v lg1
         else
           let lg2 = store_ad_period now ad_id (click_ad_view click_cost_in_fen click_slot v) lg1;
               (lg3, kv) = open_keyword_period now keyword_str lg2;
               lg4 = store_keyword_period now keyword_str
                        (click_keyword_view click_cost_in_fen click_slot kv) lg3
           in click_global now click_slot lg4)"

section \<open>Saving and loading\<close>

text \<open>
  \<open>save()\<close> writes the three hourly tables, \<open>load()\<close> reads them back; the history tables
  are not part of the file. (The rehashing at the end of \<open>load()\<close> does not change what a
  table holds.)
\<close>

definition auction_save ::
  "((string \<rightharpoonup> ad_view_periods) \<Rightarrow> byte list) \<Rightarrow> ((string \<rightharpoonup> keyword_view_periods) \<Rightarrow> byte list) \<Rightarrow>
   ((string \<rightharpoonup> global_info) \<Rightarrow> byte list) \<Rightarrow> auction_log \<Rightarrow> byte list" where
  "auction_save ser_a ser_k ser_g lg =
     write_block (ser_a (ad_stat_data lg)) @ write_block (ser_k (keyword_stat_data lg)) @
     write_block (ser_g (global_stat_data lg))"

definition auction_load ::
  "(byte list \<Rightarrow> (string \<rightharpoonup> ad_view_periods)) \<Rightarrow> (byte list \<Rightarrow> (string \<rightharpoonup> keyword_view_periods)) \<Rightarrow>
   (byte list \<Rightarrow> (string \<rightharpoonup> global_info)) \<Rightarrow> byte list option \<Rightarrow> auction_log \<Rightarrow> auction_log" where
  "auction_load deser_a deser_k deser_g file lg =
     (case file of
        None \<Rightarrow> lg
      | Some bs \<Rightarrow>
          (let (d1, s1) = read_block [] \<lparr>if_rest = bs, if_fail = False\<rparr>;
               (d2, s2) = read_block d1 s1;
               (d3, s3) = read_block d2 s2
           in lg\<lparr>ad_stat_data := deser_a d1, keyword_stat_data := deser_k d2,
                  global_stat_data := deser_g d3\<rparr>))"

section \<open>Observations\<close>

definition ad_period :: "auction_log \<Rightarrow> string \<Rightarrow> string \<Rightarrow> ad_view_info" where
  "ad_period lg ad_id t = entry [] (entry Map.empty (ad_stat_data lg) ad_id) t"

definition keyword_period :: "auction_log \<Rightarrow> string \<Rightarrow> string \<Rightarrow> keyword_view_info" where
  "keyword_period lg kid t = entry keyword_view_info0 (entry Map.empty (keyword_stat_data lg) kid) t"

definition global_period :: "auction_log \<Rightarrow> string \<Rightarrow> global_info" where
  "global_period lg t = entry [] (global_stat_data lg) t"

text \<open>A quantity of one slot, 0 for a slot that has no data.\<close>

definition at_slot :: "('s \<Rightarrow> int) \<Rightarrow> 's list \<Rightarrow> nat \<Rightarrow> int" where
  "at_slot f xs i = (if i < length xs then f (xs ! i) else 0)"

section \<open>Well-formed statistics\<close>

text \<open>
  Every slot's click counter is the number of clicks in its cost histogram, counters are
  not negative and no table has more than \<open>MAX_AD_SLOT + 1\<close> slots.
\<close>

definition ad_slot_ok :: "ad_view_slot \<Rightarrow> bool" where
  "ad_slot_ok s \<longleftrightarrow> hist_ok (keyword_cpc s) \<and> click_num s = hist_num (keyword_cpc s) \<and>
     0 \<le> impression_num s"

definition ad_view_ok :: "ad_view_info \<Rightarrow> bool" where
  "ad_view_ok v \<longleftrightarrow> length v \<le> MAX_AD_SLOT + 1 \<and> list_all ad_slot_ok v"

definition keyword_slot_ok :: "keyword_view_slot \<Rightarrow> bool" where
  "keyword_slot_ok s \<longleftrightarrow> hist_ok (cost_list s) \<and> kw_click_num s = hist_num (cost_list s)"

definition keyword_view_ok :: "keyword_view_info \<Rightarrow> bool" where
  "keyword_view_ok v \<longleftrightarrow> 0 \<le> searched_num v \<and> length (view_info v) \<le> MAX_AD_SLOT + 1 \<and>
     list_all keyword_slot_ok (view_info v)"

definition global_ok :: "global_info \<Rightarrow> bool" where
  "global_ok g \<longleftrightarrow> length g \<le> MAX_AD_SLOT + 1 \<and> list_all (\<lambda>n. 0 \<le> n) g"

definition auction_ok :: "auction_log \<Rightarrow> bool" where
  "auction_ok lg \<longleftrightarrow>
     (\<forall>ps \<in> ran (ad_stat_data lg). \<forall>v \<in> ran ps. ad_view_ok v) \<and>
     (\<forall>ps \<in> ran (keyword_stat_data lg). \<forall>v \<in> ran ps. keyword_view_ok v) \<and>
     (\<forall>v \<in> ran (global_stat_data lg). global_ok v) \<and>
     (\<forall>v \<in> ran (ad_history_stat_data lg). ad_view_ok v) \<and>
     (\<forall>v \<in> ran (keyword_history_stat_data lg). keyword_view_ok v) \<and>
     global_ok (global_history_stat_data lg)"

section \<open>Hour names\<close>

lemma dec_int_nonneg: "0 \<le> i \<Longrightarrow> CHR ''-'' \<notin> set (dec_int i)"
  using dec_not_minus by (simp add: dec_int_def)

lemma dec_int_neg: "i < 0 \<Longrightarrow> CHR ''-'' \<in> set (dec_int i)"
  by (simp add: dec_int_def)

lemma gettimestr_now: "tm_ok now \<Longrightarrow> CHR ''-'' \<notin> set (gettimestr now 0)"
  by (simp add: gettimestr_def tm_ok_def Let_def HOURS_OF_DAY_def dec_int_nonneg)

lemma gettimestr_far:
  "tm_ok now \<Longrightarrow> tm_hour now + 24 < i \<Longrightarrow> CHR ''-'' \<in> set (gettimestr now (- i))"
  by (simp add: gettimestr_def tm_ok_def Let_def HOURS_OF_DAY_def dec_int_neg)

lemma gettimestr_far_neq:
  "tm_ok now \<Longrightarrow> tm_hour now + 24 < i \<Longrightarrow> tm_ok now' \<Longrightarrow> gettimestr now (- i) \<noteq> gettimestr now' 0"
  using gettimestr_far gettimestr_now by metis

section \<open>Slots\<close>

lemma at_slot_Nil [simp]: "at_slot f [] i = 0"
  by (simp add: at_slot_def)

lemma at_slot_Cons [simp]: "at_slot f (x # xs) 0 = f x" "at_slot f (x # xs) (Suc i) = at_slot f xs i"
  by (simp_all add: at_slot_def)

lemma at_slot_grow [vec_simps]: "f d = 0 \<Longrightarrow> at_slot f (grow n d xs) i = at_slot f xs i"
  by (auto simp: at_slot_def nth_grow)

lemma at_slot_resize [vec_simps]:
  "f d = 0 \<Longrightarrow> at_slot f (resize n d xs) i = (if i < n then at_slot f xs i else 0)"
  by (auto simp: at_slot_def nth_resize)

lemma at_slot_upd [vec_simps]:
  "j < length xs \<Longrightarrow> at_slot f (xs[j := s]) i = (if i = j then f s else at_slot f xs i)"
  by (simp add: at_slot_def)

lemma at_slot_nth: "f d = 0 \<Longrightarrow> i < n \<Longrightarrow> f (grow n d xs ! i) = at_slot f xs i"
  by (auto simp: at_slot_def nth_grow)

lemma length_merge_slots: "length a \<le> length h \<Longrightarrow> length (merge_slots f h a) = length h"
  by (induction f h a rule: merge_slots.induct) auto

lemma at_slot_merge_slots:
  assumes "\<And>h a. g (f h a) = g h + g a" and "length as \<le> length hs"
  shows "at_slot g (merge_slots f hs as) i = at_slot g hs i + at_slot g as i"
  using assms
proof (induction f hs as arbitrary: i rule: merge_slots.induct)
  case (3 f h hs a as)
  then show ?case by (cases i) simp_all
qed simp_all

lemma list_all_merge_slots:
  "(\<And>h a. P h \<Longrightarrow> P a \<Longrightarrow> P (f h a)) \<Longrightarrow> list_all P hs \<Longrightarrow> list_all P as \<Longrightarrow>
   list_all P (merge_slots f hs as)"
  by (induction f hs as rule: merge_slots.induct) auto

lemma list_all_grow: "P d \<Longrightarrow> list_all P xs \<Longrightarrow> list_all P (grow n d xs)"
  by (auto simp: grow_append list_all_iff)

lemma list_all_resize: "P d \<Longrightarrow> list_all P xs \<Longrightarrow> list_all P (resize n d xs)"
  by (auto simp: list_all_iff dest: set_resize [THEN subsetD])

lemma list_all_upd: "list_all P xs \<Longrightarrow> P x \<Longrightarrow> list_all P (xs[i := x])"
  by (auto simp: list_all_iff dest: set_update_subset_insert [THEN subsetD])

lemma list_all_nth_grow:
  "P d \<Longrightarrow> list_all P xs \<Longrightarrow> i < n \<Longrightarrow> P (grow n d xs ! i)"
  by (simp add: nth_grow list_all_length)

lemma list_all_nth_resize:
  "P d \<Longrightarrow> list_all P xs \<Longrightarrow> i < n \<Longrightarrow> P (resize n d xs ! i)"
  by (simp add: nth_resize list_all_length)

lemma merge_hist_num [hist_simps]: "hist_num (merge_hist h a) = hist_num h + hist_num a"
  unfolding merge_hist_def by (induction a arbitrary: h) (auto simp: hist_simps)

lemma merge_hist_cost [hist_simps]: "hist_cost (merge_hist h a) = hist_cost h + hist_cost a"
  unfolding merge_hist_def by (induction a arbitrary: h) (auto simp: hist_simps)

lemma merge_hist_ok: "hist_ok h \<Longrightarrow> hist_ok a \<Longrightarrow> hist_ok (merge_hist h a)"
  unfolding merge_hist_def
  by (induction a arbitrary: h) (auto simp: hist_ok_Cons hist_ok_add)

section \<open>The history loop\<close>

text \<open>
  What the three histories have in common: the merge keeps a well-formedness predicate, and
  quantities that the merge adds up are summed over the hours.
\<close>

locale hourly_stat =
  fixes merge :: "'v \<Rightarrow> 'v \<Rightarrow> 'v" and v0 :: 'v and ok :: "'v \<Rightarrow> bool"
  assumes ok_v0: "ok v0"
    and ok_merge: "ok h \<Longrightarrow> ok v \<Longrightarrow> ok (merge h v)"
begin

lemma ok_fold:
  assumes "\<forall>v \<in> ran periods. ok v" and "ok h"
  shows "ok (fold (\<lambda>i h. case periods (gettimestr now (- int i)) of None \<Rightarrow> h | Some v \<Rightarrow> merge h v) is h)"
  using assms(2)
  by (induction "is" arbitrary: h) (use assms(1) in \<open>auto split: option.splits intro: ok_merge ranI\<close>)

lemma ok_history: "\<forall>v \<in> ran periods. ok v \<Longrightarrow> ok (merge_history merge v0 now periods)"
  unfolding merge_history_def by (rule ok_fold [OF _ ok_v0])

end

locale hourly_measure =
  fixes merge :: "'v \<Rightarrow> 'v \<Rightarrow> 'v" and v0 :: 'v and M :: "'v \<Rightarrow> int"
  assumes measure_v0: "M v0 = 0"
    and measure_merge: "M (merge h v) = M h + M v"
begin

lemma measure_fold:
  "M (fold (\<lambda>i h. case periods (gettimestr now (- int i)) of None \<Rightarrow> h | Some v \<Rightarrow> merge h v) is h) =
     M h + sum_list (map (\<lambda>i. case periods (gettimestr now (- int i)) of None \<Rightarrow> 0 | Some v \<Rightarrow> M v) is)"
  by (induction "is" arbitrary: h) (auto simp: measure_merge split: option.splits)

lemma measure_history:
  "M (merge_history merge v0 now periods) =
     (\<Sum>i \<in> {1..HISTORY_HOURS}. case periods (gettimestr now (- int i)) of None \<Rightarrow> 0 | Some v \<Rightarrow> M v)"
proof -
  have "set [1..<HISTORY_HOURS + 1] = {1..HISTORY_HOURS}" by auto
  then show ?thesis
    unfolding merge_history_def measure_fold measure_v0
    by (subst sum_list_distinct_conv_sum_set) simp_all
qed

end

lemma ad_slot0_ok: "ad_slot_ok ad_view_slot0"
  by (simp add: ad_slot_ok_def ad_view_slot0_def)

lemma keyword_slot0_ok: "keyword_slot_ok keyword_view_slot0"
  by (simp add: keyword_slot_ok_def keyword_view_slot0_def)

lemma merge_ad_slot_ok: "ad_slot_ok h \<Longrightarrow> ad_slot_ok a \<Longrightarrow> ad_slot_ok (merge_ad_slot h a)"
  by (simp add: ad_slot_ok_def merge_ad_slot_def hist_simps merge_hist_ok)

lemma merge_keyword_slot_ok:
  "keyword_slot_ok h \<Longrightarrow> keyword_slot_ok a \<Longrightarrow> keyword_slot_ok (merge_keyword_slot h a)"
  by (simp add: keyword_slot_ok_def merge_keyword_slot_def hist_simps merge_hist_ok)

interpretation ad_hour: hourly_stat merge_ad_view "[]" ad_view_ok
  by unfold_locales
    (simp_all add: ad_view_ok_def merge_ad_view_def length_merge_slots list_all_merge_slots
      list_all_grow ad_slot0_ok merge_ad_slot_ok)

interpretation keyword_hour: hourly_stat merge_keyword_view keyword_view_info0 keyword_view_ok
  by unfold_locales
    (simp_all add: keyword_view_ok_def merge_keyword_view_def keyword_view_info0_def length_merge_slots
      list_all_merge_slots list_all_grow keyword_slot0_ok merge_keyword_slot_ok)

interpretation global_hour: hourly_stat merge_global "[]" global_ok
  by unfold_locales
    (simp_all add: global_ok_def merge_global_def length_merge_slots list_all_merge_slots list_all_grow)

lemma at_slot_merge_ad:
  "g ad_view_slot0 = 0 \<Longrightarrow> (\<And>h a. g (merge_ad_slot h a) = g h + g a) \<Longrightarrow>
   at_slot g (merge_ad_view h a) i = at_slot g h i + at_slot g a i"
  by (simp add: merge_ad_view_def at_slot_merge_slots at_slot_grow)

lemma at_slot_merge_keyword:
  "g keyword_view_slot0 = 0 \<Longrightarrow> (\<And>h a. g (merge_keyword_slot h a) = g h + g a) \<Longrightarrow>
   at_slot g (view_info (merge_keyword_view h a)) i = at_slot g (view_info h) i + at_slot g (view_info a) i"
  by (simp add: merge_keyword_view_def at_slot_merge_slots at_slot_grow)

interpretation ad_impressions: hourly_measure merge_ad_view "[]" "\<lambda>v. at_slot impression_num v s" for s
  by unfold_locales (simp_all add: at_slot_merge_ad merge_ad_slot_def ad_view_slot0_def)

interpretation ad_clicks: hourly_measure merge_ad_view "[]" "\<lambda>v. at_slot click_num v s" for s
  by unfold_locales (simp_all add: at_slot_merge_ad merge_ad_slot_def ad_view_slot0_def)

interpretation ad_costs: hourly_measure merge_ad_view "[]"
    "\<lambda>v. at_slot (\<lambda>sl. hist_cost (keyword_cpc sl)) v s" for s
  by unfold_locales (simp_all add: at_slot_merge_ad merge_ad_slot_def ad_view_slot0_def hist_simps)

interpretation keyword_searches: hourly_measure merge_keyword_view keyword_view_info0 searched_num
  by unfold_locales (simp_all add: merge_keyword_view_def keyword_view_info0_def)

interpretation keyword_clicks: hourly_measure merge_keyword_view keyword_view_info0
    "\<lambda>v. at_slot kw_click_num (view_info v) s" for s
  by unfold_locales
    (simp_all add: at_slot_merge_keyword merge_keyword_slot_def keyword_view_slot0_def keyword_view_info0_def)

interpretation global_clicks: hourly_measure merge_global "[]" "\<lambda>v. at_slot id v s" for s
  by unfold_locales (simp_all add: merge_global_def at_slot_merge_slots at_slot_grow)

section \<open>Effect of the operations\<close>

lemma entry_upd [simp]: "entry d (m(k \<mapsto> v)) k' = (if k' = k then v else entry d m k')"
  by (simp add: entry_def)

lemma ball_ran_upd: "\<forall>v \<in> ran m. P v \<Longrightarrow> P x \<Longrightarrow> \<forall>v \<in> ran (m(k \<mapsto> x)). P v"
  by (auto simp: ran_def)

lemma ball_ran_entry: "\<forall>v \<in> ran m. P v \<Longrightarrow> P d \<Longrightarrow> P (entry d m k)"
  by (auto simp: entry_def ran_def split: option.splits)

lemma open_ad_period_simps [simp]:
  "snd (open_ad_period now ad lg) = ad_period lg ad (gettimestr now 0)"
  "ad_stat_data (fst (open_ad_period now ad lg)) = ad_stat_data lg"
  "keyword_stat_data (fst (open_ad_period now ad lg)) = keyword_stat_data lg"
  "global_stat_data (fst (open_ad_period now ad lg)) = global_stat_data lg"
  by (simp_all add: open_ad_period_def ad_period_def updateHistoryAdLogData_def Let_def)

lemma open_keyword_period_simps [simp]:
  "snd (open_keyword_period now k lg) = keyword_period lg k (gettimestr now 0)"
  "ad_stat_data (fst (open_keyword_period now k lg)) = ad_stat_data lg"
  "keyword_stat_data (fst (open_keyword_period now k lg)) = keyword_stat_data lg"
  "global_stat_data (fst (open_keyword_period now k lg)) = global_stat_data lg"
  by (simp_all add: open_keyword_period_def keyword_period_def updateHistoryKeywordLogData_def Let_def)

lemma open_period_periods [simp]:
  "ad_period (fst (open_ad_period now a lg)) = ad_period lg"
  "keyword_period (fst (open_ad_period now a lg)) = keyword_period lg"
  "global_period (fst (open_ad_period now a lg)) = global_period lg"
  "ad_period (fst (open_keyword_period now a lg)) = ad_period lg"
  "keyword_period (fst (open_keyword_period now a lg)) = keyword_period lg"
  "global_period (fst (open_keyword_period now a lg)) = global_period lg"
  by (simp_all add: ad_period_def keyword_period_def global_period_def fun_eq_iff)

lemma store_period_simps [simp]:
  "ad_period (store_ad_period now a v lg) a' t =
     (if a' = a \<and> t = gettimestr now 0 then v else ad_period lg a' t)"
  "keyword_period (store_ad_period now a v lg) = keyword_period lg"
  "global_period (store_ad_period now a v lg) = global_period lg"
  "keyword_period (store_keyword_period now k kv lg) k' t =
     (if k' = k \<and> t = gettimestr now 0 then kv else keyword_period lg k' t)"
  "ad_period (store_keyword_period now k kv lg) = ad_period lg"
  "global_period (store_keyword_period now k kv lg) = global_period lg"
  by (simp_all add: store_ad_period_def store_keyword_period_def ad_period_def keyword_period_def
      global_period_def fun_eq_iff)

lemma click_global_periods [simp]:
  "ad_period (click_global now slot lg) = ad_period lg"
  "keyword_period (click_global now slot lg) = keyword_period lg"
  by (simp_all add: click_global_def updateHistoryGlobalLogData_def Let_def ad_period_def
      keyword_period_def fun_eq_iff)

lemma at_slot_click_global:
  "at_slot id (global_period (click_global now slot lg) t) s =
     (if t = gettimestr now 0
      then (if s < slot then at_slot id (global_period lg t) s
            else if s = slot then at_slot id (global_period lg t) s + 1 else 0)
      else at_slot id (global_period lg t) s)"
  by (auto simp: click_global_def updateHistoryGlobalLogData_def Let_def global_period_def
      at_slot_def nth_resize)

lemma at_slot_click_ad:
  "at_slot click_num (click_ad_view cost slot v) s = at_slot click_num v s + (if s = slot then 1 else 0)"
  "at_slot impression_num (click_ad_view cost slot v) s = at_slot impression_num v s"
  by (auto simp: click_ad_view_def Let_def at_slot_def nth_grow nth_list_update ad_view_slot0_def)

lemma at_slot_impress_ad:
  "at_slot impression_num (impress_ad_view slot v) s =
     at_slot impression_num v s + (if s = slot then 1 else 0)"
  "at_slot click_num (impress_ad_view slot v) s = at_slot click_num v s"
  by (auto simp: impress_ad_view_def Let_def at_slot_def nth_grow nth_list_update ad_view_slot0_def)

lemma at_slot_click_keyword:
  "at_slot kw_click_num (view_info (click_keyword_view cost slot v)) s =
     (if s < slot then at_slot kw_click_num (view_info v) s
      else if s = slot then at_slot kw_click_num (view_info v) s + 1 else 0)"
  "searched_num (click_keyword_view cost slot v) = searched_num v"
  by (auto simp: click_keyword_view_def Let_def at_slot_def nth_resize nth_list_update keyword_view_slot0_def)

lemma search_stat_ads_Cons:
  "search_stat_ads now slot (ad_id # ads) lg =
     (let lg1 = fst (open_ad_period now ad_id lg); v = ad_period lg ad_id (gettimestr now 0)
      in if slot > MAX_AD_SLOT then (store_ad_period now ad_id v lg1, False)
         else search_stat_ads now (Suc slot) ads
                (store_ad_period now ad_id (impress_ad_view slot v) lg1))"
  by (simp add: case_prod_beta)

declare search_stat_ads.simps(2) [simp del]

lemmas search_stat_simps = search_stat_ads_Cons Let_def

lemma search_stat_ads_periods [simp]:
  "keyword_period (fst (search_stat_ads now slot ads lg)) = keyword_period lg"
  "global_period (fst (search_stat_ads now slot ads lg)) = global_period lg"
  by (induction ads arbitrary: slot lg) (auto simp: search_stat_simps)

lemma search_stat_ads_impressions:
  "at_slot impression_num (ad_period (fst (search_stat_ads now slot ads lg)) a t) s =
     at_slot impression_num (ad_period lg a t) s +
     (if t = gettimestr now 0 \<and> slot \<le> s \<and> s < slot + length ads \<and> s \<le> MAX_AD_SLOT \<and> ads ! (s - slot) = a
      then 1 else 0)"
proof (induction ads arbitrary: slot lg)
  case (Cons ad_id ads)
  have "(ad_id # ads) ! (s - slot) = ads ! (s - Suc slot)" if "Suc slot \<le> s"
    using that by (simp add: nth_Cons' Suc_diff_Suc)
  with Cons show ?case
    by (auto simp: search_stat_simps at_slot_impress_ad Suc_le_eq le_less)
qed simp

lemma search_stat_ads_clicks:
  "at_slot click_num (ad_period (fst (search_stat_ads now slot ads lg)) a t) s =
     at_slot click_num (ad_period lg a t) s"
  by (induction ads arbitrary: slot lg)
    (auto simp: search_stat_simps at_slot_impress_ad)

lemma search_stat_ads_flag:
  "snd (search_stat_ads now slot ads lg) \<longleftrightarrow> ads = [] \<or> slot + length ads \<le> MAX_AD_SLOT + 1"
  by (induction ads arbitrary: slot lg) (auto simp: search_stat_simps)

lemma search_stat_keywords_periods [simp]:
  "ad_period (search_stat_keywords now ks lg) = ad_period lg"
  "global_period (search_stat_keywords now ks lg) = global_period lg"
  by (induction ks arbitrary: lg) (auto simp: case_prod_beta)

lemma search_stat_keywords_searched:
  "searched_num (keyword_period (search_stat_keywords now ks lg) k t) =
     searched_num (keyword_period lg k t) + (if t = gettimestr now 0 then int (count_list ks k) else 0)"
  by (induction ks arbitrary: lg) (auto simp: case_prod_beta)

section \<open>The operations keep the statistics well-formed\<close>

lemma ran2_entry: "\<forall>ps \<in> ran m. \<forall>v \<in> ran ps. P v \<Longrightarrow> \<forall>v \<in> ran (entry Map.empty m a). P v"
  by (rule ball_ran_entry [where P = "\<lambda>ps. \<forall>v \<in> ran ps. P v"]) simp_all

lemma ran2_upd:
  "\<forall>ps \<in> ran m. \<forall>v \<in> ran ps. P v \<Longrightarrow> P x \<Longrightarrow>
   \<forall>ps \<in> ran (m(a \<mapsto> (entry Map.empty m a)(t \<mapsto> x))). \<forall>v \<in> ran ps. P v"
  by (rule ball_ran_upd, assumption) (rule ball_ran_upd [OF ran2_entry])

lemma ad_view_ok_Nil: "ad_view_ok []"
  by (rule ad_hour.ok_v0)

lemma auction_ok_ad_period: "auction_ok lg \<Longrightarrow> ad_view_ok (ad_period lg a t)"
  unfolding ad_period_def auction_ok_def
  by (rule ball_ran_entry [where P = ad_view_ok, OF ran2_entry ad_view_ok_Nil]) blast

lemma auction_ok_keyword_period: "auction_ok lg \<Longrightarrow> keyword_view_ok (keyword_period lg k t)"
  unfolding keyword_period_def auction_ok_def
  by (rule ball_ran_entry [where P = keyword_view_ok, OF ran2_entry keyword_hour.ok_v0]) blast

lemma auction_ok_open_ad:
  assumes "auction_ok lg"
  shows "auction_ok (fst (open_ad_period now a lg))"
proof -
  let ?h = "merge_history merge_ad_view [] now (entry Map.empty (ad_stat_data lg) a)"
  have "ad_view_ok ?h"
    using assms by (intro ad_hour.ok_history ran2_entry) (simp add: auction_ok_def)
  then have "\<forall>v \<in> ran ((ad_history_stat_data lg)(a \<mapsto> ?h)). ad_view_ok v"
    using assms by (intro ball_ran_upd) (simp_all add: auction_ok_def)
  with assms show ?thesis
    by (simp add: auction_ok_def open_ad_period_def updateHistoryAdLogData_def Let_def)
qed

lemma auction_ok_open_keyword:
  assumes "auction_ok lg"
  shows "auction_ok (fst (open_keyword_period now k lg))"
proof -
  let ?h = "merge_history merge_keyword_view keyword_view_info0 now
              (entry Map.empty (keyword_stat_data lg) k)"
  have "keyword_view_ok ?h"
    using assms by (intro keyword_hour.ok_history ran2_entry) (simp add: auction_ok_def)
  then have "\<forall>v \<in> ran ((keyword_history_stat_data lg)(k \<mapsto> ?h)). keyword_view_ok v"
    using assms by (intro ball_ran_upd) (simp_all add: auction_ok_def)
  with assms show ?thesis
    by (simp add: auction_ok_def open_keyword_period_def updateHistoryKeywordLogData_def Let_def)
qed

lemma auction_ok_store_ad: "auction_ok lg \<Longrightarrow> ad_view_ok v \<Longrightarrow> auction_ok (store_ad_period now a v lg)"
  using ran2_upd [of "ad_stat_data lg" ad_view_ok v a "gettimestr now 0"]
  by (simp add: auction_ok_def store_ad_period_def)

lemma auction_ok_store_keyword:
  "auction_ok lg \<Longrightarrow> keyword_view_ok v \<Longrightarrow> auction_ok (store_keyword_period now k v lg)"
  using ran2_upd [of "keyword_stat_data lg" keyword_view_ok v k "gettimestr now 0"]
  by (simp add: auction_ok_def store_keyword_period_def)

lemma ad_view_ok_upd:
  "ad_view_ok v \<Longrightarrow> slot \<le> MAX_AD_SLOT \<Longrightarrow> (\<And>s. ad_slot_ok s \<Longrightarrow> ad_slot_ok (f s)) \<Longrightarrow>
   ad_view_ok ((grow (slot + 1) ad_view_slot0 v)[slot := f (grow (slot + 1) ad_view_slot0 v ! slot)])"
  by (simp add: ad_view_ok_def list_all_upd list_all_grow list_all_nth_grow ad_slot0_ok)

lemma ad_view_ok_impress: "ad_view_ok v \<Longrightarrow> slot \<le> MAX_AD_SLOT \<Longrightarrow> ad_view_ok (impress_ad_view slot v)"
  using ad_view_ok_upd [of v slot "\<lambda>s. s\<lparr>impression_num := impression_num s + 1\<rparr>"]
  by (simp add: impress_ad_view_def Let_def ad_slot_ok_def)

lemma ad_view_ok_click: "ad_view_ok v \<Longrightarrow> slot \<le> MAX_AD_SLOT \<Longrightarrow> ad_view_ok (click_ad_view cost slot v)"
  using ad_view_ok_upd [of v slot
      "\<lambda>s. s\<lparr>click_num := click_num s + 1, keyword_cpc := hist_add cost 1 (keyword_cpc s)\<rparr>"]
  by (simp add: click_ad_view_def Let_def ad_slot_ok_def hist_simps hist_ok_add)

lemma keyword_view_ok_click:
  assumes "keyword_view_ok v" and "slot \<le> MAX_AD_SLOT"
  shows "keyword_view_ok (click_keyword_view cost slot v)"
proof -
  let ?vs = "resize (slot + 1) keyword_view_slot0 (view_info v)"
  let ?s = "?vs ! slot"
  have "list_all keyword_slot_ok ?vs" and s: "keyword_slot_ok ?s"
    using assms by (simp_all add: keyword_view_ok_def list_all_resize list_all_nth_resize keyword_slot0_ok)
  moreover have "keyword_slot_ok (?s\<lparr>kw_click_num := kw_click_num ?s + 1,
                                    cost_list := hist_add cost 1 (cost_list ?s)\<rparr>)"
    using s by (simp add: keyword_slot_ok_def hist_simps hist_ok_add)
  ultimately show ?thesis
    using assms by (simp add: keyword_view_ok_def click_keyword_view_def Let_def list_all_upd)
qed

lemma auction_ok_global_history: "auction_ok lg \<Longrightarrow> auction_ok (updateHistoryGlobalLogData now lg)"
  using global_hour.ok_history [of "global_stat_data lg" now]
  by (simp add: auction_ok_def updateHistoryGlobalLogData_def)

lemma auction_ok_click_global:
  assumes "auction_ok lg" and "slot \<le> MAX_AD_SLOT"
  shows "auction_ok (click_global now slot lg)"
proof -
  let ?t = "gettimestr now 0"
  define lg1 where "lg1 = (if global_stat_data lg ?t = None then updateHistoryGlobalLogData now lg else lg)"
  let ?g = "resize (slot + 1) 0 (entry [] (global_stat_data lg1) ?t)"
  have ok: "auction_ok lg1"
    using assms by (simp add: lg1_def auction_ok_global_history)
  then have "global_ok (entry [] (global_stat_data lg1) ?t)"
    using ball_ran_entry [of "global_stat_data lg1" global_ok "[]" ?t] global_hour.ok_v0
    by (simp add: auction_ok_def)
  then have l: "list_all (\<lambda>n. 0 \<le> n) ?g" and n: "0 \<le> ?g ! slot"
    by (simp_all add: global_ok_def list_all_resize list_all_nth_resize)
  have "global_ok (?g[slot := ?g ! slot + 1])"
    using l n assms(2) by (simp add: global_ok_def list_all_upd)
  then have "\<forall>v \<in> ran ((global_stat_data lg1)(?t \<mapsto> ?g[slot := ?g ! slot + 1])). global_ok v"
    by (rule ball_ran_upd [rotated]) (use ok in \<open>simp add: auction_ok_def\<close>)
  with ok have "auction_ok (lg1\<lparr>global_stat_data :=
      (global_stat_data lg1)(?t \<mapsto> ?g[slot := ?g ! slot + 1])\<rparr>)"
    by (simp add: auction_ok_def)
  then show ?thesis
    unfolding click_global_def Let_def lg1_def .
qed

lemma auction_ok_search_ads: "auction_ok lg \<Longrightarrow> auction_ok (fst (search_stat_ads now slot ads lg))"
  by (induction ads arbitrary: slot lg)
    (simp_all add: search_stat_simps auction_ok_store_ad auction_ok_open_ad ad_view_ok_impress
      auction_ok_ad_period)

lemma auction_ok_search_keywords: "auction_ok lg \<Longrightarrow> auction_ok (search_stat_keywords now ks lg)"
proof (induction ks arbitrary: lg)
  case (Cons k ks)
  let ?v = "keyword_period lg k (gettimestr now 0)"
  have "keyword_view_ok (?v\<lparr>searched_num := searched_num ?v + 1\<rparr>)"
    using auction_ok_keyword_period [OF Cons.prems, of k "gettimestr now 0"]
    by (simp add: keyword_view_ok_def)
  then show ?case
    using Cons by (simp add: case_prod_beta auction_ok_store_keyword auction_ok_open_keyword)
qed simp

lemma auction_ok_search: "auction_ok lg \<Longrightarrow> auction_ok (updateAdSearchStat now ks ads lg)"
  using auction_ok_search_ads [of lg now 0 ads]
  by (auto simp: updateAdSearchStat_def case_prod_beta intro: auction_ok_search_keywords)

lemma auction_ok_click: "auction_ok lg \<Longrightarrow> auction_ok (updateAuctionLogData now a k cost slot lg)"
  by (auto simp: updateAuctionLogData_def Let_def case_prod_beta not_less
      intro!: auction_ok_store_ad auction_ok_store_keyword auction_ok_open_ad auction_ok_open_keyword
        auction_ok_click_global ad_view_ok_click keyword_view_ok_click auction_ok_ad_period
        auction_ok_keyword_period)

lemma auction_ok_init: "auction_ok auction_log_init"
  by (simp add: auction_ok_def auction_log_init_def global_ok_def)

section \<open>Recording, as seen from outside\<close>

lemma click_ad_period:
  "at_slot click_num (ad_period (updateAuctionLogData now a k cost slot lg) a' t) s =
     at_slot click_num (ad_period lg a' t) s +
     (if slot \<le> MAX_AD_SLOT \<and> a' = a \<and> t = gettimestr now 0 \<and> s = slot then 1 else 0)"
  "at_slot impression_num (ad_period (updateAuctionLogData now a k cost slot lg) a' t) s =
     at_slot impression_num (ad_period lg a' t) s"
  by (simp_all add: updateAuctionLogData_def Let_def case_prod_beta at_slot_click_ad)

lemma click_keyword_period:
  "at_slot kw_click_num (view_info (keyword_period (updateAuctionLogData now a k cost slot lg) k' t)) s =
     (if slot \<le> MAX_AD_SLOT \<and> k' = k \<and> t = gettimestr now 0 \<and> slot \<le> s
      then (if s = slot then at_slot kw_click_num (view_info (keyword_period lg k' t)) s + 1 else 0)
      else at_slot kw_click_num (view_info (keyword_period lg k' t)) s)"
  by (simp add: updateAuctionLogData_def Let_def case_prod_beta at_slot_click_keyword)

lemma click_global_period:
  "at_slot id (global_period (updateAuctionLogData now a k cost slot lg) t) s =
     (if slot \<le> MAX_AD_SLOT \<and> t = gettimestr now 0 \<and> slot \<le> s
      then (if s = slot then at_slot id (global_period lg t) s + 1 else 0)
      else at_slot id (global_period lg t) s)"
  by (simp add: updateAuctionLogData_def Let_def case_prod_beta at_slot_click_global)

section \<open>Properties\<close>

text \<open>
  C14. The statistics stay well-formed: starting from the empty log, every sequence of
  recorded searches and clicks keeps each slot's click counter equal to the number of clicks
  in its cost histogram, all counters non-negative, and every table, the merged histories
  included, within \<open>MAX_AD_SLOT + 1\<close> slots.
\<close>

theorem auction_ok_preserved:
  "auction_ok auction_log_init \<and>
   (auction_ok lg \<longrightarrow>
      auction_ok (updateAdSearchStat now ks ads lg) \<and>
      auction_ok (updateAuctionLogData now ad_id kw cost slot lg))"
  using auction_ok_init auction_ok_search auction_ok_click by blast

theorem auction_ok_preserved_witness:
  "auction_ok (updateAuctionLogData \<lparr>tm_year = 114, tm_yday = 3, tm_hour = 5\<rparr> ''ad'' ''k '' 40 2 auction_log_init)"
  using auction_ok_preserved [of auction_log_init] auction_ok_preserved [of auction_log_init
      "\<lparr>tm_year = 114, tm_yday = 3, tm_hour = 5\<rparr>" "[]" "[]" "''ad''" "''k ''" 40 2]
  by blast

text \<open>
  C15. \<open>updateAdSearchStat\<close> counts exactly one impression, in the current hour, for the ad
  shown at each slot up to \<open>MAX_AD_SLOT\<close>, changes no click counter, and counts one search for
  each listed keyword, unless more than \<open>MAX_AD_SLOT + 1\<close> ads were shown: then the
  operation returns early and no keyword is counted.
\<close>

theorem search_recorded:
  "at_slot impression_num (ad_period (updateAdSearchStat now ks ads lg) a t) s =
     at_slot impression_num (ad_period lg a t) s +
       (if t = gettimestr now 0 \<and> s < length ads \<and> s \<le> MAX_AD_SLOT \<and> ads ! s = a then 1 else 0) \<and>
   at_slot click_num (ad_period (updateAdSearchStat now ks ads lg) a t) s =
     at_slot click_num (ad_period lg a t) s \<and>
   searched_num (keyword_period (updateAdSearchStat now ks ads lg) k t) =
     searched_num (keyword_period lg k t) +
       (if t = gettimestr now 0 \<and> length ads \<le> MAX_AD_SLOT + 1 then int (count_list ks k) else 0)"
  using search_stat_ads_impressions [of now 0 ads lg a t s] search_stat_ads_clicks [of now 0 ads lg a t s]
    search_stat_ads_flag [of now 0 ads lg]
  by (auto simp: updateAdSearchStat_def case_prod_beta search_stat_keywords_searched)

text \<open>
  C16. \<open>updateAuctionLogData\<close> counts one click for the clicked ad at the clicked slot of the
  current hour and leaves every other ad counter alone; a slot beyond \<open>MAX_AD_SLOT\<close> counts
  nothing at all. The keyword and the global tables also count the click at its slot and
  keep the lower slots, but lose what they held for the higher slots of that hour: the code
  resizes them to \<open>click_slot + 1\<close>.
\<close>

theorem click_recorded:
  "at_slot click_num (ad_period (updateAuctionLogData now a k cost slot lg) a' t) s =
     at_slot click_num (ad_period lg a' t) s +
       (if slot \<le> MAX_AD_SLOT \<and> a' = a \<and> t = gettimestr now 0 \<and> s = slot then 1 else 0) \<and>
   at_slot kw_click_num (view_info (keyword_period (updateAuctionLogData now a k cost slot lg) k' t)) s =
     (if slot \<le> MAX_AD_SLOT \<and> k' = k \<and> t = gettimestr now 0 \<and> slot \<le> s
      then (if s = slot then at_slot kw_click_num (view_info (keyword_period lg k' t)) s + 1 else 0)
      else at_slot kw_click_num (view_info (keyword_period lg k' t)) s) \<and>
   at_slot id (global_period (updateAuctionLogData now a k cost slot lg) t) s =
     (if slot \<le> MAX_AD_SLOT \<and> t = gettimestr now 0 \<and> slot \<le> s
      then (if s = slot then at_slot id (global_period lg t) s + 1 else 0)
      else at_slot id (global_period lg t) s)"
  by (intro conjI click_ad_period(1) click_keyword_period click_global_period)

text \<open>
  Clicks are lost: when a click on a keyword at some slot is followed, in the same hour,
  by a click on the same keyword at a higher-ranked slot, the keyword table (from which the
  bid landscape is computed) no longer holds the first click, while the ad table still does.
\<close>

lemma keyword_click_lost:
  assumes "s2 < s1" and "s1 \<le> MAX_AD_SLOT" and "auction_ok lg"
  shows "at_slot kw_click_num (view_info (keyword_period
           (updateAuctionLogData now a2 k c2 s2 (updateAuctionLogData now a1 k c1 s1 lg))
           k (gettimestr now 0))) s1 = 0 \<and>
         at_slot click_num (ad_period
           (updateAuctionLogData now a2 k c2 s2 (updateAuctionLogData now a1 k c1 s1 lg))
           a1 (gettimestr now 0)) s1 > 0"
proof -
  let ?v = "ad_period lg a1 (gettimestr now 0)"
  have "ad_view_ok ?v" using assms(3) by (rule auction_ok_ad_period)
  then have "0 \<le> at_slot click_num ?v s1"
    by (auto simp: ad_view_ok_def at_slot_def list_all_length ad_slot_ok_def hist_num_nonneg)
  with assms(1,2) show ?thesis
    by (simp add: click_keyword_period click_ad_period)
qed

text \<open>
  C20. A merged history is the sum of the last \<open>HISTORY_HOURS\<close> hours, slot by slot:
  impressions, clicks and total cost of an ad, searches and clicks of a keyword, clicks
  over all ads.
\<close>

theorem history_sums:
  "at_slot impression_num (entry [] (ad_history_stat_data (updateHistoryAdLogData now a aps lg)) a) s =
     (\<Sum>i \<in> {1..HISTORY_HOURS}. case aps (gettimestr now (- int i)) of
        None \<Rightarrow> 0 | Some v \<Rightarrow> at_slot impression_num v s) \<and>
   at_slot click_num (entry [] (ad_history_stat_data (updateHistoryAdLogData now a aps lg)) a) s =
     (\<Sum>i \<in> {1..HISTORY_HOURS}. case aps (gettimestr now (- int i)) of
        None \<Rightarrow> 0 | Some v \<Rightarrow> at_slot click_num v s) \<and>
   at_slot (\<lambda>sl. hist_cost (keyword_cpc sl))
       (entry [] (ad_history_stat_data (updateHistoryAdLogData now a aps lg)) a) s =
     (\<Sum>i \<in> {1..HISTORY_HOURS}. case aps (gettimestr now (- int i)) of
        None \<Rightarrow> 0 | Some v \<Rightarrow> at_slot (\<lambda>sl. hist_cost (keyword_cpc sl)) v s) \<and>
   searched_num (entry keyword_view_info0
       (keyword_history_stat_data (updateHistoryKeywordLogData now k kps lg)) k) =
     (\<Sum>i \<in> {1..HISTORY_HOURS}. case kps (gettimestr now (- int i)) of
        None \<Rightarrow> 0 | Some v \<Rightarrow> searched_num v) \<and>
   at_slot kw_click_num (view_info (entry keyword_view_info0
       (keyword_history_stat_data (updateHistoryKeywordLogData now k kps lg)) k)) s =
     (\<Sum>i \<in> {1..HISTORY_HOURS}. case kps (gettimestr now (- int i)) of
        None \<Rightarrow> 0 | Some v \<Rightarrow> at_slot kw_click_num (view_info v) s) \<and>
   at_slot id (global_history_stat_data (updateHistoryGlobalLogData now lg)) s =
     (\<Sum>i \<in> {1..HISTORY_HOURS}. case global_stat_data lg (gettimestr now (- int i)) of
        None \<Rightarrow> 0 | Some v \<Rightarrow> at_slot id v s)"
  by (simp add: updateHistoryAdLogData_def updateHistoryKeywordLogData_def updateHistoryGlobalLogData_def
      ad_impressions.measure_history ad_clicks.measure_history ad_costs.measure_history
      keyword_searches.measure_history keyword_clicks.measure_history global_clicks.measure_history)

text \<open>
  The history never reaches back \<open>HISTORY_HOURS\<close> hours. \<open>gettimestr\<close> borrows at most one
  day, so an hour more than \<open>tm_hour + 24\<close> in the past gets a name with a negative hour,
  which no recorded hour has: only the first \<open>tm_hour + 24\<close> of the 48 hours can contribute.
\<close>

lemma history_window:
  assumes "tm_ok now" and "\<forall>t \<in> dom kps. \<exists>now'. tm_ok now' \<and> t = gettimestr now' 0"
  shows "searched_num (entry keyword_view_info0
           (keyword_history_stat_data (updateHistoryKeywordLogData now k kps lg)) k) =
         (\<Sum>i \<in> {1..min HISTORY_HOURS (nat (tm_hour now + 24))}. case kps (gettimestr now (- int i)) of
            None \<Rightarrow> 0 | Some v \<Rightarrow> searched_num v)"
proof -
  let ?f = "\<lambda>i. case kps (gettimestr now (- int i)) of None \<Rightarrow> 0 | Some v \<Rightarrow> searched_num v"
  have far: "?f i = 0" if "tm_hour now + 24 < int i" for i
  proof -
    have "kps (gettimestr now (- int i)) = None"
    proof (rule ccontr)
      assume "kps (gettimestr now (- int i)) \<noteq> None"
      then obtain now' where "tm_ok now'" and "gettimestr now (- int i) = gettimestr now' 0"
        using assms(2) by blast
      with gettimestr_far_neq [OF assms(1) that] show False by blast
    qed
    then show ?thesis by simp
  qed
  have "sum ?f {1..HISTORY_HOURS} = sum ?f {1..min HISTORY_HOURS (nat (tm_hour now + 24))}"
    by (rule sum.mono_neutral_right) (auto intro!: far)
  then show ?thesis
    by (simp add: updateHistoryKeywordLogData_def keyword_searches.measure_history)
qed

text \<open>
  Hour names are ambiguous: the fields are concatenated without separators or padding,
  so two different hours (11 o'clock on day 1 and 1 o'clock on day 11 of a year) have the
  same name and share one table entry.
\<close>

lemma gettimestr_collision:
  "tm_ok \<lparr>tm_year = 114, tm_yday = 1, tm_hour = 11\<rparr> \<and> tm_ok \<lparr>tm_year = 114, tm_yday = 11, tm_hour = 1\<rparr> \<and>
   gettimestr \<lparr>tm_year = 114, tm_yday = 1, tm_hour = 11\<rparr> 0 =
   gettimestr \<lparr>tm_year = 114, tm_yday = 11, tm_hour = 1\<rparr> 0"
  by (simp add: tm_ok_def gettimestr_def HOURS_OF_DAY_def dec_int_def dec.simps digit_def)

text \<open>
  \<open>load()\<close> restores the three hourly tables that \<open>save()\<close> wrote and leaves the histories
  as they are, so a restarted manager answers from empty histories until the next update.
\<close>

lemma auction_load_save:
  assumes "image_ok ser_a deser_a (ad_stat_data lg)"
    and "image_ok ser_k deser_k (keyword_stat_data lg)"
    and "image_ok ser_g deser_g (global_stat_data lg)"
  shows "auction_load deser_a deser_k deser_g (Some (auction_save ser_a ser_k ser_g lg)) lg0 =
     lg0\<lparr>ad_stat_data := ad_stat_data lg, keyword_stat_data := keyword_stat_data lg,
         global_stat_data := global_stat_data lg\<rparr>"
  using image_block [OF assms(1)] image_block [OF assms(2)] image_block [OF assms(3)]
  by (simp add: auction_load_def auction_save_def)

end
