(* ===== verification/AuctionStat.thy ===== *)
theory AuctionStat
  imports AuctionLog
begin

text \<open>
  \<open>AdAuctionLogMgr\<close>, the part that answers: click-through rates, average costs and bid
  landscapes computed from the merged histories of theory AuctionLog. Click-through rates
  are \<open>double\<close>s in the code and reals here. Sums that the code keeps in a \<open>std::size_t\<close> are
  taken modulo \<open>2 ^ 64\<close>.
\<close>

section \<open>Constants and defaults\<close>

definition DEFAULT_AD_CTR :: real where "DEFAULT_AD_CTR = 3 / 1000"
definition DEFAULT_CLICK_COST :: int where "DEFAULT_CLICK_COST = 50"
definition MIN_SEARCH_NUM :: int where "MIN_SEARCH_NUM = 1000"

definition history_days :: int where
  "history_days = cdiv (int HISTORY_HOURS) HOURS_OF_DAY"

definition getDefaultCostForSlot :: "nat \<Rightarrow> int" where
  "getDefaultCostForSlot slot =
     cdiv (DEFAULT_CLICK_COST * (int MAX_AD_SLOT - int slot)) (int MAX_AD_SLOT)"

definition getDefaultCTRForSlot :: "nat \<Rightarrow> real" where
  "getDefaultCTRForSlot slot =
     DEFAULT_AD_CTR * (real MAX_AD_SLOT - real slot * (3 / 2)) / real MAX_AD_SLOT"

text \<open>Conversion of a sum of \<open>int\<close>s to \<open>std::size_t\<close>.\<close>

definition to_size :: "int \<Rightarrow> nat" where
  "to_size i = nat (i mod 2 ^ 64)"

section \<open>Ads\<close>

definition getAdCTR :: "auction_log \<Rightarrow> string \<Rightarrow> real" where
  "getAdCTR lg adid =
     (case ad_history_stat_data lg adid of
        None \<Rightarrow> DEFAULT_AD_CTR
      | Some v \<Rightarrow>
          (let total_impression = sum_list (map impression_num v);
               total_click = fold (\<lambda>(i, s) acc.
                   to_int (real_of_int acc + real_of_int (click_num s) * (1 + 2 / 10 * real i)))
                 (enumerate 0 v) 0
           in if total_impression < MIN_SEARCH_NUM \<or> total_click < 1 then DEFAULT_AD_CTR
              else real_of_int total_click / real_of_int total_impression))"

definition getAdAvgCost :: "auction_log \<Rightarrow> string \<Rightarrow> int" where
  "getAdAvgCost lg adid =
     (case ad_history_stat_data lg adid of
        None \<Rightarrow> DEFAULT_CLICK_COST
      | Some v \<Rightarrow>
          (let total_cost = sum_list (map (\<lambda>s. hist_cost (keyword_cpc s)) v);
               total_click = sum_list (map (\<lambda>s. hist_num (keyword_cpc s)) v)
           in if total_click < 1 then DEFAULT_CLICK_COST else cdiv total_cost total_click))"

type_synonym landscape = "(int \<times> real) list"

definition ad_slot_landscape :: "nat \<Rightarrow> ad_view_slot \<Rightarrow> int \<times> real" where
  "ad_slot_landscape slot s =
     (let total_cost = hist_cost (keyword_cpc s); total_click = hist_num (keyword_cpc s)
      in if total_click > 1 \<and> impression_num s > MIN_SEARCH_NUM
         then (cdiv total_cost total_click, real_of_int total_click / real_of_int (impression_num s))
         else (getDefaultCostForSlot slot, getDefaultCTRForSlot slot))"

definition ad_landscape :: "ad_view_info \<Rightarrow> landscape" where
  "ad_landscape v = map (\<lambda>(slot, s). ad_slot_landscape slot s) (enumerate 0 v)"

text \<open>
  The iteration order of a hash map is not specified: \<open>keys\<close> is the order in which the
  history table is traversed. The two output vectors are parallel; the last element of both
  is popped again when no slot of the ad was clicked.
\<close>

fun ad_landscape_rows :: "(string \<rightharpoonup> ad_view_info) \<Rightarrow> string list \<Rightarrow> (string \<times> landscape) list" where
  "ad_landscape_rows hist [] = []"
| "ad_landscape_rows hist (a # keys) =
     (case hist a of
        None \<Rightarrow> ad_landscape_rows hist keys
      | Some v \<Rightarrow>
          (if v = [] \<or> sum_list (map click_num v) = 0 then ad_landscape_rows hist keys
           else (a, ad_landscape v) # ad_landscape_rows hist keys))"

definition getAdLandscape :: "string list \<Rightarrow> auction_log \<Rightarrow> string list \<times> landscape list" where
  "getAdLandscape keys lg =
     (let rows = ad_landscape_rows (ad_history_stat_data lg) keys in (map fst rows, map snd rows))"

definition getAvgTotalClickedNum :: "auction_log \<Rightarrow> nat" where
  "getAvgTotalClickedNum lg = to_size (sum_list (global_history_stat_data lg))"

section \<open>Keywords\<close>

definition getKeywordAvgDailyClickedNum :: "auction_log \<Rightarrow> string \<Rightarrow> nat" where
  "getKeywordAvgDailyClickedNum lg kid =
     (case keyword_history_stat_data lg kid of
        None \<Rightarrow> 0
      | Some v \<Rightarrow> to_size (sum_list (map kw_click_num (view_info v))) div nat history_days)"

definition getKeywordCurrentImpression :: "tm \<Rightarrow> auction_log \<Rightarrow> string \<Rightarrow> int" where
  "getKeywordCurrentImpression now lg kid =
     (case keyword_stat_data lg kid of
        None \<Rightarrow> 0
      | Some periods \<Rightarrow>
          sum_list (map (\<lambda>i. case periods (gettimestr now i) of None \<Rightarrow> 0 | Some v \<Rightarrow> searched_num v)
            [getCurrentDayBegin now..0]))"

definition getKeywordAvgDailyImpression :: "auction_log \<Rightarrow> string \<Rightarrow> int" where
  "getKeywordAvgDailyImpression lg kid =
     (case keyword_history_stat_data lg kid of
        None \<Rightarrow> 0
      | Some v \<Rightarrow> cdiv (searched_num v) history_days)"

definition keyword_slot_cost :: "nat \<Rightarrow> keyword_view_slot \<Rightarrow> int" where
  "keyword_slot_cost slot s =
     (if hist_num (cost_list s) < 1 then getDefaultCostForSlot slot
      else cdiv (hist_cost (cost_list s)) (hist_num (cost_list s)))"

definition getKeywordAvgCostList :: "auction_log \<Rightarrow> string \<Rightarrow> int list" where
  "getKeywordAvgCostList lg kid =
     (case keyword_history_stat_data lg kid of
        None \<Rightarrow> []
      | Some v \<Rightarrow> map (\<lambda>(slot, s). keyword_slot_cost slot s) (enumerate 0 (view_info v)))"

definition getKeywordAvgCost :: "auction_log \<Rightarrow> string \<Rightarrow> nat \<Rightarrow> int" where
  "getKeywordAvgCost lg kid slot =
     (case keyword_history_stat_data lg kid of
        None \<Rightarrow> getDefaultCostForSlot slot
      | Some v \<Rightarrow>
          (if slot \<ge> length (view_info v) then getDefaultCostForSlot slot
           else keyword_slot_cost slot (view_info v ! slot)))"

text \<open>\<open>click_num / searched_num\<close> divides two \<open>int\<close>s before the result becomes a \<open>double\<close>.\<close>

definition keyword_slot_ctr_int :: "keyword_view_info \<Rightarrow> keyword_view_slot \<Rightarrow> real" where
  "keyword_slot_ctr_int v s = real_of_int (cdiv (kw_click_num s) (searched_num v))"

definition getKeywordCTRList :: "auction_log \<Rightarrow> string \<Rightarrow> real list" where
  "getKeywordCTRList lg kid =
     (case keyword_history_stat_data lg kid of
        None \<Rightarrow> []
      | Some v \<Rightarrow>
          (if searched_num v < MIN_SEARCH_NUM then []
           else map (keyword_slot_ctr_int v) (view_info v)))"

definition getKeywordCTR :: "auction_log \<Rightarrow> string \<Rightarrow> nat \<Rightarrow> real" where
  "getKeywordCTR lg kid slot =
     (case keyword_history_stat_data lg kid of
        None \<Rightarrow> getDefaultCTRForSlot slot
      | Some v \<Rightarrow>
          (let clicked = to_size (at_slot kw_click_num (view_info v) slot)
           in if clicked < 1 \<or> searched_num v < MIN_SEARCH_NUM then getDefaultCTRForSlot slot
              else real clicked / real_of_int (searched_num v)))"

definition getKeywordStatData :: "auction_log \<Rightarrow> string \<Rightarrow> int \<times> int list \<times> real list" where
  "getKeywordStatData lg kid =
     (case keyword_history_stat_data lg kid of
        None \<Rightarrow> (0, [], [])
      | Some v \<Rightarrow>
          (let avg_impression = cdiv (searched_num v) history_days
           in if searched_num v < MIN_SEARCH_NUM then (avg_impression, [], [])
              else (avg_impression,
                    map (\<lambda>(slot, s). keyword_slot_cost slot s) (enumerate 0 (view_info v)),
                    map (keyword_slot_ctr_int v) (view_info v))))"

text \<open>
  In the keyword landscape only positive counts are added up, and the division is by a
  \<open>std::size_t\<close>, so the cost is converted to \<open>std::size_t\<close> first.
\<close>

definition keyword_slot_landscape :: "keyword_view_info \<Rightarrow> nat \<Rightarrow> keyword_view_slot \<Rightarrow> int \<times> real" where
  "keyword_slot_landscape v slot s =
     (let h = filter (\<lambda>(c, n). n > 0) (cost_list s);
          total_cost = hist_cost h;
          total_click = to_size (hist_num h)
      in if total_click > 1
         then (int (to_size total_cost div total_click), real total_click / real_of_int (searched_num v))
         else (getDefaultCostForSlot slot, getDefaultCTRForSlot slot))"

definition keyword_landscape :: "keyword_view_info \<Rightarrow> landscape" where
  "keyword_landscape v = map (\<lambda>(slot, s). keyword_slot_landscape v slot s) (enumerate 0 (view_info v))"

fun keyword_landscape_rows ::
  "(string \<rightharpoonup> keyword_view_info) \<Rightarrow> string list \<Rightarrow> (string \<times> landscape) list" where
  "keyword_landscape_rows hist [] = []"
| "keyword_landscape_rows hist (k # keys) =
     (case hist k of
        None \<Rightarrow> keyword_landscape_rows hist keys
      | Some v \<Rightarrow>
          (if searched_num v < MIN_SEARCH_NUM \<or> length (view_info v) = 0 then keyword_landscape_rows hist keys
           else if sum_list (map kw_click_num (view_info v)) = 0 then keyword_landscape_rows hist keys
           else (k, keyword_landscape v) # keyword_landscape_rows hist keys))"

definition getKeywordBidLandscape :: "string list \<Rightarrow> auction_log \<Rightarrow> string list \<times> landscape list" where
  "getKeywordBidLandscape keys lg =
     (let rows = keyword_landscape_rows (keyword_history_stat_data lg) keys
      in (map fst rows, map snd rows))"

section \<open>Averages\<close>

lemma cdiv_between:
  assumes "0 < n" and "0 \<le> lo" and "lo * n \<le> c" and "c \<le> hi * n"
  shows "lo \<le> cdiv c n \<and> cdiv c n \<le> hi"
proof -
  have "0 \<le> c" using assms by (meson mult_nonneg_nonneg order.strict_implies_order order_trans)
  then have "cdiv c n = c div n" using assms(1) by (simp add: cdiv_nonneg)
  moreover have "lo \<le> c div n"
    using assms(1,3) zdiv_mono1 [of "lo * n" c n] by simp
  moreover have "c div n \<le> hi"
    using assms(1,4) zdiv_mono1 [of c "hi * n" n] by simp
  ultimately show ?thesis by simp
qed

lemma hist_avg_between:
  assumes "hist_ok h" and "\<forall>(c, n) \<in> set h. lo \<le> c \<and> c \<le> hi" and "0 \<le> lo" and "1 \<le> hist_num h"
  shows "lo \<le> cdiv (hist_cost h) (hist_num h) \<and> cdiv (hist_cost h) (hist_num h) \<le> hi"
  using hist_cost_bounds [OF assms(1,2)] assms(3,4) by (intro cdiv_between) simp_all

lemma sum_hist_bounds:
  assumes "list_all ad_slot_ok v" and "\<forall>s \<in> set v. \<forall>(c, n) \<in> set (keyword_cpc s). lo \<le> c \<and> c \<le> hi"
  shows "lo * sum_list (map (\<lambda>s. hist_num (keyword_cpc s)) v) \<le> sum_list (map (\<lambda>s. hist_cost (keyword_cpc s)) v) \<and>
         sum_list (map (\<lambda>s. hist_cost (keyword_cpc s)) v) \<le> hi * sum_list (map (\<lambda>s. hist_num (keyword_cpc s)) v)"
  using assms
proof (induction v)
  case (Cons s v)
  then have "lo * hist_num (keyword_cpc s) \<le> hist_cost (keyword_cpc s)"
    and "hist_cost (keyword_cpc s) \<le> hi * hist_num (keyword_cpc s)"
    using hist_cost_bounds [of "keyword_cpc s" lo hi] by (auto simp: ad_slot_ok_def)
  with Cons show ?case by (auto simp: distrib_left)
qed simp

lemma history_days_2: "history_days = 2"
  by (simp add: history_days_def HISTORY_HOURS_def HOURS_OF_DAY_def cdiv_def)

lemma getDefaultCostForSlot_range:
  "slot \<le> MAX_AD_SLOT \<Longrightarrow> 0 \<le> getDefaultCostForSlot slot \<and> getDefaultCostForSlot slot \<le> DEFAULT_CLICK_COST"
  by (auto simp: getDefaultCostForSlot_def DEFAULT_CLICK_COST_def MAX_AD_SLOT_def cdiv_nonneg)

lemma auction_ok_keyword_history:
  "auction_ok lg \<Longrightarrow> keyword_history_stat_data lg k = Some v \<Longrightarrow> keyword_view_ok v"
  by (auto simp: auction_ok_def intro: ranI)

lemma auction_ok_ad_history:
  "auction_ok lg \<Longrightarrow> ad_history_stat_data lg a = Some v \<Longrightarrow> ad_view_ok v"
  by (auto simp: auction_ok_def intro: ranI)

section \<open>Landscapes\<close>

lemma length_ad_landscape [simp]: "length (ad_landscape v) = length v"
  by (simp add: ad_landscape_def)

lemma length_keyword_landscape [simp]: "length (keyword_landscape v) = length (view_info v)"
  by (simp add: keyword_landscape_def)

lemma ad_landscape_rows_iff:
  "(a, l) \<in> set (ad_landscape_rows hist keys) \<longleftrightarrow>
     a \<in> set keys \<and> (\<exists>v. hist a = Some v \<and> sum_list (map click_num v) \<noteq> 0 \<and> l = ad_landscape v)"
  by (induction keys) (auto split: option.splits)

lemma keyword_landscape_rows_iff:
  "(k, l) \<in> set (keyword_landscape_rows hist keys) \<longleftrightarrow>
     k \<in> set keys \<and> (\<exists>v. hist k = Some v \<and> MIN_SEARCH_NUM \<le> searched_num v \<and>
       sum_list (map kw_click_num (view_info v)) \<noteq> 0 \<and> l = keyword_landscape v)"
  by (induction keys) (auto split: option.splits)

lemma keyword_landscape_rows_keys: "set (map fst (keyword_landscape_rows hist keys)) \<subseteq> set keys"
  by (induction keys) (auto split: option.splits)

lemma distinct_keyword_rows: "distinct keys \<Longrightarrow> distinct (map fst (keyword_landscape_rows hist keys))"
  using keyword_landscape_rows_keys by (induction keys) (fastforce split: option.splits)+

section \<open>Properties\<close>

text \<open>
  C28. Average costs lie within the observed costs: on a well-formed log, the average cost per
  click of a clicked keyword slot and of a clicked ad is between the lowest and the highest
  cost that was paid, and the vector version of \<open>getKeywordAvgCost\<close> agrees with the
  single-slot version at every slot it lists.
\<close>

theorem average_cost_bounds:
  assumes "auction_ok lg" and "0 \<le> lo"
    and "keyword_history_stat_data lg k = Some v" and "slot < length (view_info v)"
    and "cost_list (view_info v ! slot) \<noteq> []"
    and "\<forall>(c, n) \<in> set (cost_list (view_info v ! slot)). lo \<le> c \<and> c \<le> hi"
  shows "lo \<le> getKeywordAvgCost lg k slot \<and> getKeywordAvgCost lg k slot \<le> hi \<and>
         getKeywordAvgCostList lg k ! slot = getKeywordAvgCost lg k slot"
proof -
  let ?h = "cost_list (view_info v ! slot)"
  have "keyword_view_ok v" using assms(1,3) by (rule auction_ok_keyword_history)
  then have h: "hist_ok ?h"
    using assms(4) by (simp add: keyword_view_ok_def keyword_slot_ok_def list_all_length)
  then have "1 \<le> hist_num ?h" using hist_num_pos [OF _ assms(5)] by simp
  with hist_avg_between [OF h assms(6,2)] show ?thesis
    using assms(3,4)
    by (simp add: getKeywordAvgCost_def getKeywordAvgCostList_def keyword_slot_cost_def nth_enumerate_eq)
qed

theorem average_cost_bounds_witness:
  "let v = \<lparr>searched_num = 1200, view_info = [\<lparr>kw_click_num = 3, cost_list = [(40, 1), (70, 2)]\<rparr>]\<rparr>;
       lg = auction_log_init\<lparr>keyword_history_stat_data := [''k '' \<mapsto> v]\<rparr>
   in 40 \<le> getKeywordAvgCost lg ''k '' 0 \<and> getKeywordAvgCost lg ''k '' 0 \<le> 70"
proof -
  let ?v = "\<lparr>searched_num = 1200, view_info = [\<lparr>kw_click_num = 3, cost_list = [(40, 1), (70, 2)]\<rparr>]\<rparr>"
  let ?lg = "auction_log_init\<lparr>keyword_history_stat_data := [''k '' \<mapsto> ?v]\<rparr>"
  have "auction_ok ?lg"
    by (simp add: auction_ok_def auction_log_init_def global_ok_def keyword_view_ok_def
        keyword_slot_ok_def hist_ok_def MAX_AD_SLOT_def)
  then show ?thesis
    using average_cost_bounds [of ?lg 40 "''k ''" ?v 0 70] by simp
qed

text \<open>
  The average cost of an ad over all its slots lies within the costs that were paid for
  it, and is \<open>DEFAULT_CLICK_COST\<close> for an ad with no history or no click.
\<close>

lemma ad_average_cost:
  assumes "auction_ok lg" and "0 \<le> lo"
    and "\<forall>v. ad_history_stat_data lg a = Some v \<longrightarrow>
           (\<forall>s \<in> set v. \<forall>(c, n) \<in> set (keyword_cpc s). lo \<le> c \<and> c \<le> hi)"
  shows "getAdAvgCost lg a = DEFAULT_CLICK_COST \<or> lo \<le> getAdAvgCost lg a \<and> getAdAvgCost lg a \<le> hi"
proof (cases "ad_history_stat_data lg a")
  case None
  then show ?thesis by (simp add: getAdAvgCost_def)
next
  case (Some v)
  let ?n = "sum_list (map (\<lambda>s. hist_num (keyword_cpc s)) v)"
  let ?c = "sum_list (map (\<lambda>s. hist_cost (keyword_cpc s)) v)"
  have "list_all ad_slot_ok v"
    using auction_ok_ad_history [OF assms(1) Some] by (simp add: ad_view_ok_def)
  then have "lo * ?n \<le> ?c \<and> ?c \<le> hi * ?n"
    using assms(3) Some by (intro sum_hist_bounds) auto
  then have "1 \<le> ?n \<Longrightarrow> lo \<le> cdiv ?c ?n \<and> cdiv ?c ?n \<le> hi"
    using assms(2) by (intro cdiv_between) auto
  then show ?thesis using Some by (simp add: getAdAvgCost_def Let_def)
qed

text \<open>
  The two versions of \<open>getKeywordCTR\<close> disagree, and \<open>getKeywordStatData\<close> sides with the
  wrong one: for a keyword with enough searches and fewer clicks than searches at a slot, the
  vector version divides integers and reports a rate of 0, the single-slot version reports
  the positive quotient.
\<close>

lemma keyword_ctr_disagree:
  assumes "keyword_history_stat_data lg k = Some v" and "slot < length (view_info v)"
    and "MIN_SEARCH_NUM \<le> searched_num v" and "searched_num v < 2 ^ 31"
    and "0 < kw_click_num (view_info v ! slot)" and "kw_click_num (view_info v ! slot) < searched_num v"
  shows "getKeywordCTRList lg k ! slot = 0 \<and> snd (snd (getKeywordStatData lg k)) ! slot = 0 \<and>
         getKeywordCTR lg k slot = real_of_int (kw_click_num (view_info v ! slot)) / real_of_int (searched_num v) \<and>
         getKeywordCTR lg k slot > 0"
proof -
  let ?c = "kw_click_num (view_info v ! slot)"
  have "?c mod 2 ^ 64 = ?c" using assms(4-6) by (intro mod_pos_pos_trivial) simp_all
  then have s: "to_size ?c = nat ?c" by (simp add: to_size_def)
  have z: "cdiv ?c (searched_num v) = 0" using assms(5,6) by (simp add: cdiv_nonneg)
  have "getKeywordCTR lg k slot = real_of_int ?c / real_of_int (searched_num v)"
    using assms(1,2,3,5) s by (simp add: getKeywordCTR_def at_slot_def)
  moreover have "getKeywordCTRList lg k ! slot = 0" and "snd (snd (getKeywordStatData lg k)) ! slot = 0"
    using assms(1,2,3) z by (simp_all add: getKeywordCTRList_def getKeywordStatData_def keyword_slot_ctr_int_def)
  ultimately show ?thesis using assms(5,6) by simp
qed

text \<open>
  The default click-through rate is negative for every slot from 14 on, although slots up
  to \<open>MAX_AD_SLOT = 20\<close> are recorded, and positive below; the default cost falls from
  \<open>DEFAULT_CLICK_COST\<close> to 0 and stays within these bounds on all slots.
\<close>

lemma default_rates:
  "(getDefaultCTRForSlot slot < 0 \<longleftrightarrow> 14 \<le> slot) \<and> (getDefaultCTRForSlot slot > 0 \<longleftrightarrow> slot \<le> 13) \<and>
   (slot \<le> MAX_AD_SLOT \<longrightarrow> 0 \<le> getDefaultCostForSlot slot \<and> getDefaultCostForSlot slot \<le> DEFAULT_CLICK_COST) \<and>
   getDefaultCostForSlot 0 = DEFAULT_CLICK_COST \<and> getDefaultCostForSlot MAX_AD_SLOT = 0"
proof -
  have "getDefaultCTRForSlot slot < 0 \<longleftrightarrow> 20 < real slot * (3 / 2)"
    and "getDefaultCTRForSlot slot > 0 \<longleftrightarrow> real slot * (3 / 2) < 20"
    by (simp_all add: getDefaultCTRForSlot_def DEFAULT_AD_CTR_def MAX_AD_SLOT_def field_simps)
  moreover have "20 < real slot * (3 / 2) \<longleftrightarrow> 14 \<le> slot" and "real slot * (3 / 2) < 20 \<longleftrightarrow> slot \<le> 13"
    by linarith+
  ultimately show ?thesis
    using getDefaultCostForSlot_range [of slot]
    by (simp add: getDefaultCostForSlot_def DEFAULT_CLICK_COST_def MAX_AD_SLOT_def cdiv_def)
qed

text \<open>
  The keyword bid landscape lists, once each and whatever the order of traversal, exactly
  the keywords that were searched at least \<open>MIN_SEARCH_NUM\<close> times and clicked, with one
  (cost, rate) pair per slot of their history; the two output vectors are parallel.
\<close>

lemma keyword_landscape_complete:
  assumes "distinct keys" and "set keys = dom (keyword_history_stat_data lg)"
  shows "length (fst (getKeywordBidLandscape keys lg)) = length (snd (getKeywordBidLandscape keys lg)) \<and>
     distinct (fst (getKeywordBidLandscape keys lg)) \<and>
     ((k, l) \<in> set (zip (fst (getKeywordBidLandscape keys lg)) (snd (getKeywordBidLandscape keys lg))) \<longleftrightarrow>
        (\<exists>v. keyword_history_stat_data lg k = Some v \<and> MIN_SEARCH_NUM \<le> searched_num v \<and>
           sum_list (map kw_click_num (view_info v)) \<noteq> 0 \<and>
           l = keyword_landscape v \<and> length l = length (view_info v)))"
  using assms
  by (auto simp: getKeywordBidLandscape_def Let_def zip_map_fst_snd distinct_keyword_rows
      keyword_landscape_rows_iff)

end
