(* ===== verification/QueryStat.thy ===== *)
theory QueryStat
  imports Prelude
begin

text \<open>
  The statistics of one query that every bid strategy of \<open>AdBidStrategy.cpp\<close> takes:
  \<open>AdQueryStatisticInfo\<close> of \<open>AdBidStrategy.h\<close>. Doubles are modelled by reals.
\<close>

record ad_query_stat =
  cpc :: "int list"
  ctr :: "real list"
  impression :: int
  minBid :: int
  bid :: int

definition ad_query_stat0 :: ad_query_stat where
  "ad_query_stat0 = \<lparr>cpc = [], ctr = [], impression = 0, minBid = 1, bid = -1\<rparr>"

text \<open>\<open>std::numeric_limits<double>::epsilon()\<close> and \<open>max()\<close>.\<close>

definition DBL_EPSILON :: real where "DBL_EPSILON = 1 / 2 ^ 52"

definition DBL_MAX :: real where "DBL_MAX = (2 - 1 / 2 ^ 52) * 2 ^ 1023"

definition isZero :: "real \<Rightarrow> bool" where
  "isZero f \<longleftrightarrow> \<bar>f\<bar> < DBL_EPSILON"

lemma isZero_0 [simp]: "isZero 0"
  by (simp add: isZero_def DBL_EPSILON_def)

lemma not_isZero: "\<not> isZero x \<Longrightarrow> x \<noteq> 0"
  by auto

end
