(* ===== verification/RealtimeBid.thy ===== *)
theory RealtimeBid
  imports QueryStat
begin

text \<open>
  The real-time strategies \<open>AdBidStrategy::realtimeBidWithRevenueMax\<close> and
  \<open>realtimeBidWithProfitMax\<close>. The code divides by prices and click rates that may be 0 and
  starts from an efficiency that may overflow, so the doubles here carry the infinities and
  NaN; otherwise arithmetic is that of the reals, and zeros have no sign.
\<close>

section \<open>Doubles with infinities\<close>

datatype dbl = Fin real | PInf | NInf | NaN

fun dless :: "dbl \<Rightarrow> dbl \<Rightarrow> bool" where
  "dless (Fin x) (Fin y) = (x < y)"
| "dless (Fin x) PInf = True"
| "dless NInf (Fin y) = True"
| "dless NInf PInf = True"
| "dless x y = False"

definition dle :: "dbl \<Rightarrow> dbl \<Rightarrow> bool" where
  "dle x y \<longleftrightarrow> dless x y \<or> x = y \<and> x \<noteq> NaN"

definition ddiv :: "real \<Rightarrow> real \<Rightarrow> dbl" where
  "ddiv x y = (if y \<noteq> 0 then Fin (x / y) else if x > 0 then PInf else if x < 0 then NInf else NaN)"

fun dmap :: "(real \<Rightarrow> real) \<Rightarrow> dbl \<Rightarrow> dbl" where
  "dmap f (Fin x) = Fin (f x)"
| "dmap f d = d"

text \<open>\<open>pow\<close> for a finite base or for an infinite one.\<close>

fun dpow :: "dbl \<Rightarrow> real \<Rightarrow> dbl" where
  "dpow (Fin b) z =
     (if b > 0 then Fin (b powr z)
      else if z = 0 then Fin 1
      else if b = 0 then (if z > 0 then Fin 0 else PInf)
      else if real_of_int \<lfloor>z\<rfloor> = z then Fin (b powi \<lfloor>z\<rfloor>) else NaN)"
| "dpow PInf z = (if z > 0 then PInf else if z = 0 then Fin 1 else Fin 0)"
| "dpow d z = NaN"

text \<open>Conversion to \<open>int\<close>: undefined for NaN, the infinities and values out of range.\<close>

fun dbl_to_int :: "dbl \<Rightarrow> int option" where
  "dbl_to_int (Fin x) = (if - (2 ^ 31) \<le> to_int x \<and> to_int x < 2 ^ 31 then Some (to_int x) else None)"
| "dbl_to_int d = None"

definition vpc_over :: "int \<Rightarrow> dbl \<Rightarrow> dbl" where
  "vpc_over vpc eff =
     (case eff of Fin e \<Rightarrow> ddiv (real_of_int vpc) (1 + e) | NaN \<Rightarrow> NaN | _ \<Rightarrow> Fin 0)"

section \<open>The strategies\<close>

definition E_const :: real where "E_const = 271828 / 100000"
definition MINEFF :: real where "MINEFF = 1 / 10"

text \<open>\<open>U * E\<close>: without a positive minimal bid \<open>U\<close> is the largest double and the product overflows.\<close>

definition start_base :: "(real \<Rightarrow> real) \<Rightarrow> int \<Rightarrow> int \<Rightarrow> dbl" where
  "start_base f vpc minB = (if minB > 0 then Fin (f (real_of_int vpc / real_of_int minB)) else PInf)"

definition available :: "int \<Rightarrow> int \<Rightarrow> real \<Rightarrow> dbl" where
  "available budgetLeft imp r = ddiv (real_of_int budgetLeft) (r * real_of_int imp)"

text \<open>The first loop: lower the efficiency to that of every affordable slot.\<close>

fun lower_eff :: "(int \<Rightarrow> dbl) \<Rightarrow> int \<Rightarrow> int \<Rightarrow> (int \<times> real) list \<Rightarrow> dbl \<Rightarrow> dbl" where
  "lower_eff myeff budgetLeft imp [] eff = eff"
| "lower_eff myeff budgetLeft imp ((c, r) # slots) eff =
     (if dless (myeff c) eff \<and> dle (Fin (real_of_int c)) (available budgetLeft imp r)
      then lower_eff myeff budgetLeft imp slots (myeff c)
      else lower_eff myeff budgetLeft imp slots eff)"

definition revenue_eff :: "int \<Rightarrow> int \<Rightarrow> dbl" where
  "revenue_eff vpc c = ddiv (real_of_int vpc) (real_of_int c)"

definition profit_eff :: "int \<Rightarrow> int \<Rightarrow> dbl" where
  "profit_eff vpc c = dmap (\<lambda>x. x - 1) (ddiv (real_of_int vpc) (real_of_int c))"

definition revenue_start :: "int \<Rightarrow> int \<Rightarrow> int \<Rightarrow> int \<Rightarrow> dbl" where
  "revenue_start vpc minB budgetUsed budget =
     dmap (\<lambda>x. x / E_const)
       (dpow (start_base (\<lambda>U. U * E_const) vpc minB) (real_of_int budgetUsed / real_of_int budget))"

definition realtimeBidWithRevenueMax :: "ad_query_stat \<Rightarrow> int \<Rightarrow> int \<Rightarrow> int \<Rightarrow> int option" where
  "realtimeBidWithRevenueMax q budgetUsed budgetLeft vpc =
     (let budget = budgetLeft + budgetUsed
      in if budget \<le> 0 \<or> cpc q = [] then Some 0
         else if length (ctr q) < length (cpc q) then None
         else (let eff = lower_eff (revenue_eff vpc) budgetLeft (impression q) (zip (cpc q) (ctr q))
                          (revenue_start vpc (minBid q) budgetUsed budget)
               in case List.find (\<lambda>c. dle eff (revenue_eff vpc c)) (cpc q) of
                    Some c \<Rightarrow> Some c
                  | None \<Rightarrow> dbl_to_int (vpc_over vpc eff)))"

definition profit_start :: "int \<Rightarrow> int \<Rightarrow> int \<Rightarrow> int \<Rightarrow> dbl" where
  "profit_start vpc minB budgetUsed budget =
     dmap (\<lambda>x. x * MINEFF / E_const)
       (dpow (start_base (\<lambda>U. (U - 1) * E_const / MINEFF) vpc minB)
          (real_of_int budgetUsed / real_of_int budget))"

text \<open>The second loop of the profit strategy: the most profitable efficient slot.\<close>

fun best_profit :: "int \<Rightarrow> dbl \<Rightarrow> (int \<times> real) list \<Rightarrow> real \<Rightarrow> int option \<Rightarrow> int option" where
  "best_profit vpc eff [] maxV best = best"
| "best_profit vpc eff ((c, r) # slots) maxV best =
     (let myV = real_of_int (vpc - c) * r
      in if dle eff (profit_eff vpc c) \<and> myV > maxV
         then best_profit vpc eff slots myV (Some c)
         else best_profit vpc eff slots maxV best)"

definition realtimeBidWithProfitMax :: "ad_query_stat \<Rightarrow> int \<Rightarrow> int \<Rightarrow> int \<Rightarrow> int option" where
  "realtimeBidWithProfitMax q budgetUsed budgetLeft vpc =
     (let budget = budgetLeft + budgetUsed
      in if budget \<le> 0 \<or> cpc q = [] then Some 0
         else if length (ctr q) < length (cpc q) then None
         else (let eff = lower_eff (profit_eff vpc) budgetLeft (impression q) (zip (cpc q) (ctr q))
                          (profit_start vpc (minBid q) budgetUsed budget)
               in case best_profit vpc eff (zip (cpc q) (ctr q)) (-1) None of
                    Some c \<Rightarrow> Some c
                  | None \<Rightarrow> dbl_to_int (vpc_over vpc eff)))"

section \<open>Efficiency\<close>

lemma dless_trans [trans]: "dless x y \<Longrightarrow> dless y z \<Longrightarrow> dless x z"
  by (cases x; cases y; cases z) auto

lemma dle_dless_trans: "dle x y \<Longrightarrow> dless y z \<Longrightarrow> dless x z"
  by (auto simp: dle_def intro: dless_trans)

lemma not_dless: "x \<noteq> NaN \<Longrightarrow> y \<noteq> NaN \<Longrightarrow> \<not> dless x y \<longleftrightarrow> dle y x"
  by (cases x; cases y) (auto simp: dle_def)

lemma dle_trans: "dle x y \<Longrightarrow> dle y z \<Longrightarrow> dle x z"
  by (auto simp: dle_def intro: dless_trans)

lemma dle_Fin [simp]: "dle (Fin x) (Fin y) \<longleftrightarrow> x \<le> y"
  by (auto simp: dle_def)

definition affordable :: "int \<Rightarrow> int \<Rightarrow> int \<times> real \<Rightarrow> bool" where
  "affordable b imp s \<longleftrightarrow> dle (Fin (real_of_int (fst s))) (available b imp (snd s))"

text \<open>The first loop computes the least of the start value and the affordable efficiencies.\<close>

definition least_eff :: "(int \<Rightarrow> dbl) \<Rightarrow> int \<Rightarrow> int \<Rightarrow> (int \<times> real) list \<Rightarrow> dbl \<Rightarrow> dbl \<Rightarrow> bool" where
  "least_eff myeff b imp slots eff e \<longleftrightarrow>
     dle e eff \<and> (\<forall>s \<in> set slots. affordable b imp s \<longrightarrow> dle e (myeff (fst s))) \<and>
     (e = eff \<or> (\<exists>s \<in> set slots. affordable b imp s \<and> e = myeff (fst s)))"

lemma lower_eff_least:
  "eff \<noteq> NaN \<Longrightarrow> \<forall>s \<in> set slots. myeff (fst s) \<noteq> NaN \<Longrightarrow>
   least_eff myeff b imp slots eff (lower_eff myeff b imp slots eff)"
proof (induction slots arbitrary: eff)
  case Nil
  then show ?case by (simp add: least_eff_def dle_def)
next
  case (Cons s slots)
  obtain c r where s: "s = (c, r)" by (cases s)
  have c: "myeff c \<noteq> NaN" using Cons.prems(2) by (simp add: s)
  show ?case
  proof (cases "dless (myeff c) eff \<and> dle (Fin (real_of_int c)) (available b imp r)")
    case True
    then have "least_eff myeff b imp slots (myeff c) (lower_eff myeff b imp slots (myeff c))"
      using Cons.IH [OF c] Cons.prems(2) by simp
    with True show ?thesis
      by (auto simp: least_eff_def s affordable_def dle_def [of "myeff c"] intro: dle_trans)
  next
    case False
    have ih: "least_eff myeff b imp slots eff (lower_eff myeff b imp slots eff)"
      using Cons by simp
    have "dle eff (myeff c)" if "affordable b imp s"
      using False that not_dless [OF c Cons.prems(1)] by (auto simp: affordable_def s)
    with ih False show ?thesis
      by (auto simp: least_eff_def s affordable_def intro: dle_trans)
  qed
qed

lemma affordable_iff:
  "0 < snd s \<Longrightarrow> 0 < imp \<Longrightarrow>
   affordable b imp s \<longleftrightarrow> real_of_int (fst s) * (snd s * real_of_int imp) \<le> real_of_int b"
  by (simp add: affordable_def available_def ddiv_def pos_le_divide_eq)

definition slots_ok :: "ad_query_stat \<Rightarrow> bool" where
  "slots_ok q \<longleftrightarrow> length (cpc q) = length (ctr q) \<and> cpc q \<noteq> [] \<and> (\<forall>c \<in> set (cpc q). 0 < c) \<and>
     (\<forall>r \<in> set (ctr q). 0 < r) \<and> 0 < impression q \<and> 0 < minBid q"

lemma slots_ok_zip:
  "slots_ok q \<Longrightarrow> s \<in> set (zip (cpc q) (ctr q)) \<Longrightarrow> 0 < fst s \<and> 0 < snd s"
  by (cases s) (auto simp: slots_ok_def dest: set_zip_leftD set_zip_rightD)

text \<open>The same over the reals: the threshold of a well-formed query.\<close>

definition threshold :: "(int \<Rightarrow> real) \<Rightarrow> ad_query_stat \<Rightarrow> int \<Rightarrow> real \<Rightarrow> real \<Rightarrow> bool" where
  "threshold eff_of q budgetLeft start e \<longleftrightarrow>
     e \<le> start \<and>
     (\<forall>(c, r) \<in> set (zip (cpc q) (ctr q)).
        real_of_int c * (r * real_of_int (impression q)) \<le> real_of_int budgetLeft \<longrightarrow> e \<le> eff_of c) \<and>
     (e = start \<or> (\<exists>c \<in> set (cpc q). e = eff_of c))"

lemma threshold_lower_eff:
  assumes "slots_ok q" and "\<And>c. 0 < c \<Longrightarrow> myeff c = Fin (eff_of c)"
  obtains e where "lower_eff myeff b (impression q) (zip (cpc q) (ctr q)) (Fin start) = Fin e"
    and "threshold eff_of q b start e"
proof -
  let ?z = "zip (cpc q) (ctr q)"
  let ?l = "lower_eff myeff b (impression q) ?z (Fin start)"
  have m: "myeff (fst s) = Fin (eff_of (fst s))" if "s \<in> set ?z" for s
    using slots_ok_zip [OF assms(1) that] assms(2) by simp
  have l: "least_eff myeff b (impression q) ?z (Fin start) ?l"
    using m by (intro lower_eff_least) auto
  then obtain e where e: "?l = Fin e" using m by (auto simp: least_eff_def)
  have aff: "affordable b (impression q) s \<longleftrightarrow>
      real_of_int (fst s) * (snd s * real_of_int (impression q)) \<le> real_of_int b" if "s \<in> set ?z" for s
    using slots_ok_zip [OF assms(1) that] assms(1) by (intro affordable_iff) (auto simp: slots_ok_def)
  have "e = start \<or> (\<exists>c \<in> set (cpc q). e = eff_of c)"
    using l m by (auto simp: least_eff_def e dest: set_zip_leftD)
  moreover have "e \<le> start" using l by (simp add: least_eff_def e)
  moreover have "e \<le> eff_of (fst s)"
    if "s \<in> set ?z" "real_of_int (fst s) * (snd s * real_of_int (impression q)) \<le> real_of_int b" for s
  proof -
    have "dle (Fin e) (myeff (fst s))" using l aff [OF that(1)] that by (simp add: least_eff_def e)
    then show ?thesis by (simp add: m [OF that(1)])
  qed
  ultimately have "threshold eff_of q b start e" by (auto simp: threshold_def)
  with e show thesis using that by blast
qed

definition profit_of :: "int \<Rightarrow> int \<times> real \<Rightarrow> real" where
  "profit_of vpc s = real_of_int (vpc - fst s) * snd s"

lemma best_profit_Cons:
  "profit_eff vpc (fst s) = Fin x \<Longrightarrow> best_profit vpc (Fin e) (s # slots) maxV best =
     (if e \<le> x \<and> profit_of vpc s > maxV then best_profit vpc (Fin e) slots (profit_of vpc s) (Some (fst s))
      else best_profit vpc (Fin e) slots maxV best)"
  by (cases s) (simp add: profit_of_def Let_def del: of_int_diff)

text \<open>The second loop finds the largest profit above its start value.\<close>

lemma best_profit_max:
  assumes "\<forall>s \<in> set slots. profit_eff vpc (fst s) = Fin (eff_of (fst s))"
  shows "(best_profit vpc (Fin e) slots maxV best = best \<and>
      (\<forall>t \<in> set slots. e \<le> eff_of (fst t) \<longrightarrow> profit_of vpc t \<le> maxV)) \<or>
    (\<exists>s \<in> set slots. best_profit vpc (Fin e) slots maxV best = Some (fst s) \<and> e \<le> eff_of (fst s) \<and>
       maxV < profit_of vpc s \<and>
       (\<forall>t \<in> set slots. e \<le> eff_of (fst t) \<longrightarrow> profit_of vpc t \<le> profit_of vpc s))"
  using assms
proof (induction slots arbitrary: maxV best)
  case (Cons s slots)
  have m: "profit_eff vpc (fst s) = Fin (eff_of (fst s))" and ms: "\<forall>s \<in> set slots. profit_eff vpc (fst s) = Fin (eff_of (fst s))"
    using Cons.prems by auto
  note unfold = best_profit_Cons [OF m, of e slots maxV best]
  show ?case
  proof (cases "e \<le> eff_of (fst s) \<and> profit_of vpc s > maxV")
    case True
    have eq: "best_profit vpc (Fin e) (s # slots) maxV best =
        best_profit vpc (Fin e) slots (profit_of vpc s) (Some (fst s))" using unfold True by simp
    from Cons.IH [OF ms, of "profit_of vpc s" "Some (fst s)"] show ?thesis
    proof (elim disjE bexE conjE, goal_cases)
      case 1
      then show ?thesis using True unfolding eq by auto
    next
      case (2 t)
      then show ?thesis using True unfolding eq by (intro disjI2 bexI [of _ t]) auto
    qed
  next
    case False
    have eq: "best_profit vpc (Fin e) (s # slots) maxV best = best_profit vpc (Fin e) slots maxV best"
      using unfold False by simp
    from Cons.IH [OF ms, of maxV best] show ?thesis
    proof (elim disjE bexE conjE, goal_cases)
      case 1
      then show ?thesis using False unfolding eq by auto
    next
      case (2 t)
      then show ?thesis using False unfolding eq by (intro disjI2 bexI [of _ t]) auto
    qed
  qed
qed simp

section \<open>Properties\<close>

text \<open>
  \<open>realtimeBidWithRevenueMax\<close> on a well-formed query with a budget: there is a threshold
  efficiency, the least of the start value \<open>(U E) ^ z / E\<close> and of the efficiencies \<open>vpc / cpc\<close>
  of the slots whose expected cost the remaining budget covers, and the bid is the price of
  the first slot at least that efficient, or \<open>vpc / (1 + threshold)\<close> rounded down when there is
  none. Whenever the budget covers some slot the bid is a slot price.
\<close>

lemma revenue_bid:
  assumes "slots_ok q" and "0 < budgetLeft + budgetUsed" and "0 < vpc" and "vpc < 2 ^ 31"
  shows "\<exists>e. threshold (\<lambda>c. real_of_int vpc / real_of_int c) q budgetLeft
      ((real_of_int vpc / real_of_int (minBid q) * E_const)
          powr (real_of_int budgetUsed / real_of_int (budgetLeft + budgetUsed)) / E_const) e \<and>
    realtimeBidWithRevenueMax q budgetUsed budgetLeft vpc =
      Some (case List.find (\<lambda>c. e \<le> real_of_int vpc / real_of_int c) (cpc q) of
              Some c \<Rightarrow> c | None \<Rightarrow> \<lfloor>real_of_int vpc / (1 + e)\<rfloor>)"
proof -
  let ?f = "\<lambda>c. real_of_int vpc / real_of_int c"
  let ?z = "real_of_int budgetUsed / real_of_int (budgetLeft + budgetUsed)"
  let ?b = "real_of_int vpc / real_of_int (minBid q) * E_const"
  have mb: "0 < minBid q" and cpos: "\<And>c. c \<in> set (cpc q) \<Longrightarrow> 0 < c" using assms(1) by (auto simp: slots_ok_def)
  have b: "0 < ?b" using mb assms(3) by (simp add: E_const_def)
  have st: "revenue_start vpc (minBid q) budgetUsed (budgetLeft + budgetUsed) = Fin (?b powr ?z / E_const)"
    using b mb by (simp add: revenue_start_def start_base_def)
  have eff: "revenue_eff vpc c = Fin (?f c)" if "0 < c" for c
    using that by (simp add: revenue_eff_def ddiv_def)
  obtain e where e: "lower_eff (revenue_eff vpc) budgetLeft (impression q) (zip (cpc q) (ctr q)) (Fin (?b powr ?z / E_const)) = Fin e"
    and t: "threshold ?f q budgetLeft (?b powr ?z / E_const) e"
    by (rule threshold_lower_eff [OF assms(1), of "revenue_eff vpc" ?f]) (rule eff)
  have "0 < ?b powr ?z / E_const" using mb assms(3) by (simp add: E_const_def)
  then have "0 < e" using t cpos assms(3) by (auto simp: threshold_def)
  then have q: "0 \<le> real_of_int vpc / (1 + e)" "real_of_int vpc / (1 + e) \<le> real_of_int vpc"
    using assms(3) by (simp_all add: divide_le_eq mult_left_mono)
  then have "0 \<le> \<lfloor>real_of_int vpc / (1 + e)\<rfloor>" "\<lfloor>real_of_int vpc / (1 + e)\<rfloor> \<le> vpc"
    by (simp_all add: floor_le_iff)
  with assms(4) have "dbl_to_int (vpc_over vpc (Fin e)) = Some \<lfloor>real_of_int vpc / (1 + e)\<rfloor>"
    using \<open>0 < e\<close> q by (simp add: vpc_over_def ddiv_def to_int_def)
  moreover have "List.find (\<lambda>c. dle (Fin e) (revenue_eff vpc c)) (cpc q) = List.find (\<lambda>c. e \<le> ?f c) (cpc q)"
    using cpos eff by (intro find_cong) simp_all
  ultimately show ?thesis
    using t e st assms(1,2)
    by (intro exI [of _ e]) (simp add: realtimeBidWithRevenueMax_def slots_ok_def Let_def split: option.splits)
qed



end
