(* ===== verification/Knapsack.thy ===== *)
theory Knapsack
  imports Prelude
begin

text \<open>
  The multiple-choice knapsack solvers of \<open>AdBidStrategy.cpp\<close>: \<open>enumKPRecursive\<close> and
  \<open>enumKP\<close> (exhaustive enumeration) and \<open>dpKP\<close> (dynamic programming over the integer
  budget). A keyword contributes one row of weights (expected cost at each ad position) and
  one row of values (expected clicks); a solution picks at most one position per keyword,
  \<open>-1\<close> for none.
\<close>

type_synonym kp_row = "real list \<times> real list"

section \<open>Solutions\<close>

text \<open>The specification: what a solution selects, weighs and is worth.\<close>

definition pick :: "real list \<Rightarrow> int \<Rightarrow> real" where
  "pick xs s = (if s = -1 then 0 else xs ! nat s)"

fun kp_sol :: "kp_row list \<Rightarrow> int list \<Rightarrow> bool" where
  "kp_sol [] sol = (sol = [])"
| "kp_sol ((w, v) # rows) [] = False"
| "kp_sol ((w, v) # rows) (s # sol) =
     ((s = -1 \<or> 0 \<le> s \<and> nat s < length w) \<and> kp_sol rows sol)"

fun kp_weight :: "kp_row list \<Rightarrow> int list \<Rightarrow> real" where
  "kp_weight ((w, v) # rows) (s # sol) = pick w s + kp_weight rows sol"
| "kp_weight rows sol = 0"

fun kp_value :: "kp_row list \<Rightarrow> int list \<Rightarrow> real" where
  "kp_value ((w, v) # rows) (s # sol) = pick v s + kp_value rows sol"
| "kp_value rows sol = 0"

definition kp_rows_ok :: "kp_row list \<Rightarrow> bool" where
  "kp_rows_ok rows \<longleftrightarrow> (\<forall>(w, v) \<in> set rows. length v = length w \<and> (\<forall>x \<in> set w. 0 \<le> x))"

section \<open>Exhaustive enumeration\<close>

text \<open>
  \<open>enumKPRecursive\<close>: \<open>best\<close> is the pair of references \<open>maxValue\<close>, \<open>maxSol\<close>; first the branch
  that skips the keyword, then one branch per affordable position.
\<close>

fun enumKPRecursive ::
  "kp_row list \<Rightarrow> nat \<Rightarrow> int list \<Rightarrow> real \<Rightarrow> real \<Rightarrow> real \<times> int list \<Rightarrow> real \<times> int list" where
  "enumKPRecursive [] i curSol leftB curValue best =
     (if curValue > fst best then (curValue, curSol) else best)"
| "enumKPRecursive ((w, v) # rows) i curSol leftB curValue best =
     fold (\<lambda>j best.
         if leftB \<ge> w ! j
         then enumKPRecursive rows (Suc i) (curSol[i := int j]) (leftB - w ! j) (curValue + v ! j) best
         else best)
       [0..<length w]
       (enumKPRecursive rows (Suc i) (curSol[i := -1]) leftB curValue best)"

definition enumKP :: "kp_row list \<Rightarrow> int \<Rightarrow> int list" where
  "enumKP rows B =
     snd (enumKPRecursive rows 0 (replicate (length rows) (-1)) (real_of_int B) 0
            (0, replicate (length rows) (-1)))"

section \<open>Dynamic programming\<close>

text \<open>
  One cell of the table: the loop over the positions of keyword \<open>i\<close> at capacity \<open>v\<close>. The
  subscript \<open>F[v - W[i][j]]\<close> converts a \<open>double\<close> to an index, which truncates; an index
  outside the table is undefined behaviour, here \<open>None\<close>.
\<close>

fun dp_cell :: "real list \<Rightarrow> nat \<Rightarrow> (real \<times> real) list \<Rightarrow> nat \<Rightarrow> real \<times> int \<Rightarrow> (real \<times> int) option" where
  "dp_cell F v [] j best = Some best"
| "dp_cell F v ((w, x) # items) j (maxF, maxI) =
     (if real v \<ge> w
      then (case vec_at F (nat (to_int (real v - w))) of
              None \<Rightarrow> None
            | Some f \<Rightarrow>
                (let myF = f + x
                 in if myF > maxF then dp_cell F v items (Suc j) (myF, int j)
                    else dp_cell F v items (Suc j) (maxF, maxI)))
      else dp_cell F v items (Suc j) (maxF, maxI))"

text \<open>One keyword: \<open>v\<close> runs from \<open>B\<close> down to 0 and \<open>F[v]\<close> is overwritten in place.\<close>

fun dp_row :: "kp_row \<Rightarrow> nat \<Rightarrow> real list \<Rightarrow> int list \<Rightarrow> (real list \<times> int list) option" where
  "dp_row (w, x) v F S =
     (case dp_cell F v (zip w x) 0 (F ! v, -1) of
        None \<Rightarrow> None
      | Some (maxF, maxI) \<Rightarrow>
          (if v = 0 then Some (F[v := maxF], S[v := maxI])
           else dp_row (w, x) (v - 1) (F[v := maxF]) (S[v := maxI])))"

declare dp_row.simps [simp del]

fun dp_table :: "kp_row list \<Rightarrow> nat \<Rightarrow> real list \<Rightarrow> (int list list) option" where
  "dp_table [] B F = Some []"
| "dp_table (r # rows) B F =
     (case dp_row r B F (replicate (B + 1) 0) of
        None \<Rightarrow> None
      | Some (F', S) \<Rightarrow> (case dp_table rows B F' of None \<Rightarrow> None | Some T \<Rightarrow> Some (S # T)))"

text \<open>
  Reading the solution back runs from the last keyword to the first, so the rows and their
  tables are given in reverse order; the result is the solution in reverse.
\<close>

fun dp_solution :: "(kp_row \<times> int list) list \<Rightarrow> int \<Rightarrow> int list" where
  "dp_solution [] v = []"
| "dp_solution (((w, x), S) # rest) v =
     (let s = S ! nat v
      in s # dp_solution rest (if s \<noteq> -1 then to_int (real_of_int v - w ! nat s) else v))"

definition dpKP :: "kp_row list \<Rightarrow> nat \<Rightarrow> int list option" where
  "dpKP rows B =
     (case dp_table rows B (replicate (B + 1) 0) of
        None \<Rightarrow> None
      | Some T \<Rightarrow> Some (rev (dp_solution (rev (zip rows T)) (int B))))"

section \<open>Enumeration is exhaustive\<close>

text \<open>
  What one call of \<open>enumKPRecursive\<close> achieves: it never loses the best solution so far, it
  considers every affordable selection for the remaining keywords, and what it returns is
  the old best or one of these selections. The same three facts describe the inner loop.
\<close>

definition improves ::
  "(real \<times> int list \<Rightarrow> bool) \<Rightarrow> real \<times> int list \<Rightarrow> real \<times> int list \<Rightarrow> bool" where
  "improves cand best best' \<longleftrightarrow>
     fst best \<le> fst best' \<and> (best' = best \<or> cand best') \<and> (\<forall>c. cand c \<longrightarrow> fst c \<le> fst best')"

lemma improves_step:
  "improves c1 best best' \<Longrightarrow> improves c2 best' best'' \<Longrightarrow> improves (\<lambda>c. c1 c \<or> c2 c) best best''"
  by (auto simp: improves_def)

lemma improves_none: "(\<And>c. \<not> cand c) \<Longrightarrow> improves cand best best"
  by (simp add: improves_def)

lemma improves_fold:
  "(\<And>j best. j \<in> set js \<Longrightarrow> improves (cand j) best (f j best)) \<Longrightarrow>
   improves (\<lambda>c. \<exists>j \<in> set js. cand j c) best (fold f js best)"
proof (induction js arbitrary: best)
  case Nil
  then show ?case by (simp add: improves_def)
next
  case (Cons j js)
  have "improves (cand j) best (f j best)" using Cons.prems by simp
  moreover have "improves (\<lambda>c. \<exists>j \<in> set js. cand j c) (f j best) (fold f js (f j best))"
    using Cons by simp
  ultimately have "improves (\<lambda>c. cand j c \<or> (\<exists>j \<in> set js. cand j c)) best (fold f js (f j best))"
    by (rule improves_step)
  then show ?case by simp
qed

lemma improves_cong: "(\<And>c. cand c \<longleftrightarrow> cand' c) \<Longrightarrow> improves cand best best' \<Longrightarrow> improves cand' best best'"
  by (simp add: improves_def)

text \<open>The candidates below a node: complete the current selection affordably.\<close>

definition kp_cand :: "kp_row list \<Rightarrow> nat \<Rightarrow> int list \<Rightarrow> real \<Rightarrow> real \<Rightarrow> real \<times> int list \<Rightarrow> bool" where
  "kp_cand rows i cur left val c \<longleftrightarrow>
     (\<exists>sol. kp_sol rows sol \<and> kp_weight rows sol \<le> left \<and>
        c = (val + kp_value rows sol, take i cur @ sol))"

lemma kp_weight_nonneg: "kp_rows_ok rows \<Longrightarrow> kp_sol rows sol \<Longrightarrow> 0 \<le> kp_weight rows sol"
proof (induction rows sol rule: kp_sol.induct)
  case (3 w v rows s sol)
  then have "0 \<le> pick w s" by (auto simp: pick_def kp_rows_ok_def)
  with 3 show ?case by (simp add: kp_rows_ok_def)
qed simp_all

lemma kp_sol_Cons:
  "kp_sol ((w, v) # rows) sol \<longleftrightarrow>
     (\<exists>s sol'. sol = s # sol' \<and> (s = -1 \<or> (\<exists>j < length w. s = int j)) \<and> kp_sol rows sol')"
  by (cases sol) (auto intro!: exI [of _ "nat _"])

lemma kp_cand_Cons:
  assumes "kp_rows_ok ((w, v) # rows)" and "i < length cur"
  shows "kp_cand ((w, v) # rows) i cur left val c \<longleftrightarrow>
     kp_cand rows (Suc i) (cur[i := -1]) left val c \<or>
     (\<exists>j \<in> set [0..<length w]. left \<ge> w ! j \<and>
        kp_cand rows (Suc i) (cur[i := int j]) (left - w ! j) (val + v ! j) c)"
proof -
  have t: "take (Suc i) (cur[i := s]) = take i cur @ [s]" for s
    using assms(2) by (simp add: take_Suc_conv_app_nth)
  have ok: "kp_rows_ok rows" using assms(1) by (simp add: kp_rows_ok_def)
  have nn: "0 \<le> kp_weight rows sol" if "kp_sol rows sol" for sol
    using kp_weight_nonneg [OF ok that] .
  show ?thesis
    unfolding kp_cand_def kp_sol_Cons t
    by (fastforce simp: pick_def add.assoc dest: nn)
qed

lemma enumKPRecursive_improves:
  assumes "kp_rows_ok rows" and "i + length rows = length cur" and "0 \<le> left"
  shows "improves (kp_cand rows i cur left val) best (enumKPRecursive rows i cur left val best)"
  using assms
proof (induction rows arbitrary: i cur left val best)
  case Nil
  then show ?case by (auto simp: improves_def kp_cand_def)
next
  case (Cons r rows)
  obtain w v where r: "r = (w, v)" by (cases r)
  let ?skip = "enumKPRecursive rows (Suc i) (cur[i := -1]) left val best"
  let ?f = "\<lambda>j best. if left \<ge> w ! j
      then enumKPRecursive rows (Suc i) (cur[i := int j]) (left - w ! j) (val + v ! j) best else best"
  let ?cand = "\<lambda>j c. left \<ge> w ! j \<and> kp_cand rows (Suc i) (cur[i := int j]) (left - w ! j) (val + v ! j) c"
  have ok: "kp_rows_ok rows" and i: "i < length cur" and l: "Suc i + length rows = length (cur[i := s])" for s
    using Cons.prems by (auto simp: kp_rows_ok_def)
  have "improves (kp_cand rows (Suc i) (cur[i := -1]) left val) best ?skip"
    using Cons.IH [OF ok l Cons.prems(3)] .
  moreover have "improves (\<lambda>c. \<exists>j \<in> set [0..<length w]. ?cand j c) ?skip (fold ?f [0..<length w] ?skip)"
  proof (rule improves_fold)
    fix j b
    show "improves (?cand j) b (?f j b)"
      using Cons.IH [OF ok l, of "left - w ! j"] by (auto simp: improves_none)
  qed
  ultimately have "improves (\<lambda>c. kp_cand rows (Suc i) (cur[i := -1]) left val c \<or>
      (\<exists>j \<in> set [0..<length w]. ?cand j c)) best (fold ?f [0..<length w] ?skip)"
    by (rule improves_step)
  then show ?case
    unfolding r enumKPRecursive.simps
    by (rule improves_cong [rotated]) (rule kp_cand_Cons [OF Cons.prems(1) [unfolded r] i, symmetric])
qed

lemma kp_skip_all:
  "kp_sol rows (replicate (length rows) (-1))"
  "kp_weight rows (replicate (length rows) (-1)) = 0"
  "kp_value rows (replicate (length rows) (-1)) = 0"
  by (induction rows) (auto simp: pick_def)

section \<open>The table is filled from the old row\<close>

text \<open>With non-negative weights the subscripts are those of the weights rounded up.\<close>

definition cw :: "real \<Rightarrow> nat" where
  "cw w = nat \<lceil>w\<rceil>"

lemma cw_le: "0 \<le> w \<Longrightarrow> w \<le> real v \<longleftrightarrow> cw w \<le> v"
  by (simp add: cw_def ceiling_le_iff nat_le_iff)

lemma cw_ge: "w \<le> real (cw w)"
  unfolding cw_def by linarith

lemma cw_index: "0 \<le> w \<Longrightarrow> w \<le> real v \<Longrightarrow> to_int (real v - w) = int (v - cw w)"
proof -
  assume w: "0 \<le> w" "w \<le> real v"
  then have "cw w \<le> v" by (simp add: cw_le)
  moreover have "\<lfloor>real v - w\<rfloor> = int v - \<lceil>w\<rceil>"
    by (simp add: floor_eq_iff) linarith
  moreover have "0 \<le> \<lceil>w\<rceil>" using w by simp
  ultimately show "to_int (real v - w) = int (v - cw w)"
    using w by (simp add: to_int_nonneg cw_def of_nat_diff)
qed

lemma cw_subscript: "0 \<le> w \<Longrightarrow> w \<le> real v \<Longrightarrow> nat (to_int (real v - w)) = v - cw w"
  by (simp add: cw_index)

text \<open>The result of a cell: the old value, or the best entry that an affordable position gives.\<close>

definition cell_ok :: "real list \<Rightarrow> nat \<Rightarrow> (real \<times> real) list \<Rightarrow> nat \<Rightarrow> real \<times> int \<Rightarrow> real \<times> int \<Rightarrow> bool" where
  "cell_ok F v items j b b' \<longleftrightarrow>
     fst b \<le> fst b' \<and>
     (b' = b \<or> (\<exists>k < length items. cw (fst (items ! k)) \<le> v \<and>
        b' = (F ! (v - cw (fst (items ! k))) + snd (items ! k), int (j + k)))) \<and>
     (\<forall>k < length items. cw (fst (items ! k)) \<le> v \<longrightarrow>
        F ! (v - cw (fst (items ! k))) + snd (items ! k) \<le> fst b')"

lemma cell_ok_Cons:
  assumes "cell_ok F v items (Suc j) bm b'" and "fst b \<le> fst bm"
    and "bm = b \<or> cw w \<le> v \<and> bm = (F ! (v - cw w) + x, int j)"
    and "cw w \<le> v \<longrightarrow> F ! (v - cw w) + x \<le> fst bm"
  shows "cell_ok F v ((w, x) # items) j b b'"
proof -
  have "b' = b \<or> (\<exists>k < length ((w, x) # items). cw (fst (((w, x) # items) ! k)) \<le> v \<and>
        b' = (F ! (v - cw (fst (((w, x) # items) ! k))) + snd (((w, x) # items) ! k), int (j + k)))"
  proof (cases "b' = bm")
    case True
    with assms(3) show ?thesis by force
  next
    case False
    with assms(1) obtain k where "k < length items" "cw (fst (items ! k)) \<le> v"
      "b' = (F ! (v - cw (fst (items ! k))) + snd (items ! k), int (Suc j + k))"
      by (auto simp: cell_ok_def)
    then show ?thesis by (intro disjI2 exI [of _ "Suc k"]) simp
  qed
  moreover have "\<forall>k < length ((w, x) # items). cw (fst (((w, x) # items) ! k)) \<le> v \<longrightarrow>
        F ! (v - cw (fst (((w, x) # items) ! k))) + snd (((w, x) # items) ! k) \<le> fst b'"
    using assms(1,4) by (auto simp: cell_ok_def nth_Cons split: nat.splits)
  moreover have "fst b \<le> fst b'" using assms(1,2) by (auto simp: cell_ok_def)
  ultimately show ?thesis by (simp add: cell_ok_def)
qed

lemma dp_cell_ok:
  assumes "\<forall>(w, x) \<in> set items. 0 \<le> w" and "v < length F"
  shows "\<exists>b'. dp_cell F v items j b = Some b' \<and> cell_ok F v items j b b'"
  using assms
proof (induction F v items j b rule: dp_cell.induct)
  case (1 F v j best)
  then show ?case by (simp add: cell_ok_def)
next
  case (2 F v w x items j maxF maxI)
  have w: "0 \<le> w" and it: "\<forall>(w, x) \<in> set items. 0 \<le> w" and v: "v < length F" using "2.prems" by auto
  show ?case
  proof (cases "w \<le> real v")
    case True
    with w have c: "cw w \<le> v" by (simp add: cw_le)
    have f: "vec_at F (nat (to_int (real v - w))) = Some (F ! (v - cw w))"
      using True w v by (simp add: cw_subscript vec_at_def)
    show ?thesis
    proof (cases "F ! (v - cw w) + x > maxF")
      case gt: True
      then obtain b' where "dp_cell F v items (Suc j) (F ! (v - cw w) + x, int j) = Some b'"
        and "cell_ok F v items (Suc j) (F ! (v - cw w) + x, int j) b'"
        using "2.IH"(1) [OF True f refl _ it v] by blast
      then show ?thesis
        using True f gt c
        by (intro exI [of _ b'] conjI cell_ok_Cons [where bm = "(F ! (v - cw w) + x, int j)"])
          (simp_all add: Let_def vec_at_def)
    next
      case le: False
      then obtain b' where "dp_cell F v items (Suc j) (maxF, maxI) = Some b'"
        and "cell_ok F v items (Suc j) (maxF, maxI) b'"
        using "2.IH"(2) [OF True f refl _ it v] by blast
      then show ?thesis
        using True f le c
        by (intro exI [of _ b'] conjI cell_ok_Cons [where bm = "(maxF, maxI)"]) (simp_all add: Let_def vec_at_def)
    qed
  next
    case False
    with cw_le [OF w, of v] have c: "\<not> cw w \<le> v" by blast
    obtain b' where "dp_cell F v items (Suc j) (maxF, maxI) = Some b'"
      and "cell_ok F v items (Suc j) (maxF, maxI) b'"
      using "2.IH"(3) [OF False it v] by blast
    then show ?thesis
      using False c
      by (intro exI [of _ b'] conjI cell_ok_Cons [where bm = "(maxF, maxI)"]) simp_all
  qed
qed

text \<open>
  Overwriting in place is harmless: a cell reads entries at or below its own index, which the
  descending loop has not reached yet, so the whole row is computed from the old one.
\<close>

lemma cell_ok_cong: "\<forall>k \<le> v. G ! k = F ! k \<Longrightarrow> cell_ok G v items j b b' = cell_ok F v items j b b'"
  by (simp add: cell_ok_def)

lemma dp_row_ok:
  assumes "\<forall>y \<in> set w. 0 \<le> y" and "v < length G" and "length G = length S"
    and "\<forall>k \<le> v. G ! k = F ! k"
  shows "\<exists>F' S'. dp_row (w, x) v G S = Some (F', S') \<and> length F' = length G \<and> length S' = length S \<and>
     (\<forall>k > v. F' ! k = G ! k \<and> S' ! k = S ! k) \<and>
     (\<forall>k \<le> v. cell_ok F k (zip w x) 0 (F ! k, -1) (F' ! k, S' ! k))"
  using assms(2-4)
proof (induction v arbitrary: G S)
  case 0
  have z: "\<forall>(y, x) \<in> set (zip w x). 0 \<le> y" using assms(1) by (auto dest: set_zip_leftD)
  obtain m i where c: "dp_cell G 0 (zip w x) 0 (G ! 0, -1) = Some (m, i)"
    and ok: "cell_ok G 0 (zip w x) 0 (G ! 0, -1) (m, i)"
    using dp_cell_ok [OF z "0.prems"(1), of 0 "(G ! 0, -1)"] by (metis surj_pair)
  have "cell_ok F 0 (zip w x) 0 (F ! 0, -1) (m, i)"
    using ok "0.prems"(3) cell_ok_cong [OF "0.prems"(3)] by simp
  with c "0.prems" show ?case by (simp add: dp_row.simps [of w x 0 G S])
next
  case (Suc v)
  have z: "\<forall>(y, x) \<in> set (zip w x). 0 \<le> y" using assms(1) by (auto dest: set_zip_leftD)
  obtain m i where c: "dp_cell G (Suc v) (zip w x) 0 (G ! Suc v, -1) = Some (m, i)"
    and ok: "cell_ok G (Suc v) (zip w x) 0 (G ! Suc v, -1) (m, i)"
    using dp_cell_ok [OF z Suc.prems(1), of 0 "(G ! Suc v, -1)"] by (metis surj_pair)
  have ok': "cell_ok F (Suc v) (zip w x) 0 (F ! Suc v, -1) (m, i)"
    using ok Suc.prems(3) cell_ok_cong [OF Suc.prems(3)] by simp
  let ?G = "G[Suc v := m]" and ?S = "S[Suc v := i]"
  have "v < length ?G" and "length ?G = length ?S" and "\<forall>k \<le> v. ?G ! k = F ! k"
    using Suc.prems by auto
  from Suc.IH [OF this] obtain F' S' where
    r: "dp_row (w, x) v ?G ?S = Some (F', S')" "length F' = length ?G" "length S' = length ?S"
      "\<forall>k > v. F' ! k = ?G ! k \<and> S' ! k = ?S ! k"
      "\<forall>k \<le> v. cell_ok F k (zip w x) 0 (F ! k, -1) (F' ! k, S' ! k)"
    by blast
  have "F' ! Suc v = m" and "S' ! Suc v = i" using r(4) Suc.prems by simp_all
  with ok' r(5) have "\<forall>k \<le> Suc v. cell_ok F k (zip w x) 0 (F ! k, -1) (F' ! k, S' ! k)"
    by (auto simp: le_Suc_eq)
  moreover have "dp_row (w, x) (Suc v) G S = Some (F', S')"
    using c r(1) by (simp add: dp_row.simps [of w x "Suc v" G S])
  ultimately show ?case
    using r(2-4) by (intro exI [of _ F'] exI [of _ S']) simp
qed

section \<open>Dynamic programming is optimal for rounded-up weights\<close>

fun kp_cweight :: "kp_row list \<Rightarrow> int list \<Rightarrow> nat" where
  "kp_cweight ((w, v) # rows) (s # sol) = (if s = -1 then 0 else cw (w ! nat s)) + kp_cweight rows sol"
| "kp_cweight rows sol = 0"

lemma kp_weight_le_cweight: "kp_weight rows sol \<le> real (kp_cweight rows sol)"
proof (induction rows sol rule: kp_weight.induct)
  case (1 w v rows s sol)
  have "pick w s \<le> real (if s = -1 then 0 else cw (w ! nat s))"
    using cw_ge by (simp add: pick_def)
  with 1 show ?case by simp
qed simp_all

lemma kp_sol_length: "kp_sol rows sol \<Longrightarrow> length sol = length rows"
  by (induction rows sol rule: kp_sol.induct) auto

lemma kp_sol_snoc:
  "length sol = length rows \<Longrightarrow>
   kp_sol (rows @ [(w, v)]) (sol @ [s]) \<longleftrightarrow> kp_sol rows sol \<and> (s = -1 \<or> 0 \<le> s \<and> nat s < length w)"
  by (induction sol rows rule: list_induct2) auto

lemma kp_snoc:
  "length sol = length rows \<Longrightarrow> kp_value (rows @ [(w, v)]) (sol @ [s]) = kp_value rows sol + pick v s"
  "length sol = length rows \<Longrightarrow>
   kp_cweight (rows @ [(w, v)]) (sol @ [s]) = kp_cweight rows sol + (if s = -1 then 0 else cw (w ! nat s))"
  by (induction sol rows rule: list_induct2) auto

lemma kp_sol_snocE:
  assumes "kp_sol (rows @ [(w, v)]) sol"
  obtains sol' s where "sol = sol' @ [s]" and "kp_sol rows sol'"
    and "s = -1 \<or> 0 \<le> s \<and> nat s < length w"
proof -
  have "length sol = Suc (length rows)" using kp_sol_length [OF assms] by simp
  then obtain sol' s where "sol = sol' @ [s]" and "length sol' = length rows"
    by (metis length_Suc_conv_rev)
  with assms that show thesis by (simp add: kp_sol_snoc)
qed

text \<open>
  The state of the table after some keywords: every entry is the value of the solution that
  the table encodes at that capacity, which fits, and no fitting solution is worth more.
\<close>

definition dp_read :: "kp_row list \<Rightarrow> int list list \<Rightarrow> nat \<Rightarrow> int list" where
  "dp_read rows T x = rev (dp_solution (rev (zip rows T)) (int x))"

definition dp_entry :: "kp_row list \<Rightarrow> nat \<Rightarrow> int list \<Rightarrow> real \<Rightarrow> bool" where
  "dp_entry rows x sol f \<longleftrightarrow> kp_sol rows sol \<and> kp_cweight rows sol \<le> x \<and> kp_value rows sol = f"

definition dp_best :: "kp_row list \<Rightarrow> nat \<Rightarrow> real \<Rightarrow> bool" where
  "dp_best rows x f \<longleftrightarrow> (\<forall>sol. kp_sol rows sol \<and> kp_cweight rows sol \<le> x \<longrightarrow> kp_value rows sol \<le> f)"

definition dp_inv :: "kp_row list \<Rightarrow> int list list \<Rightarrow> nat \<Rightarrow> real list \<Rightarrow> bool" where
  "dp_inv rows T B F \<longleftrightarrow> length T = length rows \<and> length F = B + 1 \<and>
     (\<forall>x \<le> B. dp_entry rows x (dp_read rows T x) (F ! x) \<and> dp_best rows x (F ! x))"

lemma dp_inv_init: "dp_inv [] [] B (replicate (B + 1) 0)"
  by (simp add: dp_inv_def dp_entry_def dp_best_def dp_read_def del: replicate_Suc)

lemma dp_best_step:
  assumes cell: "cell_ok F x (zip w v) 0 (F ! x, -1) b" and len: "length w = length v"
    and best: "\<And>y. y \<le> x \<Longrightarrow> dp_best rows y (F ! y)"
  shows "dp_best (rows @ [(w, v)]) x (fst b)"
  unfolding dp_best_def
proof (intro allI impI)
  fix sol
  assume "kp_sol (rows @ [(w, v)]) sol \<and> kp_cweight (rows @ [(w, v)]) sol \<le> x"
  then obtain a s where a: "sol = a @ [s]" "kp_sol rows a" and s: "s = -1 \<or> 0 \<le> s \<and> nat s < length w"
    and fit: "kp_cweight (rows @ [(w, v)]) (a @ [s]) \<le> x"
    by (auto elim: kp_sol_snocE)
  have la: "length a = length rows" using a(2) by (rule kp_sol_length)
  show "kp_value (rows @ [(w, v)]) sol \<le> fst b"
  proof (cases "s = -1")
    case True
    then have "kp_value rows a \<le> F ! x"
      using fit a(2) la best [of x] by (simp add: kp_snoc dp_best_def)
    then show ?thesis
      using cell True a(1) la by (auto simp: kp_snoc pick_def cell_ok_def)
  next
    case False
    let ?c = "cw (w ! nat s)"
    have n: "nat s < length w" using False s by blast
    have "?c \<le> x" and "kp_cweight rows a \<le> x - ?c" using fit la False by (auto simp: kp_snoc)
    then have "kp_value rows a \<le> F ! (x - ?c)"
      using a(2) best [of "x - ?c"] by (simp add: dp_best_def)
    moreover have "F ! (x - ?c) + v ! nat s \<le> fst b"
      using cell n len \<open>?c \<le> x\<close> by (auto simp: cell_ok_def)
    ultimately show ?thesis
      using False a(1) la by (simp add: kp_snoc pick_def)
  qed
qed

lemma dp_read_snoc:
  "length T = length rows \<Longrightarrow> dp_read (rows @ [(w, v)]) (T @ [S]) x =
     rev (dp_solution (rev (zip rows T))
       (if S ! x \<noteq> -1 then to_int (real x - w ! nat (S ! x)) else int x)) @ [S ! x]"
  by (simp add: dp_read_def Let_def)

lemma dp_entry_snoc:
  "dp_entry rows y sol f \<Longrightarrow> s = -1 \<or> 0 \<le> s \<and> nat s < length w \<Longrightarrow>
   y + (if s = -1 then 0 else cw (w ! nat s)) \<le> x \<Longrightarrow>
   dp_entry (rows @ [(w, v)]) x (sol @ [s]) (f + pick v s)"
  using kp_sol_length [of rows sol] by (auto simp: dp_entry_def kp_sol_snoc kp_snoc)

lemma dp_entry_step:
  assumes cell: "cell_ok F x (zip w v) 0 (F ! x, -1) (f, S ! x)" and len: "length w = length v"
    and nonneg: "\<forall>y \<in> set w. 0 \<le> y" and lT: "length T = length rows"
    and entry: "\<And>y. y \<le> x \<Longrightarrow> dp_entry rows y (dp_read rows T y) (F ! y)"
  shows "dp_entry (rows @ [(w, v)]) x (dp_read (rows @ [(w, v)]) (T @ [S]) x) f"
proof (cases "S ! x = -1")
  case True
  then have f: "f = F ! x" using cell len by (auto simp: cell_ok_def)
  show ?thesis
    using dp_entry_snoc [OF entry [of x], of "-1" w x v] True f dp_read_snoc [OF lT, of w v S x]
    by (simp add: pick_def dp_read_def [of rows T])
next
  case False
  then obtain k where k: "k < length w" "cw (w ! k) \<le> x" "f = F ! (x - cw (w ! k)) + v ! k" "S ! x = int k"
    using cell len by (auto simp: cell_ok_def)
  have "0 \<le> w ! k" using nonneg k(1) by simp
  then have "to_int (real x - w ! k) = int (x - cw (w ! k))"
    using k(2) cw_le by (intro cw_index) blast+
  then have "dp_read (rows @ [(w, v)]) (T @ [S]) x = dp_read rows T (x - cw (w ! k)) @ [int k]"
    using dp_read_snoc [OF lT, of w v S x] by (simp add: k(4) dp_read_def [of rows T])
  moreover have "dp_entry (rows @ [(w, v)]) x (dp_read rows T (x - cw (w ! k)) @ [int k])
      (F ! (x - cw (w ! k)) + pick v (int k))"
    using k(1,2) by (intro dp_entry_snoc [OF entry]) simp_all
  ultimately show ?thesis by (simp add: k(3) pick_def)
qed

lemma dp_inv_step:
  assumes inv: "dp_inv rows T B F" and row: "kp_rows_ok [(w, v)]" and lens: "length F' = B + 1"
    and cells: "\<forall>k \<le> B. cell_ok F k (zip w v) 0 (F ! k, -1) (F' ! k, S ! k)"
  shows "dp_inv (rows @ [(w, v)]) (T @ [S]) B F'"
proof -
  have w: "length w = length v" "\<forall>y \<in> set w. 0 \<le> y" and lT: "length T = length rows"
    using row inv by (auto simp: kp_rows_ok_def dp_inv_def)
  have "dp_entry (rows @ [(w, v)]) x (dp_read (rows @ [(w, v)]) (T @ [S]) x) (F' ! x)"
    and "dp_best (rows @ [(w, v)]) x (F' ! x)" if "x \<le> B" for x
    using that inv cells dp_best_step [OF _ w(1), of F x "(F' ! x, S ! x)" rows]
    by (auto intro!: dp_entry_step [OF _ w lT, of F] simp: dp_inv_def)
  with lT lens show ?thesis by (simp add: dp_inv_def)
qed

lemma dp_table_ok:
  assumes "kp_rows_ok rows" and "dp_inv done D B F"
  shows "\<exists>T F'. dp_table rows B F = Some T \<and> dp_inv (done @ rows) (D @ T) B F'"
  using assms
proof (induction rows arbitrary: "done" D F)
  case Nil
  then show ?case by auto
next
  case (Cons r rows)
  obtain w v where r: "r = (w, v)" by (cases r)
  have lF: "length F = B + 1" and row: "kp_rows_ok [(w, v)]" and ok: "kp_rows_ok rows"
    using Cons.prems by (auto simp: dp_inv_def kp_rows_ok_def r)
  obtain F' S where S: "dp_row (w, v) B F (replicate (B + 1) 0) = Some (F', S)" "length F' = B + 1"
    "\<forall>k \<le> B. cell_ok F k (zip w v) 0 (F ! k, -1) (F' ! k, S ! k)"
    using dp_row_ok [of w B F "replicate (B + 1) 0" F v] lF row by (auto simp: kp_rows_ok_def)
  have "dp_inv (done @ [(w, v)]) (D @ [S]) B F'"
    using dp_inv_step [OF Cons.prems(2) row S(2,3)] .
  from Cons.IH [OF ok this] obtain T F'' where
    "dp_table rows B F' = Some T" and "dp_inv ((done @ [(w, v)]) @ rows) ((D @ [S]) @ T) B F''"
    by blast
  then show ?case using S(1) by (auto simp: r)
qed

section \<open>What the solvers guarantee\<close>

lemma enumKP_cand:
  assumes "kp_rows_ok rows" and "0 \<le> B"
  shows "kp_sol rows (enumKP rows B) \<and> kp_weight rows (enumKP rows B) \<le> real_of_int B \<and>
    (\<forall>sol. kp_sol rows sol \<and> kp_weight rows sol \<le> real_of_int B \<longrightarrow>
       kp_value rows sol \<le> kp_value rows (enumKP rows B))"
proof -
  let ?z = "replicate (length rows) (-1)"
  let ?r = "enumKPRecursive rows 0 ?z (real_of_int B) 0 (0, ?z)"
  have imp: "improves (kp_cand rows 0 ?z (real_of_int B) 0) (0, ?z) ?r"
    using assms by (intro enumKPRecursive_improves) simp_all
  have "kp_cand rows 0 ?z (real_of_int B) 0 (0, ?z)"
    unfolding kp_cand_def using kp_skip_all [of rows] assms(2) by (intro exI [of _ ?z]) simp
  with imp have "kp_cand rows 0 ?z (real_of_int B) 0 ?r" by (auto simp: improves_def)
  then have r: "kp_sol rows (snd ?r)" "kp_weight rows (snd ?r) \<le> real_of_int B"
    "fst ?r = kp_value rows (snd ?r)"
    by (auto simp: kp_cand_def)
  moreover have "kp_value rows sol \<le> fst ?r"
    if "kp_sol rows sol" "kp_weight rows sol \<le> real_of_int B" for sol
    using imp that by (fastforce simp: improves_def kp_cand_def)
  ultimately show ?thesis by (auto simp: enumKP_def)
qed

lemma enumKP_feasible:
  "kp_rows_ok rows \<Longrightarrow> 0 \<le> B \<Longrightarrow>
   kp_sol rows (enumKP rows B) \<and> kp_weight rows (enumKP rows B) \<le> real_of_int B"
  using enumKP_cand by blast

lemma enumKP_best:
  "kp_rows_ok rows \<Longrightarrow> 0 \<le> B \<Longrightarrow> kp_sol rows sol \<Longrightarrow> kp_weight rows sol \<le> real_of_int B \<Longrightarrow>
   kp_value rows sol \<le> kp_value rows (enumKP rows B)"
  using enumKP_cand by blast

text \<open>
  C5. \<open>enumKP\<close> solves the multiple-choice knapsack problem: with non-negative weights and
  budget, the returned vector picks at most one position per keyword, its total weight stays
  within the budget, and no selection within the budget is worth more.
\<close>

theorem enumKP_optimal:
  assumes "kp_rows_ok rows" and "0 \<le> B"
  shows "kp_sol rows (enumKP rows B) \<and> kp_weight rows (enumKP rows B) \<le> real_of_int B \<and>
    (\<forall>sol. kp_sol rows sol \<longrightarrow> kp_weight rows sol \<le> real_of_int B \<longrightarrow>
       kp_value rows sol \<le> kp_value rows (enumKP rows B))"
  using enumKP_feasible [OF assms] enumKP_best [OF assms] by blast

theorem enumKP_optimal_witness:
  "kp_rows_ok [([3, 5], [2, 4]), ([1, 4], [1, 3])] \<and>
   kp_sol [([3, 5], [2, 4]), ([1, 4], [1, 3])] (enumKP [([3, 5], [2, 4]), ([1, 4], [1, 3])] 7) \<and>
   kp_weight [([3, 5], [2, 4]), ([1, 4], [1, 3])] (enumKP [([3, 5], [2, 4]), ([1, 4], [1, 3])] 7) \<le> 7"
  using enumKP_optimal [of "[([3, 5], [2, 4]), ([1, 4], [1, 3])]" 7] by (simp add: kp_rows_ok_def)

lemma dpKP_some:
  assumes "kp_rows_ok rows"
  shows "\<exists>sol. dpKP rows B = Some sol \<and> kp_sol rows sol \<and> kp_weight rows sol \<le> real B \<and>
    kp_cweight rows sol \<le> B \<and>
    (\<forall>sol'. kp_sol rows sol' \<and> kp_cweight rows sol' \<le> B \<longrightarrow> kp_value rows sol' \<le> kp_value rows sol)"
proof -
  obtain T F where T: "dp_table rows B (replicate (B + 1) 0) = Some T" and "dp_inv rows T B F"
    using dp_table_ok [OF assms dp_inv_init, of B] by auto
  then have e: "dp_entry rows B (dp_read rows T B) (F ! B)" and b: "dp_best rows B (F ! B)"
    by (auto simp: dp_inv_def)
  have "dpKP rows B = Some (dp_read rows T B)" using T by (simp add: dpKP_def dp_read_def)
  moreover have "kp_weight rows (dp_read rows T B) \<le> real B"
    using e kp_weight_le_cweight [of rows "dp_read rows T B"] by (simp add: dp_entry_def)
  ultimately show ?thesis using e b by (auto simp: dp_entry_def dp_best_def)
qed

lemma dpKP_feasible:
  "kp_rows_ok rows \<Longrightarrow> \<exists>sol. dpKP rows B = Some sol \<and> kp_sol rows sol \<and> kp_weight rows sol \<le> real B"
  using dpKP_some by blast

text \<open>
  C6. \<open>dpKP\<close> never leaves its table when the weights are non-negative: it returns a vector
  with at most one position per keyword whose real weight stays within the budget, and it is
  the best of the selections that still fit when every weight is rounded up to an integer.
\<close>

theorem dpKP_optimal:
  assumes "kp_rows_ok rows"
  shows "\<exists>sol. dpKP rows B = Some sol \<and> kp_sol rows sol \<and> kp_weight rows sol \<le> real B \<and>
    kp_cweight rows sol \<le> B \<and>
    (\<forall>sol'. kp_sol rows sol' \<longrightarrow> kp_cweight rows sol' \<le> B \<longrightarrow> kp_value rows sol' \<le> kp_value rows sol)"
  using dpKP_some [OF assms, of B] by blast

theorem dpKP_optimal_witness:
  "kp_rows_ok [([3/2, 5], [2, 4]), ([1, 4], [1, 3])] \<and>
   (\<exists>sol. dpKP [([3/2, 5], [2, 4]), ([1, 4], [1, 3])] 6 = Some sol \<and>
      kp_weight [([3/2, 5], [2, 4]), ([1, 4], [1, 3])] sol \<le> 6)"
  using dpKP_optimal [of "[([3/2, 5], [2, 4]), ([1, 4], [1, 3])]" 6] by (auto simp: kp_rows_ok_def)

text \<open>
  Without that hypothesis the subscript leaves the table: a negative weight at the full
  budget asks for an entry beyond \<open>F[B]\<close>.
\<close>

lemma dpKP_negative_weight:
  assumes "to_int (real B - w) > int B"
  shows "dpKP [([w], [x])] B = None"
proof -
  have "w \<le> real B"
  proof (rule ccontr)
    assume "\<not> w \<le> real B"
    then have "to_int (real B - w) \<le> 0" by (simp add: to_int_def)
    with assms show False by simp
  qed
  moreover have "vec_at (replicate (B + 1) 0 :: real list) (nat (to_int (real B - w))) = None"
    using assms by (simp add: vec_at_def del: replicate_Suc)
  ultimately show ?thesis
    by (simp add: dpKP_def dp_row.simps [of _ _ B] vec_at_def del: replicate_Suc)
qed

end
