(* ===== verification/Genetic.thy ===== *)
theory Genetic
  imports Knapsack QueryStat
begin

text \<open>
  The genetic search of \<open>AdBidStrategy::geneticBid\<close>, used when the knapsack problem is too
  large for the exact solvers of theory \<open>Knapsack\<close>. An individual is a selection vector, one
  position per keyword, \<open>-1\<close> for none. The values of \<open>rand()\<close> are a sequence \<open>rnd\<close> with the
  number of the next value threaded through the computation; \<open>None\<close> stands for \<open>rand() % 0\<close>.
\<close>

type_synonym rng = "nat \<Rightarrow> nat"

definition PopulationSize :: nat where "PopulationSize = 40"
definition ElitismSize :: nat where "ElitismSize = 2"
definition GASize :: nat where "GASize = PopulationSize - ElitismSize"
definition EndPopulationRate :: real where "EndPopulationRate = 9 / 10"
definition MinFitVariance :: real where "MinFitVariance = 1 / 1000"
definition crossoverRate :: nat where "crossoverRate = 85"
definition RAND_MAX :: nat where "RAND_MAX = 2147483647"

section \<open>Clearing a population for the budget\<close>

text \<open>The selected keywords of an individual with their positions, the vector \<open>kw\<close>.\<close>

fun selected :: "nat \<Rightarrow> int list \<Rightarrow> (nat \<times> int) list" where
  "selected j [] = []"
| "selected j (p # ps) = (if p \<noteq> -1 then (j, p) # selected (Suc j) ps else selected (Suc j) ps)"

definition weight_at :: "kp_row list \<Rightarrow> nat \<times> int \<Rightarrow> real" where
  "weight_at rows c = fst (rows ! fst c) ! nat (snd c)"

text \<open>
  The loop that drops random keywords until the rest fits: \<open>kw[r]\<close> is swapped with the last
  live entry and \<open>aN\<close> decremented, so the live entries are the list \<open>kw\<close> of length \<open>aN\<close>.
\<close>

function clear_loop ::
  "rng \<Rightarrow> kp_row list \<Rightarrow> real \<Rightarrow> (nat \<times> int) list \<Rightarrow> real \<Rightarrow> int list \<Rightarrow> nat \<Rightarrow> (int list \<times> nat) option" where
  "clear_loop rnd rows B kw totalW P n =
     (if totalW > B
      then (if kw = [] then None
            else (let r = rnd n mod length kw
                  in clear_loop rnd rows B (butlast (kw[r := last kw])) (totalW - weight_at rows (kw ! r))
                       (P[fst (kw ! r) := -1]) (Suc n)))
      else Some (P, n))"
  by pat_completeness auto
termination
  by (relation "measure (\<lambda>(rnd, rows, B, kw, totalW, P, n). length kw)") auto

declare clear_loop.simps [simp del]

definition clear_individual :: "rng \<Rightarrow> kp_row list \<Rightarrow> real \<Rightarrow> int list \<Rightarrow> nat \<Rightarrow> (int list \<times> nat) option" where
  "clear_individual rnd rows B P n =
     (let kw = selected 0 P
      in clear_loop rnd rows B kw (sum_list (map (weight_at rows) kw)) P n)"

fun clear_population :: "rng \<Rightarrow> kp_row list \<Rightarrow> real \<Rightarrow> int list list \<Rightarrow> nat \<Rightarrow> (int list list \<times> nat) option" where
  "clear_population rnd rows B [] n = Some ([], n)"
| "clear_population rnd rows B (P # Ps) n =
     (case clear_individual rnd rows B P n of
        None \<Rightarrow> None
      | Some (P', n') \<Rightarrow>
          (case clear_population rnd rows B Ps n' of
             None \<Rightarrow> None
           | Some (Ps', n'') \<Rightarrow> Some (P' # Ps', n'')))"

section \<open>The first population\<close>

text \<open>\<open>rand() % N - 1\<close> for every keyword, with \<open>N\<close> one more than its number of positions.\<close>

fun draw_individual :: "rng \<Rightarrow> kp_row list \<Rightarrow> nat \<Rightarrow> int list \<times> nat" where
  "draw_individual rnd [] n = ([], n)"
| "draw_individual rnd ((w, v) # rows) n =
     (let (ps, n') = draw_individual rnd rows (Suc n)
      in ((int (rnd n mod (length w + 1)) - 1) # ps, n'))"

text \<open>The clearing loop is nested in the loop that draws the individuals, as in the source.\<close>

fun seed_population ::
  "rng \<Rightarrow> kp_row list \<Rightarrow> real \<Rightarrow> nat list \<Rightarrow> int list list \<Rightarrow> nat \<Rightarrow> (int list list \<times> nat) option" where
  "seed_population rnd rows B [] Ps n = Some (Ps, n)"
| "seed_population rnd rows B (i # is) Ps n =
     (let (P, n') = draw_individual rnd rows n
      in case clear_population rnd rows B (Ps[i := P]) n' of
           None \<Rightarrow> None
         | Some (Ps', n'') \<Rightarrow> seed_population rnd rows B is Ps' n'')"

section \<open>Selection\<close>

definition fit_of :: "kp_row list \<Rightarrow> int list list \<Rightarrow> real list" where
  "fit_of rows Ps = map (kp_value rows) Ps"

fun prefix_sums :: "real \<Rightarrow> real list \<Rightarrow> real list" where
  "prefix_sums fn [] = []"
| "prefix_sums fn (x # xs) = (fn + x) # prefix_sums (fn + x) xs"

text \<open>The first stop condition: most of the population has the same fitness.\<close>

definition uniform_population :: "real list \<Rightarrow> bool" where
  "uniform_population fit \<longleftrightarrow>
     real (foldr max (map (count_list fit) fit) 0) / real PopulationSize \<ge> EndPopulationRate"

text \<open>Stochastic universal sampling: \<open>SP\<close> starts as all zeros and \<open>j\<close> only moves forward.\<close>

definition first_above :: "real list \<Rightarrow> real \<Rightarrow> nat \<Rightarrow> nat option" where
  "first_above fitness fcur j = List.find (\<lambda>k. fitness ! k > fcur) [j..<length fitness]"

fun sampling :: "real list \<Rightarrow> real \<Rightarrow> real \<Rightarrow> nat list \<Rightarrow> nat list \<Rightarrow> nat \<Rightarrow> nat list" where
  "sampling fitness fstart fstep [] SP j = SP"
| "sampling fitness fstart fstep (i # is) SP j =
     (case first_above fitness (fstart + real i * fstep) j of
        None \<Rightarrow> sampling fitness fstart fstep is SP j
      | Some k \<Rightarrow> sampling fitness fstart fstep is (SP[i := k]) k)"

text \<open>The shuffle of the first \<open>GASize\<close> entries, \<open>i\<close> from \<open>GASize\<close> down to 1.\<close>

fun shuffle_pairs :: "rng \<Rightarrow> nat \<Rightarrow> nat list \<Rightarrow> nat \<Rightarrow> nat list \<times> nat" where
  "shuffle_pairs rnd 0 SP n = (SP, n)"
| "shuffle_pairs rnd (Suc i) SP n =
     (let j = rnd n mod Suc i
      in shuffle_pairs rnd i (SP[j := SP ! i, i := SP ! j]) (Suc n))"

text \<open>
  The elite: the two fittest individuals in the order the priority queue pops them. Among
  equally fit ones the order of \<open>std::priority_queue\<close> is unspecified; here the lower index.
\<close>

definition by_fitness :: "real list \<Rightarrow> nat list" where
  "by_fitness fit = sort_by (\<lambda>l r. fit ! r < fit ! l) [0..<length fit]"

section \<open>Crossover and mutation\<close>

definition blend :: "nat \<Rightarrow> int \<Rightarrow> int \<Rightarrow> real \<Rightarrow> int" where
  "blend positions a b p =
     min (max (to_int (real_of_int a * p + real_of_int b * (1 - p) + 1/2)) 0) (int positions - 1)"

fun cross_genes :: "rng \<Rightarrow> kp_row list \<Rightarrow> int list \<Rightarrow> int list \<Rightarrow> nat \<Rightarrow> int list \<times> int list \<times> nat" where
  "cross_genes rnd ((w, v) # rows) (l # lp) (r # rp) n =
     (let p = real (rnd n) / real RAND_MAX * (3/2) - 1/4
      in if l \<noteq> -1 \<and> r \<noteq> -1
         then (let (a, b, n') = cross_genes rnd rows lp rp (Suc n)
               in (blend (length w) l r p # a, blend (length w) l r (1 - p) # b, n'))
         else if l = -1 \<and> r = -1
         then (let (a, b, n') = cross_genes rnd rows lp rp (Suc n) in (-1 # a, -1 # b, n'))
         else (let (a, b, n') = cross_genes rnd rows lp rp (Suc (Suc n));
                   g = (if rnd (Suc n) mod 2 \<noteq> 0 then -1 else max l r)
               in (g # a, g # b, n')))"
| "cross_genes rnd rows lp rp n = ([], [], n)"

fun crossover :: "rng \<Rightarrow> kp_row list \<Rightarrow> int list list \<Rightarrow> nat list \<Rightarrow> nat \<Rightarrow> int list list \<times> nat" where
  "crossover rnd rows Ps (a # b # SP) n =
     (if rnd n mod 100 < crossoverRate
      then (let (x, y, n') = cross_genes rnd rows (Ps ! a) (Ps ! b) (Suc n);
                (rest, n'') = crossover rnd rows Ps SP n'
            in (x # y # rest, n''))
      else (let (rest, n') = crossover rnd rows Ps SP (Suc n) in (Ps ! a # Ps ! b # rest, n')))"
| "crossover rnd rows Ps SP n = ([], n)"

fun mutate_genes :: "rng \<Rightarrow> nat \<Rightarrow> kp_row list \<Rightarrow> int list \<Rightarrow> nat \<Rightarrow> int list \<times> nat" where
  "mutate_genes rnd mRate ((w, v) # rows) (p # ps) n =
     (if rnd n mod mRate = 0
      then (let (ps', n') = mutate_genes rnd mRate rows ps (Suc (Suc n))
            in ((int (rnd (Suc n) mod (length w + 1)) - 1) # ps', n'))
      else (let (ps', n') = mutate_genes rnd mRate rows ps (Suc n) in (p # ps', n')))"
| "mutate_genes rnd mRate rows ps n = ([], n)"

fun mutate_population :: "rng \<Rightarrow> kp_row list \<Rightarrow> int list list \<Rightarrow> nat \<Rightarrow> int list list \<times> nat" where
  "mutate_population rnd rows [] n = ([], n)"
| "mutate_population rnd rows (P # Ps) n =
     (let (P', n') = mutate_genes rnd (length rows) rows P n;
          (Ps', n'') = mutate_population rnd rows Ps n'
      in (P' # Ps', n''))"

section \<open>Evolution\<close>

record ga_state =
  pop :: "int list list"
  averageFit :: real
  averageSquareFit :: real
  rand_next :: nat

text \<open>
  One pass of the \<open>while\<close> loop in evolution \<open>eNum\<close>: \<open>Inl\<close> when a stop condition breaks out of
  the loop, \<open>Inr\<close> with the next population otherwise.
\<close>

definition sample_parents :: "rng \<Rightarrow> real list \<Rightarrow> nat \<Rightarrow> nat list \<times> nat" where
  "sample_parents rnd fit n =
     (let fitness = prefix_sums 0 fit;
          fstep = sum_list fit / real GASize;
          fstart = real (rnd n) / real RAND_MAX * fstep;
          SP = (if \<not> isZero fstep
                then sampling fitness fstart fstep [0..<GASize] (replicate PopulationSize 0) 0
                else [0..<PopulationSize])
      in shuffle_pairs rnd GASize SP (Suc n))"

definition track_fit :: "nat \<Rightarrow> real \<Rightarrow> ga_state \<Rightarrow> ga_state" where
  "track_fit eNum f s =
     (if isZero f then s
      else s\<lparr>averageFit := (real (eNum - 1) * averageFit s + f) / real eNum,
             averageSquareFit := (real (eNum - 1) * averageSquareFit s + f * f) / real eNum\<rparr>)"

definition stable_fit :: "nat \<Rightarrow> nat \<Rightarrow> real \<Rightarrow> ga_state \<Rightarrow> bool" where
  "stable_fit minE eNum f s \<longleftrightarrow>
     \<not> isZero f \<and> eNum > minE \<and>
     (averageSquareFit s - averageFit s * averageFit s) / (f * f) < MinFitVariance"

definition breed :: "rng \<Rightarrow> kp_row list \<Rightarrow> int list list \<Rightarrow> nat list \<Rightarrow> nat list \<Rightarrow> nat \<Rightarrow> int list list \<times> nat" where
  "breed rnd rows Ps SP elite n =
     (let (children, n1) = crossover rnd rows Ps (take GASize SP) n;
          (mutated, n2) = mutate_population rnd rows children n1
      in (mutated @ map (\<lambda>i. Ps ! i) elite, n2))"

definition evolve_once ::
  "rng \<Rightarrow> kp_row list \<Rightarrow> real \<Rightarrow> nat \<Rightarrow> nat \<Rightarrow> ga_state \<Rightarrow> (ga_state + ga_state) option" where
  "evolve_once rnd rows B minE eNum s =
     (let fit = fit_of rows (pop s)
      in if eNum > minE \<and> uniform_population fit then Some (Inl s)
         else (let (SP, n1) = sample_parents rnd fit (rand_next s);
                   best = by_fitness fit;
                   f = fit ! hd best;
                   s1 = track_fit eNum f (s\<lparr>rand_next := n1\<rparr>)
               in if stable_fit minE eNum f s1 then Some (Inl s1)
                  else (let (Ps, n2) = breed rnd rows (pop s) SP (take ElitismSize best) n1
                        in case clear_population rnd rows B Ps n2 of
                             None \<Rightarrow> None
                           | Some (Ps', n3) \<Rightarrow> Some (Inr (s1\<lparr>pop := Ps', rand_next := n3\<rparr>)))))"

text \<open>\<open>iterNum\<close> counts down; \<open>eNum = MaxAllowedEvolutions - iterNum\<close> counts up from 1.\<close>

fun evolve :: "rng \<Rightarrow> kp_row list \<Rightarrow> real \<Rightarrow> nat \<Rightarrow> nat \<Rightarrow> nat \<Rightarrow> ga_state \<Rightarrow> ga_state option" where
  "evolve rnd rows B minE 0 eNum s = Some s"
| "evolve rnd rows B minE (Suc iterNum) eNum s =
     (case evolve_once rnd rows B minE eNum s of
        None \<Rightarrow> None
      | Some (Inl s') \<Rightarrow> Some s'
      | Some (Inr s') \<Rightarrow> evolve rnd rows B minE iterNum (Suc eNum) s')"

text \<open>The fittest individual of the last population; \<open>maxfit\<close> starts at \<open>-1\<close>.\<close>

fun best_individual :: "kp_row list \<Rightarrow> int list list \<Rightarrow> real \<Rightarrow> int list option \<Rightarrow> int list option" where
  "best_individual rows [] maxfit best = best"
| "best_individual rows (P # Ps) maxfit best =
     (if kp_value rows P > maxfit then best_individual rows Ps (kp_value rows P) (Some P)
      else best_individual rows Ps maxfit best)"

definition genetic_search :: "rng \<Rightarrow> kp_row list \<Rightarrow> int \<Rightarrow> int list option option" where
  "genetic_search rnd rows B =
     (case seed_population rnd rows (real_of_int B) [0..<PopulationSize] (replicate PopulationSize []) 0 of
        None \<Rightarrow> None
      | Some (Ps, n) \<Rightarrow>
          (case evolve rnd rows (real_of_int B) (50 * length rows) (300 * length rows) 1
                  \<lparr>pop = Ps, averageFit = 0, averageSquareFit = 0, rand_next = n\<rparr> of
             None \<Rightarrow> None
           | Some s \<Rightarrow> Some (best_individual rows (pop s) (-1) None)))"

section \<open>Clearing makes every individual fit\<close>

definition fits :: "kp_row list \<Rightarrow> real \<Rightarrow> int list \<Rightarrow> bool" where
  "fits rows B P \<longleftrightarrow> kp_sol rows P \<and> kp_weight rows P \<le> B"

lemma selected_weight:
  "kp_sol rows P \<Longrightarrow> sum_list (map (weight_at (pre @ rows)) (selected (length pre) P)) = kp_weight rows P"
proof (induction rows P arbitrary: pre rule: kp_sol.induct)
  case (3 w v rows s sol)
  have "sum_list (map (weight_at ((pre @ [(w, v)]) @ rows)) (selected (length (pre @ [(w, v)])) sol)) =
      kp_weight rows sol"
    using 3 by (intro "3.IH") simp
  moreover have "weight_at (pre @ (w, v) # rows) (length pre, s) = w ! nat s" by (simp add: weight_at_def)
  ultimately show ?case by (simp add: pick_def)
qed auto

lemma selected_drop:
  "(j, p) \<in> set (selected i P) \<Longrightarrow>
   i \<le> j \<and> mset (selected i P) = add_mset (j, p) (mset (selected i (P[j - i := -1])))"
proof (induction P arbitrary: i)
  case (Cons q P)
  show ?case
  proof (cases "q \<noteq> -1 \<and> j = i \<and> p = q")
    case True
    then show ?thesis by simp
  next
    case False
    then have m: "(j, p) \<in> set (selected (Suc i) P)" using Cons.prems by (auto split: if_splits)
    from Cons.IH [OF m] have ge: "Suc i \<le> j"
      and e: "mset (selected (Suc i) P) = add_mset (j, p) (mset (selected (Suc i) (P[j - Suc i := -1])))"
      by auto
    have "j - i = Suc (j - Suc i)" using ge by simp
    then show ?thesis using e ge by simp
  qed
qed simp

lemma mset_remove_swap:
  assumes "r < length kw"
  shows "mset kw = add_mset (kw ! r) (mset (butlast (kw[r := last kw])))"
proof -
  have ne: "kw \<noteq> []" using assms by auto
  let ?l = "length kw - 1"
  have "mset (kw[r := last kw]) = add_mset (last kw) (mset kw - {#kw ! r#})"
    using assms by (simp add: mset_update)
  moreover have "mset (kw[r := last kw]) = add_mset (last kw) (mset (butlast (kw[r := last kw])))"
  proof -
    have "last (kw[r := last kw]) = last kw" using assms ne by (auto simp: last_list_update)
    moreover have "kw[r := last kw] \<noteq> []" using ne by simp
    ultimately show ?thesis
      by (metis append_butlast_last_id mset_append mset_single_iff_right add_mset_add_single mset.simps)
  qed
  ultimately have "mset (butlast (kw[r := last kw])) = mset kw - {#kw ! r#}" by simp
  then show ?thesis using assms by simp
qed

lemma kp_sol_drop: "kp_sol rows P \<Longrightarrow> kp_sol rows (P[j := -1])"
proof (induction rows P arbitrary: j rule: kp_sol.induct)
  case (3 w v rows s sol)
  then show ?case by (cases j) auto
qed auto

lemma clear_loop_ok:
  assumes "0 \<le> B" and "kp_sol rows P" and "mset kw = mset (selected 0 P)"
    and "totalW = sum_list (map (weight_at rows) kw)"
  shows "\<exists>P' n'. clear_loop rnd rows B kw totalW P n = Some (P', n') \<and> fits rows B P'"
  using assms
proof (induction rnd rows B kw totalW P n rule: clear_loop.induct)
  case (1 rnd rows B kw totalW P n)
  have tot: "totalW = kp_weight rows P"
    using selected_weight [of rows P "[]"] "1.prems"(2-4) by (metis append_Nil list.size(3) mset_map sum_mset_sum_list)
  show ?case
  proof (cases "totalW > B")
    case False
    then have "clear_loop rnd rows B kw totalW P n = Some (P, n)"
      by (simp add: clear_loop.simps [of rnd rows B kw totalW P n])
    then show ?thesis using "1.prems"(2) tot False by (simp add: fits_def)
  next
    case True
    then have ne: "kw \<noteq> []" using "1.prems"(1,4) by auto
    define r where "r = rnd n mod length kw"
    obtain j p where jp: "kw ! r = (j, p)" by (cases "kw ! r")
    have r: "r < length kw" using ne by (simp add: r_def)
    let ?kw = "butlast (kw[r := last kw])"
    have m: "mset kw = add_mset (j, p) (mset ?kw)" using mset_remove_swap [OF r] jp by simp
    then have "(j, p) \<in># mset (selected 0 P)" using "1.prems"(3) by (metis union_single_eq_member)
    then have "(j, p) \<in> set (selected 0 P)" by simp
    with m "1.prems"(3) have m': "mset ?kw = mset (selected 0 (P[j := -1]))"
      using selected_drop [of j p 0 P] by simp
    have "sum_list (map (weight_at rows) kw) = weight_at rows (j, p) + sum_list (map (weight_at rows) ?kw)"
      using m by (metis image_mset_add_mset mset_map sum_mset.insert sum_mset_sum_list)
    with "1.prems"(4) have t': "totalW - weight_at rows (j, p) = sum_list (map (weight_at rows) ?kw)" by simp
    from "1.IH" [OF True ne r_def] jp m' t' kp_sol_drop [OF "1.prems"(2)] "1.prems"(1)
    have "\<exists>P' n'. clear_loop rnd rows B ?kw (totalW - weight_at rows (j, p)) (P[j := -1]) (Suc n) = Some (P', n') \<and>
        fits rows B P'" by simp
    then show ?thesis
      using True ne jp by (simp add: clear_loop.simps [of rnd rows B kw totalW P n] r_def Let_def)
  qed
qed

lemma clear_individual_ok:
  "0 \<le> B \<Longrightarrow> kp_sol rows P \<Longrightarrow> \<exists>P' n'. clear_individual rnd rows B P n = Some (P', n') \<and> fits rows B P'"
  unfolding clear_individual_def Let_def by (intro clear_loop_ok) simp_all

lemma clear_individual_Nil: "0 \<le> B \<Longrightarrow> clear_individual rnd rows B [] n = Some ([], n)"
  by (simp add: clear_individual_def clear_loop.simps)

lemma clear_population_ok:
  assumes "0 \<le> B" and "\<forall>P \<in> set Ps. P = [] \<or> kp_sol rows P"
  shows "\<exists>Ps' n'. clear_population rnd rows B Ps n = Some (Ps', n') \<and>
    list_all2 (\<lambda>P P'. (P = [] \<longrightarrow> P' = []) \<and> (kp_sol rows P \<longrightarrow> fits rows B P')) Ps Ps'"
  using assms(2)
proof (induction Ps arbitrary: n)
  case (Cons P Ps)
  have "\<exists>P' n'. clear_individual rnd rows B P n = Some (P', n') \<and>
      (P = [] \<longrightarrow> P' = []) \<and> (kp_sol rows P \<longrightarrow> fits rows B P')"
  proof (cases "P = []")
    case True
    have "fits rows B []" if "kp_sol rows []"
      using that assms(1) by (cases rows) (auto simp: fits_def)
    with True show ?thesis using clear_individual_Nil [OF assms(1)] by auto
  next
    case False
    then show ?thesis using Cons.prems clear_individual_ok [OF assms(1), of rows P rnd n] by auto
  qed
  then obtain P' n' where P: "clear_individual rnd rows B P n = Some (P', n')"
    "(P = [] \<longrightarrow> P' = []) \<and> (kp_sol rows P \<longrightarrow> fits rows B P')" by blast
  obtain Ps' n'' where Ps: "clear_population rnd rows B Ps n' = Some (Ps', n'')"
    "list_all2 (\<lambda>P P'. (P = [] \<longrightarrow> P' = []) \<and> (kp_sol rows P \<longrightarrow> fits rows B P')) Ps Ps'"
    using Cons.IH [of n'] Cons.prems by auto
  show ?case using P Ps by simp
qed simp

section \<open>Every population stays valid\<close>

lemma gene_drawn: "int (k mod (l + 1)) - 1 = -1 \<or> 0 \<le> int (k mod (l + 1)) - 1 \<and> nat (int (k mod (l + 1)) - 1) < l"
proof -
  have "k mod (l + 1) < l + 1" by (rule mod_less_divisor) simp
  then show ?thesis by linarith
qed

lemma draw_individual_sol: "kp_sol rows (fst (draw_individual rnd rows n))"
proof (induction rows arbitrary: n)
  case (Cons r rows)
  then show ?case using gene_drawn by (cases r) (simp add: case_prod_beta Let_def)
qed simp

lemma seed_population_ok:
  assumes "0 \<le> B" and "k \<le> N" and "length Ps = N"
    and "\<forall>i < k. fits rows B (Ps ! i)" and "\<forall>i. k \<le> i \<and> i < N \<longrightarrow> Ps ! i = []"
  shows "\<exists>Ps' n'. seed_population rnd rows B [k..<N] Ps n = Some (Ps', n') \<and> length Ps' = N \<and>
    (\<forall>P \<in> set Ps'. fits rows B P)"
  using assms(2-5)
proof (induction "N - k" arbitrary: k Ps n)
  case 0
  then show ?case by (auto simp: in_set_conv_nth)
next
  case (Suc d)
  then have k: "k < N" by simp
  obtain P m where P: "draw_individual rnd rows n = (P, m)" by (cases "draw_individual rnd rows n")
  have sol: "kp_sol rows P" using draw_individual_sol [of rows rnd n] P by simp
  let ?Q = "Ps[k := P]"
  have "?Q ! i = [] \<or> kp_sol rows (?Q ! i)" if "i < N" for i
    using that Suc.prems(3,4) sol Suc.prems(2) by (cases "i < k"; cases "i = k") (auto simp: fits_def)
  then have "\<forall>X \<in> set ?Q. X = [] \<or> kp_sol rows X" using Suc.prems(2) by (metis in_set_conv_nth length_list_update)
  from clear_population_ok [OF assms(1) this, of rnd m] obtain Ps' n' where
    c: "clear_population rnd rows B ?Q m = Some (Ps', n')"
    and l: "list_all2 (\<lambda>P P'. (P = [] \<longrightarrow> P' = []) \<and> (kp_sol rows P \<longrightarrow> fits rows B P')) ?Q Ps'"
    by blast
  have len: "length Ps' = N" using l Suc.prems(2) by (auto dest: list_all2_lengthD)
  have at: "(?Q ! i = [] \<longrightarrow> Ps' ! i = []) \<and> (kp_sol rows (?Q ! i) \<longrightarrow> fits rows B (Ps' ! i))" if "i < N" for i
    using list_all2_nthD [OF l] that Suc.prems(2) by simp
  have "fits rows B (Ps' ! i)" if "i < Suc k" for i
    using at [of i] that k sol Suc.prems(2,3) by (cases "i = k") (auto simp: fits_def)
  moreover have "Ps' ! i = []" if "Suc k \<le> i" "i < N" for i
    using at [of i] that Suc.prems(4) by simp
  ultimately have "\<exists>Ps'' n''. seed_population rnd rows B [Suc k..<N] Ps' n' = Some (Ps'', n'') \<and> length Ps'' = N \<and>
      (\<forall>P \<in> set Ps''. fits rows B P)"
    using Suc.hyps(1) [of "Suc k" Ps' n'] Suc.hyps(2) k len by simp
  then show ?case using k by (simp add: upt_rec [of k] P c)
qed

lemma blend_ok:
  "0 < l \<Longrightarrow> 0 \<le> blend l a b p \<and> nat (blend l a b p) < l"
  by (auto simp: blend_def)

lemma cross_genes_sol:
  "kp_sol rows lp \<Longrightarrow> kp_sol rows rp \<Longrightarrow> cross_genes rnd rows lp rp n = (a, b, n') \<Longrightarrow>
   kp_sol rows a \<and> kp_sol rows b"
proof (induction rnd rows lp rp n arbitrary: a b n' rule: cross_genes.induct)
  case (1 rnd w v rows l lp r rp n)
  have g: "(l = -1 \<or> 0 \<le> l \<and> nat l < length w)" "(r = -1 \<or> 0 \<le> r \<and> nat r < length w)"
    and s: "kp_sol rows lp" "kp_sol rows rp"
    using "1.prems"(1,2) by auto
  show ?case
  proof (cases "l \<noteq> -1 \<and> r \<noteq> -1")
    case True
    then have "0 < length w" using g by auto
    then show ?thesis
      using "1.prems"(3) True "1.IH"(1) [OF refl True s] blend_ok [of "length w"]
      by (auto simp: Let_def split: prod.splits)
  next
    case False
    note no = this
    show ?thesis
    proof (cases "l = -1 \<and> r = -1")
      case True
      then show ?thesis
        using "1.prems"(3) "1.IH"(2) [OF refl no True s] by (auto simp: Let_def split: prod.splits)
    next
      case False
      have "max l r = -1 \<or> 0 \<le> max l r \<and> nat (max l r) < length w" using g by (auto simp: max_def)
      then show ?thesis
        using "1.prems"(3) no False "1.IH"(3) [OF refl no False s]
        by (auto simp: Let_def split: prod.splits if_splits)
    qed
  qed
qed auto

lemma crossover_sol:
  "\<forall>P \<in> set Ps. kp_sol rows P \<Longrightarrow> \<forall>i \<in> set SP. i < length Ps \<Longrightarrow> even (length SP) \<Longrightarrow>
   crossover rnd rows Ps SP n = (Qs, n') \<Longrightarrow> length Qs = length SP \<and> (\<forall>Q \<in> set Qs. kp_sol rows Q)"
proof (induction rnd rows Ps SP n arbitrary: Qs n' rule: crossover.induct)
  case (1 rnd rows Ps a b SP n)
  have ab: "kp_sol rows (Ps ! a)" "kp_sol rows (Ps ! b)" using "1.prems"(1,2) by auto
  show ?case
  proof (cases "rnd n mod 100 < crossoverRate")
    case True
    obtain x y m where c: "cross_genes rnd rows (Ps ! a) (Ps ! b) (Suc n) = (x, y, m)"
      by (cases "cross_genes rnd rows (Ps ! a) (Ps ! b) (Suc n)")
    obtain Rs m' where r: "crossover rnd rows Ps SP m = (Rs, m')" by (cases "crossover rnd rows Ps SP m")
    have "length Rs = length SP \<and> (\<forall>Q \<in> set Rs. kp_sol rows Q)"
      using "1.IH"(1) [OF True c [symmetric] refl refl _ _ _ r] "1.prems" by auto
    then show ?thesis
      using cross_genes_sol [OF ab c] "1.prems"(4) True c r by auto
  next
    case False
    obtain Rs m' where r: "crossover rnd rows Ps SP (Suc n) = (Rs, m')" by (cases "crossover rnd rows Ps SP (Suc n)")
    have "length Rs = length SP \<and> (\<forall>Q \<in> set Rs. kp_sol rows Q)"
      using "1.IH"(2) [OF False _ _ _ r] "1.prems" by auto
    then show ?thesis using ab "1.prems"(4) False r by auto
  qed
qed auto

lemma mutate_genes_sol:
  "kp_sol rows P \<Longrightarrow> kp_sol rows (fst (mutate_genes rnd mRate rows P n))"
proof (induction rnd mRate rows P n rule: mutate_genes.induct)
  case (1 rnd mRate w v rows p ps n)
  then show ?case
    using gene_drawn [of "rnd (Suc n)" "length w"] by (auto simp: case_prod_beta Let_def)
qed auto

lemma mutate_population_sol:
  "\<forall>P \<in> set Ps. kp_sol rows P \<Longrightarrow> mutate_population rnd rows Ps n = (Qs, n') \<Longrightarrow>
   length Qs = length Ps \<and> (\<forall>Q \<in> set Qs. kp_sol rows Q)"
proof (induction Ps arbitrary: n Qs n')
  case (Cons P Ps)
  obtain P' m where P: "mutate_genes rnd (length rows) rows P n = (P', m)"
    by (cases "mutate_genes rnd (length rows) rows P n")
  obtain Rs m' where r: "mutate_population rnd rows Ps m = (Rs, m')" by (cases "mutate_population rnd rows Ps m")
  have "kp_sol rows P'" using mutate_genes_sol [of rows P rnd "length rows" n] P Cons.prems(1) by simp
  then show ?case using Cons.IH [OF _ r] Cons.prems P r by auto
qed simp

section \<open>Selection picks members of the population\<close>

definition picks :: "nat \<Rightarrow> nat list \<Rightarrow> bool" where
  "picks N SP \<longleftrightarrow> length SP = N \<and> (\<forall>i \<in> set SP. i < N)"

lemma picks_update: "picks N SP \<Longrightarrow> k < N \<Longrightarrow> picks N (SP[i := k])"
  using set_update_subset_insert [of SP i k] by (auto simp: picks_def)

lemma picks_nth: "picks N SP \<Longrightarrow> i < N \<Longrightarrow> SP ! i < N"
  by (simp add: picks_def)

lemma picks_init: "0 < N \<Longrightarrow> picks N (replicate N 0)" "picks N [0..<N]"
  by (auto simp: picks_def)

lemma first_above_less: "first_above fitness f j = Some k \<Longrightarrow> k < length fitness"
  by (auto simp: first_above_def find_Some_iff)

lemma picks_sampling:
  "picks N SP \<Longrightarrow> length fitness = N \<Longrightarrow> picks N (sampling fitness fstart fstep is SP j)"
  by (induction "is" arbitrary: SP j) (auto split: option.split intro: picks_update dest: first_above_less)

lemma picks_shuffle: "picks N SP \<Longrightarrow> m \<le> N \<Longrightarrow> picks N (fst (shuffle_pairs rnd m SP n))"
proof (induction m arbitrary: SP n)
  case (Suc m)
  let ?j = "rnd n mod Suc m"
  have "?j < Suc m" by (rule mod_less_divisor) simp
  then have "?j < N" and "m < N" using Suc.prems(2) by linarith+
  then have "picks N (SP[?j := SP ! m, m := SP ! ?j])"
    using picks_nth [OF Suc.prems(1)] by (intro picks_update Suc.prems(1)) blast+
  then show ?case using Suc by (simp add: Let_def)
qed simp

lemma length_prefix_sums [simp]: "length (prefix_sums f xs) = length xs"
  by (induction xs arbitrary: f) auto

lemma picks_parents:
  assumes "length fit = PopulationSize"
  shows "picks PopulationSize (fst (sample_parents rnd fit n))"
  unfolding sample_parents_def Let_def
  using assms by (intro picks_shuffle) (auto simp: GASize_def PopulationSize_def intro!: picks_sampling picks_init)

lemma by_fitness_less: "i \<in> set (by_fitness fit) \<Longrightarrow> i < length fit"
  by (simp add: by_fitness_def)

lemma length_by_fitness [simp]: "length (by_fitness fit) = length fit"
  by (simp add: by_fitness_def)

section \<open>The search keeps the budget\<close>

definition population_ok :: "kp_row list \<Rightarrow> real \<Rightarrow> int list list \<Rightarrow> bool" where
  "population_ok rows B Ps \<longleftrightarrow> length Ps = PopulationSize \<and> (\<forall>P \<in> set Ps. fits rows B P)"

lemma breed_sol:
  assumes "length Ps = PopulationSize" and "\<forall>P \<in> set Ps. kp_sol rows P" and "picks PopulationSize SP"
    and "length elite = ElitismSize" and "\<forall>i \<in> set elite. i < PopulationSize"
    and "breed rnd rows Ps SP elite n = (Qs, n')"
  shows "length Qs = PopulationSize \<and> (\<forall>Q \<in> set Qs. kp_sol rows Q)"
proof -
  obtain Cs m where c: "crossover rnd rows Ps (take GASize SP) n = (Cs, m)"
    by (cases "crossover rnd rows Ps (take GASize SP) n")
  obtain Ms m' where u: "mutate_population rnd rows Cs m = (Ms, m')"
    by (cases "mutate_population rnd rows Cs m")
  have len: "length (take GASize SP) = 38"
    using assms(3) by (simp add: picks_def GASize_def PopulationSize_def ElitismSize_def)
  have "\<forall>i \<in> set (take GASize SP). i < length Ps"
    using assms(1,3) by (auto simp: picks_def dest: in_set_takeD)
  with crossover_sol [OF assms(2) this _ c] len have cs: "length Cs = 38" "\<forall>Q \<in> set Cs. kp_sol rows Q" by auto
  with mutate_population_sol [OF cs(2) u] have "length Ms = 38" "\<forall>Q \<in> set Ms. kp_sol rows Q" by auto
  then show ?thesis
    using assms(1,2,4,5,6) c u by (auto simp: breed_def PopulationSize_def ElitismSize_def)
qed

lemma evolve_once_ok:
  assumes "0 \<le> B" and "population_ok rows B (pop s)"
  shows "\<exists>r. evolve_once rnd rows B minE eNum s = Some r \<and>
    (case r of Inl s' \<Rightarrow> population_ok rows B (pop s') | Inr s' \<Rightarrow> population_ok rows B (pop s'))"
proof -
  let ?fit = "fit_of rows (pop s)"
  have lf: "length ?fit = PopulationSize" using assms(2) by (simp add: fit_of_def population_ok_def)
  obtain SP n1 where sp: "sample_parents rnd ?fit (rand_next s) = (SP, n1)"
    by (cases "sample_parents rnd ?fit (rand_next s)")
  have picks: "picks PopulationSize SP" using picks_parents [OF lf, of rnd "rand_next s"] sp by simp
  let ?best = "by_fitness ?fit"
  let ?s1 = "track_fit eNum (?fit ! hd ?best) (s\<lparr>rand_next := n1\<rparr>)"
  have pop: "pop ?s1 = pop s" by (simp add: track_fit_def)
  obtain Qs n2 where b: "breed rnd rows (pop s) SP (take ElitismSize ?best) n1 = (Qs, n2)"
    by (cases "breed rnd rows (pop s) SP (take ElitismSize ?best) n1")
  have "length (take ElitismSize ?best) = ElitismSize"
    using lf by (simp add: ElitismSize_def PopulationSize_def)
  moreover have "\<forall>i \<in> set (take ElitismSize ?best). i < PopulationSize"
    using lf by (auto dest!: in_set_takeD by_fitness_less)
  ultimately have q: "length Qs = PopulationSize" "\<forall>Q \<in> set Qs. kp_sol rows Q"
    using breed_sol [OF _ _ picks _ _ b] assms(2) by (auto simp: population_ok_def fits_def)
  then obtain Qs' n3 where cl: "clear_population rnd rows B Qs n2 = Some (Qs', n3)"
    and l2: "list_all2 (\<lambda>P P'. (P = [] \<longrightarrow> P' = []) \<and> (kp_sol rows P \<longrightarrow> fits rows B P')) Qs Qs'"
    using clear_population_ok [OF assms(1), of Qs rows rnd n2] by auto
  have "kp_sol rows (Qs ! i)" if "i < PopulationSize" for i using q that by simp
  then have "population_ok rows B Qs'"
    using l2 q(1) by (auto simp: population_ok_def list_all2_conv_all_nth in_set_conv_nth)
  then show ?thesis
    using assms(2) sp b cl pop by (simp add: evolve_once_def Let_def)
qed

lemma evolve_ok:
  "0 \<le> B \<Longrightarrow> population_ok rows B (pop s) \<Longrightarrow>
   \<exists>s'. evolve rnd rows B minE iters eNum s = Some s' \<and> population_ok rows B (pop s')"
proof (induction iters arbitrary: eNum s)
  case (Suc iters)
  obtain r where r: "evolve_once rnd rows B minE eNum s = Some r"
    "case r of Inl s' \<Rightarrow> population_ok rows B (pop s') | Inr s' \<Rightarrow> population_ok rows B (pop s')"
    using evolve_once_ok [OF Suc.prems] by blast
  show ?case using r Suc.IH [OF Suc.prems(1)] by (cases r) auto
qed simp

lemma best_individual_mem:
  "best_individual rows Ps f b = Some P \<Longrightarrow> b = Some P \<or> P \<in> set Ps"
  by (induction Ps arbitrary: f b) (auto split: if_splits)

lemma genetic_search_ok:
  assumes "0 \<le> B"
  shows "\<exists>r. genetic_search rnd rows B = Some r \<and> (\<forall>P. r = Some P \<longrightarrow> fits rows (real_of_int B) P)"
proof -
  obtain Ps n where s: "seed_population rnd rows (real_of_int B) [0..<PopulationSize] (replicate PopulationSize []) 0 = Some (Ps, n)"
    and ok: "population_ok rows (real_of_int B) Ps"
    using seed_population_ok [of "real_of_int B" 0 PopulationSize "replicate PopulationSize []" rows rnd 0] assms
    by (auto simp: population_ok_def)
  let ?s = "\<lparr>pop = Ps, averageFit = 0, averageSquareFit = 0, rand_next = n\<rparr>"
  obtain s' where e: "evolve rnd rows (real_of_int B) (50 * length rows) (300 * length rows) 1 ?s = Some s'"
    and ok': "population_ok rows (real_of_int B) (pop s')"
    using evolve_ok [of "real_of_int B" rows ?s rnd "50 * length rows" "300 * length rows" 1] ok assms by auto
  have "\<forall>P. best_individual rows (pop s') (-1) None = Some P \<longrightarrow> fits rows (real_of_int B) P"
    using best_individual_mem [of rows "pop s'" "-1" None] ok' by (auto simp: population_ok_def)
  then show ?thesis using s e by (simp add: genetic_search_def)
qed

end
