(* ===== verification/UniformBid.thy ===== *)
theory UniformBid
  imports QueryStat
begin

text \<open>
  \<open>AdBidStrategy::convexUniformBid\<close>: one pair of bids for all keywords, drawn at random so
  that the spend per impression approaches the budget. The landscape of (cost, clicks) points
  is aggregated per price, its upper convex hull is found by Graham's scan, and the two hull
  points around the budget give the bids. The iteration order of the hash map \<open>landscape\<close>
  is the parameter \<open>order\<close>; reading or writing outside a vector is \<open>None\<close>.
\<close>

section \<open>Points\<close>

record point =
  px :: real
  py :: real

definition point_zero :: point where
  "point_zero = \<lparr>px = 0, py = 0\<rparr>"

definition point_less :: "point \<Rightarrow> point \<Rightarrow> bool" where
  "point_less p1 p2 \<longleftrightarrow> px p1 < px p2 \<or> isZero (px p1 - px p2) \<and> py p1 < py p2"

definition xsmall :: "point \<Rightarrow> point \<Rightarrow> bool" where
  "xsmall p1 p2 \<longleftrightarrow> px p1 < px p2"

definition turnDirection :: "point \<Rightarrow> point \<Rightarrow> point \<Rightarrow> int" where
  "turnDirection p0 p1 p2 =
     (let tmp = (px p2 - px p0) * (py p1 - py p0) - (py p2 - py p0) * (px p1 - px p0)
      in if tmp < 0 then 1 else if tmp > 0 then -1 else 0)"

definition dist2 :: "point \<Rightarrow> point \<Rightarrow> real" where
  "dist2 b p = (px p - px b) * (px p - px b) + (py p - py b) * (py p - py b)"

definition AnglePredicate :: "point \<Rightarrow> point \<Rightarrow> point \<Rightarrow> bool" where
  "AnglePredicate base p1 p2 \<longleftrightarrow>
     (let tmp = turnDirection base p1 p2
      in tmp > 0 \<or> tmp = 0 \<and> dist2 base p1 < dist2 base p2)"

section \<open>The landscape\<close>

fun add_slots :: "(int \<times> real) list \<Rightarrow> (int \<rightharpoonup> point) \<Rightarrow> (int \<rightharpoonup> point)" where
  "add_slots [] l = l"
| "add_slots ((c, r) # slots) l =
     (let p = (case l c of None \<Rightarrow> point_zero | Some p \<Rightarrow> p)
      in add_slots slots (l(c \<mapsto> \<lparr>px = px p + real_of_int c * r, py = py p + r\<rparr>)))"

definition aggregate :: "ad_query_stat list \<Rightarrow> (int \<rightharpoonup> point)" where
  "aggregate qs = fold (\<lambda>q l. add_slots (zip (cpc q) (ctr q)) l) qs Map.empty"

text \<open>The points with positive cost and clicks, with the smallest and its index.\<close>

fun collect_points :: "point list \<Rightarrow> point list \<Rightarrow> point \<Rightarrow> nat option \<Rightarrow> point list \<times> point \<times> nat option" where
  "collect_points [] acc minP minI = (acc, minP, minI)"
| "collect_points (p # ps) acc minP minI =
     (if py p > 0 \<and> px p > 0
      then (if point_less p minP then collect_points ps (acc @ [p]) p (Some (length acc))
            else collect_points ps (acc @ [p]) minP minI)
      else collect_points ps acc minP minI)"

definition swap_points :: "point list \<Rightarrow> nat \<Rightarrow> point list" where
  "swap_points ps i = ps[0 := ps ! i, i := ps ! 0]"

section \<open>Graham's scan\<close>

text \<open>The hull is a stack whose top is the head of the list.\<close>

fun pop_right_turns :: "point list \<Rightarrow> point \<Rightarrow> point list" where
  "pop_right_turns (b # a # st) p =
     (if turnDirection a b p < 0 then pop_right_turns (a # st) p else b # a # st)"
| "pop_right_turns st p = st"

fun graham_scan :: "point list \<Rightarrow> point list \<Rightarrow> point list" where
  "graham_scan st [] = st"
| "graham_scan st (p # ps) = graham_scan (p # pop_right_turns st p) ps"

definition convex_hull :: "point list \<Rightarrow> point list" where
  "convex_hull ps = rev (graham_scan (rev (take 2 ps)) (drop 2 ps))"

text \<open>How far the hull ascends from its first point.\<close>

fun ascend :: "point list \<Rightarrow> nat" where
  "ascend (p # q # ps) = (if point_less p q then Suc (ascend (q # ps)) else 0)"
| "ascend ps = 0"

definition candidates :: "point list \<Rightarrow> point list" where
  "candidates ch =
     point_zero # (if length ch \<ge> 2 \<and> \<not> isZero (px (hd ch) - px (last ch)) then [hd ch] else [])
       @ rev (drop (ascend ch) ch)"

section \<open>Choosing the bids\<close>

text \<open>\<open>std::upper_bound\<close>: binary search for the first element with \<open>less val x\<close>.\<close>

function upper_bound :: "('a \<Rightarrow> bool) \<Rightarrow> 'a list \<Rightarrow> nat \<Rightarrow> nat \<Rightarrow> nat" where
  "upper_bound test xs first len =
     (if len > 0
      then (let half = len div 2; middle = first + half
            in if test (xs ! middle) then upper_bound test xs first half
               else upper_bound test xs (Suc middle) (len - half - 1))
      else first)"
  by pat_completeness auto
termination
  by (relation "measure (\<lambda>(test, xs, first, len). len)") auto

declare upper_bound.simps [simp del]

definition single_budget :: "ad_query_stat list \<Rightarrow> int \<Rightarrow> int" where
  "single_budget qs budget =
     (let b = fold (\<lambda>q b. min (minBid q) b) qs 1000000000;
          t = sum_list (map impression qs)
      in if t > 0
         then max b (to_int (real_of_int budget / (real_of_int t / real (length qs))))
         else b)"

definition mix_bids :: "int \<Rightarrow> int \<Rightarrow> point \<Rightarrow> point \<Rightarrow> (int \<times> real) list" where
  "mix_bids minB sb pre u =
     (let p = (real_of_int sb - px pre) / (px u - px pre);
          prebid = to_int (if isZero (py pre) then 0 else px pre / py pre);
          prebid = (if prebid > 0 then max prebid minB else prebid);
          lastbid = max (to_int (px u / py u)) minB
      in [(prebid, p), (lastbid, 1 - p)])"

definition choose_bids :: "int \<Rightarrow> int \<Rightarrow> point list \<Rightarrow> (int \<times> real) list option" where
  "choose_bids minB sb canch =
     (let u = upper_bound (\<lambda>q. xsmall \<lparr>px = real_of_int sb, py = 0\<rparr> q) canch 0 (length canch)
      in if u = length canch
         then (let b = max minB sb in Some [(b, 1/2), (b, 1/2)])
         else if u = 0 then None
         else (let pre = canch ! (u - 1)
               in if isZero (px pre - real_of_int sb)
                  then (let b = max minB (if isZero (py pre) then 0 else to_int (px pre / py pre))
                        in Some [(b, 1/2), (b, 1/2)])
                  else Some (mix_bids minB sb pre (canch ! u))))"

definition convexUniformBid :: "int list \<Rightarrow> ad_query_stat list \<Rightarrow> int \<Rightarrow> (int \<times> real) list option" where
  "convexUniformBid order qs budget =
     (if qs = [] then Some [(0, 0), (0, 0)]
      else case collect_points (map (\<lambda>c. the (aggregate qs c)) order) [] \<lparr>px = DBL_MAX, py = DBL_MAX\<rparr> None of
        (pts, minP, minI) \<Rightarrow>
          if pts = [] then Some [(minBid (hd qs), 1/2), (minBid (hd qs), 1/2)]
          else (case minI of
                  None \<Rightarrow> None
                | Some i \<Rightarrow>
                    (let all = swap_points pts i;
                         ch = convex_hull (hd all # sort_by (AnglePredicate minP) (tl all))
                     in choose_bids (minBid (hd qs)) (single_budget qs budget) (candidates ch))))"

section \<open>Binary search\<close>

lemma upper_bound_between:
  "first \<le> upper_bound test xs first len \<and> upper_bound test xs first len \<le> first + len \<and>
   (upper_bound test xs first len < first + len \<longrightarrow> test (xs ! upper_bound test xs first len)) \<and>
   (first < upper_bound test xs first len \<longrightarrow> \<not> test (xs ! (upper_bound test xs first len - 1)))"
proof (induction test xs first len rule: upper_bound.induct)
  case (1 test xs first len)
  let ?m = "first + len div 2"
  show ?case
  proof (cases "len > 0")
    case False
    then show ?thesis by (simp add: upper_bound.simps [of test xs first 0])
  next
    case True
    show ?thesis
    proof (cases "test (xs ! ?m)")
      case t: True
      let ?u = "upper_bound test xs first (len div 2)"
      have "upper_bound test xs first len = ?u"
        using True t by (simp add: upper_bound.simps [of test xs first len] Let_def)
      moreover have "first \<le> ?u" "?u \<le> ?m" "?u < ?m \<longrightarrow> test (xs ! ?u)"
        "first < ?u \<longrightarrow> \<not> test (xs ! (?u - 1))"
        using "1.IH"(1) [OF True refl refl t] by auto
      moreover have "test (xs ! ?u)"
        using calculation(3,4) t by (cases "?u = ?m") auto
      ultimately show ?thesis using True by auto
    next
      case f: False
      let ?u = "upper_bound test xs (Suc ?m) (len - len div 2 - 1)"
      have e: "upper_bound test xs first len = ?u"
        using True f by (simp add: upper_bound.simps [of test xs first len] Let_def)
      have ih: "Suc ?m \<le> ?u \<and> ?u \<le> Suc ?m + (len - len div 2 - 1) \<and>
          (?u < Suc ?m + (len - len div 2 - 1) \<longrightarrow> test (xs ! ?u)) \<and>
          (Suc ?m < ?u \<longrightarrow> \<not> test (xs ! (?u - 1)))"
        using "1.IH"(2) [OF True refl refl f] by simp
      have l: "Suc ?m + (len - len div 2 - 1) = first + len" using True by simp
      have "\<not> test (xs ! (?u - 1))"
        using ih f by (cases "?u = Suc ?m") auto
      with ih l e show ?thesis by auto
    qed
  qed
qed

section \<open>Points on the hull\<close>

lemma set_pop_right_turns: "set (pop_right_turns st p) \<subseteq> set st"
  by (induction st p rule: pop_right_turns.induct) auto

lemma set_graham_scan: "set (graham_scan st ps) \<subseteq> set st \<union> set ps"
  using set_pop_right_turns by (induction st ps rule: graham_scan.induct) fastforce+

lemma set_convex_hull: "set (convex_hull ps) \<subseteq> set ps"
  using set_graham_scan [of "rev (take 2 ps)" "drop 2 ps"]
  by (auto simp: convex_hull_def dest: in_set_takeD in_set_dropD)

lemma graham_scan_nonempty: "st \<noteq> [] \<or> ps \<noteq> [] \<Longrightarrow> graham_scan st ps \<noteq> []"
  by (induction st ps rule: graham_scan.induct) auto

lemma convex_hull_nonempty: "ps \<noteq> [] \<Longrightarrow> convex_hull ps \<noteq> []"
  unfolding convex_hull_def by (cases ps) (simp_all add: graham_scan_nonempty)

fun left_turning :: "point list \<Rightarrow> bool" where
  "left_turning (c # b # a # st) \<longleftrightarrow> 0 \<le> turnDirection a b c \<and> left_turning (b # a # st)"
| "left_turning st \<longleftrightarrow> True"

lemma left_turning_tl: "left_turning (b # st) \<Longrightarrow> left_turning st"
  by (cases st; cases "tl st") auto

lemma left_turning_push: "left_turning st \<Longrightarrow> left_turning (p # pop_right_turns st p)"
  by (induction st p rule: pop_right_turns.induct) (auto dest: left_turning_tl simp: not_less)

lemma left_turning_scan: "left_turning st \<Longrightarrow> left_turning (graham_scan st ps)"
  by (induction st ps rule: graham_scan.induct) (auto intro: left_turning_push)

lemma left_turning_nth:
  "left_turning st \<Longrightarrow> i + 2 < length st \<Longrightarrow> 0 \<le> turnDirection (st ! (i + 2)) (st ! (i + 1)) (st ! i)"
proof (induction st arbitrary: i rule: left_turning.induct)
  case (1 c b a st)
  then show ?case by (cases i) auto
qed auto

lemma left_turning_short: "length st \<le> 2 \<Longrightarrow> left_turning st"
  by (cases st rule: left_turning.cases) auto

definition positive_point :: "point \<Rightarrow> bool" where
  "positive_point p \<longleftrightarrow> 0 < px p \<and> 0 < py p"

definition collect_inv :: "point list \<Rightarrow> nat option \<Rightarrow> bool" where
  "collect_inv acc minI \<longleftrightarrow> (\<forall>p \<in> set acc. positive_point p) \<and>
     (case minI of None \<Rightarrow> acc = [] | Some i \<Rightarrow> i < length acc)"

lemma collect_inv_push:
  "collect_inv acc minI \<Longrightarrow> positive_point p \<Longrightarrow> collect_inv (acc @ [p]) (Some (length acc))"
  "collect_inv acc (Some k) \<Longrightarrow> positive_point p \<Longrightarrow> collect_inv (acc @ [p]) (Some k)"
  by (auto simp: collect_inv_def)

lemma collect_points_ok:
  "collect_inv acc minI \<Longrightarrow> minI = None \<longrightarrow> (\<forall>p \<in> set ps. point_less p minP) \<Longrightarrow>
   collect_points ps acc minP minI = (pts, minP', minI') \<Longrightarrow> collect_inv pts minI'"
proof (induction ps arbitrary: acc minP minI)
  case (Cons p ps)
  show ?case
  proof (cases "py p > 0 \<and> px p > 0")
    case pos: True
    then have p: "positive_point p" by (simp add: positive_point_def)
    show ?thesis
    proof (cases "point_less p minP")
      case True
      then have "collect_points ps (acc @ [p]) p (Some (length acc)) = (pts, minP', minI')"
        using Cons.prems(3) pos by simp
      from Cons.IH [OF collect_inv_push(1) [OF Cons.prems(1) p] _ this] show ?thesis by simp
    next
      case False
      then obtain k where k: "minI = Some k" using Cons.prems(2) by auto
      from False have "collect_points ps (acc @ [p]) minP (Some k) = (pts, minP', minI')"
        using Cons.prems(3) pos k by simp
      from Cons.IH [OF collect_inv_push(2) [OF Cons.prems(1) [unfolded k] p] _ this] show ?thesis by simp
    qed
  next
    case False
    then have "collect_points ps acc minP minI = (pts, minP', minI')" using Cons.prems(3) by auto
    from Cons.IH [OF Cons.prems(1) _ this] Cons.prems(2) show ?thesis by simp
  qed
qed simp

lemma set_swap_points: "i < length ps \<Longrightarrow> set (swap_points ps i) = set ps"
  unfolding swap_points_def by (metis gr_implies_not0 length_0_conv length_greater_0_conv set_swap)

lemma candidates_nth:
  assumes "0 < k" and "k < length (candidates ch)" and "ch \<noteq> []"
  shows "candidates ch ! k \<in> set ch"
proof -
  have "candidates ch ! k = tl (candidates ch) ! (k - 1)" and "k - 1 < length (tl (candidates ch))"
    using assms(1,2) by (auto simp: nth_tl)
  then have "candidates ch ! k \<in> set (tl (candidates ch))" by simp
  moreover have "set (tl (candidates ch)) \<subseteq> set ch"
    using assms(3) by (auto simp: candidates_def dest: in_set_dropD)
  ultimately show ?thesis by blast
qed

section \<open>The chosen bids\<close>

definition bid_pair_ok :: "int \<Rightarrow> (int \<times> real) list \<Rightarrow> bool" where
  "bid_pair_ok minB r \<longleftrightarrow>
     (\<exists>b1 p1 b2 p2. r = [(b1, p1), (b2, p2)] \<and> 0 \<le> p1 \<and> 0 \<le> p2 \<and> p1 + p2 = 1 \<and>
        (b1 = 0 \<or> minB \<le> b1) \<and> minB \<le> b2)"

lemma bid_pair_half: "minB \<le> b \<Longrightarrow> bid_pair_ok minB [(b, 1/2), (b, 1/2)]"
  unfolding bid_pair_ok_def by (intro exI [of _ b] exI [of _ "1/2"]) simp

lemma mix_bids_ok:
  assumes "px pre \<le> real_of_int sb" and "real_of_int sb < px u" and "0 \<le> px pre" and "0 \<le> py pre"
  shows "bid_pair_ok minB (mix_bids minB sb pre u)"
proof -
  let ?p = "(real_of_int sb - px pre) / (px u - px pre)"
  have p: "0 \<le> ?p" "?p \<le> 1" using assms(1,2) by simp_all
  have "0 \<le> to_int (if isZero (py pre) then 0 else px pre / py pre)"
    using assms(3,4) by (simp add: to_int_nonneg)
  with p show ?thesis by (simp add: bid_pair_ok_def mix_bids_def Let_def)
qed

lemma choose_bids_ok:
  assumes "0 \<le> sb" and "canch \<noteq> []" and "canch ! 0 = point_zero"
    and "\<And>k. 0 < k \<Longrightarrow> k < length canch \<Longrightarrow> positive_point (canch ! k)"
  shows "\<exists>r. choose_bids minB sb canch = Some r \<and> bid_pair_ok minB r"
proof -
  let ?t = "\<lambda>q. xsmall \<lparr>px = real_of_int sb, py = 0\<rparr> q"
  define u where "u = upper_bound ?t canch 0 (length canch)"
  have u: "u \<le> length canch" "u < length canch \<Longrightarrow> ?t (canch ! u)" "0 < u \<Longrightarrow> \<not> ?t (canch ! (u - 1))"
    using upper_bound_between [of 0 ?t canch "length canch"] unfolding u_def by auto
  have c: "choose_bids minB sb canch = (if u = length canch
         then (let b = max minB sb in Some [(b, 1/2), (b, 1/2)])
         else if u = 0 then None
         else (let pre = canch ! (u - 1)
               in if isZero (px pre - real_of_int sb)
                  then (let b = max minB (if isZero (py pre) then 0 else to_int (px pre / py pre))
                        in Some [(b, 1/2), (b, 1/2)])
                  else Some (mix_bids minB sb pre (canch ! u))))"
    unfolding choose_bids_def u_def Let_def by (rule refl)
  show ?thesis
  proof (cases "u = length canch")
    case True
    then show ?thesis by (simp add: c Let_def bid_pair_half)
  next
    case False
    then have lt: "u < length canch" using u(1) by simp
    have "u \<noteq> 0"
    proof
      assume "u = 0"
      with u(2) [OF lt] assms(1,3) show False by (simp add: xsmall_def point_zero_def)
    qed
    have nn: "0 \<le> px (canch ! (u - 1))" "0 \<le> py (canch ! (u - 1))"
      using assms(3) assms(4) [of "u - 1"] lt by (cases "u - 1 = 0"; force simp: positive_point_def point_zero_def)+
    have "px (canch ! (u - 1)) \<le> real_of_int sb" and "real_of_int sb < px (canch ! u)"
      using u(2) [OF lt] u(3) \<open>u \<noteq> 0\<close> by (auto simp: xsmall_def)
    from mix_bids_ok [OF this nn] False \<open>u \<noteq> 0\<close> show ?thesis by (simp add: c Let_def bid_pair_half)
  qed
qed

lemma single_budget_nonneg: "\<forall>q \<in> set qs. 0 \<le> minBid q \<Longrightarrow> 0 \<le> single_budget qs budget"
proof -
  assume q: "\<forall>q \<in> set qs. 0 \<le> minBid q"
  have "0 \<le> fold (\<lambda>q b. min (minBid q) b) xs b" if "0 \<le> b" "\<forall>q \<in> set xs. 0 \<le> minBid q" for xs :: "ad_query_stat list" and b
    using that by (induction xs arbitrary: b) auto
  from this [of 1000000000 qs] q show ?thesis by (auto simp: single_budget_def Let_def)
qed

lemma uniform_bid_pair:
  assumes "qs \<noteq> []" and "\<forall>q \<in> set qs. 0 \<le> minBid q"
    and "\<forall>c \<in> set order. px (the (aggregate qs c)) < DBL_MAX"
  shows "\<exists>r. convexUniformBid order qs budget = Some r \<and> bid_pair_ok (minBid (hd qs)) r"
proof -
  let ?ps = "map (\<lambda>c. the (aggregate qs c)) order"
  obtain pts minP minI where c: "collect_points ?ps [] \<lparr>px = DBL_MAX, py = DBL_MAX\<rparr> None = (pts, minP, minI)"
    by (cases "collect_points ?ps [] \<lparr>px = DBL_MAX, py = DBL_MAX\<rparr> None")
  have "\<forall>p \<in> set ?ps. point_less p \<lparr>px = DBL_MAX, py = DBL_MAX\<rparr>"
    using assms(3) by (simp add: point_less_def)
  with collect_points_ok [OF _ _ c] have inv: "collect_inv pts minI" by (simp add: collect_inv_def)
  show ?thesis
  proof (cases "pts = []")
    case True
    then show ?thesis
      using assms(1) c
      by (intro exI [of _ "[(minBid (hd qs), 1/2), (minBid (hd qs), 1/2)]"])
        (simp add: convexUniformBid_def bid_pair_half)
  next
    case False
    with inv obtain i where i: "minI = Some i" "i < length pts" and pos: "\<forall>p \<in> set pts. positive_point p"
      by (auto simp: collect_inv_def split: option.splits)
    let ?all = "swap_points pts i"
    let ?ch = "convex_hull (hd ?all # sort_by (AnglePredicate minP) (tl ?all))"
    have ne: "?all \<noteq> []" using False by (simp add: swap_points_def)
    have ch: "?ch \<noteq> []" by (simp add: convex_hull_nonempty)
    have "set ?ch \<subseteq> set ?all"
      using set_convex_hull [of "hd ?all # sort_by (AnglePredicate minP) (tl ?all)"] ne
      by (cases ?all) auto
    then have "\<forall>p \<in> set ?ch. positive_point p" using pos set_swap_points [OF i(2)] by blast
    then have "positive_point (candidates ?ch ! k)" if "0 < k" "k < length (candidates ?ch)" for k
      using candidates_nth [OF that ch] by blast
    from choose_bids_ok [OF single_budget_nonneg [OF assms(2)] _ _ this]
    show ?thesis
      using assms(1) c False i(1) by (simp add: convexUniformBid_def candidates_def Let_def)
  qed
qed

section \<open>Properties\<close>

text \<open>
  C23. \<open>convexUniformBid\<close> always produces its two bids: for queries with non-negative minimal
  bids, whatever order the hash map is traversed in, and as long as the summed costs stay
  below the largest double, it reads no vector out of range and returns two bids whose
  probabilities are non-negative and add up to 1; the second is at least the minimal bid of
  the first query, the first is 0 or at least that.
\<close>

theorem uniform_bid_total:
  assumes "qs \<noteq> []" and "\<forall>q \<in> set qs. 0 \<le> minBid q"
    and "\<forall>c \<in> set order. px (the (aggregate qs c)) < DBL_MAX"
  shows "\<exists>r. convexUniformBid order qs budget = Some r \<and> bid_pair_ok (minBid (hd qs)) r"
  using assms by (rule uniform_bid_pair)

theorem uniform_bid_total_witness:
  "\<exists>r. convexUniformBid [20, 10]
      [\<lparr>cpc = [20, 10], ctr = [1/2, 1/4], impression = 100, minBid = 5, bid = -1\<rparr>] 800 = Some r \<and>
    bid_pair_ok 5 r"
proof -
  let ?q = "\<lparr>cpc = [20, 10], ctr = [1/2, 1/4], impression = 100, minBid = 5, bid = -1\<rparr>"
  have "100 < DBL_MAX" by (simp add: DBL_MAX_def)
  then have "\<forall>c \<in> set [20, 10]. px (the (aggregate [?q] c)) < DBL_MAX"
    by (simp add: aggregate_def point_zero_def)
  then show ?thesis using uniform_bid_total [of "[?q]" "[20, 10]" 800] by simp
qed

text \<open>
  The scan of \<open>convexUniformBid\<close> produces a convex chain of input points: consecutive
  points of the hull never turn right, whatever the input, and the hull is empty only for an
  empty input.
\<close>

lemma hull_convex:
  "set (convex_hull ps) \<subseteq> set ps \<and> (convex_hull ps = [] \<longleftrightarrow> ps = []) \<and>
   (i + 2 < length (convex_hull ps) \<longrightarrow>
      0 \<le> turnDirection (convex_hull ps ! i) (convex_hull ps ! (i + 1)) (convex_hull ps ! (i + 2)))"
proof (intro conjI impI)
  show "set (convex_hull ps) \<subseteq> set ps" by (rule set_convex_hull)
  show "convex_hull ps = [] \<longleftrightarrow> ps = []"
    using convex_hull_nonempty [of ps] by (auto simp: convex_hull_def)
  assume i: "i + 2 < length (convex_hull ps)"
  let ?st = "graham_scan (rev (take 2 ps)) (drop 2 ps)"
  let ?k = "length ?st - (i + 3)"
  have "left_turning ?st" by (intro left_turning_scan left_turning_short) simp
  moreover have l: "i + 2 < length ?st" using i by (simp add: convex_hull_def)
  ultimately have "0 \<le> turnDirection (?st ! (?k + 2)) (?st ! (?k + 1)) (?st ! ?k)"
    by (intro left_turning_nth) simp_all
  moreover have "?k + 2 = length ?st - Suc i" and "?k + 1 = length ?st - Suc (i + 1)"
    and "?k = length ?st - Suc (i + 2)" using l by simp_all
  ultimately show "0 \<le> turnDirection (convex_hull ps ! i) (convex_hull ps ! (i + 1)) (convex_hull ps ! (i + 2))"
    using l by (simp add: convex_hull_def rev_nth)
qed

text \<open>
  The probabilities of the mixed bid are exchanged. Between two neighbouring hull points
  with cost \<open>pre.x\<close> below and \<open>u.x\<close> above the budget per impression \<open>B\<close>, the expected cost
  of the returned mixture is \<open>pre.x + u.x - B\<close>, not \<open>B\<close>: it exceeds the budget whenever the
  budget is in the lower half of the interval.
\<close>

lemma uniform_bid_overspends:
  assumes "px pre < px u" and "mix_bids minB sb pre u = [(b1, p1), (b2, p2)]"
  shows "p1 * px pre + p2 * px u = px pre + px u - real_of_int sb \<and>
    (2 * real_of_int sb < px pre + px u \<longleftrightarrow> real_of_int sb < p1 * px pre + p2 * px u) \<and>
    p2 * px pre + p1 * px u = real_of_int sb"
proof -
  have d: "px u - px pre \<noteq> 0" using assms(1) by simp
  have p: "p1 = (real_of_int sb - px pre) / (px u - px pre)" "p2 = 1 - p1"
    using assms(2) by (auto simp: mix_bids_def Let_def)
  have "p1 * (px u - px pre) = real_of_int sb - px pre" using d p(1) by simp
  then have "p1 * px u - p1 * px pre = real_of_int sb - px pre" by (simp add: algebra_simps)
  then show ?thesis by (auto simp: p(2) algebra_simps)
qed

end
