(* ===== verification/GeneticBid.thy ===== *)
theory GeneticBid
  imports Genetic UniformBid
begin

text \<open>
  \<open>AdBidStrategy::geneticBid\<close>: one bid per keyword. Keywords with a predefined bid keep it and
  their expected cost is taken off the budget; the others form a knapsack problem that is
  solved by enumeration, by dynamic programming or by the genetic search, depending on its
  size. The result goes through \<open>convertIndexToBid\<close> and \<open>checkGABid\<close>.
\<close>

definition MaxLoopNum :: nat where "MaxLoopNum = 10000000000"
definition MaxDPSpace :: int where "MaxDPSpace = 100000000"

section \<open>Predefined bids and the knapsack problem\<close>

text \<open>The budget that predefined bids leave: each pays for the first slot it can afford.\<close>

definition predefined_slot :: "ad_query_stat \<Rightarrow> nat option" where
  "predefined_slot q = List.find (\<lambda>i. bid q \<ge> cpc q ! i) [0..<length (cpc q)]"

fun budget_left :: "ad_query_stat list \<Rightarrow> int \<Rightarrow> int option" where
  "budget_left [] b = Some b"
| "budget_left (q # qs) b =
     (if bid q = -1 then budget_left qs b
      else case predefined_slot q of
             None \<Rightarrow> budget_left qs b
           | Some i \<Rightarrow>
               (case vec_at (ctr q) i of
                  None \<Rightarrow> None
                | Some r \<Rightarrow> budget_left qs
                    (to_int (real_of_int b - real_of_int (cpc q ! i) * r * real_of_int (impression q)))))"

definition auto_bid :: "ad_query_stat \<Rightarrow> bool" where
  "auto_bid q \<longleftrightarrow> bid q = -1"

text \<open>Weights and values; \<open>ctr[j]\<close> beyond the vector is undefined behaviour.\<close>

definition kp_row_of :: "ad_query_stat \<Rightarrow> kp_row option" where
  "kp_row_of q =
     (if length (ctr q) < length (cpc q) then None
      else Some (map (\<lambda>(c, r). real_of_int (c * impression q) * r) (zip (cpc q) (ctr q)),
                 map (\<lambda>(c, r). real_of_int (impression q) * r) (zip (cpc q) (ctr q))))"

fun kp_rows_of :: "ad_query_stat list \<Rightarrow> kp_row list option" where
  "kp_rows_of [] = Some []"
| "kp_rows_of (q # qs) =
     (if auto_bid q
      then (case kp_row_of q of
              None \<Rightarrow> None
            | Some r \<Rightarrow> (case kp_rows_of qs of None \<Rightarrow> None | Some rs \<Rightarrow> Some (r # rs)))
      else kp_rows_of qs)"

text \<open>The number of selections, the loop breaking off above \<open>MaxLoopNum\<close>.\<close>

fun time_cp :: "nat \<Rightarrow> kp_row list \<Rightarrow> nat" where
  "time_cp t [] = t"
| "time_cp t ((w, v) # rows) =
     (let t' = t * (length w + 1) in if t' > MaxLoopNum then t' else time_cp t' rows)"

section \<open>From a selection to bids\<close>

fun convertIndexToBid :: "ad_query_stat list \<Rightarrow> int list \<Rightarrow> int list" where
  "convertIndexToBid [] sol = []"
| "convertIndexToBid (q # qs) sol =
     (if bid q \<noteq> -1 then bid q # convertIndexToBid qs sol
      else (if hd sol \<noteq> -1 then cpc q ! nat (hd sol) else 0) # convertIndexToBid qs (tl sol))"

fun computeValue :: "ad_query_stat list \<Rightarrow> int list \<Rightarrow> real" where
  "computeValue [] sol = 0"
| "computeValue (q # qs) sol =
     (if bid q = -1
      then (if hd sol \<noteq> -1 then ctr q ! nat (hd sol) * real_of_int (impression q) else 0)
             + computeValue qs (tl sol)
      else computeValue qs sol)"

definition raise_bid :: "ad_query_stat \<Rightarrow> int \<Rightarrow> int" where
  "raise_bid q b = (if b > 0 \<and> b < minBid q then minBid q else b)"

definition checkGABid :: "int list \<Rightarrow> ad_query_stat list \<Rightarrow> int \<Rightarrow> int list \<Rightarrow> int list option" where
  "checkGABid order qs budget bids =
     (if \<exists>b \<in> set bids. b > 0 then Some (map2 raise_bid qs bids)
      else case convexUniformBid order qs budget of
             Some [(b1, p1), (b2, p2)] \<Rightarrow>
               (let lastBid = max (to_int (real_of_int b1 * p1 + real_of_int b2 * p2)) (minBid (hd qs))
                in Some (map (\<lambda>_. lastBid) bids))
           | _ \<Rightarrow> None)"

definition solve_kp :: "rng \<Rightarrow> kp_row list \<Rightarrow> int \<Rightarrow> int list option option" where
  "solve_kp rnd rows B =
     (if time_cp 1 rows < MaxLoopNum then Some (Some (enumKP rows B))
      else if int (length rows) * (B + 1) \<le> MaxDPSpace
           then (case dpKP rows (nat B) of None \<Rightarrow> None | Some sol \<Rightarrow> Some (Some sol))
           else genetic_search rnd rows B)"

definition geneticBid :: "int list \<Rightarrow> rng \<Rightarrow> ad_query_stat list \<Rightarrow> int \<Rightarrow> int list option" where
  "geneticBid order rnd qs budget =
     (let start = map (\<lambda>q. if auto_bid q then 0 else bid q) qs
      in case budget_left qs budget of
           None \<Rightarrow> None
         | Some B \<Rightarrow>
             (if filter auto_bid qs = [] \<or> B \<le> 0 then Some start
              else case kp_rows_of qs of
                     None \<Rightarrow> None
                   | Some rows \<Rightarrow>
                       (case solve_kp rnd rows B of
                          None \<Rightarrow> None
                        | Some None \<Rightarrow> checkGABid order qs budget start
                        | Some (Some sol) \<Rightarrow> checkGABid order qs budget (convertIndexToBid qs sol))))"

section \<open>The knapsack problem of a campaign\<close>

definition query_ok :: "ad_query_stat \<Rightarrow> bool" where
  "query_ok q \<longleftrightarrow> length (cpc q) \<le> length (ctr q) \<and> (\<forall>c \<in> set (cpc q). 0 \<le> c) \<and>
     (\<forall>r \<in> set (ctr q). 0 \<le> r) \<and> 0 \<le> impression q \<and> 0 \<le> minBid q"

lemma kp_row_of_ok:
  assumes "query_ok q"
  shows "\<exists>w v. kp_row_of q = Some (w, v) \<and> kp_rows_ok [(w, v)] \<and> length w = length (cpc q) \<and>
    (\<forall>i < length w. v ! i = ctr q ! i * real_of_int (impression q))"
proof -
  have "0 \<le> c \<and> 0 \<le> r" if "(c, r) \<in> set (zip (cpc q) (ctr q))" for c r
    using assms set_zip_leftD [OF that] set_zip_rightD [OF that] by (simp add: query_ok_def)
  then show ?thesis
    using assms by (auto simp: kp_row_of_def query_ok_def kp_rows_ok_def)
qed

lemma kp_rows_of_ok:
  assumes "\<forall>q \<in> set qs. query_ok q"
  shows "\<exists>rows. kp_rows_of qs = Some rows \<and> kp_rows_ok rows \<and>
    (\<forall>sol. kp_sol rows sol \<longrightarrow> computeValue qs sol = kp_value rows sol)"
  using assms
proof (induction qs)
  case (Cons q qs)
  then obtain rows where r: "kp_rows_of qs = Some rows" "kp_rows_ok rows"
    "\<forall>sol. kp_sol rows sol \<longrightarrow> computeValue qs sol = kp_value rows sol" by auto
  show ?case
  proof (cases "auto_bid q")
    case False
    then show ?thesis using r by (simp add: auto_bid_def)
  next
    case True
    obtain w v where w: "kp_row_of q = Some (w, v)" "kp_rows_ok [(w, v)]"
      "\<forall>i < length w. v ! i = ctr q ! i * real_of_int (impression q)"
      using kp_row_of_ok [of q] Cons.prems by auto
    have "computeValue (q # qs) sol = kp_value ((w, v) # rows) sol" if sol: "kp_sol ((w, v) # rows) sol" for sol
      using sol True w(3) r(3) by (cases sol) (auto simp: auto_bid_def pick_def)
    moreover have "kp_rows_ok ((w, v) # rows)" using w(2) r(2) by (auto simp: kp_rows_ok_def)
    ultimately show ?thesis using True r(1) w(1) by simp
  qed
qed (simp add: kp_rows_ok_def)

lemma length_convertIndexToBid [simp]: "length (convertIndexToBid qs sol) = length qs"
  by (induction qs sol rule: convertIndexToBid.induct) auto

lemma convert_skip_all:
  "convertIndexToBid qs (replicate n (-1)) = map (\<lambda>q. if auto_bid q then 0 else bid q) qs" if "length (filter auto_bid qs) \<le> n"
  using that
proof (induction qs arbitrary: n)
  case (Cons q qs)
  show ?case
  proof (cases "auto_bid q")
    case True
    with Cons.prems obtain m where m: "n = Suc m" "length (filter auto_bid qs) \<le> m" by (cases n) auto
    show ?thesis using Cons.IH [OF m(2)] True by (simp add: m(1) auto_bid_def)
  next
    case False
    then show ?thesis using Cons by (simp add: auto_bid_def)
  qed
qed simp

lemma length_kp_rows_of: "kp_rows_of qs = Some rows \<Longrightarrow> length rows = length (filter auto_bid qs)"
  by (induction qs arbitrary: rows) (auto split: if_splits option.splits)

lemma checkGABid_some:
  assumes "qs \<noteq> []" and "\<forall>q \<in> set qs. query_ok q"
    and "\<forall>c \<in> set order. px (the (aggregate qs c)) < DBL_MAX" and "length bids = length qs"
  shows "\<exists>b. checkGABid order qs budget bids = Some b \<and> length b = length qs"
proof -
  have "\<forall>q \<in> set qs. 0 \<le> minBid q" using assms(2) by (simp add: query_ok_def)
  from uniform_bid_pair [OF assms(1) this assms(3), of budget]
  obtain b1 p1 b2 p2 where "convexUniformBid order qs budget = Some [(b1, p1), (b2, p2)]"
    by (auto simp: bid_pair_ok_def)
  then show ?thesis using assms(4) by (simp add: checkGABid_def Let_def)
qed

lemma solve_kp_ok:
  assumes "kp_rows_ok rows" and "0 < B"
  shows "\<exists>r. solve_kp rnd rows B = Some r \<and>
    (case r of None \<Rightarrow> True | Some sol \<Rightarrow> fits rows (real_of_int B) sol) \<and>
    (time_cp 1 rows < MaxLoopNum \<longrightarrow> r = Some (enumKP rows B))"
proof -
  have e: "fits rows (real_of_int B) (enumKP rows B)"
    using enumKP_feasible [OF assms(1)] assms(2) by (simp add: fits_def)
  obtain sol where d: "dpKP rows (nat B) = Some sol" "fits rows (real_of_int B) sol"
    using dpKP_feasible [OF assms(1), of "nat B"] assms(2) by (auto simp: fits_def)
  obtain r where g: "genetic_search rnd rows B = Some r" "\<forall>P. r = Some P \<longrightarrow> fits rows (real_of_int B) P"
    using genetic_search_ok [of B rnd rows] assms(2) by auto
  show ?thesis using e d g by (auto simp: solve_kp_def split: option.splits)
qed

section \<open>Properties\<close>

text \<open>
  C24. \<open>geneticBid\<close> keeps the budget whichever solver it uses and whatever \<open>rand()\<close> returns:
  with well-formed statistics and some budget left after the predefined bids, it always
  returns one bid per query, and these are the bids (before \<open>checkGABid\<close>) of a selection of at
  most one position per automatic keyword whose expected cost is within that budget. When
  the number of selections is below \<open>MaxLoopNum\<close> no selection within the budget brings more
  expected clicks, as \<open>computeValue\<close> counts them.
\<close>

theorem genetic_bid_within_budget:
  assumes "\<forall>q \<in> set qs. query_ok q" and "filter auto_bid qs \<noteq> []"
    and "budget_left qs budget = Some B" and "0 < B"
    and "\<forall>c \<in> set order. px (the (aggregate qs c)) < DBL_MAX"
  shows "\<exists>rows sol bids. kp_rows_of qs = Some rows \<and> kp_sol rows sol \<and> kp_weight rows sol \<le> real_of_int B \<and>
    geneticBid order rnd qs budget = Some bids \<and> length bids = length qs \<and>
    checkGABid order qs budget (convertIndexToBid qs sol) = Some bids \<and>
    (time_cp 1 rows < MaxLoopNum \<longrightarrow>
       (\<forall>sol'. kp_sol rows sol' \<longrightarrow> kp_weight rows sol' \<le> real_of_int B \<longrightarrow>
          computeValue qs sol' \<le> computeValue qs sol))"
proof -
  obtain rows where rows: "kp_rows_of qs = Some rows" "kp_rows_ok rows"
    "\<forall>sol. kp_sol rows sol \<longrightarrow> computeValue qs sol = kp_value rows sol"
    using kp_rows_of_ok [OF assms(1)] by blast
  obtain r where r: "solve_kp rnd rows B = Some r"
    "case r of None \<Rightarrow> True | Some sol \<Rightarrow> fits rows (real_of_int B) sol"
    "time_cp 1 rows < MaxLoopNum \<longrightarrow> r = Some (enumKP rows B)"
    using solve_kp_ok [OF rows(2) assms(4)] by blast
  define sol where "sol = (case r of None \<Rightarrow> replicate (length rows) (-1) | Some sol \<Rightarrow> sol)"
  have fit: "fits rows (real_of_int B) sol"
    using r(2) kp_skip_all [of rows] assms(4) by (auto simp: sol_def fits_def split: option.splits)
  have ne: "qs \<noteq> []" using assms(2) by auto
  obtain bids where b: "checkGABid order qs budget (convertIndexToBid qs sol) = Some bids" "length bids = length qs"
    using checkGABid_some [OF ne assms(1,5) length_convertIndexToBid, of budget sol] by blast
  have start: "r = None \<longrightarrow> map (\<lambda>q. if auto_bid q then 0 else bid q) qs = convertIndexToBid qs sol"
    using convert_skip_all [of qs "length rows"] length_kp_rows_of [OF rows(1)] by (simp add: sol_def)
  have "geneticBid order rnd qs budget = Some bids"
    using assms(2-4) rows(1) r(1) b(1) start
    by (cases r) (auto simp: geneticBid_def sol_def Let_def)
  moreover have "computeValue qs sol' \<le> computeValue qs sol"
    if "time_cp 1 rows < MaxLoopNum" "kp_sol rows sol'" "kp_weight rows sol' \<le> real_of_int B" for sol'
  proof -
    have "sol = enumKP rows B" using r(3) that(1) by (simp add: sol_def)
    then show ?thesis
      using enumKP_best [OF rows(2) _ that(2,3)] assms(4) rows(3) that(2) fit by (auto simp: fits_def)
  qed
  ultimately show ?thesis using rows(1) fit b by (auto simp: fits_def)
qed

theorem genetic_bid_within_budget_witness:
  "\<exists>bids. geneticBid [10] (\<lambda>_. 0)
      [\<lparr>cpc = [10], ctr = [1/2], impression = 20, minBid = 5, bid = -1\<rparr>] 300 = Some bids \<and> length bids = 1"
proof -
  let ?q = "\<lparr>cpc = [10], ctr = [1/2], impression = 20, minBid = 5, bid = -1\<rparr>"
  have "5 < DBL_MAX" by (simp add: DBL_MAX_def)
  then have "\<forall>c \<in> set [10]. px (the (aggregate [?q] c)) < DBL_MAX"
    by (simp add: aggregate_def point_zero_def)
  then show ?thesis
    using genetic_bid_within_budget [of "[?q]" 300 300 "[10]" "\<lambda>_. 0"]
    by (auto simp: query_ok_def auto_bid_def)
qed

text \<open>
  What \<open>checkGABid\<close> guarantees of the bids: if some bid is positive, it only raises
  positive bids to the minimal bid of their query; otherwise it replaces every bid, predefined
  ones included, by one bid that respects only the minimal bid of the first query.
\<close>

lemma check_bid_minimum:
  assumes "checkGABid order qs budget bids = Some bids'" and "length bids = length qs"
  shows "length bids' = length qs \<and>
    ((\<exists>b \<in> set bids. b > 0) \<and> (\<forall>i < length qs. bids' ! i = (if 0 < bids ! i then max (bids ! i) (minBid (qs ! i)) else bids ! i)) \<or>
     (\<forall>b \<in> set bids. b \<le> 0) \<and> (\<exists>c \<ge> minBid (hd qs). bids' = replicate (length qs) c))"
proof (cases "\<exists>b \<in> set bids. b > 0")
  case True
  then have "bids' = map2 raise_bid qs bids" using assms(1) by (simp add: checkGABid_def)
  then show ?thesis using True assms(2) by (auto simp: raise_bid_def max_def)
next
  case False
  then obtain x where "bids' = replicate (length qs) (max x (minBid (hd qs)))"
    using assms by (auto simp: checkGABid_def Let_def map_replicate_const simp del: replicate_eq_replicate
        split: option.splits list.splits)
  then have "\<exists>c \<ge> minBid (hd qs). bids' = replicate (length qs) c"
    by (intro exI [of _ "max x (minBid (hd qs))"]) simp
  then show ?thesis using False assms(2) by (auto simp: not_less)
qed

end
