(* ===== verification/KeywordDict.thy ===== *)
theory KeywordDict
  imports Prelude
begin

text \<open>
  The two dictionaries of \<open>AdSponsoredMgr\<close> that number strings in order of first appearance
  (bid keywords and campaign names), and the functions that turn a title or query into a
  bid phrase and back. The tokenizer \<open>TitlePCAWrapper::pca\<close> is the parameter \<open>pca\<close>, which
  gives the tokens of a lower-cased text with their scores.
\<close>

section \<open>Dictionaries\<close>

record str_dict =
  id_values :: "string list"
  value_ids :: "string \<rightharpoonup> nat"

definition str_dict0 :: str_dict where
  "str_dict0 = \<lparr>id_values = [], value_ids = Map.empty\<rparr>"

definition getBidKeywordIdFromStr :: "str_dict \<Rightarrow> string \<Rightarrow> nat option" where
  "getBidKeywordIdFromStr d k = value_ids d k"

definition getBidKeywordIdFromStrWithInsert :: "str_dict \<Rightarrow> string \<Rightarrow> nat \<times> str_dict" where
  "getBidKeywordIdFromStrWithInsert d k =
     (case value_ids d k of
        Some i \<Rightarrow> (i, d)
      | None \<Rightarrow> (length (id_values d),
          \<lparr>id_values = id_values d @ [k], value_ids = (value_ids d)(k \<mapsto> length (id_values d))\<rparr>))"

definition getBidKeywordStrFromId :: "str_dict \<Rightarrow> nat \<Rightarrow> string" where
  "getBidKeywordStrFromId d i = (if i \<ge> length (id_values d) then [] else id_values d ! i)"

text \<open>The campaign of an ad: found by name or numbered anew.\<close>

definition campaign_id_for :: "str_dict \<Rightarrow> string \<Rightarrow> nat \<times> str_dict" where
  "campaign_id_for d c =
     (case value_ids d c of
        None \<Rightarrow> (let i = length (id_values d)
                 in (i, \<lparr>id_values = id_values d @ [c], value_ids = (value_ids d)(c \<mapsto> i)\<rparr>))
      | Some i \<Rightarrow> (i, d))"

text \<open>The two directions agree.\<close>

definition dict_ok :: "str_dict \<Rightarrow> bool" where
  "dict_ok d \<longleftrightarrow> distinct (id_values d) \<and>
     (\<forall>k i. value_ids d k = Some i \<longleftrightarrow> i < length (id_values d) \<and> id_values d ! i = k)"

section \<open>Bid phrases\<close>

definition MAX_BIDPHRASE_LEN :: nat where "MAX_BIDPHRASE_LEN = 5"

type_synonym tokenizer = "string \<Rightarrow> (string \<times> real) list"
type_synonym bid_phrase = "nat list"

definition char_lower :: "char \<Rightarrow> char" where
  "char_lower c =
     (let n = of_char c :: nat in if 65 \<le> n \<and> n \<le> 90 then char_of (n + 32) else c)"

definition sort_tokens_func :: "string \<times> real \<Rightarrow> string \<times> real \<Rightarrow> bool" where
  "sort_tokens_func l r \<longleftrightarrow> snd l > snd r"

text \<open>The token overload of \<open>generateBidPhrase\<close>: all tokens, highest score first.\<close>

definition generateTokens :: "tokenizer \<Rightarrow> string \<Rightarrow> string list" where
  "generateTokens pca title = map fst (sort_by sort_tokens_func (pca (map char_lower title)))"

text \<open>The loop of the id overload: it stops once the phrase is longer than the maximum.\<close>

fun phrase_loop :: "str_dict \<Rightarrow> string list \<Rightarrow> bid_phrase \<Rightarrow> bid_phrase \<times> str_dict" where
  "phrase_loop d [] phrase = (phrase, d)"
| "phrase_loop d (t # ts) phrase =
     (let (kid, d') = getBidKeywordIdFromStrWithInsert d t; phrase' = phrase @ [kid]
      in if length phrase' > MAX_BIDPHRASE_LEN then (phrase', d') else phrase_loop d' ts phrase')"

text \<open>For an empty title the caller's vector \<open>old\<close> is left as it is.\<close>

definition generateBidPhrase :: "tokenizer \<Rightarrow> string \<Rightarrow> bid_phrase \<Rightarrow> str_dict \<Rightarrow> bid_phrase \<times> str_dict" where
  "generateBidPhrase pca title old d =
     (if title = [] then (old, d)
      else phrase_loop d (generateTokens pca title) [])"

definition getBidPhraseStr :: "str_dict \<Rightarrow> bid_phrase \<Rightarrow> string" where
  "getBidPhraseStr d phrase = concat (map (\<lambda>k. getBidKeywordStrFromId d k @ '' '') phrase)"

definition getBidPhraseStrList :: "str_dict \<Rightarrow> bid_phrase list \<Rightarrow> string list" where
  "getBidPhraseStrList d phrases = map (getBidPhraseStr d) phrases"

definition preprocessBidPhraseStr :: "tokenizer \<Rightarrow> string \<Rightarrow> string" where
  "preprocessBidPhraseStr pca orig =
     (let ts = generateTokens pca orig;
          ts' = (if length ts > MAX_BIDPHRASE_LEN then take MAX_BIDPHRASE_LEN ts else ts)
      in concat (map (\<lambda>t. t @ '' '') ts'))"

section \<open>The dictionary contract\<close>

locale id_dictionary =
  fixes add :: "'d \<Rightarrow> string \<Rightarrow> nat \<times> 'd"
    and number :: "'d \<Rightarrow> string \<Rightarrow> nat option"
    and name_of :: "'d \<Rightarrow> nat \<Rightarrow> string option"
    and ok :: "'d \<Rightarrow> bool"
  assumes add_ok: "ok d \<Longrightarrow> ok (snd (add d k))"
    and number_iff: "ok d \<Longrightarrow> number d k = Some i \<longleftrightarrow> name_of d i = Some k"
    and name_added: "ok d \<Longrightarrow> name_of (snd (add d k)) (fst (add d k)) = Some k"
    and name_kept: "ok d \<Longrightarrow> name_of d i = Some s \<Longrightarrow> name_of (snd (add d k)) i = Some s"
begin

lemma number_added: "ok d \<Longrightarrow> number (snd (add d k)) k = Some (fst (add d k))"
  using number_iff [OF add_ok] name_added by blast

lemma number_kept: "ok d \<Longrightarrow> number d k = Some i \<Longrightarrow> number (snd (add d k')) k = Some i"
  using number_iff [OF add_ok] number_iff name_kept by blast

lemma same_number: "ok d \<Longrightarrow> number d k = Some i \<Longrightarrow> number d k' = Some i \<Longrightarrow> k = k'"
  using number_iff by (metis option.inject)

lemma add_known: "ok d \<Longrightarrow> number d k = Some i \<Longrightarrow> fst (add d k) = i"
  using number_added number_kept by (metis option.inject)

end

definition dict_name :: "str_dict \<Rightarrow> nat \<Rightarrow> string option" where
  "dict_name d i = vec_at (id_values d) i"

lemma dict_ok_init [simp]: "dict_ok str_dict0"
  by (simp add: dict_ok_def str_dict0_def)

lemma dict_ok_new:
  assumes "dict_ok d" and "value_ids d k = None"
  shows "dict_ok \<lparr>id_values = id_values d @ [k], value_ids = (value_ids d)(k \<mapsto> length (id_values d))\<rparr>"
proof -
  have k: "k \<notin> set (id_values d)" using assms by (metis dict_ok_def in_set_conv_nth option.distinct(1))
  then have "distinct (id_values d @ [k])" using assms(1) by (simp add: dict_ok_def)
  moreover have "((value_ids d)(k \<mapsto> length (id_values d))) k' = Some i \<longleftrightarrow>
      i < length (id_values d @ [k]) \<and> (id_values d @ [k]) ! i = k'" for k' i
    using assms k by (cases "i < length (id_values d)") (auto simp: dict_ok_def nth_append)
  ultimately show ?thesis by (simp add: dict_ok_def)
qed

interpretation kdict: id_dictionary getBidKeywordIdFromStrWithInsert getBidKeywordIdFromStr dict_name dict_ok
proof
  fix d :: str_dict and k s :: string and i :: nat
  assume ok: "dict_ok d"
  show "dict_ok (snd (getBidKeywordIdFromStrWithInsert d k))"
    using ok dict_ok_new [OF ok] by (simp add: getBidKeywordIdFromStrWithInsert_def split: option.split)
  show "getBidKeywordIdFromStr d k = Some i \<longleftrightarrow> dict_name d i = Some k"
    using ok by (simp add: getBidKeywordIdFromStr_def dict_name_def dict_ok_def)
  show "dict_name (snd (getBidKeywordIdFromStrWithInsert d k)) (fst (getBidKeywordIdFromStrWithInsert d k)) = Some k"
    using ok by (auto simp: getBidKeywordIdFromStrWithInsert_def dict_name_def dict_ok_def split: option.split)
  show "dict_name d i = Some s \<Longrightarrow> dict_name (snd (getBidKeywordIdFromStrWithInsert d k)) i = Some s"
    by (auto simp: getBidKeywordIdFromStrWithInsert_def dict_name_def nth_append split: option.split)
qed

interpretation cdict: id_dictionary campaign_id_for value_ids dict_name dict_ok
proof
  fix d :: str_dict and k s :: string and i :: nat
  assume ok: "dict_ok d"
  show "dict_ok (snd (campaign_id_for d k))"
    using ok dict_ok_new [OF ok] by (simp add: campaign_id_for_def Let_def split: option.split)
  show "value_ids d k = Some i \<longleftrightarrow> dict_name d i = Some k"
    using ok by (simp add: dict_name_def dict_ok_def)
  show "dict_name (snd (campaign_id_for d k)) (fst (campaign_id_for d k)) = Some k"
    using ok by (auto simp: campaign_id_for_def Let_def dict_name_def dict_ok_def split: option.split)
  show "dict_name d i = Some s \<Longrightarrow> dict_name (snd (campaign_id_for d k)) i = Some s"
    by (auto simp: campaign_id_for_def Let_def dict_name_def nth_append split: option.split)
qed

section \<open>Phrases read back\<close>

definition dict_extends :: "str_dict \<Rightarrow> str_dict \<Rightarrow> bool" where
  "dict_extends d d' \<longleftrightarrow> (\<forall>i s. dict_name d i = Some s \<longrightarrow> dict_name d' i = Some s)"

lemma dict_extends_refl [simp]: "dict_extends d d"
  by (simp add: dict_extends_def)

lemma dict_extends_trans: "dict_extends d d' \<Longrightarrow> dict_extends d' d'' \<Longrightarrow> dict_extends d d''"
  by (simp add: dict_extends_def)

lemma dict_extends_insert: "dict_ok d \<Longrightarrow> dict_extends d (snd (getBidKeywordIdFromStrWithInsert d k))"
  using kdict.name_kept by (simp add: dict_extends_def)

lemma getBidKeywordStrFromId_name: "dict_name d i = Some s \<Longrightarrow> getBidKeywordStrFromId d i = s"
  by (simp add: dict_name_def getBidKeywordStrFromId_def vec_at_def split: if_splits)

lemma phrase_loop_ok:
  assumes "dict_ok d" and "length phrase \<le> MAX_BIDPHRASE_LEN" and "phrase_loop d ts phrase = (p, d')"
  shows "\<exists>ids. p = phrase @ ids \<and> dict_ok d' \<and> dict_extends d d' \<and>
    map (dict_name d') ids = map Some (take (Suc MAX_BIDPHRASE_LEN - length phrase) ts)"
  using assms
proof (induction d ts phrase rule: phrase_loop.induct)
  case (1 d phrase)
  then show ?case by simp
next
  case (2 d t ts phrase)
  obtain kid e where i: "getBidKeywordIdFromStrWithInsert d t = (kid, e)"
    by (cases "getBidKeywordIdFromStrWithInsert d t")
  have e: "dict_ok e" "dict_extends d e" "dict_name e kid = Some t"
    using kdict.add_ok [OF "2.prems"(1), of t] dict_extends_insert [OF "2.prems"(1), of t]
      kdict.name_added [OF "2.prems"(1), of t] i by simp_all
  show ?case
  proof (cases "length (phrase @ [kid]) > MAX_BIDPHRASE_LEN")
    case True
    then have "Suc MAX_BIDPHRASE_LEN - length phrase = 1" using "2.prems"(2) by simp
    then show ?thesis using True "2.prems"(3) i e by auto
  next
    case False
    then have r: "phrase_loop e ts (phrase @ [kid]) = (p, d')" using "2.prems"(3) i by simp
    have le: "length (phrase @ [kid]) \<le> MAX_BIDPHRASE_LEN" using False by simp
    from "2.IH" [OF i [symmetric] refl refl False e(1) le r] obtain ids where
      ids: "p = (phrase @ [kid]) @ ids" "dict_ok d'" "dict_extends e d'"
        "map (dict_name d') ids = map Some (take (Suc MAX_BIDPHRASE_LEN - length (phrase @ [kid])) ts)"
      by blast
    have "dict_name d' kid = Some t" using e(3) ids(3) by (simp add: dict_extends_def)
    moreover have "Suc MAX_BIDPHRASE_LEN - length phrase = Suc (Suc MAX_BIDPHRASE_LEN - length (phrase @ [kid]))"
      using le by simp
    ultimately show ?thesis
      using ids e(2) by (intro exI [of _ "kid # ids"]) (auto intro: dict_extends_trans)
  qed
qed

lemma phrase_str_names:
  "map (dict_name d) ids = map Some ts \<Longrightarrow> getBidPhraseStr d ids = concat (map (\<lambda>t. t @ '' '') ts)"
proof (induction ids arbitrary: ts)
  case (Cons i ids)
  then show ?case by (cases ts) (auto simp: getBidPhraseStr_def dest: getBidKeywordStrFromId_name)
qed (simp add: getBidPhraseStr_def)

definition phrase_known :: "str_dict \<Rightarrow> bid_phrase \<Rightarrow> bool" where
  "phrase_known d p \<longleftrightarrow> (\<forall>k \<in> set p. k < length (id_values d))"

lemma dict_extends_str:
  "dict_extends d d' \<Longrightarrow> phrase_known d p \<Longrightarrow> getBidPhraseStr d' p = getBidPhraseStr d p"
  unfolding getBidPhraseStr_def
proof (rule arg_cong [of _ _ concat], rule map_cong [OF refl])
  fix k
  assume e: "dict_extends d d'" "phrase_known d p" "k \<in> set p"
  then have "dict_name d k = Some (id_values d ! k)" by (simp add: phrase_known_def dict_name_def vec_at_def)
  with e(1) show "getBidKeywordStrFromId d' k @ '' '' = getBidKeywordStrFromId d k @ '' ''"
    by (metis dict_extends_def getBidKeywordStrFromId_name)
qed

lemma dict_extends_known: "dict_extends d d' \<Longrightarrow> phrase_known d p \<Longrightarrow> phrase_known d' p"
  by (fastforce simp: phrase_known_def dict_extends_def dict_name_def vec_at_def split: if_splits)

lemma generateBidPhrase_ok:
  assumes "dict_ok d" and "phrase_known d old" and "generateBidPhrase pca title old d = (p, d')"
  shows "dict_ok d' \<and> dict_extends d d' \<and> phrase_known d' p \<and>
    (title \<noteq> [] \<longrightarrow> getBidPhraseStr d' p =
       concat (map (\<lambda>t. t @ '' '') (take (Suc MAX_BIDPHRASE_LEN) (generateTokens pca title))))"
proof (cases "title = []")
  case True
  then show ?thesis using assms by (simp add: generateBidPhrase_def)
next
  case False
  then have "phrase_loop d (generateTokens pca title) [] = (p, d')"
    using assms(3) by (simp add: generateBidPhrase_def)
  from phrase_loop_ok [OF assms(1) _ this] have l: "dict_ok d'" "dict_extends d d'"
    "map (dict_name d') p = map Some (take (Suc MAX_BIDPHRASE_LEN) (generateTokens pca title))" by auto
  have "dict_name d' k \<noteq> None" if "k \<in> set p" for k
    using arg_cong [OF l(3), of set] that by auto
  then have "phrase_known d' p" unfolding phrase_known_def dict_name_def vec_at_def by meson
  with l phrase_str_names [OF l(3)] show ?thesis by simp
qed

section \<open>Properties\<close>

text \<open>
  Bid phrases read back: after \<open>generateBidPhrase\<close> the phrase prints as the first six
  tokens of the title (one more than \<open>MAX_BIDPHRASE_LEN\<close>), the dictionary stays a bijection
  between keywords and numbers, and every phrase made of known keywords prints as before.
\<close>

lemma bid_phrase_roundtrip:
  assumes "dict_ok d" and "title \<noteq> []" and "phrase_known d old" and "generateBidPhrase pca title old d = (p, d')"
  shows "dict_ok d' \<and> phrase_known d' p \<and>
    getBidPhraseStr d' p = concat (map (\<lambda>t. t @ '' '') (take 6 (generateTokens pca title))) \<and>
    (\<forall>q. phrase_known d q \<longrightarrow> phrase_known d' q \<and> getBidPhraseStr d' q = getBidPhraseStr d q)"
  using generateBidPhrase_ok [OF assms(1,3,4)] assms(2) dict_extends_str dict_extends_known
  by (auto simp: MAX_BIDPHRASE_LEN_def)

text \<open>
  Two truncations disagree: a phrase is generated from up to six tokens, but
  \<open>preprocessBidPhraseStr\<close>, under whose result a click is logged, keeps five. For a title of
  more than five tokens the two strings always differ, so its clicks are recorded under a
  key that no search uses; for shorter titles they agree.
\<close>

lemma click_key_differs:
  assumes "dict_ok d" and "title \<noteq> []" and "phrase_known d old" and "generateBidPhrase pca title old d = (p, d')"
  shows "getBidPhraseStr d' p = preprocessBidPhraseStr pca title \<longleftrightarrow>
    length (generateTokens pca title) \<le> MAX_BIDPHRASE_LEN"
proof -
  let ?ts = "generateTokens pca title"
  let ?join = "\<lambda>ts. concat (map (\<lambda>t. t @ '' '') ts)"
  have p: "getBidPhraseStr d' p = ?join (take (Suc MAX_BIDPHRASE_LEN) ?ts)"
    using generateBidPhrase_ok [OF assms(1,3,4)] assms(2) by simp
  show ?thesis
  proof (cases "length ?ts \<le> MAX_BIDPHRASE_LEN")
    case True
    then show ?thesis using p by (simp add: preprocessBidPhraseStr_def)
  next
    case False
    then have "preprocessBidPhraseStr pca title = ?join (take MAX_BIDPHRASE_LEN ?ts)"
      by (simp add: preprocessBidPhraseStr_def)
    moreover have "take (Suc MAX_BIDPHRASE_LEN) ?ts = take MAX_BIDPHRASE_LEN ?ts @ [?ts ! MAX_BIDPHRASE_LEN]"
      using False by (simp add: take_Suc_conv_app_nth)
    ultimately show ?thesis using p False by simp
  qed
qed

end
