(* ===== verification/Sponsored.thy ===== *)
theory Sponsored
  imports KeywordDict ManualBidInfo AuctionStat RealtimeBid UniformBid
begin

text \<open>
  The state of \<open>AdSponsoredMgr\<close> and the operations that edit it one ad at a time: bid phrases
  (\<open>delAdBidPhrase\<close>, \<open>updateAdBidPhrase\<close>, \<open>replaceAdBidPhrase\<close>), the online bitmap, budgets
  and the bid price of an ad. \<open>std::set<std::string>\<close> is a strictly sorted list. The id
  manager, the document store and the tokenizer, which lie outside the modelled files, are
  the fields of \<open>ad_env\<close>.
\<close>

datatype kBidStrategy = UniformBid | GeneticBid | RealtimeBid | Unknown

record ad_env =
  pca :: tokenizer
  adIdOf :: "string \<Rightarrow> nat option"
  adStrIdOf :: "nat \<Rightarrow> string option"

record sponsored_mgr =
  ad_bidphrase_list :: "bid_phrase list list"
  ad_orig_bidstr_list :: "string list list"
  ad_status_bitmap :: "bool list"
  ad_ctr_list :: "real list"
  keyword_dict :: str_dict
  ad_budget_used_list :: "int list"
  campaign_dict :: str_dict
  ad_campaign_belong_list :: "nat list"
  ad_campaign_bid_phrase_list :: "string list list"
  ad_log_mgr :: auction_log
  bid_strategy_type :: kBidStrategy
  ad_bid_price_list :: "(string \<rightharpoonup> int) list"
  ad_uniform_bid_price_list :: "(int \<times> real) list list"
  manual_bidinfo_mgr :: manual_bid_mgr

definition sponsored_init :: sponsored_mgr where
  "sponsored_init = \<lparr>ad_bidphrase_list = [], ad_orig_bidstr_list = [], ad_status_bitmap = [],
     ad_ctr_list = [], keyword_dict = str_dict0, ad_budget_used_list = [], campaign_dict = str_dict0,
     ad_campaign_belong_list = [], ad_campaign_bid_phrase_list = [], ad_log_mgr = auction_log_init,
     bid_strategy_type = UniformBid, ad_bid_price_list = [], ad_uniform_bid_price_list = [],
     manual_bidinfo_mgr = manual_bid_mgr_init\<rparr>"

definition LOWEST_CLICK_COST :: int where "LOWEST_CLICK_COST = 40"

section \<open>Bid phrases of an ad\<close>

text \<open>\<open>insert(first, last)\<close> and \<open>erase\<close> on a \<open>std::set<std::string>\<close>.\<close>

definition set_insert_all :: "string list \<Rightarrow> string list \<Rightarrow> string list" where
  "set_insert_all xs s = fold insort_insert xs s"

definition set_erase_all :: "string list \<Rightarrow> string list \<Rightarrow> string list" where
  "set_erase_all xs s = fold removeAll xs s"

text \<open>
  The phrases of a list of titles with their strings. The vector that receives a phrase is
  reused from title to title (\<open>gen_phrases\<close>) or cleared before each (\<open>gen_phrases_cleared\<close>);
  this matters for empty titles, which leave it alone.
\<close>

fun gen_phrases :: "tokenizer \<Rightarrow> string list \<Rightarrow> bid_phrase \<Rightarrow> str_dict \<Rightarrow> (bid_phrase \<times> string) list \<times> str_dict" where
  "gen_phrases pc [] old d = ([], d)"
| "gen_phrases pc (t # ts) old d =
     (let (p, d') = generateBidPhrase pc t old d;
          (rest, d'') = gen_phrases pc ts p d'
      in ((p, getBidPhraseStr d' p) # rest, d''))"

fun gen_phrases_cleared :: "tokenizer \<Rightarrow> string list \<Rightarrow> str_dict \<Rightarrow> (bid_phrase \<times> string) list \<times> str_dict" where
  "gen_phrases_cleared pc [] d = ([], d)"
| "gen_phrases_cleared pc (t # ts) d =
     (let (p, d') = generateBidPhrase pc t [] d;
          (rest, d'') = gen_phrases_cleared pc ts d'
      in ((p, getBidPhraseStr d' p) # rest, d''))"

definition campaign_name :: "sponsored_mgr \<Rightarrow> nat \<Rightarrow> string option" where
  "campaign_name m adid =
     (case vec_at (ad_campaign_belong_list m) adid of
        None \<Rightarrow> None
      | Some c \<Rightarrow> vec_at (id_values (campaign_dict m)) c)"

text \<open>Store phrases and their original strings for one ad.\<close>

definition store_phrases :: "nat \<Rightarrow> string list \<Rightarrow> bid_phrase list \<Rightarrow> str_dict \<Rightarrow> sponsored_mgr \<Rightarrow> sponsored_mgr option" where
  "store_phrases adid strs phrases d m =
     (if adid < length (ad_bidphrase_list m) \<and> adid < length (ad_orig_bidstr_list m)
      then Some (m\<lparr>ad_bidphrase_list := (ad_bidphrase_list m)[adid := phrases],
                   ad_orig_bidstr_list := (ad_orig_bidstr_list m)[adid := strs], keyword_dict := d\<rparr>)
      else None)"

definition delAdBidPhrase :: "ad_env \<Rightarrow> string \<Rightarrow> string list \<Rightarrow> sponsored_mgr \<Rightarrow> (bool \<times> sponsored_mgr) option" where
  "delAdBidPhrase env strid dels m =
     (case adIdOf env strid of
        None \<Rightarrow> Some (False, m)
      | Some adid \<Rightarrow>
          if adid \<ge> length (ad_orig_bidstr_list m) then Some (False, m)
          else if ad_orig_bidstr_list m ! adid = [] then Some (True, m)
          else (case campaign_name m adid of
                  None \<Rightarrow> None
                | Some cname \<Rightarrow>
                    (let diff = set_erase_all dels (set_insert_all (ad_orig_bidstr_list m ! adid) []);
                         (deleted, d1) = gen_phrases (pca env) dels [] (keyword_dict m);
                         (kept, d2) = gen_phrases_cleared (pca env) diff d1
                     in case store_phrases adid diff (map fst kept) d2 m of
                          None \<Rightarrow> None
                        | Some m' \<Rightarrow>
                            Some (True, m'\<lparr>manual_bidinfo_mgr :=
                              removeManualBidPrice (manual_bidinfo_mgr m') cname adid (map snd deleted)\<rparr>))))"

definition updateAdBidPhrase ::
  "ad_env \<Rightarrow> string \<Rightarrow> string list \<Rightarrow> int list \<Rightarrow> sponsored_mgr \<Rightarrow> (bool \<times> sponsored_mgr) option" where
  "updateAdBidPhrase env strid strs prices m =
     (case adIdOf env strid of
        None \<Rightarrow> Some (False, m)
      | Some adid \<Rightarrow>
          if adid \<ge> length (ad_orig_bidstr_list m) then Some (False, m)
          else (case campaign_name m adid of
                  None \<Rightarrow> None
                | Some cname \<Rightarrow>
                    if length prices < length strs then None
                    else
                    (let diff = set_insert_all strs (set_insert_all (ad_orig_bidstr_list m ! adid) []);
                         price_map = map_of (rev (zip strs prices));
                         (phrases, d) = gen_phrases_cleared (pca env) diff (keyword_dict m);
                         changed = filter (\<lambda>(s, p). price_map s \<noteq> None) (zip diff phrases)
                     in case store_phrases adid diff (map fst phrases) d m of
                          None \<Rightarrow> None
                        | Some m' \<Rightarrow>
                            (case setManualBidPrice (manual_bidinfo_mgr m') cname adid
                                    (map (\<lambda>(s, p). snd p) changed) (map (\<lambda>(s, p). the (price_map s)) changed) of
                               None \<Rightarrow> None
                             | Some mb \<Rightarrow> Some (True, m'\<lparr>manual_bidinfo_mgr := mb\<rparr>)))))"

text \<open>\<open>replaceAdBidPhrase\<close> hands the previous phrases back through \<open>bidid_list\<close>.\<close>

definition replaceAdBidPhrase ::
  "ad_env \<Rightarrow> nat \<Rightarrow> string list \<Rightarrow> sponsored_mgr \<Rightarrow> (bid_phrase list \<times> sponsored_mgr) option" where
  "replaceAdBidPhrase env adid strs m =
     (let (phrases, d) = gen_phrases (pca env) strs [] (keyword_dict m)
      in case store_phrases adid strs (map fst phrases) d m of
           None \<Rightarrow> None
         | Some m' \<Rightarrow> Some (ad_bidphrase_list m ! adid, m'))"

section \<open>Online status\<close>

text \<open>A set bit marks an offline ad. Writing outside the bitmap is undefined.\<close>

fun set_status :: "ad_env \<Rightarrow> (string \<times> bool) list \<Rightarrow> bool list \<Rightarrow> bool list option" where
  "set_status env [] bits = Some bits"
| "set_status env ((s, online) # rest) bits =
     (case adIdOf env s of
        None \<Rightarrow> set_status env rest bits
      | Some adid \<Rightarrow>
          if adid < length bits then set_status env rest (bits[adid := \<not> online]) else None)"

definition updateAdOnlineStatus ::
  "ad_env \<Rightarrow> string list \<Rightarrow> bool list \<Rightarrow> sponsored_mgr \<Rightarrow> (bool \<times> sponsored_mgr) option" where
  "updateAdOnlineStatus env strids online m =
     (if length strids \<noteq> length online then Some (False, m)
      else (case set_status env (zip strids online) (ad_status_bitmap m) of
              None \<Rightarrow> None
            | Some bits \<Rightarrow> Some (True, m\<lparr>ad_status_bitmap := bits\<rparr>)))"

section \<open>Budgets\<close>

definition consumeBudget :: "nat \<Rightarrow> int \<Rightarrow> sponsored_mgr \<Rightarrow> sponsored_mgr" where
  "consumeBudget adid cost m =
     (if adid \<ge> length (ad_campaign_belong_list m) then m
      else (let c = ad_campaign_belong_list m ! adid
            in if c \<ge> length (ad_budget_used_list m) then m
               else m\<lparr>ad_budget_used_list := (ad_budget_used_list m)[c := ad_budget_used_list m ! c + cost]\<rparr>))"

definition getBudgetLeft :: "sponsored_mgr \<Rightarrow> nat \<Rightarrow> int option" where
  "getBudgetLeft m adid =
     (if adid \<ge> length (ad_campaign_belong_list m) then Some 0
      else (case campaign_name m adid of
              None \<Rightarrow> None
            | Some cname \<Rightarrow>
                (let c = ad_campaign_belong_list m ! adid
                 in if c \<ge> length (ad_budget_used_list m) then Some 0
                    else Some (getBidBudget (manual_bidinfo_mgr m) cname - ad_budget_used_list m ! c))))"

text \<open>\<open>changeDailyBudget\<close> also writes the file of the manual bid manager.\<close>

definition changeDailyBudget :: "string \<Rightarrow> int \<Rightarrow> sponsored_mgr \<Rightarrow> sponsored_mgr" where
  "changeDailyBudget cname budget m =
     m\<lparr>manual_bidinfo_mgr := setBidBudget (manual_bidinfo_mgr m) cname budget\<rparr>"

text \<open>A click: logged under the preprocessed bid string, then paid from the campaign's budget.\<close>

definition sponsored_click :: "tm \<Rightarrow> ad_env \<Rightarrow> string \<Rightarrow> string \<Rightarrow> int \<Rightarrow> nat \<Rightarrow> sponsored_mgr \<Rightarrow> sponsored_mgr" where
  "sponsored_click now env strid orig cost slot m =
     (let m' = m\<lparr>ad_log_mgr := updateAuctionLogData now strid (preprocessBidPhraseStr (pca env) orig) cost slot (ad_log_mgr m)\<rparr>
      in case adIdOf env strid of None \<Rightarrow> m' | Some adid \<Rightarrow> consumeBudget adid cost m')"

section \<open>The bid price of an ad\<close>

text \<open>The random choice among the uniform bids; \<open>r\<close> is \<open>rand() % 10000\<close>.\<close>

fun pick_uniform :: "nat \<Rightarrow> (int \<times> real) list \<Rightarrow> int \<Rightarrow> int \<Rightarrow> int" where
  "pick_uniform r [] possible price = price"
| "pick_uniform r ((b, p) # bids) possible price =
     (let possible' = possible + to_int (p * 10000)
      in if int r \<le> possible' then b else pick_uniform r bids possible' price)"

definition realtime_price :: "tm \<Rightarrow> nat \<Rightarrow> string \<Rightarrow> int \<Rightarrow> sponsored_mgr \<Rightarrow> int option" where
  "realtime_price now adid hit price m =
     (let c = ad_campaign_belong_list m ! adid
      in if adid \<ge> length (ad_bidphrase_list m) then Some price
         else if c \<ge> length (ad_budget_used_list m) \<or> c \<ge> length (id_values (campaign_dict m)) then Some price
         else (let used = ad_budget_used_list m ! c;
                   left = getBidBudget (manual_bidinfo_mgr m) (id_values (campaign_dict m) ! c) - used;
                   current = getKeywordCurrentImpression now (ad_log_mgr m) hit;
                   (imp, cpcs, ctrs) = getKeywordStatData (ad_log_mgr m) hit;
                   info = \<lparr>cpc = cpcs, ctr = ctrs, impression = imp - current, minBid = LOWEST_CLICK_COST, bid = -1\<rparr>
               in case realtimeBidWithRevenueMax info used left 1000 of
                    None \<Rightarrow> None
                  | Some tmp \<Rightarrow> Some (if tmp > price then tmp else price)))"

definition getAdBidPrice :: "tm \<Rightarrow> nat \<Rightarrow> nat \<Rightarrow> string \<Rightarrow> sponsored_mgr \<Rightarrow> int option" where
  "getAdBidPrice now r adid hit m =
     (if adid \<ge> length (ad_campaign_belong_list m) then Some 0
      else (case campaign_name m adid of
              None \<Rightarrow> None
            | Some cname \<Rightarrow>
                (let c = ad_campaign_belong_list m ! adid;
                     price = getManualBidPrice (manual_bidinfo_mgr m) cname adid hit
                 in if price > 0 then Some price
                    else (case bid_strategy_type m of
                            RealtimeBid \<Rightarrow> realtime_price now adid hit price m
                          | UniformBid \<Rightarrow>
                              Some (if c \<ge> length (ad_uniform_bid_price_list m) then price
                                    else pick_uniform r (ad_uniform_bid_price_list m ! c) 0 price)
                          | GeneticBid \<Rightarrow>
                              Some (if c \<ge> length (ad_bid_price_list m) \<or> adid \<ge> length (ad_bidphrase_list m) then price
                                    else (case (ad_bid_price_list m ! c) hit of None \<Rightarrow> price | Some b \<Rightarrow> b))
                          | Unknown \<Rightarrow> Some price))))"

section \<open>Sorted sets of strings\<close>

definition sset :: "string list \<Rightarrow> bool" where
  "sset s \<longleftrightarrow> sorted s \<and> distinct s"

lemma sset_insert_all [simp]:
  "set (set_insert_all xs s) = set xs \<union> set s"
  "sset s \<Longrightarrow> sset (set_insert_all xs s)"
  unfolding set_insert_all_def sset_def
  by (induction xs arbitrary: s)
    (auto simp: set_insort_insert sorted_insort_insert distinct_insort_insert)

lemma sset_erase_all [simp]:
  "set (set_erase_all xs s) = set s - set xs"
  "sset s \<Longrightarrow> sset (set_erase_all xs s)"
proof -
  have r: "sset (removeAll x s)" if "sset s" for x s
    using that sorted_filter [of "\<lambda>x. x" s] by (simp add: sset_def distinct_removeAll removeAll_filter_not_eq)
  show "set (set_erase_all xs s) = set s - set xs"
    unfolding set_erase_all_def by (induction xs arbitrary: s) auto
  show "sset s \<Longrightarrow> sset (set_erase_all xs s)"
    unfolding set_erase_all_def by (induction xs arbitrary: s) (simp_all add: r)
qed

lemma sset_Nil [simp]: "sset []"
  by (simp add: sset_def)

section \<open>Generated phrases\<close>

text \<open>The string of the phrase generated from a title.\<close>

definition phrase_key :: "tokenizer \<Rightarrow> string \<Rightarrow> string" where
  "phrase_key pc t = concat (map (\<lambda>t. t @ '' '') (take (Suc MAX_BIDPHRASE_LEN) (generateTokens pc t)))"

definition phrases_ok :: "tokenizer \<Rightarrow> str_dict \<Rightarrow> string list \<Rightarrow> bid_phrase list \<Rightarrow> bool" where
  "phrases_ok pc d ts ps \<longleftrightarrow>
     list_all2 (\<lambda>t p. phrase_known d p \<and> (t \<noteq> [] \<longrightarrow> getBidPhraseStr d p = phrase_key pc t)) ts ps"

lemma phrases_ok_extends: "phrases_ok pc d ts ps \<Longrightarrow> dict_extends d d' \<Longrightarrow> phrases_ok pc d' ts ps"
  unfolding phrases_ok_def
  by (erule list_all2_mono) (auto simp: dict_extends_known dict_extends_str)

lemma gen_phrases_ok:
  "dict_ok d \<Longrightarrow> phrase_known d old \<Longrightarrow> gen_phrases pc ts old d = (ps, d') \<Longrightarrow>
   dict_ok d' \<and> dict_extends d d' \<and> phrases_ok pc d' ts (map fst ps)"
proof (induction ts arbitrary: old d ps d')
  case Nil
  then show ?case by (simp add: phrases_ok_def)
next
  case (Cons t ts)
  obtain p e where g: "generateBidPhrase pc t old d = (p, e)" by (cases "generateBidPhrase pc t old d")
  obtain qs e' where r: "gen_phrases pc ts p e = (qs, e')" by (cases "gen_phrases pc ts p e")
  note e = generateBidPhrase_ok [OF Cons.prems(1,2) g]
  have ih: "dict_ok e' \<and> dict_extends e e' \<and> phrases_ok pc e' ts (map fst qs)"
    using Cons.IH [OF _ _ r] e by blast
  have "phrases_ok pc e' [t] [p]"
    by (rule phrases_ok_extends [of pc e]) (use e ih in \<open>auto simp: phrases_ok_def phrase_key_def\<close>)
  with ih have "phrases_ok pc e' (t # ts) (p # map fst qs)" by (simp add: phrases_ok_def)
  moreover have "dict_extends d e'" using e ih dict_extends_trans by blast
  ultimately show ?case using Cons.prems(3) g r ih by auto
qed

lemma gen_phrases_cleared_ok:
  "dict_ok d \<Longrightarrow> gen_phrases_cleared pc ts d = (ps, d') \<Longrightarrow>
   dict_ok d' \<and> dict_extends d d' \<and> phrases_ok pc d' ts (map fst ps)"
proof (induction ts arbitrary: d ps d')
  case Nil
  then show ?case by (simp add: phrases_ok_def)
next
  case (Cons t ts)
  obtain p e where g: "generateBidPhrase pc t [] d = (p, e)" by (cases "generateBidPhrase pc t [] d")
  obtain qs e' where r: "gen_phrases_cleared pc ts e = (qs, e')" by (cases "gen_phrases_cleared pc ts e")
  have k: "phrase_known d []" by (simp add: phrase_known_def)
  note e = generateBidPhrase_ok [OF Cons.prems(1) k g]
  have ih: "dict_ok e' \<and> dict_extends e e' \<and> phrases_ok pc e' ts (map fst qs)"
    using Cons.IH [OF _ r] e by blast
  have "phrases_ok pc e' [t] [p]"
    by (rule phrases_ok_extends [of pc e]) (use e ih in \<open>auto simp: phrases_ok_def phrase_key_def\<close>)
  with ih have "phrases_ok pc e' (t # ts) (p # map fst qs)" by (simp add: phrases_ok_def)
  moreover have "dict_extends d e'" using e ih dict_extends_trans by blast
  ultimately show ?case using Cons.prems(2) g r ih by auto
qed

section \<open>The invariant\<close>

definition tables_ok :: "sponsored_mgr \<Rightarrow> bool" where
  "tables_ok m \<longleftrightarrow>
     length (ad_orig_bidstr_list m) = length (ad_bidphrase_list m) \<and>
     length (ad_status_bitmap m) = length (ad_bidphrase_list m) \<and>
     length (ad_bidphrase_list m) \<le> length (ad_campaign_belong_list m) \<and>
     (\<forall>c \<in> set (ad_campaign_belong_list m). c < length (id_values (campaign_dict m))) \<and>
     length (ad_campaign_bid_phrase_list m) \<le> length (id_values (campaign_dict m)) \<and>
     (\<forall>s \<in> set (ad_campaign_bid_phrase_list m). sset s)"

definition ads_ok :: "str_dict \<Rightarrow> string list list \<Rightarrow> bid_phrase list list \<Rightarrow> bool" where
  "ads_ok d = list_all2 (\<lambda>strs ps. length strs = length ps \<and> (\<forall>p \<in> set ps. phrase_known d p))"

definition sponsored_ok :: "sponsored_mgr \<Rightarrow> bool" where
  "sponsored_ok m \<longleftrightarrow> dict_ok (keyword_dict m) \<and> dict_ok (campaign_dict m) \<and> tables_ok m \<and>
     ads_ok (keyword_dict m) (ad_orig_bidstr_list m) (ad_bidphrase_list m)"

lemma sponsored_ok_init: "sponsored_ok sponsored_init"
  by (simp add: sponsored_ok_def sponsored_init_def tables_ok_def ads_ok_def)

lemma phrases_ok_ad: "phrases_ok pc d ts ps \<Longrightarrow> length ts = length ps \<and> (\<forall>p \<in> set ps. phrase_known d p)"
  by (auto simp: phrases_ok_def list_all2_conv_all_nth in_set_conv_nth)

lemma ads_ok_extends: "ads_ok d ss pss \<Longrightarrow> dict_extends d d' \<Longrightarrow> ads_ok d' ss pss"
  unfolding ads_ok_def by (erule list_all2_mono) (auto simp: dict_extends_known)

lemma campaign_name_ok:
  "sponsored_ok m \<Longrightarrow> a < length (ad_campaign_belong_list m) \<Longrightarrow>
   campaign_name m a = Some (id_values (campaign_dict m) ! (ad_campaign_belong_list m ! a))"
  by (auto simp: campaign_name_def sponsored_ok_def tables_ok_def vec_at_def)

lemma store_phrases_ok:
  assumes "sponsored_ok m" and "adid < length (ad_orig_bidstr_list m)" and "dict_ok d"
    and "dict_extends (keyword_dict m) d" and "phrases_ok pc d strs ps"
  shows "\<exists>m'. store_phrases adid strs ps d m = Some m' \<and> sponsored_ok m' \<and>
    m' = m\<lparr>ad_bidphrase_list := (ad_bidphrase_list m)[adid := ps],
           ad_orig_bidstr_list := (ad_orig_bidstr_list m)[adid := strs], keyword_dict := d\<rparr>"
proof -
  have l: "adid < length (ad_bidphrase_list m)" using assms(1,2) by (simp add: sponsored_ok_def tables_ok_def)
  have "ads_ok d (ad_orig_bidstr_list m) (ad_bidphrase_list m)"
    using assms(1,4) ads_ok_extends by (auto simp: sponsored_ok_def)
  then have "ads_ok d ((ad_orig_bidstr_list m)[adid := strs]) ((ad_bidphrase_list m)[adid := ps])"
    using phrases_ok_ad [OF assms(5)] unfolding ads_ok_def by (intro list_all2_update_cong) auto
  then show ?thesis
    using assms(1-3) l by (auto simp: store_phrases_def sponsored_ok_def tables_ok_def)
qed

lemma sponsored_ok_manual [simp]: "sponsored_ok (m\<lparr>manual_bidinfo_mgr := x\<rparr>) = sponsored_ok m"
  and sponsored_ok_log [simp]: "sponsored_ok (m\<lparr>ad_log_mgr := y\<rparr>) = sponsored_ok m"
  and sponsored_ok_used [simp]: "sponsored_ok (m\<lparr>ad_budget_used_list := u\<rparr>) = sponsored_ok m"
  by (simp_all add: sponsored_ok_def tables_ok_def)

lemma setManualBidPrice_defined: "length ks = length ps \<Longrightarrow> \<exists>m'. setManualBidPrice m c a ks ps = Some m'"
  using set_prices_defined [of a ks ps "campaign_prices m c"]
  by (auto simp: setManualBidPrice_def split: option.splits)

section \<open>Editing keeps the invariant\<close>

lemma delAdBidPhrase_ok:
  assumes "sponsored_ok m" and "adIdOf env s = Some a" and "a < length (ad_orig_bidstr_list m)"
    and "ad_orig_bidstr_list m ! a \<noteq> []"
  shows "\<exists>strs ps d x. delAdBidPhrase env s dels m = Some (True,
      m\<lparr>ad_bidphrase_list := (ad_bidphrase_list m)[a := ps],
        ad_orig_bidstr_list := (ad_orig_bidstr_list m)[a := strs], keyword_dict := d, manual_bidinfo_mgr := x\<rparr>) \<and>
    sset strs \<and> set strs = set (ad_orig_bidstr_list m ! a) - set dels \<and>
    dict_ok d \<and> dict_extends (keyword_dict m) d \<and> phrases_ok (pca env) d strs ps"
proof -
  let ?diff = "set_erase_all dels (set_insert_all (ad_orig_bidstr_list m ! a) [])"
  obtain del d1 where g1: "gen_phrases (pca env) dels [] (keyword_dict m) = (del, d1)"
    by (cases "gen_phrases (pca env) dels [] (keyword_dict m)")
  obtain kept d2 where g2: "gen_phrases_cleared (pca env) ?diff d1 = (kept, d2)"
    by (cases "gen_phrases_cleared (pca env) ?diff d1")
  have d: "dict_ok (keyword_dict m)" and a: "a < length (ad_campaign_belong_list m)"
    using assms(1,3) by (auto simp: sponsored_ok_def tables_ok_def)
  have d1: "dict_ok d1" "dict_extends (keyword_dict m) d1"
    using gen_phrases_ok [OF d _ g1] by (auto simp: phrase_known_def)
  have d2: "dict_ok d2" "dict_extends d1 d2" "phrases_ok (pca env) d2 ?diff (map fst kept)"
    using gen_phrases_cleared_ok [OF d1(1) g2] by auto
  have ext: "dict_extends (keyword_dict m) d2" using d1(2) d2(2) by (rule dict_extends_trans)
  from store_phrases_ok [OF assms(1,3) d2(1) ext d2(3)] obtain m' where
    m': "store_phrases a ?diff (map fst kept) d2 m = Some m'"
      "m' = m\<lparr>ad_bidphrase_list := (ad_bidphrase_list m)[a := map fst kept],
           ad_orig_bidstr_list := (ad_orig_bidstr_list m)[a := ?diff], keyword_dict := d2\<rparr>" by blast
  show ?thesis
    using assms(2-4) campaign_name_ok [OF assms(1) a] g1 g2 m' d2 ext
    by (intro exI [of _ ?diff] exI [of _ "map fst kept"] exI [of _ d2] exI) (auto simp: delAdBidPhrase_def Let_def)
qed

lemma updateAdBidPhrase_ok:
  assumes "sponsored_ok m" and "adIdOf env s = Some a" and "a < length (ad_orig_bidstr_list m)"
    and "length strs \<le> length prices"
  shows "\<exists>new ps d x. updateAdBidPhrase env s strs prices m = Some (True,
      m\<lparr>ad_bidphrase_list := (ad_bidphrase_list m)[a := ps],
        ad_orig_bidstr_list := (ad_orig_bidstr_list m)[a := new], keyword_dict := d, manual_bidinfo_mgr := x\<rparr>) \<and>
    sset new \<and> set new = set (ad_orig_bidstr_list m ! a) \<union> set strs \<and>
    dict_ok d \<and> dict_extends (keyword_dict m) d \<and> phrases_ok (pca env) d new ps"
proof -
  let ?diff = "set_insert_all strs (set_insert_all (ad_orig_bidstr_list m ! a) [])"
  let ?pm = "map_of (rev (zip strs prices))"
  obtain ps d' where g: "gen_phrases_cleared (pca env) ?diff (keyword_dict m) = (ps, d')"
    by (cases "gen_phrases_cleared (pca env) ?diff (keyword_dict m)")
  have d: "dict_ok (keyword_dict m)" and a: "a < length (ad_campaign_belong_list m)"
    using assms(1,3) by (auto simp: sponsored_ok_def tables_ok_def)
  have d': "dict_ok d'" "dict_extends (keyword_dict m) d'" "phrases_ok (pca env) d' ?diff (map fst ps)"
    using gen_phrases_cleared_ok [OF d g] by auto
  from store_phrases_ok [OF assms(1,3) d'] obtain m' where
    m': "store_phrases a ?diff (map fst ps) d' m = Some m'"
      "m' = m\<lparr>ad_bidphrase_list := (ad_bidphrase_list m)[a := map fst ps],
           ad_orig_bidstr_list := (ad_orig_bidstr_list m)[a := ?diff], keyword_dict := d'\<rparr>" by blast
  let ?ch = "filter (\<lambda>(s, p). ?pm s \<noteq> None) (zip ?diff ps)"
  obtain x where x: "setManualBidPrice (manual_bidinfo_mgr m') (id_values (campaign_dict m) ! (ad_campaign_belong_list m ! a)) a
      (map (\<lambda>(s, p). snd p) ?ch) (map (\<lambda>(s, p). the (?pm s)) ?ch) = Some x"
    using setManualBidPrice_defined [of "map (\<lambda>(s, p). snd p) ?ch" "map (\<lambda>(s, p). the (?pm s)) ?ch"] by fastforce
  show ?thesis
    using assms(2-4) campaign_name_ok [OF assms(1) a] g m' d' x
    by (intro exI [of _ ?diff] exI [of _ "map fst ps"] exI [of _ d'] exI [of _ x])
      (auto simp: updateAdBidPhrase_def Let_def)
qed

lemma edited_ok:
  assumes "sponsored_ok m" and "a < length (ad_orig_bidstr_list m)" and "dict_ok d"
    and "dict_extends (keyword_dict m) d" and "phrases_ok pc d strs ps"
  shows "sponsored_ok (m\<lparr>ad_bidphrase_list := (ad_bidphrase_list m)[a := ps],
        ad_orig_bidstr_list := (ad_orig_bidstr_list m)[a := strs], keyword_dict := d, manual_bidinfo_mgr := x\<rparr>)"
  using store_phrases_ok [OF assms] by auto

lemma del_sponsored_ok:
  "sponsored_ok m \<Longrightarrow> \<exists>b m'. delAdBidPhrase env s dels m = Some (b, m') \<and> sponsored_ok m'"
proof (cases "adIdOf env s")
  case (Some a)
  assume ok: "sponsored_ok m"
  show ?thesis
  proof (cases "a < length (ad_orig_bidstr_list m) \<and> ad_orig_bidstr_list m ! a \<noteq> []")
    case True
    with delAdBidPhrase_ok [OF ok Some, of dels] edited_ok [OF ok] show ?thesis by blast
  next
    case False
    then show ?thesis using Some ok by (auto simp: delAdBidPhrase_def)
  qed
qed (auto simp: delAdBidPhrase_def)

lemma update_sponsored_ok:
  "sponsored_ok m \<Longrightarrow> length strs \<le> length prices \<Longrightarrow>
   \<exists>b m'. updateAdBidPhrase env s strs prices m = Some (b, m') \<and> sponsored_ok m'"
proof (cases "adIdOf env s")
  case (Some a)
  assume ok: "sponsored_ok m" and l: "length strs \<le> length prices"
  show ?thesis
  proof (cases "a < length (ad_orig_bidstr_list m)")
    case True
    with updateAdBidPhrase_ok [OF ok Some _ l] edited_ok [OF ok] show ?thesis by blast
  next
    case False
    then show ?thesis using Some ok by (auto simp: updateAdBidPhrase_def)
  qed
qed (auto simp: updateAdBidPhrase_def)

lemma replace_sponsored_ok:
  assumes "sponsored_ok m" and "a < length (ad_orig_bidstr_list m)"
  shows "\<exists>old m'. replaceAdBidPhrase env a strs m = Some (old, m') \<and> sponsored_ok m'"
proof -
  obtain ps d where g: "gen_phrases (pca env) strs [] (keyword_dict m) = (ps, d)"
    by (cases "gen_phrases (pca env) strs [] (keyword_dict m)")
  have "dict_ok (keyword_dict m)" using assms(1) by (simp add: sponsored_ok_def)
  from gen_phrases_ok [OF this _ g] store_phrases_ok [OF assms, of d "pca env" strs "map fst ps"] show ?thesis
    by (auto simp: replaceAdBidPhrase_def g phrase_known_def)
qed

lemma set_status_some:
  "\<forall>s \<in> set (map fst l). \<forall>a. adIdOf env s = Some a \<longrightarrow> a < length bits \<Longrightarrow>
   \<exists>b. set_status env l bits = Some b \<and> length b = length bits"
  by (induction env l bits rule: set_status.induct) (auto split: option.split)

lemma online_sponsored_ok:
  assumes "sponsored_ok m" and "\<forall>s \<in> set strids. \<forall>a. adIdOf env s = Some a \<longrightarrow> a < length (ad_status_bitmap m)"
  shows "\<exists>b m'. updateAdOnlineStatus env strids online m = Some (b, m') \<and> sponsored_ok m'"
proof (cases "length strids = length online")
  case True
  with assms(2) set_status_some [of "zip strids online" env "ad_status_bitmap m"] assms(1) show ?thesis
    by (auto simp: updateAdOnlineStatus_def sponsored_ok_def tables_ok_def)
qed (auto simp: updateAdOnlineStatus_def assms(1))

lemma consume_sponsored_ok: "sponsored_ok m \<Longrightarrow> sponsored_ok (consumeBudget a cost m)"
  by (simp add: consumeBudget_def Let_def)

section \<open>Budgets\<close>

lemma getBudgetLeft_ok:
  "sponsored_ok m \<Longrightarrow> getBudgetLeft m a = Some
     (if a < length (ad_campaign_belong_list m) \<and> ad_campaign_belong_list m ! a < length (ad_budget_used_list m)
      then getBidBudget (manual_bidinfo_mgr m) (id_values (campaign_dict m) ! (ad_campaign_belong_list m ! a))
             - ad_budget_used_list m ! (ad_campaign_belong_list m ! a)
      else 0)"
  using campaign_name_ok by (auto simp: getBudgetLeft_def Let_def)

section \<open>Random choice of a uniform bid\<close>

lemma pick_uniform_pair:
  assumes "0 \<le> p1" and "0 \<le> p2" and "p1 + p2 = 1" and "r < 10000"
  shows "pick_uniform r [(b1, p1), (b2, p2)] 0 price = (if int r \<le> \<lfloor>p1 * 10000\<rfloor> then b1 else b2)"
proof -
  have "p2 * 10000 = 10000 - p1 * 10000" using assms(3) by (simp add: algebra_simps)
  then have "\<lfloor>p1 * 10000\<rfloor> + \<lfloor>p2 * 10000\<rfloor> \<ge> 9999" by linarith
  then show ?thesis using assms(1,2,4) by (auto simp: to_int_nonneg Let_def)
qed

section \<open>Properties\<close>



text \<open>
  What editing does to the phrases of an ad: \<open>delAdBidPhrase\<close> leaves exactly the original
  strings that are not deleted, \<open>updateAdBidPhrase\<close> adds the new ones, each once and in order;
  the phrase at every position again prints as the key of the string at that position; the
  strings and phrases of the other ads do not change.
\<close>

lemma edited_phrases:
  assumes "sponsored_ok m" and "adIdOf env s = Some a" and "a < length (ad_orig_bidstr_list m)"
  shows "(ad_orig_bidstr_list m ! a \<noteq> [] \<longrightarrow>
      (\<exists>m'. delAdBidPhrase env s dels m = Some (True, m') \<and>
         set (ad_orig_bidstr_list m' ! a) = set (ad_orig_bidstr_list m ! a) - set dels \<and>
         sset (ad_orig_bidstr_list m' ! a) \<and>
         phrases_ok (pca env) (keyword_dict m') (ad_orig_bidstr_list m' ! a) (ad_bidphrase_list m' ! a) \<and>
         (\<forall>b. b \<noteq> a \<longrightarrow> ad_orig_bidstr_list m' ! b = ad_orig_bidstr_list m ! b \<and>
            ad_bidphrase_list m' ! b = ad_bidphrase_list m ! b))) \<and>
    (length strs \<le> length prices \<longrightarrow>
      (\<exists>m'. updateAdBidPhrase env s strs prices m = Some (True, m') \<and>
         set (ad_orig_bidstr_list m' ! a) = set (ad_orig_bidstr_list m ! a) \<union> set strs \<and>
         sset (ad_orig_bidstr_list m' ! a) \<and>
         phrases_ok (pca env) (keyword_dict m') (ad_orig_bidstr_list m' ! a) (ad_bidphrase_list m' ! a) \<and>
         (\<forall>b. b \<noteq> a \<longrightarrow> ad_orig_bidstr_list m' ! b = ad_orig_bidstr_list m ! b \<and>
            ad_bidphrase_list m' ! b = ad_bidphrase_list m ! b)))"
proof -
  have l: "a < length (ad_bidphrase_list m)" using assms(1,3) by (simp add: sponsored_ok_def tables_ok_def)
  show ?thesis
    using delAdBidPhrase_ok [OF assms, of dels] updateAdBidPhrase_ok [OF assms, of strs prices] assms(3) l
    by (intro conjI impI) force+
qed

text \<open>
  A click is paid by the campaign of the clicked ad: afterwards the budget left of every
  ad of that campaign is smaller by the cost of the click, that of every other ad is what it
  was; a click on an unknown ad costs nobody anything.
\<close>

lemma click_budget:
  assumes "sponsored_ok m"
  shows "getBudgetLeft (sponsored_click now env s orig cost slot m) b = map_option (\<lambda>left.
     left - (case adIdOf env s of
        None \<Rightarrow> 0
      | Some a \<Rightarrow>
          if a < length (ad_campaign_belong_list m) \<and> b < length (ad_campaign_belong_list m) \<and>
             ad_campaign_belong_list m ! b = ad_campaign_belong_list m ! a \<and>
             ad_campaign_belong_list m ! a < length (ad_budget_used_list m)
          then cost else 0)) (getBudgetLeft m b)"
proof -
  have ok: "sponsored_ok (sponsored_click now env s orig cost slot m)"
    using assms consume_sponsored_ok by (simp add: sponsored_click_def Let_def split: option.split)
  show ?thesis
    unfolding getBudgetLeft_ok [OF ok] getBudgetLeft_ok [OF assms]
    by (auto simp: sponsored_click_def consumeBudget_def Let_def nth_list_update split: option.split)
qed

lemma getAdBidPrice_uniform:
  assumes "sponsored_ok m" and "a < length (ad_campaign_belong_list m)" and "c = ad_campaign_belong_list m ! a"
    and "bid_strategy_type m = UniformBid" and "c < length (ad_uniform_bid_price_list m)"
    and "ad_uniform_bid_price_list m ! c = [(b1, p1), (b2, p2)]"
    and "0 \<le> p1" and "0 \<le> p2" and "p1 + p2 = 1"
  shows "getAdBidPrice now (k mod 10000) a hit m = Some
    (let manual = getManualBidPrice (manual_bidinfo_mgr m) (id_values (campaign_dict m) ! c) a hit
     in if 0 < manual then manual else if int (k mod 10000) \<le> \<lfloor>p1 * 10000\<rfloor> then b1 else b2)"
  using campaign_name_ok [OF assms(1,2)] assms(2-6) pick_uniform_pair [OF assms(7-9), of "k mod 10000" b1 b2]
  by (simp add: getAdBidPrice_def Let_def del: pick_uniform.simps)

text \<open>
  The price of an ad without a manual price under the uniform strategy: whatever
  \<open>rand()\<close> returns, it is one of the two bids of its campaign, the first one exactly when
  \<open>rand() % 10000\<close> is at most its probability in ten-thousandths rounded down. A positive manual price
  is used as it is.
\<close>

lemma uniform_price:
  assumes "sponsored_ok m" and "a < length (ad_campaign_belong_list m)" and "c = ad_campaign_belong_list m ! a"
    and "bid_strategy_type m = UniformBid" and "c < length (ad_uniform_bid_price_list m)"
    and "ad_uniform_bid_price_list m ! c = [(b1, p1), (b2, p2)]"
    and "0 \<le> p1" and "0 \<le> p2" and "p1 + p2 = 1"
  shows "getAdBidPrice now (k mod 10000) a hit m = Some
    (let manual = getManualBidPrice (manual_bidinfo_mgr m) (id_values (campaign_dict m) ! c) a hit
     in if 0 < manual then manual else if int (k mod 10000) \<le> \<lfloor>p1 * 10000\<rfloor> then b1 else b2)"
  by (rule getAdBidPrice_uniform [OF assms])

end
