(* ===== verification/SponsoredSearch.thy ===== *)
theory SponsoredSearch
  imports Sponsored
begin

text \<open>
  \<open>AdSponsoredMgr::sponsoredAdSearch\<close>: the ads whose bid phrases the query covers, filtered by
  status and budget, ranked by bid times quality, with the cost of a click for each. The
  full-text search is the parameter \<open>searcher\<close> (\<open>None\<close> for a null pointer); the bounded
  priority queue of the utility library is the parameter \<open>drain\<close>, the sequence of items it
  pops after the given items were inserted; \<open>rnd i\<close> is what \<open>rand()\<close> returns while the
  \<open>i\<close>-th candidate is priced. The result object is an \<open>AdKeywordSearchResult\<close>, as the search
  handler creates it.
\<close>

definition MAX_RANKED_AD_NUM :: nat where "MAX_RANKED_AD_NUM = 20"
definition MIN_AD_SCORE :: real where "MIN_AD_SCORE = 1 / 1000000"

record ad_doc =
  docId :: nat
  score :: real
  qscore :: real
  hit_bidstr :: string
  hit_orig_bidstr :: string

text \<open>The order of the queue; \<open>eps\<close> is the epsilon of \<open>score_t\<close>, a type of the utility library.\<close>

definition ad_lessThan :: "real \<Rightarrow> ad_doc \<Rightarrow> ad_doc \<Rightarrow> bool" where
  "ad_lessThan eps o1 o2 \<longleftrightarrow>
     (if \<bar>score o1 - score o2\<bar> < eps then docId o1 < docId o2 else score o1 < score o2)"

record search_result =
  totalCount :: nat
  topKDocs :: "nat list"
  topKRankScoreList :: "real list"
  topKAdCost :: "real list"
  topKAdBidStrList :: "string list"

section \<open>Broad match\<close>

text \<open>The keyword ids of the query, its bit set over \<open>[first_kid, last_kid]\<close>, and the test.\<close>

definition query_kids :: "tokenizer \<Rightarrow> str_dict \<Rightarrow> string \<Rightarrow> nat list" where
  "query_kids pc d query = List.map_filter (getBidKeywordIdFromStr d) (generateTokens pc query)"

definition modified_query :: "tokenizer \<Rightarrow> str_dict \<Rightarrow> string \<Rightarrow> string" where
  "modified_query pc d query =
     concat (map (\<lambda>t. t @ '' '') (filter (\<lambda>t. getBidKeywordIdFromStr d t \<noteq> None) (generateTokens pc query)))"

definition hit_set :: "nat list \<Rightarrow> bool list" where
  "hit_set kids =
     fold (\<lambda>k bits. bits[k - hd kids := True]) kids (replicate (last kids - hd kids + 1) False)"

definition phrase_hit :: "nat list \<Rightarrow> bool list \<Rightarrow> bid_phrase \<Rightarrow> bool" where
  "phrase_hit kids hits phrase \<longleftrightarrow>
     list_all (\<lambda>k. \<not> (k < hd kids \<or> k > last kids \<or> \<not> hits ! (k - hd kids))) phrase"

fun best_match :: "(bid_phrase \<Rightarrow> bool) \<Rightarrow> bid_phrase list \<Rightarrow> nat \<Rightarrow> nat \<Rightarrow> nat option \<Rightarrow> nat option" where
  "best_match hit [] j bsize best = best"
| "best_match hit (p # ps) j bsize best =
     (if length p \<le> bsize then best_match hit ps (Suc j) bsize best
      else if hit p then best_match hit ps (Suc j) (length p) (Some j)
      else best_match hit ps (Suc j) bsize best)"

section \<open>Candidates\<close>

definition sponsored_getAdCTR :: "sponsored_mgr \<Rightarrow> nat \<Rightarrow> real" where
  "sponsored_getAdCTR m adid = (if adid \<ge> length (ad_ctr_list m) then 0 else ad_ctr_list m ! adid)"

definition getAdRelevantScore :: "bid_phrase \<Rightarrow> real" where
  "getAdRelevantScore phrase = real (length phrase)"

definition getAdQualityScore :: "sponsored_mgr \<Rightarrow> nat \<Rightarrow> bid_phrase \<Rightarrow> real" where
  "getAdQualityScore m adid phrase = sponsored_getAdCTR m adid * getAdRelevantScore phrase"

definition rank_item :: "sponsored_mgr \<Rightarrow> nat \<Rightarrow> nat \<Rightarrow> int \<Rightarrow> ad_doc" where
  "rank_item m a j price =
     (let phrase = ad_bidphrase_list m ! a ! j; q = getAdQualityScore m a phrase
      in \<lparr>docId = a, score = real_of_int (max LOWEST_CLICK_COST price) * q, qscore = q,
          hit_bidstr = getBidPhraseStr (keyword_dict m) phrase,
          hit_orig_bidstr = ad_orig_bidstr_list m ! a ! j\<rparr>)"

text \<open>One search hit: \<open>None\<close> is undefined behaviour, \<open>Some None\<close> a hit that is not ranked.\<close>

definition candidate :: "tm \<Rightarrow> nat \<Rightarrow> (bid_phrase \<Rightarrow> bool) \<Rightarrow> sponsored_mgr \<Rightarrow> nat \<Rightarrow> ad_doc option option" where
  "candidate now r hit m a =
     (if a \<ge> length (ad_status_bitmap m) then None
      else if ad_status_bitmap m ! a then Some None
      else if a \<ge> length (ad_bidphrase_list m) then Some None
      else (case best_match hit (ad_bidphrase_list m ! a) 0 0 None of
              None \<Rightarrow> Some None
            | Some j \<Rightarrow>
                (case getBudgetLeft m a of
                   None \<Rightarrow> None
                 | Some left \<Rightarrow>
                     if left \<le> 0 then Some None
                     else if a \<ge> length (ad_orig_bidstr_list m) \<or> j \<ge> length (ad_orig_bidstr_list m ! a) then None
                     else (case getAdBidPrice now r a (getBidPhraseStr (keyword_dict m) (ad_bidphrase_list m ! a ! j)) m of
                             None \<Rightarrow> None
                           | Some price \<Rightarrow>
                               (let item = rank_item m a j price
                                in Some (if score item > MIN_AD_SCORE then Some item else None))))))"

fun candidates_of :: "tm \<Rightarrow> (nat \<Rightarrow> nat) \<Rightarrow> (bid_phrase \<Rightarrow> bool) \<Rightarrow> sponsored_mgr \<Rightarrow> nat \<Rightarrow> nat list \<Rightarrow> ad_doc list option" where
  "candidates_of now rnd hit m i [] = Some []"
| "candidates_of now rnd hit m i (a # as) =
     (case candidate now (rnd i mod 10000) hit m a of
        None \<Rightarrow> None
      | Some c \<Rightarrow>
          (case candidates_of now rnd hit m (Suc i) as of
             None \<Rightarrow> None
           | Some cs \<Rightarrow> Some (case c of None \<Rightarrow> cs | Some item \<Rightarrow> item # cs)))"

section \<open>Ranking and cost\<close>

text \<open>Costs in yuan, from the best ranked ad to the last; the next score prices the one before.\<close>

fun ad_costs :: "ad_doc list \<Rightarrow> real list" where
  "ad_costs [] = []"
| "ad_costs [x] = [max (real_of_int LOWEST_CLICK_COST) (score x / qscore x) / 100]"
| "ad_costs (x # y # xs) = ((real_of_int LOWEST_CLICK_COST + score y / qscore x) / 100) # ad_costs (y # xs)"

definition fill_result :: "ad_doc list \<Rightarrow> search_result" where
  "fill_result ranked = \<lparr>totalCount = length ranked, topKDocs = map docId ranked,
     topKRankScoreList = map score ranked, topKAdCost = ad_costs ranked,
     topKAdBidStrList = map hit_orig_bidstr ranked\<rparr>"

definition log_search :: "tm \<Rightarrow> ad_env \<Rightarrow> ad_doc list \<Rightarrow> sponsored_mgr \<Rightarrow> sponsored_mgr" where
  "log_search now env ranked m =
     m\<lparr>ad_log_mgr := updateAdSearchStat now (set_insert_all (map hit_bidstr ranked) [])
          (map (\<lambda>x. case adStrIdOf env (docId x) of None \<Rightarrow> [] | Some s \<Rightarrow> s) ranked) (ad_log_mgr m)\<rparr>"

definition sponsoredAdSearch ::
  "tm \<Rightarrow> (nat \<Rightarrow> nat) \<Rightarrow> ad_env \<Rightarrow> (string \<Rightarrow> nat list) option \<Rightarrow> (ad_doc list \<Rightarrow> ad_doc list) \<Rightarrow>
   string \<Rightarrow> search_result \<Rightarrow> sponsored_mgr \<Rightarrow> (bool \<times> search_result \<times> sponsored_mgr) option" where
  "sponsoredAdSearch now rnd env searcher drain query res m =
     (case searcher of
        None \<Rightarrow> Some (False, res, m)
      | Some search \<Rightarrow>
          (let kids = query_kids (pca env) (keyword_dict m) query
           in if kids = [] then Some (True, res\<lparr>totalCount := 0, topKDocs := [], topKRankScoreList := []\<rparr>, m)
              else (let sorted_kids = sort kids;
                        hit = phrase_hit sorted_kids (hit_set sorted_kids);
                        docs = search (modified_query (pca env) (keyword_dict m) query)
                    in case candidates_of now rnd hit m 0 docs of
                         None \<Rightarrow> None
                       | Some items \<Rightarrow>
                           (let ranked = rev (drain items)
                            in Some (True, fill_result ranked, log_search now env ranked m)))))"

section \<open>Broad match is set inclusion\<close>

lemma length_fold_bits: "length (fold (\<lambda>k bits. bits[k - h := True]) ks bits) = length bits"
  by (induction ks arbitrary: bits) auto

lemma fold_set_bits:
  "i < length bits \<Longrightarrow> fold (\<lambda>k bits. bits[k - h := True]) ks bits ! i \<longleftrightarrow>
     bits ! i \<or> (\<exists>k \<in> set ks. k - h = i)"
proof (induction ks arbitrary: bits)
  case (Cons k ks)
  have "fold (\<lambda>k bits. bits[k - h := True]) ks (bits[k - h := True]) ! i \<longleftrightarrow>
      bits[k - h := True] ! i \<or> (\<exists>k \<in> set ks. k - h = i)"
    using Cons by simp
  then show ?case using Cons.prems by (cases "k - h = i") simp_all
qed simp

lemma hit_set_nth:
  assumes "sorted kids" and "kids \<noteq> []" and "hd kids \<le> k" and "k \<le> last kids"
  shows "hit_set kids ! (k - hd kids) \<longleftrightarrow> k \<in> set kids"
proof -
  have ge: "hd kids \<le> x" if "x \<in> set kids" for x
    using assms(1,2) that by (cases kids) auto
  have "hit_set kids ! (k - hd kids) \<longleftrightarrow> (\<exists>x \<in> set kids. x - hd kids = k - hd kids)"
    using fold_set_bits [of "k - hd kids" "replicate (last kids - hd kids + 1) False" "hd kids" kids] assms(3,4)
    by (simp add: hit_set_def del: replicate_Suc)
  also have "\<dots> \<longleftrightarrow> k \<in> set kids" using ge assms(3) eq_diff_iff by blast
  finally show ?thesis .
qed

lemma sorted_last: "sorted xs \<Longrightarrow> x \<in> set xs \<Longrightarrow> x \<le> (last xs :: nat)"
  by (induction xs) (auto split: if_splits)

lemma sorted_hd: "sorted xs \<Longrightarrow> x \<in> set xs \<Longrightarrow> hd xs \<le> (x :: nat)"
  by (cases xs) auto

lemma phrase_hit_iff:
  assumes "kids \<noteq> []"
  shows "phrase_hit (sort kids) (hit_set (sort kids)) phrase \<longleftrightarrow> set phrase \<subseteq> set kids"
proof -
  let ?s = "sort kids"
  have s: "sorted ?s" "?s \<noteq> []" using assms by (auto simp: set_empty [symmetric] simp del: set_empty)
  have "(\<not> (k < hd ?s \<or> k > last ?s \<or> \<not> hit_set ?s ! (k - hd ?s))) \<longleftrightarrow> k \<in> set kids" for k
    using hit_set_nth [OF s, of k] sorted_last [OF s(1), of k] sorted_hd [OF s(1), of k]
    by (cases "hd ?s \<le> k \<and> k \<le> last ?s") (auto simp: not_less)
  then show ?thesis by (auto simp: phrase_hit_def list_all_iff)
qed

lemma best_match_spec:
  "(best_match hit ps j bsize best = best \<and> (\<forall>p \<in> set ps. hit p \<longrightarrow> length p \<le> bsize)) \<or>
   (\<exists>i < length ps. best_match hit ps j bsize best = Some (j + i) \<and> hit (ps ! i) \<and> bsize < length (ps ! i) \<and>
      (\<forall>p \<in> set ps. hit p \<longrightarrow> length p \<le> length (ps ! i)))"
proof (induction ps arbitrary: j bsize best)
  case (Cons p ps)
  show ?case
  proof (cases "bsize < length p \<and> hit p")
    case True
    then have eq: "best_match hit (p # ps) j bsize best = best_match hit ps (Suc j) (length p) (Some j)" by simp
    from Cons.IH [of "Suc j" "length p" "Some j"] show ?thesis
    proof (elim disjE exE conjE, goal_cases)
      case 1
      then show ?thesis using True unfolding eq by (intro disjI2 exI [of _ 0]) simp
    next
      case (2 i)
      then show ?thesis using True unfolding eq by (intro disjI2 exI [of _ "Suc i"]) auto
    qed
  next
    case False
    then have eq: "best_match hit (p # ps) j bsize best = best_match hit ps (Suc j) bsize best" by auto
    from Cons.IH [of "Suc j" bsize best] show ?thesis
    proof (elim disjE exE conjE, goal_cases)
      case 1
      then show ?thesis using False unfolding eq by auto
    next
      case (2 i)
      then show ?thesis using False unfolding eq by (intro disjI2 exI [of _ "Suc i"]) auto
    qed
  qed
qed simp

section \<open>Candidates are eligible\<close>

definition eligible :: "sponsored_mgr \<Rightarrow> (bid_phrase \<Rightarrow> bool) \<Rightarrow> ad_doc \<Rightarrow> bool" where
  "eligible m hit item \<longleftrightarrow>
     (let a = docId item
      in a < length (ad_bidphrase_list m) \<and> \<not> ad_status_bitmap m ! a \<and>
         (\<exists>left > 0. getBudgetLeft m a = Some left) \<and>
         (\<exists>j < length (ad_bidphrase_list m ! a). ad_bidphrase_list m ! a ! j \<noteq> [] \<and> hit (ad_bidphrase_list m ! a ! j) \<and>
            (\<forall>p \<in> set (ad_bidphrase_list m ! a). hit p \<longrightarrow> length p \<le> length (ad_bidphrase_list m ! a ! j)) \<and>
            hit_orig_bidstr item = ad_orig_bidstr_list m ! a ! j) \<and>
         (\<exists>price \<ge> LOWEST_CLICK_COST. score item = real_of_int price * qscore item) \<and> score item > MIN_AD_SCORE)"

lemma price_some:
  "sponsored_ok m \<Longrightarrow> bid_strategy_type m \<noteq> RealtimeBid \<Longrightarrow> \<exists>p. getAdBidPrice now r a hit m = Some p"
  using campaign_name_ok [of m a]
  by (cases "bid_strategy_type m") (auto simp: getAdBidPrice_def Let_def)

lemma candidate_ok:
  assumes "sponsored_ok m" and "bid_strategy_type m \<noteq> RealtimeBid" and "a < length (ad_status_bitmap m)"
  shows "\<exists>c. candidate now r hit m a = Some c \<and> (\<forall>item. c = Some item \<longrightarrow> docId item = a \<and> eligible m hit item)"
proof (cases "ad_status_bitmap m ! a")
  case True
  then show ?thesis using assms(3) by (simp add: candidate_def)
next
  case False
  let ?ps = "ad_bidphrase_list m ! a"
  have l: "a < length (ad_bidphrase_list m)" and lo: "a < length (ad_orig_bidstr_list m)"
    "length (ad_orig_bidstr_list m ! a) = length ?ps"
    using assms(1,3) by (auto simp: sponsored_ok_def tables_ok_def ads_ok_def list_all2_conv_all_nth)
  obtain left where left: "getBudgetLeft m a = Some left" using getBudgetLeft_ok [OF assms(1)] by blast
  from best_match_spec [of hit ?ps 0 0 None] show ?thesis
  proof (elim disjE exE conjE, goal_cases)
    case 1
    then show ?thesis using assms(3) False l by (simp add: candidate_def)
  next
    case (2 j)
    obtain price where p: "getAdBidPrice now r a (getBidPhraseStr (keyword_dict m) (?ps ! j)) m = Some price"
      using price_some [OF assms(1,2)] by blast
    let ?i = "rank_item m a j price"
    have "eligible m hit ?i" if "left > 0" "score ?i > MIN_AD_SCORE"
    proof -
      have "\<exists>pr \<ge> LOWEST_CLICK_COST. score ?i = real_of_int pr * qscore ?i"
        by (intro exI [of _ "max LOWEST_CLICK_COST price"]) (simp add: rank_item_def Let_def)
      moreover have "docId ?i = a" "hit_orig_bidstr ?i = ad_orig_bidstr_list m ! a ! j"
        by (simp_all add: rank_item_def Let_def)
      ultimately show ?thesis
        unfolding eligible_def using 2 l False left that by (auto simp: Let_def)
    qed
    then show ?thesis
      using 2 p left lo l assms(3) False
      by (auto simp: candidate_def Let_def) (simp add: rank_item_def Let_def)
  qed
qed

lemma candidates_of_ok:
  assumes "sponsored_ok m" and "bid_strategy_type m \<noteq> RealtimeBid" and "\<forall>a \<in> set as. a < length (ad_status_bitmap m)"
  shows "\<exists>items. candidates_of now rnd hit m i as = Some items \<and>
    (\<forall>item \<in> set items. docId item \<in> set as \<and> eligible m hit item)"
  using assms(3)
proof (induction as arbitrary: i)
  case (Cons a as)
  obtain c where c: "candidate now (rnd i mod 10000) hit m a = Some c"
    "\<forall>item. c = Some item \<longrightarrow> docId item = a \<and> eligible m hit item"
    using candidate_ok [OF assms(1,2), of a now "rnd i mod 10000" hit] Cons.prems by auto
  from Cons.IH [of "Suc i"] Cons.prems c show ?case by (cases c) auto
qed simp

section \<open>Costs\<close>

lemma eligible_pos: "eligible m hit item \<Longrightarrow> 0 < score item \<and> 0 < qscore item"
proof -
  assume e: "eligible m hit item"
  then obtain price where p: "LOWEST_CLICK_COST \<le> price" "score item = real_of_int price * qscore item"
    and s: "MIN_AD_SCORE < score item"
    by (auto simp: eligible_def Let_def)
  from s have "0 < score item" by (simp add: MIN_AD_SCORE_def)
  moreover from this p have "0 < qscore item" by (simp add: LOWEST_CLICK_COST_def zero_less_mult_iff)
  ultimately show ?thesis by simp
qed

lemma length_ad_costs [simp]: "length (ad_costs xs) = length xs"
  by (induction xs rule: ad_costs.induct) auto

lemma ad_costs_min: "\<forall>x \<in> set xs. 0 < score x \<and> 0 < qscore x \<Longrightarrow> \<forall>c \<in> set (ad_costs xs). 40 / 100 \<le> c"
  by (induction xs rule: ad_costs.induct) (auto simp: LOWEST_CLICK_COST_def)

lemma ad_costs_nth:
  "i < length xs \<Longrightarrow> ad_costs xs ! i =
     (if i + 1 = length xs then max (real_of_int LOWEST_CLICK_COST) (score (xs ! i) / qscore (xs ! i)) / 100
      else (real_of_int LOWEST_CLICK_COST + score (xs ! (i + 1)) / qscore (xs ! i)) / 100)"
proof (induction xs arbitrary: i rule: ad_costs.induct)
  case (3 x y xs)
  then show ?case by (cases i) auto
qed auto

section \<open>Properties\<close>

text \<open>
  The queue of the utility library, for a capacity of \<open>MAX_RANKED_AD_NUM\<close>: it pops as many of
  the inserted items as fit, each at most as often as it was inserted.
\<close>

definition bounded_queue :: "(ad_doc list \<Rightarrow> ad_doc list) \<Rightarrow> bool" where
  "bounded_queue drain \<longleftrightarrow>
     (\<forall>items. length (drain items) = min MAX_RANKED_AD_NUM (length items) \<and> mset (drain items) \<subseteq># mset items)"



text \<open>
  C38. What a click costs: for eligible ads in ranked order, every ad but the last pays 0.40 more
  than the price at which its score equals the next score, so it pays more than its own bid
  exactly when the next score is within \<open>40 * qscore\<close> of its own; the last ad pays its own
  bid. A second-price cost, which the formula otherwise follows, would never exceed the bid.
\<close>

theorem click_cost:
  assumes "\<forall>x \<in> set ranked. eligible m hit x" and "i < length ranked"
    and "price * qscore (ranked ! i) = score (ranked ! i)"
  shows "(i + 1 = length ranked \<longrightarrow> topKAdCost (fill_result ranked) ! i = price / 100) \<and>
    (i + 1 < length ranked \<longrightarrow>
       topKAdCost (fill_result ranked) ! i = 40 / 100 + score (ranked ! (i + 1)) / qscore (ranked ! i) / 100 \<and>
       (price / 100 < topKAdCost (fill_result ranked) ! i \<longleftrightarrow>
          score (ranked ! i) - score (ranked ! (i + 1)) < 40 * qscore (ranked ! i)))"
proof -
  let ?x = "ranked ! i" and ?y = "ranked ! (i + 1)"
  have e: "eligible m hit ?x" using assms(1,2) by simp
  have q: "0 < qscore ?x" using eligible_pos [OF e] by simp
  have p: "price = score ?x / qscore ?x" using q assms(3) by (simp add: nonzero_eq_divide_eq)
  obtain bidprice where "LOWEST_CLICK_COST \<le> bidprice" "score ?x = real_of_int bidprice * qscore ?x"
    using e by (auto simp: eligible_def Let_def)
  then have "40 \<le> price" using q by (simp add: p LOWEST_CLICK_COST_def)
  then have last: "max (real_of_int LOWEST_CLICK_COST) (score ?x / qscore ?x) / 100 = price / 100"
    by (simp add: p LOWEST_CLICK_COST_def)
  have "score ?y / qscore ?x = price - (score ?x - score ?y) / qscore ?x" by (simp add: p diff_divide_distrib)
  then have "price < 40 + score ?y / qscore ?x \<longleftrightarrow> score ?x - score ?y < 40 * qscore ?x"
    using q by (simp add: divide_less_eq)
  with last ad_costs_nth [OF assms(2)] show ?thesis
    by (auto simp: fill_result_def LOWEST_CLICK_COST_def add_divide_distrib)
qed

theorem click_cost_witness:
  "let x = \<lparr>docId = 0, score = 5, qscore = 1/10, hit_bidstr = ''s '', hit_orig_bidstr = ''s''\<rparr>;
       m = sponsored_init\<lparr>ad_bidphrase_list := [[[0]]], ad_orig_bidstr_list := [[''s'']], ad_status_bitmap := [False],
             campaign_dict := \<lparr>id_values = [''c''], value_ids = [''c'' \<mapsto> 0]\<rparr>, ad_campaign_belong_list := [0],
             ad_budget_used_list := [0]\<rparr>
   in eligible m (\<lambda>p. True) x \<and> topKAdCost (fill_result [x, x]) ! 0 > 50 / 100"
proof -
  let ?x = "\<lparr>docId = 0, score = 5, qscore = 1/10, hit_bidstr = ''s '', hit_orig_bidstr = ''s''\<rparr>"
  let ?m = "sponsored_init\<lparr>ad_bidphrase_list := [[[0]]], ad_orig_bidstr_list := [[''s'']], ad_status_bitmap := [False],
             campaign_dict := \<lparr>id_values = [''c''], value_ids = [''c'' \<mapsto> 0]\<rparr>, ad_campaign_belong_list := [0],
             ad_budget_used_list := [0]\<rparr>"
  have "getBudgetLeft ?m 0 = Some 100"
    by (simp add: getBudgetLeft_def campaign_name_def vec_at_def getBidBudget_def sponsored_init_def
        manual_bid_mgr_init_def DEFAULT_AD_BUDGET_def)
  then have e: "eligible ?m (\<lambda>p. True) ?x"
    by (auto simp: eligible_def sponsored_init_def MIN_AD_SCORE_def LOWEST_CLICK_COST_def intro!: exI [of _ 50])
  then show ?thesis
    using click_cost [of "[?x, ?x]" ?m "\<lambda>p. True" 0 50] by simp
qed

end
