(* ===== verification/SponsoredDaily.thy ===== *)
theory SponsoredDaily
  imports Sponsored GeneticBid
begin

text \<open>
  The batch operations of \<open>AdSponsoredMgr\<close>: \<open>miningAdCreatives\<close>, which reads the ads from the
  document store, and \<open>resetDailyLogStatisticalData\<close>, which recomputes click rates and the
  automatic bids of every campaign. Parameters: the properties of the documents (\<open>prop\<close>, the
  empty string when missing), \<open>boost::lexical_cast<double>\<close> (\<open>parse\<close>, \<open>None\<close> when it throws),
  the iteration orders of hash maps (\<open>keys\<close>, \<open>orders\<close>) and the values of \<open>rand()\<close> per
  campaign (\<open>rnds\<close>).
\<close>

section \<open>Statistics of a campaign\<close>

definition bidkey_cpc_map :: "string list \<Rightarrow> auction_log \<Rightarrow> (string \<rightharpoonup> landscape)" where
  "bidkey_cpc_map keys lg =
     (let (ks, ls) = getKeywordBidLandscape keys lg in map_of (rev (zip ks ls)))"

definition bid_statistic :: "auction_log \<Rightarrow> (string \<rightharpoonup> landscape) \<Rightarrow> string \<Rightarrow> ad_query_stat" where
  "bid_statistic lg cpcs bidstr =
     (let q = ad_query_stat0\<lparr>impression := getKeywordAvgDailyImpression lg bidstr, minBid := LOWEST_CLICK_COST\<rparr>
      in case cpcs bidstr of
           None \<Rightarrow> q
         | Some l \<Rightarrow> q\<lparr>cpc := map fst l, ctr := map snd l\<rparr>)"

definition getBidStatisticalData :: "auction_log \<Rightarrow> (string \<rightharpoonup> landscape) \<Rightarrow> string list \<Rightarrow> ad_query_stat list" where
  "getBidStatisticalData lg cpcs bidstrs = map (bid_statistic lg cpcs) bidstrs"

definition computeAdCTR :: "ad_env \<Rightarrow> auction_log \<Rightarrow> nat \<Rightarrow> real" where
  "computeAdCTR env lg adid = (case adStrIdOf env adid of None \<Rightarrow> 0 | Some s \<Rightarrow> getAdCTR lg s)"

section \<open>Recomputing the bids\<close>

definition daily_budget :: "tm \<Rightarrow> manual_bid_mgr \<Rightarrow> string \<Rightarrow> int \<Rightarrow> int" where
  "daily_budget now mb cname used =
     to_int (real_of_int (getBidBudget mb cname - used) / (real_of_int (24 - tm_hour now) / 24))"

text \<open>The used budgets: cleared when \<open>reset_used\<close>, then resized to the campaigns.\<close>

definition reset_budget :: "bool \<Rightarrow> nat \<Rightarrow> int list \<Rightarrow> int list" where
  "reset_budget reset_used n used = resize n 0 (if reset_used then [] else used)"

definition automatic :: "manual_bid_mgr \<Rightarrow> string list \<Rightarrow> string list list \<Rightarrow> nat \<Rightarrow> bool" where
  "automatic mb names phrases i \<longleftrightarrow> i < length phrases \<and> \<not> hasManualBidPrice mb (names ! i)"

definition uniform_bids ::
  "tm \<Rightarrow> (nat \<Rightarrow> int list) \<Rightarrow> auction_log \<Rightarrow> (string \<rightharpoonup> landscape) \<Rightarrow> manual_bid_mgr \<Rightarrow> int list \<Rightarrow>
   string list \<Rightarrow> string list list \<Rightarrow> nat \<Rightarrow> (int \<times> real) list option" where
  "uniform_bids now orders lg cpcs mb used names phrases i =
     (if automatic mb names phrases i
      then convexUniformBid (orders i) (getBidStatisticalData lg cpcs (phrases ! i))
             (daily_budget now mb (names ! i) (used ! i))
      else Some [])"

text \<open>
  The map of a campaign's genetic bids. The loop over the bids never advances \<open>bid_it\<close>, so all
  of them are stored under the first phrase.
\<close>

definition price_table :: "string list \<Rightarrow> int list \<Rightarrow> (string \<rightharpoonup> int)" where
  "price_table bidstrs bids = fold (\<lambda>b m. m(hd bidstrs \<mapsto> b)) bids Map.empty"

definition genetic_bids ::
  "tm \<Rightarrow> (nat \<Rightarrow> int list) \<Rightarrow> (nat \<Rightarrow> rng) \<Rightarrow> auction_log \<Rightarrow> (string \<rightharpoonup> landscape) \<Rightarrow> manual_bid_mgr \<Rightarrow>
   int list \<Rightarrow> string list \<Rightarrow> string list list \<Rightarrow> nat \<Rightarrow> (string \<rightharpoonup> int) option" where
  "genetic_bids now orders rnds lg cpcs mb used names phrases i =
     (if automatic mb names phrases i
      then map_option (price_table (phrases ! i))
             (geneticBid (orders i) (rnds i) (getBidStatisticalData lg cpcs (phrases ! i))
                (daily_budget now mb (names ! i) (used ! i)))
      else Some Map.empty)"

definition reset_daily ::
  "tm \<Rightarrow> ad_env \<Rightarrow> string list \<Rightarrow> (nat \<Rightarrow> int list) \<Rightarrow> (nat \<Rightarrow> rng) \<Rightarrow> bool \<Rightarrow> sponsored_mgr \<Rightarrow> sponsored_mgr option" where
  "reset_daily now env keys orders rnds reset_used m =
     (let names = id_values (campaign_dict m);
          used = reset_budget reset_used (length names) (ad_budget_used_list m);
          lg = ad_log_mgr m; mb = manual_bidinfo_mgr m; phrases = ad_campaign_bid_phrase_list m;
          cpcs = bidkey_cpc_map keys lg;
          m' = m\<lparr>ad_budget_used_list := used,
                 ad_ctr_list := map (computeAdCTR env lg) [0..<length (ad_bidphrase_list m)],
                 ad_bid_price_list := [], ad_uniform_bid_price_list := []\<rparr>
      in case bid_strategy_type m of
           UniformBid \<Rightarrow>
             map_option (\<lambda>u. m'\<lparr>ad_uniform_bid_price_list := u\<rparr>)
               (those (map (uniform_bids now orders lg cpcs mb used names phrases) [0..<length names]))
         | GeneticBid \<Rightarrow>
             map_option (\<lambda>p. m'\<lparr>ad_bid_price_list := p\<rparr>)
               (those (map (genetic_bids now orders rnds lg cpcs mb used names phrases) [0..<length names]))
         | _ \<Rightarrow> Some m')"

section \<open>Mining\<close>

definition parse_price :: "(string \<Rightarrow> real option) \<Rightarrow> string \<Rightarrow> int" where
  "parse_price parse s =
     (if s = [] then 0 else case parse s of None \<Rightarrow> 0 | Some x \<Rightarrow> to_int (x * 100))"

record ad_props =
  bidphrase_prop :: string
  campaign_prop :: string
  docid_prop :: string
  price_prop :: string
  title_prop :: string

definition price_list_of :: "(string \<Rightarrow> real option) \<Rightarrow> nat \<Rightarrow> string \<Rightarrow> int list" where
  "price_list_of parse n prices =
     map (parse_price parse) (resize n [] (if prices = [] then [] else split_any (\<lambda>c. c = CHR '','') prices))"

text \<open>
  The phrases of one ad. The vectors that receive phrases are empty at the start of every ad,
  because the previous ad's were swapped into the new table, so an empty string gives an
  empty phrase.
\<close>

definition mine_phrases ::
  "tokenizer \<Rightarrow> ad_props \<Rightarrow> str_dict \<Rightarrow> (string list \<times> (bid_phrase \<times> string) list \<times> str_dict)" where
  "mine_phrases pc props d =
     (if bidphrase_prop props \<noteq> []
      then (let strs = split_any (\<lambda>c. c = CHR '','' \<or> c = CHR '';'') (bidphrase_prop props);
                (ps, d') = gen_phrases_cleared pc strs d
            in (strs, ps, d'))
      else (let (ps, d') = gen_phrases_cleared pc [title_prop props] d
            in (map (\<lambda>p. getBidPhraseStr d' (fst p)) ps, ps, d')))"

definition mine_ad :: "(string \<Rightarrow> real option) \<Rightarrow> ad_env \<Rightarrow> nat \<Rightarrow> ad_props \<Rightarrow> sponsored_mgr \<Rightarrow> sponsored_mgr option" where
  "mine_ad parse env i props m =
     (let campaign = (if campaign_prop props = [] then docid_prop props else campaign_prop props);
          (strs, ps, d) = mine_phrases (pca env) props (keyword_dict m);
          mb = (if bidphrase_prop props \<noteq> [] \<and> price_prop props \<noteq> []
                then setManualBidPrice (manual_bidinfo_mgr m) campaign i (map snd ps)
                       (price_list_of parse (length strs) (price_prop props))
                else Some (manual_bidinfo_mgr m));
          (c, cd) = campaign_id_for (campaign_dict m) campaign;
          belong = (grow (i + 1) 0 (ad_campaign_belong_list m))[i := c];
          cp = grow (c + 1) [] (ad_campaign_bid_phrase_list m)
      in map_option (\<lambda>mb'. m\<lparr>ad_bidphrase_list := (ad_bidphrase_list m)[i := map fst ps],
             ad_orig_bidstr_list := (ad_orig_bidstr_list m)[i := strs], keyword_dict := d,
             campaign_dict := cd, ad_campaign_belong_list := belong,
             ad_campaign_bid_phrase_list := cp[c := set_insert_all (map snd ps) (cp ! c)],
             manual_bidinfo_mgr := mb'\<rparr>) mb)"

fun mine_ads :: "(string \<Rightarrow> real option) \<Rightarrow> ad_env \<Rightarrow> (nat \<Rightarrow> ad_props) \<Rightarrow> nat list \<Rightarrow> sponsored_mgr \<Rightarrow> sponsored_mgr option" where
  "mine_ads parse env props [] m = Some m"
| "mine_ads parse env props (i # is) m =
     (case mine_ad parse env i (props i) m of None \<Rightarrow> None | Some m' \<Rightarrow> mine_ads parse env props is m')"

text \<open>The copy that mining works on: ads below \<open>start\<close> are kept, up to \<open>end\<close> are made room for.\<close>

definition mining_copy :: "nat \<Rightarrow> nat \<Rightarrow> sponsored_mgr \<Rightarrow> sponsored_mgr" where
  "mining_copy start final m =
     (let n = min start (length (ad_bidphrase_list m))
      in m\<lparr>ad_bidphrase_list := resize (final + 1) [] (take n (ad_bidphrase_list m)),
           ad_orig_bidstr_list := resize (final + 1) [] (take n (ad_orig_bidstr_list m)),
           ad_status_bitmap := resize (final + 1) False (ad_status_bitmap m)\<rparr>)"

definition miningAdCreatives ::
  "tm \<Rightarrow> ad_env \<Rightarrow> (string \<Rightarrow> real option) \<Rightarrow> (nat \<Rightarrow> ad_props) \<Rightarrow> string list \<Rightarrow> (nat \<Rightarrow> int list) \<Rightarrow>
   (nat \<Rightarrow> rng) \<Rightarrow> nat \<Rightarrow> nat \<Rightarrow> sponsored_mgr \<Rightarrow> sponsored_mgr option" where
  "miningAdCreatives now env parse props keys orders rnds start final m =
     (case mine_ads parse env props [start..<final + 1] (mining_copy start final m) of
        None \<Rightarrow> None
      | Some m' \<Rightarrow> reset_daily now env keys orders rnds False m')"

section \<open>Mining fills the tables consistently\<close>

definition campaign_of :: "ad_props \<Rightarrow> string" where
  "campaign_of props = (if campaign_prop props = [] then docid_prop props else campaign_prop props)"

text \<open>What mining establishes for one ad, and the invariant of the loop.\<close>

definition mined :: "tokenizer \<Rightarrow> ad_props \<Rightarrow> nat \<Rightarrow> sponsored_mgr \<Rightarrow> bool" where
  "mined pc props i m \<longleftrightarrow>
     i < length (ad_campaign_belong_list m) \<and> campaign_name m i = Some (campaign_of props) \<and>
     (if bidphrase_prop props \<noteq> []
      then ad_orig_bidstr_list m ! i = split_any (\<lambda>c. c = CHR '','' \<or> c = CHR '';'') (bidphrase_prop props) \<and>
           phrases_ok pc (keyword_dict m) (ad_orig_bidstr_list m ! i) (ad_bidphrase_list m ! i)
      else phrases_ok pc (keyword_dict m) [title_prop props] (ad_bidphrase_list m ! i)) \<and>
     ad_campaign_belong_list m ! i < length (ad_campaign_bid_phrase_list m) \<and>
     getBidPhraseStr (keyword_dict m) ` set (ad_bidphrase_list m ! i) \<subseteq>
       set (ad_campaign_bid_phrase_list m ! (ad_campaign_belong_list m ! i))"

definition mining_inv :: "nat \<Rightarrow> sponsored_mgr \<Rightarrow> bool" where
  "mining_inv n m \<longleftrightarrow> dict_ok (keyword_dict m) \<and> dict_ok (campaign_dict m) \<and>
     length (ad_orig_bidstr_list m) = n \<and> length (ad_bidphrase_list m) = n \<and> length (ad_status_bitmap m) = n \<and>
     (\<forall>c \<in> set (ad_campaign_belong_list m). c < length (id_values (campaign_dict m))) \<and>
     length (ad_campaign_bid_phrase_list m) \<le> length (id_values (campaign_dict m)) \<and>
     (\<forall>s \<in> set (ad_campaign_bid_phrase_list m). sset s) \<and>
     ads_ok (keyword_dict m) (ad_orig_bidstr_list m) (ad_bidphrase_list m)"

lemma mining_inv_ok:
  "mining_inv n m \<Longrightarrow> n \<le> length (ad_campaign_belong_list m) \<Longrightarrow> sponsored_ok m"
  by (simp add: mining_inv_def sponsored_ok_def tables_ok_def)

lemma gen_strings:
  "dict_ok d \<Longrightarrow> gen_phrases_cleared pc ts d = (ps, d') \<Longrightarrow>
   map snd ps = map (\<lambda>p. getBidPhraseStr d' (fst p)) ps"
proof (induction ts arbitrary: d ps d')
  case (Cons t ts)
  obtain p e where g: "generateBidPhrase pc t [] d = (p, e)" by (cases "generateBidPhrase pc t [] d")
  obtain qs e' where r: "gen_phrases_cleared pc ts e = (qs, e')" by (cases "gen_phrases_cleared pc ts e")
  have "phrase_known d []" by (simp add: phrase_known_def)
  note e = generateBidPhrase_ok [OF Cons.prems(1) this g]
  have "dict_extends e e'" using gen_phrases_cleared_ok [OF _ r] e by blast
  then have "getBidPhraseStr e' p = getBidPhraseStr e p" using e dict_extends_str by blast
  with Cons.IH [OF _ r] e Cons.prems(2) g r show ?case by auto
qed simp

lemma mine_phrases_ok:
  assumes "dict_ok d" and "mine_phrases pc props d = (strs, ps, d')"
  shows "dict_ok d' \<and> dict_extends d d' \<and> length strs = length ps \<and>
    map snd ps = map (\<lambda>p. getBidPhraseStr d' (fst p)) ps \<and>
    (if bidphrase_prop props \<noteq> []
     then strs = split_any (\<lambda>c. c = CHR '','' \<or> c = CHR '';'') (bidphrase_prop props) \<and> phrases_ok pc d' strs (map fst ps)
     else phrases_ok pc d' [title_prop props] (map fst ps))"
proof (cases "bidphrase_prop props = []")
  case True
  then obtain e where g: "gen_phrases_cleared pc [title_prop props] d = (ps, d')"
    and s: "strs = map (\<lambda>p. getBidPhraseStr d' (fst p)) ps"
    using assms(2) by (auto simp: mine_phrases_def Let_def case_prod_beta)
  from gen_phrases_cleared_ok [OF assms(1) g] gen_strings [OF assms(1) g] True s show ?thesis by simp
next
  case False
  let ?strs = "split_any (\<lambda>c. c = CHR '','' \<or> c = CHR '';'') (bidphrase_prop props)"
  from False have g: "gen_phrases_cleared pc ?strs d = (ps, d')" and s: "strs = ?strs"
    using assms(2) by (auto simp: mine_phrases_def Let_def case_prod_beta)
  from gen_phrases_cleared_ok [OF assms(1) g] gen_strings [OF assms(1) g] False s phrases_ok_ad show ?thesis
    by fastforce
qed

lemma length_price_list_of [simp]: "length (price_list_of parse n prices) = n"
  by (simp add: price_list_of_def)

lemma campaign_id_ok:
  assumes "dict_ok d" and "campaign_id_for d c = (i, d')"
  shows "dict_ok d' \<and> dict_name d' i = Some c \<and> dict_extends d d' \<and> length (id_values d) \<le> length (id_values d') \<and>
    i < length (id_values d')"
proof -
  have "dict_ok d'" "dict_name d' i = Some c" "dict_extends d d'"
    using cdict.add_ok [OF assms(1), of c] cdict.name_added [OF assms(1), of c] cdict.name_kept [OF assms(1), of _ _ c] assms(2)
    by (simp_all add: dict_extends_def)
  moreover have "length (id_values d) \<le> length (id_values d')"
    using assms(2) by (auto simp: campaign_id_for_def Let_def split: option.splits)
  ultimately show ?thesis by (auto simp: dict_name_def vec_at_def split: if_splits)
qed

lemma mine_ad_state:
  assumes "mining_inv n m" and "i < n"
  obtains strs ps d c cd mb m' where
    "mine_phrases (pca env) props (keyword_dict m) = (strs, ps, d)"
    "campaign_id_for (campaign_dict m) (campaign_of props) = (c, cd)"
    "mine_ad parse env i props m = Some m'"
    "m' = m\<lparr>ad_bidphrase_list := (ad_bidphrase_list m)[i := map fst ps],
       ad_orig_bidstr_list := (ad_orig_bidstr_list m)[i := strs], keyword_dict := d, campaign_dict := cd,
       ad_campaign_belong_list := (grow (i + 1) 0 (ad_campaign_belong_list m))[i := c],
       ad_campaign_bid_phrase_list := (grow (c + 1) [] (ad_campaign_bid_phrase_list m))
         [c := set_insert_all (map snd ps) (grow (c + 1) [] (ad_campaign_bid_phrase_list m) ! c)],
       manual_bidinfo_mgr := mb\<rparr>"
proof -
  obtain strs ps d where p: "mine_phrases (pca env) props (keyword_dict m) = (strs, ps, d)"
    by (metis surj_pair)
  obtain c cd where c: "campaign_id_for (campaign_dict m) (campaign_of props) = (c, cd)" by (metis surj_pair)
  have "length strs = length ps" using mine_phrases_ok [OF _ p] assms(1) by (simp add: mining_inv_def)
  then obtain mb where "(if bidphrase_prop props \<noteq> [] \<and> price_prop props \<noteq> []
      then setManualBidPrice (manual_bidinfo_mgr m) (campaign_of props) i (map snd ps)
             (price_list_of parse (length strs) (price_prop props))
      else Some (manual_bidinfo_mgr m)) = Some mb"
    using setManualBidPrice_defined [of "map snd ps" "price_list_of parse (length strs) (price_prop props)"] by fastforce
  then show thesis
    using that [OF p c] c p by (simp add: mine_ad_def campaign_of_def [symmetric] Let_def)
qed

lemma mine_ad_ok:
  assumes inv: "mining_inv n m" and i: "i < n"
  shows "\<exists>m'. mine_ad parse env i props m = Some m' \<and> mining_inv n m' \<and> mined (pca env) props i m' \<and>
    i < length (ad_campaign_belong_list m') \<and> length (ad_campaign_belong_list m) \<le> length (ad_campaign_belong_list m')"
proof -
  obtain strs ps d c cd mb m' where p: "mine_phrases (pca env) props (keyword_dict m) = (strs, ps, d)"
    and c: "campaign_id_for (campaign_dict m) (campaign_of props) = (c, cd)"
    and run: "mine_ad parse env i props m = Some m'"
    and m': "m' = m\<lparr>ad_bidphrase_list := (ad_bidphrase_list m)[i := map fst ps],
       ad_orig_bidstr_list := (ad_orig_bidstr_list m)[i := strs], keyword_dict := d, campaign_dict := cd,
       ad_campaign_belong_list := (grow (i + 1) 0 (ad_campaign_belong_list m))[i := c],
       ad_campaign_bid_phrase_list := (grow (c + 1) [] (ad_campaign_bid_phrase_list m))
         [c := set_insert_all (map snd ps) (grow (c + 1) [] (ad_campaign_bid_phrase_list m) ! c)],
       manual_bidinfo_mgr := mb\<rparr>"
    by (rule mine_ad_state [OF inv i])
  have dk: "dict_ok (keyword_dict m)" and dc: "dict_ok (campaign_dict m)" using inv by (auto simp: mining_inv_def)
  note P = mine_phrases_ok [OF dk p] and C = campaign_id_ok [OF dc c]
  let ?cp = "grow (c + 1) [] (ad_campaign_bid_phrase_list m)"
  have cp: "\<forall>s \<in> set ?cp. sset s" using inv set_grow [of "c + 1" "[]"] by (fastforce simp: mining_inv_def)
  have lc: "c < length ?cp" by simp
  have "sset (?cp ! c)" using cp nth_mem [OF lc] by blast
  then have "sset (set_insert_all (map snd ps) (?cp ! c))" by (rule sset_insert_all(2))
  then have sets: "\<forall>s \<in> set (?cp[c := set_insert_all (map snd ps) (?cp ! c)]). sset s"
    using cp set_update_subset_insert [of ?cp c "set_insert_all (map snd ps) (?cp ! c)"] by blast
  have belong: "\<forall>x \<in> set ((grow (i + 1) 0 (ad_campaign_belong_list m))[i := c]). x < length (id_values cd)"
  proof
    fix x assume "x \<in> set ((grow (i + 1) 0 (ad_campaign_belong_list m))[i := c])"
    then have "x = c \<or> x = 0 \<or> x \<in> set (ad_campaign_belong_list m)"
      using set_update_subset_insert set_grow by fastforce
    then show "x < length (id_values cd)" using C inv by (fastforce simp: mining_inv_def)
  qed
  have "ads_ok d (ad_orig_bidstr_list m) (ad_bidphrase_list m)"
    using inv P ads_ok_extends by (auto simp: mining_inv_def)
  moreover have "\<exists>ts. phrases_ok (pca env) d ts (map fst ps)" using P by (metis (full_types))
  then have "length strs = length (map fst ps) \<and> (\<forall>p \<in> set (map fst ps). phrase_known d p)"
    using P phrases_ok_ad by (metis length_map)
  ultimately have "ads_ok d ((ad_orig_bidstr_list m)[i := strs]) ((ad_bidphrase_list m)[i := map fst ps])"
    unfolding ads_ok_def by (intro list_all2_update_cong) auto
  then have "mining_inv n m'"
    using inv P C sets belong by (auto simp: mining_inv_def m' max_def)
  moreover have "mined (pca env) props i m'"
  proof -
    have "map snd ps = map (\<lambda>p. getBidPhraseStr d (fst p)) ps" using P by simp
    from arg_cong [OF this, of set] have "getBidPhraseStr d ` set (map fst ps) = set (map snd ps)"
      by (simp add: image_image)
    then show ?thesis
      using P C i inv by (auto simp: mined_def m' campaign_name_def dict_name_def mining_inv_def vec_at_def split: if_splits)
  qed
  ultimately show ?thesis using run by (auto simp: m')
qed

lemma mine_ad_keeps:
  assumes inv: "mining_inv n m" and j: "j < n" and run: "mine_ad parse env j props' m = Some m'"
    and ij: "i \<noteq> j" and i: "mined pc props i m"
  shows "mined pc props i m'"
proof -
  obtain strs ps d c cd mb m1 where p: "mine_phrases (pca env) props' (keyword_dict m) = (strs, ps, d)"
    and c: "campaign_id_for (campaign_dict m) (campaign_of props') = (c, cd)"
    and run1: "mine_ad parse env j props' m = Some m1"
    and m1: "m1 = m\<lparr>ad_bidphrase_list := (ad_bidphrase_list m)[j := map fst ps],
       ad_orig_bidstr_list := (ad_orig_bidstr_list m)[j := strs], keyword_dict := d, campaign_dict := cd,
       ad_campaign_belong_list := (grow (j + 1) 0 (ad_campaign_belong_list m))[j := c],
       ad_campaign_bid_phrase_list := (grow (c + 1) [] (ad_campaign_bid_phrase_list m))
         [c := set_insert_all (map snd ps) (grow (c + 1) [] (ad_campaign_bid_phrase_list m) ! c)],
       manual_bidinfo_mgr := mb\<rparr>"
    by (rule mine_ad_state [OF inv j])
  have m': "m' = m1" using run run1 by simp
  have dk: "dict_ok (keyword_dict m)" and dc: "dict_ok (campaign_dict m)" using inv by (auto simp: mining_inv_def)
  have ext: "dict_extends (keyword_dict m) d" and cext: "dict_extends (campaign_dict m) cd"
    using mine_phrases_ok [OF dk p] campaign_id_ok [OF dc c] by auto
  let ?b = "ad_campaign_belong_list m ! i"
  have li: "i < length (ad_campaign_belong_list m)" using i by (simp add: mined_def)
  have b': "ad_campaign_belong_list m1 ! i = ?b" using li ij by (simp add: m1 nth_grow)
  have "\<exists>ts. phrases_ok pc (keyword_dict m) ts (ad_bidphrase_list m ! i)"
    using i unfolding mined_def by (metis (full_types))
  then have known: "\<forall>q \<in> set (ad_bidphrase_list m ! i). phrase_known (keyword_dict m) q"
    using phrases_ok_ad by blast
  have str: "getBidPhraseStr d ` set (ad_bidphrase_list m ! i) = getBidPhraseStr (keyword_dict m) ` set (ad_bidphrase_list m ! i)"
    using known dict_extends_str [OF ext] by (intro image_cong) auto
  have lb: "?b < length (ad_campaign_bid_phrase_list m)" using i by (simp add: mined_def)
  then have grown: "set (ad_campaign_bid_phrase_list m ! ?b) \<subseteq> set (ad_campaign_bid_phrase_list m1 ! ?b)"
    by (cases "?b = c") (auto simp: m1 nth_grow)
  have "campaign_name m1 i = Some (campaign_of props)"
    using i cext li b' by (auto simp: mined_def campaign_name_def m1 dict_extends_def dict_name_def vec_at_def)
  then show ?thesis
    using i ij li lb b' grown str phrases_ok_extends [OF _ ext]
    by (auto simp: mined_def m' m1 split: if_splits)
qed

lemma mine_ads_ok:
  assumes "mining_inv n m" and "\<forall>i \<in> set is. i < n" and "distinct is"
  shows "\<exists>m'. mine_ads parse env props is m = Some m' \<and> mining_inv n m' \<and>
    (\<forall>i. (i \<in> set is \<or> mined (pca env) (props i) i m) \<longrightarrow> mined (pca env) (props i) i m') \<and>
    length (ad_campaign_belong_list m) \<le> length (ad_campaign_belong_list m')"
  using assms
proof (induction "is" arbitrary: m)
  case (Cons j js)
  obtain m1 where m1: "mine_ad parse env j (props j) m = Some m1" "mining_inv n m1" "mined (pca env) (props j) j m1"
    "length (ad_campaign_belong_list m) \<le> length (ad_campaign_belong_list m1)"
    using mine_ad_ok [OF Cons.prems(1), of j parse env "props j"] Cons.prems(2) by auto
  obtain m2 where m2: "mine_ads parse env props js m1 = Some m2" "mining_inv n m2"
    "\<forall>i. (i \<in> set js \<or> mined (pca env) (props i) i m1) \<longrightarrow> mined (pca env) (props i) i m2"
    "length (ad_campaign_belong_list m1) \<le> length (ad_campaign_belong_list m2)"
    using Cons.IH [OF m1(2)] Cons.prems(2,3) by auto
  have "mined (pca env) (props i) i m2" if "i \<in> set (j # js) \<or> mined (pca env) (props i) i m" for i
  proof (cases "i = j")
    case True
    then show ?thesis using m1(3) m2(3) by blast
  next
    case False
    then show ?thesis
      using that m2(3) mine_ad_keeps [OF Cons.prems(1) _ m1(1) False] Cons.prems(2) by auto
  qed
  then show ?case using m1(1,4) m2 by (intro exI [of _ m2]) simp
qed simp

lemma ads_ok_resize:
  "ads_ok d ss ps \<Longrightarrow> ads_ok d (resize n [] (take k ss)) (resize n [] (take k ps))"
  by (auto simp: ads_ok_def list_all2_conv_all_nth nth_resize)

lemma mining_copy_inv:
  "sponsored_ok m \<Longrightarrow> mining_inv (final + 1) (mining_copy start final m)"
  by (simp add: mining_inv_def mining_copy_def Let_def sponsored_ok_def tables_ok_def ads_ok_resize)

section \<open>The daily reset\<close>

lemma length_stat [simp]: "length (getBidStatisticalData lg cpcs strs) = length strs"
  by (simp add: getBidStatisticalData_def)

lemma minBid_stat: "\<forall>q \<in> set (getBidStatisticalData lg cpcs strs). minBid q = LOWEST_CLICK_COST"
  by (auto simp: getBidStatisticalData_def bid_statistic_def Let_def split: option.splits)

lemma uniform_bids_ok:
  assumes "\<forall>c \<in> set (orders i). px (the (aggregate (getBidStatisticalData lg cpcs (phrases ! i)) c)) < DBL_MAX"
  shows "\<exists>r. uniform_bids now orders lg cpcs mb used names phrases i = Some r \<and>
    (automatic mb names phrases i \<and> phrases ! i \<noteq> [] \<longrightarrow> bid_pair_ok LOWEST_CLICK_COST r) \<and>
    (\<not> automatic mb names phrases i \<longrightarrow> r = [])"
proof (cases "automatic mb names phrases i \<and> phrases ! i \<noteq> []")
  case True
  let ?qs = "getBidStatisticalData lg cpcs (phrases ! i)"
  have ne: "?qs \<noteq> []" using True by (simp add: getBidStatisticalData_def)
  have "\<forall>q \<in> set ?qs. 0 \<le> minBid q" using minBid_stat [of lg cpcs "phrases ! i"] by (simp add: LOWEST_CLICK_COST_def)
  moreover have "minBid (hd ?qs) = LOWEST_CLICK_COST" using minBid_stat [of lg cpcs "phrases ! i"] ne by simp
  ultimately show ?thesis
    using uniform_bid_pair [OF ne _ assms] True by (fastforce simp: uniform_bids_def)
next
  case False
  then show ?thesis by (auto simp: uniform_bids_def getBidStatisticalData_def convexUniformBid_def)
qed

lemma reset_daily_uniform:
  assumes "bid_strategy_type m = UniformBid"
    and "\<forall>i < length (id_values (campaign_dict m)). \<forall>c \<in> set (orders i).
      px (the (aggregate (getBidStatisticalData (ad_log_mgr m) (bidkey_cpc_map keys (ad_log_mgr m))
        (ad_campaign_bid_phrase_list m ! i)) c)) < DBL_MAX"
  shows "\<exists>m'. reset_daily now env keys orders rnds reset_used m = Some m' \<and>
    length (ad_budget_used_list m') = length (id_values (campaign_dict m)) \<and>
    length (ad_ctr_list m') = length (ad_bidphrase_list m) \<and>
    length (ad_uniform_bid_price_list m') = length (id_values (campaign_dict m)) \<and>
    (\<forall>i < length (id_values (campaign_dict m)).
       if automatic (manual_bidinfo_mgr m) (id_values (campaign_dict m)) (ad_campaign_bid_phrase_list m) i
       then ad_campaign_bid_phrase_list m ! i \<noteq> [] \<longrightarrow> bid_pair_ok LOWEST_CLICK_COST (ad_uniform_bid_price_list m' ! i)
       else ad_uniform_bid_price_list m' ! i = [])"
proof -
  let ?names = "id_values (campaign_dict m)"
  let ?u = "uniform_bids now orders (ad_log_mgr m) (bidkey_cpc_map keys (ad_log_mgr m)) (manual_bidinfo_mgr m)
      (reset_budget reset_used (length ?names) (ad_budget_used_list m)) ?names (ad_campaign_bid_phrase_list m)"
  have u: "\<exists>r. ?u i = Some r \<and>
      (automatic (manual_bidinfo_mgr m) ?names (ad_campaign_bid_phrase_list m) i \<and>
         ad_campaign_bid_phrase_list m ! i \<noteq> [] \<longrightarrow> bid_pair_ok LOWEST_CLICK_COST r) \<and>
      (\<not> automatic (manual_bidinfo_mgr m) ?names (ad_campaign_bid_phrase_list m) i \<longrightarrow> r = [])"
    if "i < length ?names" for i
    using assms(2) that by (intro uniform_bids_ok) blast
  define us where "us = map (the \<circ> ?u) [0..<length ?names]"
  have "map ?u [0..<length ?names] = map Some us" using u by (fastforce simp: us_def)
  then have "those (map ?u [0..<length ?names]) = Some us" by (simp add: those_eq_Some)
  moreover have "us ! i = the (?u i)" if "i < length ?names" for i using that by (simp add: us_def)
  ultimately show ?thesis
    using assms(1) u by (fastforce simp: reset_daily_def Let_def reset_budget_def us_def)
qed

lemma price_table_dom: "dom (price_table strs bids) \<subseteq> {hd strs}"
proof -
  have "dom (fold (\<lambda>b m. m(hd strs \<mapsto> b)) bids m) \<subseteq> insert (hd strs) (dom m)" for m :: "string \<rightharpoonup> int"
    by (induction bids arbitrary: m) fastforce+
  from this [of Map.empty] show ?thesis by (simp add: price_table_def)
qed

lemma mine_ad_others:
  assumes "mine_ad parse env i props m = Some m'" and "k \<noteq> i"
  shows "ad_bidphrase_list m' ! k = ad_bidphrase_list m ! k \<and> ad_orig_bidstr_list m' ! k = ad_orig_bidstr_list m ! k"
  using assms by (auto simp: mine_ad_def Let_def split: prod.splits)

lemma mine_ads_others:
  "mine_ads parse env props is m = Some m' \<Longrightarrow> k \<notin> set is \<Longrightarrow>
   ad_bidphrase_list m' ! k = ad_bidphrase_list m ! k \<and> ad_orig_bidstr_list m' ! k = ad_orig_bidstr_list m ! k"
proof (induction "is" arbitrary: m)
  case (Cons j js)
  then obtain m1 where m1: "mine_ad parse env j (props j) m = Some m1" "mine_ads parse env props js m1 = Some m'"
    by (auto split: option.splits)
  with Cons show ?case using mine_ad_others [OF m1(1), of k] by simp
qed simp

lemma mining_copy_keeps:
  assumes "sponsored_ok m" and "k < start" and "k < length (ad_bidphrase_list m)" and "start \<le> final"
  shows "ad_bidphrase_list (mining_copy start final m) ! k = ad_bidphrase_list m ! k \<and>
    ad_orig_bidstr_list (mining_copy start final m) ! k = ad_orig_bidstr_list m ! k"
  using assms by (simp add: mining_copy_def Let_def resize_def nth_append sponsored_ok_def tables_ok_def)

lemma reset_daily_keeps_ok:
  "reset_daily now env keys orders rnds reset_used m = Some m' \<Longrightarrow> sponsored_ok m \<Longrightarrow> sponsored_ok m'"
  by (auto simp: reset_daily_def Let_def sponsored_ok_def tables_ok_def split: kBidStrategy.splits)

lemma automatic_no_manual:
  "automatic mb names phrases i \<Longrightarrow> getManualBidPrice mb (names ! i) a hit = 0"
  by (auto simp: automatic_def hasManualBidPrice_def getManualBidPrice_def split: option.splits)

lemma reset_daily_frame:
  "reset_daily now env keys orders rnds reset_used m = Some m' \<Longrightarrow>
   ad_campaign_belong_list m' = ad_campaign_belong_list m \<and> campaign_dict m' = campaign_dict m \<and>
   manual_bidinfo_mgr m' = manual_bidinfo_mgr m \<and> bid_strategy_type m' = bid_strategy_type m"
  by (auto simp: reset_daily_def Let_def split: kBidStrategy.splits)

section \<open>Properties\<close>

text \<open>
  C27. Mining keeps the tables of the manager consistent: from a well-formed manager, reading
  the ads \<open>start..final\<close> always succeeds and gives a well-formed manager in which every ad read
  belongs to the campaign its document names (or to one named by its own id), has one phrase
  per string of its bid phrase property (one from its title when there is none), and all its
  phrases are among the phrases of its campaign; ads below \<open>start\<close> keep their strings and phrases.
\<close>

theorem mining_consistent:
  assumes "sponsored_ok m" and "start \<le> final"
  shows "\<exists>m'. mine_ads parse env props [start..<final + 1] (mining_copy start final m) = Some m' \<and> sponsored_ok m' \<and>
    length (ad_bidphrase_list m') = final + 1 \<and>
    (\<forall>i. start \<le> i \<and> i \<le> final \<longrightarrow> mined (pca env) (props i) i m') \<and>
    (\<forall>i. i < start \<and> i < length (ad_bidphrase_list m) \<longrightarrow>
       ad_bidphrase_list m' ! i = ad_bidphrase_list m ! i \<and> ad_orig_bidstr_list m' ! i = ad_orig_bidstr_list m ! i)"
proof -
  let ?m = "mining_copy start final m"
  obtain m' where m': "mine_ads parse env props [start..<final + 1] ?m = Some m'" "mining_inv (final + 1) m'"
    "\<forall>i. (i \<in> set [start..<final + 1] \<or> mined (pca env) (props i) i ?m) \<longrightarrow> mined (pca env) (props i) i m'"
  proof -
    have "\<forall>i \<in> set [start..<final + 1]. i < final + 1" and "distinct [start..<final + 1]"
      by (auto simp del: upt_Suc)
    from mine_ads_ok [OF mining_copy_inv [OF assms(1), of final start] this, of parse env props] that
    show thesis by blast
  qed
  have mi: "mined (pca env) (props i) i m'" if "start \<le> i" "i \<le> final" for i using m'(3) that by (simp del: upt_Suc)
  have "final + 1 \<le> length (ad_campaign_belong_list m')" using mi [of final] assms(2) by (simp add: mined_def)
  then have ok: "sponsored_ok m'" using m'(2) mining_inv_ok by blast
  have "ad_bidphrase_list m' ! i = ad_bidphrase_list m ! i \<and> ad_orig_bidstr_list m' ! i = ad_orig_bidstr_list m ! i"
    if "i < start" "i < length (ad_bidphrase_list m)" for i
    using mine_ads_others [OF m'(1), of i] mining_copy_keeps [OF assms(1) that assms(2)] that by (simp del: upt_Suc)
  then show ?thesis using m'(1,2) mi ok by (auto simp: mining_inv_def)
qed

theorem mining_consistent_witness:
  "\<exists>m'. mine_ads (\<lambda>s. None) \<lparr>pca = (\<lambda>t. [(t, 1)]), adIdOf = (\<lambda>s. None), adStrIdOf = (\<lambda>a. None)\<rparr>
     (\<lambda>i. \<lparr>bidphrase_prop = ''shoes,boots'', campaign_prop = ''c'', docid_prop = ''d'', price_prop = [], title_prop = ''t''\<rparr>)
     [1..<2 + 1] (mining_copy 1 2 sponsored_init) = Some m' \<and> campaign_name m' 2 = Some ''c''"
proof -
  let ?env = "\<lparr>pca = (\<lambda>t. [(t, 1)]), adIdOf = (\<lambda>s. None), adStrIdOf = (\<lambda>a. None)\<rparr>"
  let ?props = "\<lambda>i. \<lparr>bidphrase_prop = ''shoes,boots'', campaign_prop = ''c'', docid_prop = ''d'', price_prop = [], title_prop = ''t''\<rparr>"
  from mining_consistent [OF sponsored_ok_init, of 1 2 "\<lambda>s. None" ?env ?props] obtain m' where
    "mine_ads (\<lambda>s. None) ?env ?props [1..<2 + 1] (mining_copy 1 2 sponsored_init) = Some m'"
    and "mined (pca ?env) (?props 2) 2 m'" by auto
  then show ?thesis by (intro exI [of _ m']) (simp add: mined_def campaign_of_def)
qed

text \<open>
  The genetic strategy prices only one phrase per campaign: after
  \<open>resetDailyLogStatisticalData\<close> the price table of every campaign has at most its first phrase
  as a key, so a search that hits any other phrase of the campaign finds no automatic price
  and falls back to the manual one.
\<close>

lemma genetic_prices_first_phrase:
  assumes "bid_strategy_type m = GeneticBid" and "reset_daily now env keys orders rnds reset_used m = Some m'"
    and "i < length (id_values (campaign_dict m))"
  shows "i < length (ad_bid_price_list m') \<and>
    dom (ad_bid_price_list m' ! i) \<subseteq> {hd (ad_campaign_bid_phrase_list m ! i)}"
proof -
  let ?n = "length (id_values (campaign_dict m))"
  let ?g = "genetic_bids now orders rnds (ad_log_mgr m) (bidkey_cpc_map keys (ad_log_mgr m)) (manual_bidinfo_mgr m)
      (reset_budget reset_used ?n (ad_budget_used_list m)) (id_values (campaign_dict m)) (ad_campaign_bid_phrase_list m)"
  obtain ps where ps: "those (map ?g [0..<?n]) = Some ps" "ad_bid_price_list m' = ps"
    using assms(1,2) by (auto simp: reset_daily_def Let_def)
  from ps(1) have g: "map ?g [0..<?n] = map Some ps" by (simp add: those_eq_Some)
  then have l: "length ps = ?n" by (metis length_map length_upt minus_nat.diff_0)
  have gi: "?g i = Some (ps ! i)" using arg_cong [OF g, of "\<lambda>l. l ! i"] assms(3) l by simp
  have "ps ! i = Map.empty \<or> (\<exists>bids. price_table (ad_campaign_bid_phrase_list m ! i) bids = ps ! i)"
    using gi by (cases "automatic (manual_bidinfo_mgr m) (id_values (campaign_dict m)) (ad_campaign_bid_phrase_list m) i")
      (auto simp: genetic_bids_def)
  then have "dom (ps ! i) \<subseteq> {hd (ad_campaign_bid_phrase_list m ! i)}"
  proof
    assume "ps ! i = Map.empty"
    then show ?thesis by simp
  next
    assume "\<exists>bids. price_table (ad_campaign_bid_phrase_list m ! i) bids = ps ! i"
    then obtain bids where e: "ps ! i = price_table (ad_campaign_bid_phrase_list m ! i) bids" by metis
    show ?thesis unfolding e by (rule price_table_dom)
  qed
  then show ?thesis using ps(2) l assms(3) by simp
qed

end
