(* ===== verification/SponsoredFile.thy ===== *)
theory SponsoredFile
  imports SponsoredDaily ImageFile
begin

text \<open>
  Persistence of \<open>AdSponsoredMgr\<close>: \<open>save\<close>, \<open>load\<close> and \<open>init\<close>, which loads what an earlier run
  saved and recomputes the automatic bids. The serialization library is a parameter, one
  pair of functions for each type that is written. The click rates and the phrases of the
  campaigns are not written: \<open>load\<close> rebuilds the phrases from the bid phrases of the ads.
\<close>

type_synonym 'a image = "('a \<Rightarrow> byte list) \<times> (byte list \<Rightarrow> 'a)"

record sponsored_codec =
  io_phrases :: "bid_phrase list list image"
  io_str_lists :: "string list list image"
  io_strs :: "string list image"
  io_ids :: "(string \<rightharpoonup> nat) image"
  io_nats :: "nat list image"
  io_prices :: "(string \<rightharpoonup> int) list image"
  io_uniform :: "(int \<times> real) list list image"
  io_str :: "string image"
  io_ints :: "int list image"

section \<open>Saving\<close>

text \<open>\<open>boost::to_string\<close> of a bitset, highest position first, and the constructor from a string.\<close>

definition bits_to_string :: "bool list \<Rightarrow> string" where
  "bits_to_string bs = rev (map (\<lambda>b. if b then CHR ''1'' else CHR ''0'') bs)"

definition bits_of_string :: "string \<Rightarrow> bool list" where
  "bits_of_string s = map (\<lambda>c. c = CHR ''1'') (rev s)"

definition sponsored_save :: "sponsored_codec \<Rightarrow> sponsored_mgr \<Rightarrow> byte list" where
  "sponsored_save c m =
     write_block (fst (io_phrases c) (ad_bidphrase_list m)) @
     write_block (fst (io_str_lists c) (ad_orig_bidstr_list m)) @
     write_block (fst (io_strs c) (id_values (campaign_dict m))) @
     write_block (fst (io_ids c) (value_ids (campaign_dict m))) @
     write_block (fst (io_nats c) (ad_campaign_belong_list m)) @
     write_block (fst (io_prices c) (ad_bid_price_list m)) @
     write_block (fst (io_uniform c) (ad_uniform_bid_price_list m)) @
     write_block (fst (io_str c) (bits_to_string (ad_status_bitmap m))) @
     write_block (fst (io_strs c) (id_values (keyword_dict m))) @
     write_block (fst (io_ids c) (value_ids (keyword_dict m))) @
     write_block (fst (io_ints c) (ad_budget_used_list m))"

text \<open>The report \<open>sponsored_ad.txt\<close> that \<open>save\<close> writes beside the data.\<close>

definition phrase_txt :: "bid_phrase \<Rightarrow> string" where
  "phrase_txt p = concat (map (\<lambda>k. dec k @ '','') p) @ ''-:-''"

definition save_txt :: "sponsored_mgr \<Rightarrow> string" where
  "save_txt m =
     concat (map (\<lambda>(i, ps). dec i @ '':'' @ concat (map phrase_txt ps) @ [CHR 0x0A])
       (enumerate 0 (ad_bidphrase_list m))) @
     concat (map (\<lambda>(i, k). dec i @ '':'' @ k @ [CHR 0x0A]) (enumerate 0 (id_values (keyword_dict m))))"

section \<open>Loading\<close>

text \<open>Rebuild the phrases of the campaigns; \<open>d\<close> is the keyword dictionary at that moment.\<close>

fun add_campaign_phrases ::
  "str_dict \<Rightarrow> nat list \<Rightarrow> bid_phrase list list \<Rightarrow> nat \<Rightarrow> string list list \<Rightarrow> string list list option" where
  "add_campaign_phrases d belong [] i cp = Some cp"
| "add_campaign_phrases d belong (ps # pss) i cp =
     (case vec_at belong i of
        None \<Rightarrow> None
      | Some c \<Rightarrow>
          if c < length cp
          then add_campaign_phrases d belong pss (i + 1)
                 (cp[c := set_insert_all (getBidPhraseStrList d ps) (cp ! c)])
          else None)"

definition sponsored_load :: "sponsored_codec \<Rightarrow> byte list option \<Rightarrow> sponsored_mgr \<Rightarrow> sponsored_mgr option" where
  "sponsored_load c file m =
     (case file of
        None \<Rightarrow> Some m
      | Some bs \<Rightarrow>
          (let (d1, s1) = read_block [] \<lparr>if_rest = bs, if_fail = False\<rparr>; phrases = snd (io_phrases c) d1;
               (d2, s2) = read_block d1 s1; strs = snd (io_str_lists c) d2;
               (d3, s3) = read_block d2 s2; names = snd (io_strs c) d3;
               (d4, s4) = read_block d3 s3; name_ids = snd (io_ids c) d4;
               (d5, s5) = read_block d4 s4; belong = snd (io_nats c) d5
           in case add_campaign_phrases (keyword_dict m) belong phrases 0
                     (resize (card (dom name_ids)) [] (ad_campaign_bid_phrase_list m)) of
                None \<Rightarrow> None
              | Some cp \<Rightarrow>
                  (let (d6, s6) = read_block d5 s5;
                       (d7, s7) = read_block d6 s6;
                       (d8, s8) = read_block d7 s7;
                       (d9, s9) = read_block d8 s8;
                       (d10, s10) = read_block d9 s9;
                       (d11, s11) = read_block d10 s10
                   in Some (m\<lparr>ad_bidphrase_list := phrases, ad_orig_bidstr_list := strs,
                        campaign_dict := \<lparr>id_values = names, value_ids = name_ids\<rparr>,
                        ad_campaign_belong_list := belong, ad_campaign_bid_phrase_list := cp,
                        ad_bid_price_list := snd (io_prices c) d6,
                        ad_uniform_bid_price_list := snd (io_uniform c) d7,
                        ad_status_bitmap := bits_of_string (snd (io_str c) d8),
                        keyword_dict := \<lparr>id_values = snd (io_strs c) d9, value_ids = snd (io_ids c) d10\<rparr>,
                        ad_budget_used_list := snd (io_ints c) d11\<rparr>))))"

text \<open>
  \<open>init\<close> of a fresh manager. The auction log and the manual bids are loaded by their own
  managers (\<open>log_load\<close>, \<open>manual_ld\<close>: \<open>auction_load\<close> and \<open>manual_load\<close> applied to their
  files); \<open>AdSponsoredMgr::load\<close> loads the log a second time.
\<close>

definition sponsored_mgr_start ::
  "tm \<Rightarrow> ad_env \<Rightarrow> string list \<Rightarrow> (nat \<Rightarrow> int list) \<Rightarrow> (nat \<Rightarrow> rng) \<Rightarrow> sponsored_codec \<Rightarrow>
   (auction_log \<Rightarrow> auction_log) \<Rightarrow> (manual_bid_mgr \<Rightarrow> manual_bid_mgr) \<Rightarrow> byte list option \<Rightarrow> sponsored_mgr option" where
  "sponsored_mgr_start now env keys orders rnds c log_load manual_ld file =
     (let m = sponsored_init\<lparr>ad_log_mgr := log_load auction_log_init, manual_bidinfo_mgr := manual_ld manual_bid_mgr_init\<rparr>
      in case sponsored_load c file m of
           None \<Rightarrow> None
         | Some m' \<Rightarrow> reset_daily now env keys orders rnds False (m'\<lparr>ad_log_mgr := log_load (ad_log_mgr m')\<rparr>))"

section \<open>The round trip\<close>

definition image_io_ok :: "'a image \<Rightarrow> 'a \<Rightarrow> bool" where
  "image_io_ok io x = image_ok (fst io) (snd io) x"

definition sponsored_codec_ok :: "sponsored_codec \<Rightarrow> sponsored_mgr \<Rightarrow> bool" where
  "sponsored_codec_ok c m \<longleftrightarrow>
     image_io_ok (io_phrases c) (ad_bidphrase_list m) \<and> image_io_ok (io_str_lists c) (ad_orig_bidstr_list m) \<and>
     image_io_ok (io_strs c) (id_values (campaign_dict m)) \<and> image_io_ok (io_ids c) (value_ids (campaign_dict m)) \<and>
     image_io_ok (io_nats c) (ad_campaign_belong_list m) \<and> image_io_ok (io_prices c) (ad_bid_price_list m) \<and>
     image_io_ok (io_uniform c) (ad_uniform_bid_price_list m) \<and>
     image_io_ok (io_str c) (bits_to_string (ad_status_bitmap m)) \<and>
     image_io_ok (io_strs c) (id_values (keyword_dict m)) \<and> image_io_ok (io_ids c) (value_ids (keyword_dict m)) \<and>
     image_io_ok (io_ints c) (ad_budget_used_list m)"

lemma bits_roundtrip [simp]: "bits_of_string (bits_to_string bs) = bs"
  by (simp add: bits_of_string_def bits_to_string_def comp_def rev_map)

lemma image_io_block:
  assumes "image_io_ok io x"
  shows "read_block data \<lparr>if_rest = write_block (fst io x) @ rest, if_fail = False\<rparr>
           = (fst io x, \<lparr>if_rest = rest, if_fail = False\<rparr>)"
    and "read_block data \<lparr>if_rest = write_block (fst io x), if_fail = False\<rparr>
           = (fst io x, \<lparr>if_rest = [], if_fail = False\<rparr>)"
    and "snd io (fst io x) = x"
  using image_block [OF assms [unfolded image_io_ok_def]] by auto

lemma sponsored_load_save:
  assumes "sponsored_codec_ok c m"
  shows "sponsored_load c (Some (sponsored_save c m)) m0 =
    map_option (\<lambda>cp. m0\<lparr>ad_bidphrase_list := ad_bidphrase_list m, ad_orig_bidstr_list := ad_orig_bidstr_list m,
        campaign_dict := campaign_dict m, ad_campaign_belong_list := ad_campaign_belong_list m,
        ad_campaign_bid_phrase_list := cp, ad_bid_price_list := ad_bid_price_list m,
        ad_uniform_bid_price_list := ad_uniform_bid_price_list m, ad_status_bitmap := ad_status_bitmap m,
        keyword_dict := keyword_dict m, ad_budget_used_list := ad_budget_used_list m\<rparr>)
      (add_campaign_phrases (keyword_dict m0) (ad_campaign_belong_list m) (ad_bidphrase_list m) 0
        (resize (card (dom (value_ids (campaign_dict m)))) [] (ad_campaign_bid_phrase_list m0)))"
proof -
  from assms [unfolded sponsored_codec_ok_def] show ?thesis
    unfolding sponsored_load_def sponsored_save_def
    by (auto simp: Let_def image_io_block split: option.splits)
qed

lemma add_campaign_phrases_ok:
  assumes "\<forall>i < length pss. k + i < length belong \<and> belong ! (k + i) < length cp" and "\<forall>s \<in> set cp. sset s"
  shows "\<exists>cp'. add_campaign_phrases d belong pss k cp = Some cp' \<and> length cp' = length cp \<and> (\<forall>s \<in> set cp'. sset s) \<and>
    (\<forall>c < length cp. set (cp' ! c) = set (cp ! c) \<union>
       getBidPhraseStr d ` (\<Union>i \<in> {i. i < length pss \<and> belong ! (k + i) = c}. set (pss ! i)))"
  using assms
proof (induction pss arbitrary: k cp)
  case (Cons ps pss)
  let ?b = "belong ! k" and ?q = "set_insert_all (getBidPhraseStrList d ps)"
  let ?cp = "cp[?b := ?q (cp ! ?b)]"
  from Cons.prems(1) have b: "k < length belong" "?b < length cp" by auto
  have "sset (cp ! ?b)" using Cons.prems(2) b(2) by simp
  then have q: "sset (?q (cp ! ?b))" by simp
  have "\<forall>s \<in> set ?cp. sset s" using Cons.prems(2) q set_update_subset_insert [of cp ?b] by blast
  moreover have "\<forall>i < length pss. (k + 1) + i < length belong \<and> belong ! ((k + 1) + i) < length ?cp"
    using Cons.prems(1) by auto
  ultimately obtain cp' where cp': "add_campaign_phrases d belong pss (k + 1) ?cp = Some cp'"
    "length cp' = length ?cp" "\<forall>s \<in> set cp'. sset s"
    "\<forall>c < length ?cp. set (cp' ! c) = set (?cp ! c) \<union>
       getBidPhraseStr d ` (\<Union>i \<in> {i. i < length pss \<and> belong ! ((k + 1) + i) = c}. set (pss ! i))"
    using Cons.IH by blast
  have I: "(\<Union>i \<in> {i. i < length (ps # pss) \<and> belong ! (k + i) = c}. set ((ps # pss) ! i)) =
      (if ?b = c then set ps else {}) \<union> (\<Union>i \<in> {i. i < length pss \<and> belong ! ((k + 1) + i) = c}. set (pss ! i))"
    (is "?L = ?R") for c
  proof
    show "?L \<subseteq> ?R" by (auto simp: nth_Cons split: nat.splits)
    show "?R \<subseteq> ?L" by (auto split: if_splits)
  qed
  have "set (cp' ! c) = set (cp ! c) \<union>
      getBidPhraseStr d ` (\<Union>i \<in> {i. i < length (ps # pss) \<and> belong ! (k + i) = c}. set ((ps # pss) ! i))"
    if "c < length cp" for c
    using cp'(4) that unfolding I by (auto simp: nth_list_update getBidPhraseStrList_def)
  then show ?case using cp'(1-3) b by (simp add: vec_at_def)
qed simp

lemma dict_ok_card: "dict_ok d \<Longrightarrow> card (dom (value_ids d)) = length (id_values d)"
proof -
  assume d: "dict_ok d"
  then have "dom (value_ids d) = set (id_values d)" by (auto simp: dict_ok_def dom_def in_set_conv_nth)
  then show ?thesis using d by (simp add: dict_ok_def distinct_card)
qed

lemma blank_phrase: "id_values d = [] \<Longrightarrow> getBidPhraseStr d p = replicate (length p) CHR '' ''"
  by (induction p) (simp_all add: getBidPhraseStr_def getBidKeywordStrFromId_def)

section \<open>Properties\<close>

text \<open>
  C37. What a restart restores. Loading, into a manager with no keywords and no campaign phrases
  (a new one), the file that a well-formed manager saved succeeds and gives a well-formed
  manager with the saved phrases, strings, campaigns, prices, online bitmap, keywords and
  used budgets. The phrases of the campaigns, however, are rebuilt before the keywords are
  read: every phrase of \<open>k\<close> keywords comes back as a string of \<open>k\<close> spaces, so no campaign knows
  any phrase of its ads by the key under which searches and clicks are logged.
\<close>

theorem restart_restores:
  assumes "sponsored_ok m" and "sponsored_codec_ok c m" and "id_values (keyword_dict m0) = []"
    and "ad_campaign_bid_phrase_list m0 = []"
  shows "\<exists>m'. sponsored_load c (Some (sponsored_save c m)) m0 = Some m' \<and> sponsored_ok m' \<and>
    ad_bidphrase_list m' = ad_bidphrase_list m \<and> ad_orig_bidstr_list m' = ad_orig_bidstr_list m \<and>
    campaign_dict m' = campaign_dict m \<and> ad_campaign_belong_list m' = ad_campaign_belong_list m \<and>
    ad_bid_price_list m' = ad_bid_price_list m \<and> ad_uniform_bid_price_list m' = ad_uniform_bid_price_list m \<and>
    ad_status_bitmap m' = ad_status_bitmap m \<and> keyword_dict m' = keyword_dict m \<and>
    ad_budget_used_list m' = ad_budget_used_list m \<and>
    length (ad_campaign_bid_phrase_list m') = length (id_values (campaign_dict m)) \<and>
    (\<forall>k < length (id_values (campaign_dict m)). set (ad_campaign_bid_phrase_list m' ! k) =
       (\<lambda>p. replicate (length p) CHR '' '') `
         (\<Union>i \<in> {i. i < length (ad_bidphrase_list m) \<and> ad_campaign_belong_list m ! i = k}. set (ad_bidphrase_list m ! i)))"
proof -
  let ?n = "length (id_values (campaign_dict m))"
  have t: "tables_ok m" and d: "dict_ok (campaign_dict m)" using assms(1) by (auto simp: sponsored_ok_def)
  have "\<forall>i < length (ad_bidphrase_list m). 0 + i < length (ad_campaign_belong_list m) \<and>
      ad_campaign_belong_list m ! (0 + i) < length (replicate ?n ([] :: string list))"
    using t by (auto simp: tables_ok_def)
  moreover have "\<forall>s \<in> set (replicate ?n ([] :: string list)). sset s" by (simp add: sset_def)
  ultimately obtain cp where cp: "add_campaign_phrases (keyword_dict m0) (ad_campaign_belong_list m)
      (ad_bidphrase_list m) 0 (replicate ?n []) = Some cp" "length cp = ?n" "\<forall>s \<in> set cp. sset s"
    "\<forall>k < ?n. set (cp ! k) = getBidPhraseStr (keyword_dict m0) `
       (\<Union>i \<in> {i. i < length (ad_bidphrase_list m) \<and> ad_campaign_belong_list m ! i = k}. set (ad_bidphrase_list m ! i))"
    using add_campaign_phrases_ok [of "ad_bidphrase_list m" 0 "ad_campaign_belong_list m" "replicate ?n []"
        "keyword_dict m0"] by fastforce
  have "resize ?n [] ([] :: string list list) = replicate ?n []" by (simp add: resize_def)
  then show ?thesis
    using sponsored_load_save [OF assms(2), of m0] cp assms(1,3,4)
    by (auto simp: dict_ok_card [OF d] blank_phrase [OF assms(3)] sponsored_ok_def tables_ok_def)
qed

theorem restart_restores_witness:
  "let m = sponsored_init\<lparr>ad_bidphrase_list := [[[0]]], ad_orig_bidstr_list := [[''shoes'']],
         ad_status_bitmap := [False], keyword_dict := \<lparr>id_values = [''shoes''], value_ids = [''shoes'' \<mapsto> 0]\<rparr>,
         campaign_dict := \<lparr>id_values = [''c''], value_ids = [''c'' \<mapsto> 0]\<rparr>, ad_campaign_belong_list := [0],
         ad_campaign_bid_phrase_list := [[''shoes '']]\<rparr>;
       c = \<lparr>io_phrases = (\<lambda>_. [1], \<lambda>_. [[[0]]]), io_str_lists = (\<lambda>_. [], \<lambda>_. [[''shoes'']]),
         io_strs = (\<lambda>x. map (of_char \<circ> hd) x, \<lambda>b. if b = [99] then [''c''] else [''shoes'']),
         io_ids = (\<lambda>f. if f ''c'' = None then [] else [7], \<lambda>b. if b = [] then [''shoes'' \<mapsto> 0] else [''c'' \<mapsto> 0]),
         io_nats = (\<lambda>_. [0], \<lambda>_. [0]), io_prices = (\<lambda>_. [], \<lambda>_. []), io_uniform = (\<lambda>_. [], \<lambda>_. []),
         io_str = (\<lambda>s. [5, 6], \<lambda>b. ''0''), io_ints = (\<lambda>_. [], \<lambda>_. [])\<rparr>
   in \<exists>m'. sponsored_load c (Some (sponsored_save c m)) sponsored_init = Some m' \<and>
        set (ad_campaign_bid_phrase_list m' ! 0) = {'' ''}"
proof -
  let ?m = "sponsored_init\<lparr>ad_bidphrase_list := [[[0]]], ad_orig_bidstr_list := [[''shoes'']],
         ad_status_bitmap := [False], keyword_dict := \<lparr>id_values = [''shoes''], value_ids = [''shoes'' \<mapsto> 0]\<rparr>,
         campaign_dict := \<lparr>id_values = [''c''], value_ids = [''c'' \<mapsto> 0]\<rparr>, ad_campaign_belong_list := [0],
         ad_campaign_bid_phrase_list := [[''shoes '']]\<rparr>"
  let ?c = "\<lparr>io_phrases = (\<lambda>_. [1], \<lambda>_. [[[0]]]), io_str_lists = (\<lambda>_. [], \<lambda>_. [[''shoes'']]),
         io_strs = (\<lambda>x. map (of_char \<circ> hd) x, \<lambda>b. if b = [99] then [''c''] else [''shoes'']),
         io_ids = (\<lambda>f. if f ''c'' = None then [] else [7], \<lambda>b. if b = [] then [''shoes'' \<mapsto> 0] else [''c'' \<mapsto> 0]),
         io_nats = (\<lambda>_. [0], \<lambda>_. [0]), io_prices = (\<lambda>_. [], \<lambda>_. []), io_uniform = (\<lambda>_. [], \<lambda>_. []),
         io_str = (\<lambda>s. [5, 6], \<lambda>b. ''0''), io_ints = (\<lambda>_. [], \<lambda>_. [])\<rparr>"
  have ok: "sponsored_ok ?m"
    by (simp add: sponsored_ok_def sponsored_init_def tables_ok_def ads_ok_def dict_ok_def phrase_known_def sset_def less_Suc_eq)
      auto
  have cok: "sponsored_codec_ok ?c ?m"
    by (simp add: sponsored_codec_ok_def image_io_ok_def image_ok_def sponsored_init_def bits_to_string_def)
  have k: "id_values (keyword_dict sponsored_init) = []" "ad_campaign_bid_phrase_list sponsored_init = []"
    by (simp_all add: sponsored_init_def str_dict0_def)
  have b: "id_values (campaign_dict ?m) = [''c'']" "ad_bidphrase_list ?m = [[[0]]]" "ad_campaign_belong_list ?m = [0]"
    by simp_all
  have e: "(\<lambda>p. replicate (length p) CHR '' '') `
      (\<Union>i \<in> {i. i < length [[[0 :: nat]]] \<and> [0] ! i = (0 :: nat)}. set ([[[0 :: nat]]] ! i)) = {'' ''}"
    by auto
  from restart_restores [OF ok cok k] obtain m' where
    r: "sponsored_load ?c (Some (sponsored_save ?c ?m)) sponsored_init = Some m'"
    "\<forall>k < length [''c'']. set (ad_campaign_bid_phrase_list m' ! k) = (\<lambda>p. replicate (length p) CHR '' '') `
      (\<Union>i \<in> {i. i < length [[[0 :: nat]]] \<and> [0] ! i = k}. set ([[[0 :: nat]]] ! i))"
    unfolding b by blast
  from r(2) [rule_format, of 0] have "set (ad_campaign_bid_phrase_list m' ! 0) = {'' ''}" unfolding e by simp
  with r(1) show ?thesis unfolding Let_def by blast
qed

end
