(* ===== verification/HeapQueue.thy ===== *)
theory HeapQueue
  imports Prelude "HOL-Library.Multiset"
begin

text \<open>
  \<open>PriorityQueue\<close> of \<^verbatim>\<open>src/source/core/search-manager/PriorityQueue.h\<close>: a binary heap in an array
  of \<open>maxSize_ + 1\<close> elements whose slot 0 is unused, with the least element on top, used to keep
  the \<open>maxSize_\<close> largest of the elements inserted. The order is the virtual function
  \<open>lessThan\<close>, here the parameter \<open>lt\<close>; the default constructed element is \<open>d\<close>. Which elements
  are kept and that they come out in order is proved in the locale \<open>priority_order\<close>, for every
  \<open>lessThan\<close> that is a strict weak order; that no element is lost or invented, for any.
\<close>

section \<open>The operations\<close>

record 'a pqueue =
  heap :: "'a list"
  pq_size :: nat
  maxSize :: nat

definition pq_initialize :: "'a \<Rightarrow> nat \<Rightarrow> 'a pqueue" where
  "pq_initialize d n = \<lparr>heap = replicate (n + 1) d, pq_size = 0, maxSize = n\<rparr>"

text \<open>The loop of \<open>upHeap\<close>: \<open>node\<close> is to be put at \<open>i\<close> or, above larger parents, further up.\<close>

function up_loop :: "('a \<Rightarrow> 'a \<Rightarrow> bool) \<Rightarrow> 'a \<Rightarrow> 'a list \<Rightarrow> nat \<Rightarrow> nat \<Rightarrow> 'a list" where
  "up_loop lt node h i j =
     (if j > 0 \<and> lt node (h ! j) then up_loop lt node (h[i := h ! j]) j (j div 2) else h[i := node])"
  by pat_completeness auto
termination by (relation "measure (\<lambda>(lt, node, h, i, j). j)") auto

definition upHeap :: "('a \<Rightarrow> 'a \<Rightarrow> bool) \<Rightarrow> 'a pqueue \<Rightarrow> 'a pqueue" where
  "upHeap lt q = q\<lparr>heap := up_loop lt (heap q ! pq_size q) (heap q) (pq_size q) (pq_size q div 2)\<rparr>"

text \<open>The smaller child of \<open>i\<close>, and the loop of \<open>downHeap\<close>; \<open>i < j\<close> always holds, as \<open>i \<ge> 1\<close>.\<close>

definition smaller_child :: "('a \<Rightarrow> 'a \<Rightarrow> bool) \<Rightarrow> 'a list \<Rightarrow> nat \<Rightarrow> nat \<Rightarrow> nat" where
  "smaller_child lt h n i = (let j = 2 * i; k = j + 1 in if k \<le> n \<and> lt (h ! k) (h ! j) then k else j)"

function down_loop :: "('a \<Rightarrow> 'a \<Rightarrow> bool) \<Rightarrow> 'a \<Rightarrow> 'a list \<Rightarrow> nat \<Rightarrow> nat \<Rightarrow> 'a list" where
  "down_loop lt node h n i =
     (let j = smaller_child lt h n i
      in if i < j \<and> j \<le> n \<and> lt (h ! j) node then down_loop lt node (h[i := h ! j]) n j else h[i := node])"
  by pat_completeness auto
termination by (relation "measure (\<lambda>(lt, node, h, n, i). Suc n - i)") auto

definition downHeap :: "('a \<Rightarrow> 'a \<Rightarrow> bool) \<Rightarrow> 'a pqueue \<Rightarrow> 'a pqueue option" where
  "downHeap lt q = (if 1 < length (heap q)
     then Some (q\<lparr>heap := down_loop lt (heap q ! 1) (heap q) (pq_size q) 1\<rparr>) else None)"

definition pq_put :: "('a \<Rightarrow> 'a \<Rightarrow> bool) \<Rightarrow> 'a \<Rightarrow> 'a pqueue \<Rightarrow> 'a pqueue option" where
  "pq_put lt x q = (if pq_size q + 1 < length (heap q)
     then Some (upHeap lt (q\<lparr>pq_size := pq_size q + 1, heap := (heap q)[pq_size q + 1 := x]\<rparr>)) else None)"

definition pq_top :: "'a \<Rightarrow> 'a pqueue \<Rightarrow> 'a" where
  "pq_top d q = (if pq_size q > 0 then heap q ! 1 else d)"

definition pq_insert :: "('a \<Rightarrow> 'a \<Rightarrow> bool) \<Rightarrow> 'a \<Rightarrow> 'a \<Rightarrow> 'a pqueue \<Rightarrow> (bool \<times> 'a pqueue) option" where
  "pq_insert lt d x q =
     (if pq_size q < maxSize q then map_option (Pair True) (pq_put lt x q)
      else if pq_size q > 0 \<and> \<not> lt x (pq_top d q)
      then map_option (Pair True) (downHeap lt (q\<lparr>heap := (heap q)[1 := x]\<rparr>))
      else Some (False, q))"

definition pq_pop :: "('a \<Rightarrow> 'a \<Rightarrow> bool) \<Rightarrow> 'a \<Rightarrow> 'a pqueue \<Rightarrow> ('a \<times> 'a pqueue) option" where
  "pq_pop lt d q =
     (if pq_size q > 0
      then map_option (Pair (heap q ! 1)) (downHeap lt (q\<lparr>
             heap := (heap q)[1 := heap q ! pq_size q, pq_size q := d], pq_size := pq_size q - 1\<rparr>))
      else Some (d, q))"

definition pq_getAt :: "'a pqueue \<Rightarrow> nat \<Rightarrow> 'a option" where
  "pq_getAt q pos = vec_at (heap q) (pos + 1)"

text \<open>
  The way the rankings use a queue: insert all candidates, then pop until it is empty. (They
  write what is popped from the end of the result backwards, so that the best comes first.)
\<close>

fun pq_insert_all :: "('a \<Rightarrow> 'a \<Rightarrow> bool) \<Rightarrow> 'a \<Rightarrow> 'a list \<Rightarrow> 'a pqueue \<Rightarrow> 'a pqueue option" where
  "pq_insert_all lt d [] q = Some q"
| "pq_insert_all lt d (x # xs) q = Option.bind (pq_insert lt d x q) (\<lambda>(_, q'). pq_insert_all lt d xs q')"

fun pq_drain :: "('a \<Rightarrow> 'a \<Rightarrow> bool) \<Rightarrow> 'a \<Rightarrow> nat \<Rightarrow> 'a pqueue \<Rightarrow> 'a list option" where
  "pq_drain lt d 0 q = Some []"
| "pq_drain lt d (Suc n) q = Option.bind (pq_pop lt d q) (\<lambda>(x, q'). map_option ((#) x) (pq_drain lt d n q'))"

definition pq_top_k :: "('a \<Rightarrow> 'a \<Rightarrow> bool) \<Rightarrow> 'a \<Rightarrow> nat \<Rightarrow> 'a list \<Rightarrow> 'a list option" where
  "pq_top_k lt d n xs = Option.bind (pq_insert_all lt d xs (pq_initialize d n)) (\<lambda>q. pq_drain lt d (pq_size q) q)"

declare up_loop.simps [simp del] down_loop.simps [simp del]

section \<open>The elements of a queue\<close>

definition pq_elems :: "'a pqueue \<Rightarrow> 'a multiset" where
  "pq_elems q = mset (take (pq_size q) (tl (heap q)))"

definition pq_wf :: "'a pqueue \<Rightarrow> bool" where
  "pq_wf q \<longleftrightarrow> length (heap q) = maxSize q + 1 \<and> pq_size q \<le> maxSize q"

definition slots :: "'a list \<Rightarrow> nat \<Rightarrow> 'a multiset" where
  "slots h n = image_mset ((!) h) (mset_set {1..n})"

lemma slots_list: "n < length h \<Longrightarrow> slots h n = mset (take n (tl h))"
proof -
  assume "n < length h"
  then have "take n (tl h) = map ((!) h) [1..<n + 1]"
    by (intro nth_equalityI) (auto simp: nth_tl simp del: upt_Suc)
  then show ?thesis by (simp add: slots_def mset_upt atLeastLessThanSuc_atLeastAtMost del: upt_Suc)
qed

lemma slots_cong: "(\<And>i. 1 \<le> i \<Longrightarrow> i \<le> n \<Longrightarrow> h ! i = h' ! i) \<Longrightarrow> slots h n = slots h' n"
  unfolding slots_def by (intro image_mset_cong) auto

lemma slots_Suc: "slots h (Suc n) = add_mset (h ! Suc n) (slots h n)"
proof -
  have "{1..Suc n} = insert (Suc n) {1..n}" by auto
  then show ?thesis by (simp add: slots_def)
qed

lemma slots_upd:
  assumes "1 \<le> i" and "i \<le> n" and "n < length h"
  shows "slots (h[i := x]) n = add_mset x (slots h n - {#h ! i#})"
proof -
  have s: "mset_set {1..n} = add_mset i (mset_set ({1..n} - {i}))"
    using assms by (metis atLeastAtMost_iff finite_atLeastAtMost mset_set.remove)
  have "image_mset ((!) (h[i := x])) (mset_set ({1..n} - {i})) = image_mset ((!) h) (mset_set ({1..n} - {i}))"
    by (intro image_mset_cong) auto
  then show ?thesis using assms unfolding slots_def s by simp
qed

lemma slots_swap:
  assumes "1 \<le> i" "i \<le> n" "1 \<le> j" "j \<le> n" and "n < length h"
  shows "slots (h[i := h ! j, j := x]) n = slots (h[i := x]) n"
proof (cases "i = j")
  case False
  have "{1..n} = insert i (insert j ({1..n} - {i, j}))" using assms by auto
  then have s: "mset_set {1..n} = add_mset i (add_mset j (mset_set ({1..n} - {i, j})))"
    using False by (metis Diff_iff finite_Diff finite_atLeastAtMost finite_insert insertCI insertE mset_set.insert)
  have "image_mset ((!) (h[i := h ! j, j := x])) (mset_set ({1..n} - {i, j})) = image_mset ((!) (h[i := x])) (mset_set ({1..n} - {i, j}))"
    by (intro image_mset_cong) auto
  then show ?thesis using assms False unfolding slots_def s by simp
qed simp

lemma up_loop_slots:
  assumes "1 \<le> i" and "i \<le> n" and "j \<le> n" and "n < length h"
  shows "slots (up_loop lt node h i j) n = slots (h[i := node]) n \<and> length (up_loop lt node h i j) = length h"
  using assms
proof (induction lt node h i j rule: up_loop.induct)
  case (1 lt node h i j)
  show ?case
  proof (cases "j > 0 \<and> lt node (h ! j)")
    case True
    have "slots (up_loop lt node (h[i := h ! j]) j (j div 2)) n = slots (h[i := h ! j, j := node]) n"
      "length (up_loop lt node (h[i := h ! j]) j (j div 2)) = length h"
      using "1.IH" [OF True] "1.prems" True by auto
    with True "1.prems" slots_swap [of i n j h node] show ?thesis by (simp add: up_loop.simps [of lt node h i j])
  next
    case False
    then show ?thesis by (auto simp: up_loop.simps [of lt node h i j])
  qed
qed

lemma down_loop_slots:
  assumes "1 \<le> i" and "i \<le> n" and "n < length h"
  shows "slots (down_loop lt node h n i) n = slots (h[i := node]) n \<and> length (down_loop lt node h n i) = length h"
  using assms
proof (induction lt node h n i rule: down_loop.induct)
  case (1 lt node h n i)
  let ?j = "smaller_child lt h n i"
  show ?case
  proof (cases "i < ?j \<and> ?j \<le> n \<and> lt (h ! ?j) node")
    case True
    have "slots (down_loop lt node (h[i := h ! ?j]) n ?j) n = slots (h[i := h ! ?j, ?j := node]) n"
      "length (down_loop lt node (h[i := h ! ?j]) n ?j) = length h"
      using "1.IH" [OF refl True] "1.prems" True by auto
    with True "1.prems" slots_swap [of i n ?j h node] show ?thesis by (simp add: down_loop.simps [of lt node h n i] Let_def)
  next
    case False
    then show ?thesis by (auto simp: down_loop.simps [of lt node h n i] Let_def)
  qed
qed

lemma down_loop_empty: "length (down_loop lt node h 0 1) = length h"
  by (simp add: down_loop.simps smaller_child_def)

lemma pq_elems_slots: "pq_wf q \<Longrightarrow> pq_elems q = slots (heap q) (pq_size q)"
  by (simp add: pq_elems_def pq_wf_def slots_list)

lemma size_pq_elems: "pq_wf q \<Longrightarrow> size (pq_elems q) = pq_size q"
  by (simp add: pq_elems_slots slots_def)

section \<open>Nothing is lost or invented\<close>

lemma pq_wf_initialize [simp]: "pq_wf (pq_initialize d n)" "pq_elems (pq_initialize d n) = {#}" "maxSize (pq_initialize d n) = n"
  by (simp_all add: pq_initialize_def pq_wf_def pq_elems_def)

lemma pq_put_elems:
  assumes "pq_wf q" and "pq_size q < maxSize q"
  shows "\<exists>q'. pq_put lt x q = Some q' \<and> pq_wf q' \<and> maxSize q' = maxSize q \<and> pq_elems q' = add_mset x (pq_elems q)"
proof -
  let ?n = "Suc (pq_size q)" and ?h = "(heap q)[Suc (pq_size q) := x]"
  have l: "?n < length (heap q)" using assms by (simp add: pq_wf_def)
  let ?g = "up_loop lt (?h ! ?n) ?h ?n (?n div 2)"
  have "slots ?g ?n = slots (?h[?n := ?h ! ?n]) ?n" "length ?g = length (heap q)"
    using up_loop_slots [of ?n ?n "?n div 2" ?h lt "?h ! ?n"] l by auto
  moreover have "slots ?h (pq_size q) = slots (heap q) (pq_size q)" by (rule slots_cong) simp
  ultimately have g: "slots ?g ?n = add_mset x (slots (heap q) (pq_size q))" "length ?g = length (heap q)"
    using l by (simp_all add: slots_Suc)
  let ?q = "q\<lparr>pq_size := ?n, heap := ?g\<rparr>"
  have "pq_put lt x q = Some ?q" using l by (simp add: pq_put_def upHeap_def)
  moreover have w: "pq_wf ?q" using assms g(2) by (simp add: pq_wf_def)
  moreover have "pq_elems ?q = add_mset x (pq_elems q)"
    using g(1) by (simp add: pq_elems_slots [OF w] pq_elems_slots [OF assms(1)])
  ultimately show ?thesis by (intro exI [of _ ?q]) simp
qed

lemma downHeap_elems:
  assumes "pq_wf q" and "0 < maxSize q"
  shows "\<exists>q'. downHeap lt q = Some q' \<and> pq_wf q' \<and> maxSize q' = maxSize q \<and> pq_size q' = pq_size q \<and> pq_elems q' = pq_elems q"
proof -
  let ?g = "down_loop lt (heap q ! 1) (heap q) (pq_size q) 1"
  let ?q = "q\<lparr>heap := ?g\<rparr>"
  have l: "1 < length (heap q)" "pq_size q < length (heap q)" using assms by (simp_all add: pq_wf_def)
  have g: "slots ?g (pq_size q) = slots (heap q) (pq_size q) \<and> length ?g = length (heap q)"
  proof (cases "pq_size q")
    case 0
    then show ?thesis using down_loop_empty [of lt "heap q ! 1" "heap q"] by (simp add: slots_def)
  next
    case (Suc n)
    then show ?thesis using down_loop_slots [of 1 "pq_size q" "heap q" lt "heap q ! 1"] l by simp
  qed
  have "downHeap lt q = Some ?q" using l by (simp add: downHeap_def)
  moreover have w: "pq_wf ?q" using assms g by (simp add: pq_wf_def)
  moreover have "pq_elems ?q = pq_elems q" unfolding pq_elems_slots [OF w] pq_elems_slots [OF assms(1)] using g by simp
  ultimately show ?thesis by (intro exI [of _ ?q]) simp
qed

lemma pq_top_elem:
  assumes "pq_wf q" and "0 < pq_size q"
  shows "pq_top d q = heap q ! 1" and "heap q ! 1 \<in># pq_elems q"
  using assms by (auto simp: pq_top_def pq_elems_slots slots_def image_iff intro!: bexI [of _ 1])

lemma pq_insert_elems:
  assumes "pq_wf q"
  shows "\<exists>b q'. pq_insert lt d x q = Some (b, q') \<and> pq_wf q' \<and> maxSize q' = maxSize q \<and>
    pq_elems q' = (if pq_size q < maxSize q then add_mset x (pq_elems q)
      else if pq_size q > 0 \<and> \<not> lt x (pq_top d q) then add_mset x (pq_elems q - {#pq_top d q#}) else pq_elems q) \<and>
    b = (pq_size q < maxSize q \<or> pq_size q > 0 \<and> \<not> lt x (pq_top d q))"
proof -
  consider (room) "pq_size q < maxSize q"
    | (swap) "\<not> pq_size q < maxSize q" "pq_size q > 0" "\<not> lt x (pq_top d q)"
    | (drop) "\<not> pq_size q < maxSize q" "\<not> (pq_size q > 0 \<and> \<not> lt x (pq_top d q))" by argo
  then show ?thesis
  proof cases
    case room
    then show ?thesis using pq_put_elems [OF assms, of lt x] by (auto simp: pq_insert_def)
  next
    case swap
    let ?q = "q\<lparr>heap := (heap q)[1 := x]\<rparr>"
    have w: "pq_wf ?q" "0 < maxSize ?q" using assms swap by (auto simp: pq_wf_def)
    have e: "pq_elems ?q = add_mset x (pq_elems q - {#pq_top d q#})"
      using slots_upd [of 1 "pq_size q" "heap q" x] swap(2) assms pq_top_elem(1) [OF assms swap(2)]
      unfolding pq_elems_slots [OF w(1)] pq_elems_slots [OF assms] by (simp add: pq_wf_def)
    have "pq_insert lt d x q = map_option (Pair True) (downHeap lt ?q)" using swap by (simp add: pq_insert_def)
    with downHeap_elems [OF w, of lt] e swap show ?thesis by auto
  next
    case drop
    then show ?thesis using assms by (auto simp: pq_insert_def)
  qed
qed

lemma pq_pop_elems:
  assumes "pq_wf q" and "0 < pq_size q"
  shows "\<exists>q'. pq_pop lt d q = Some (heap q ! 1, q') \<and> pq_wf q' \<and> maxSize q' = maxSize q \<and> pq_size q' = pq_size q - 1 \<and>
    pq_elems q' = pq_elems q - {#heap q ! 1#}"
proof -
  obtain n where n: "pq_size q = Suc n" using assms(2) by (cases "pq_size q") auto
  let ?h = "(heap q)[1 := heap q ! Suc n, Suc n := d]"
  let ?q = "q\<lparr>heap := ?h, pq_size := n\<rparr>"
  have w: "pq_wf ?q" "0 < maxSize ?q" using assms n by (auto simp: pq_wf_def)
  have l: "Suc n < length (heap q)" using assms n by (simp add: pq_wf_def)
  have "slots ?h n = slots (heap q) (Suc n) - {#heap q ! 1#}"
  proof (cases "n = 0")
    case True
    then show ?thesis by (simp add: slots_def)
  next
    case False
    have "slots ?h n = slots ((heap q)[1 := heap q ! Suc n]) n" by (rule slots_cong) simp
    also have "\<dots> = add_mset (heap q ! Suc n) (slots (heap q) n - {#heap q ! 1#})"
      using False l by (intro slots_upd) auto
    moreover have "heap q ! 1 \<in># slots (heap q) n" using False by (auto simp: slots_def image_iff intro!: bexI [of _ 1])
    ultimately show ?thesis by (simp add: slots_Suc)
  qed
  then have e: "pq_elems ?q = pq_elems q - {#heap q ! 1#}"
    unfolding pq_elems_slots [OF w(1)] pq_elems_slots [OF assms(1)] n by simp
  have "pq_pop lt d q = map_option (Pair (heap q ! 1)) (downHeap lt ?q)" using n by (simp add: pq_pop_def)
  with downHeap_elems [OF w, of lt] e n show ?thesis by auto
qed

lemma pq_insert_all_elems:
  assumes "pq_wf q" and "pq_elems q \<subseteq># mset ys" and "pq_size q = min (maxSize q) (length ys)"
  shows "\<exists>q'. pq_insert_all lt d xs q = Some q' \<and> pq_wf q' \<and> maxSize q' = maxSize q \<and>
    pq_elems q' \<subseteq># mset (ys @ xs) \<and> pq_size q' = min (maxSize q) (length (ys @ xs))"
  using assms
proof (induction xs arbitrary: q ys)
  case (Cons x xs)
  from pq_insert_elems [OF Cons.prems(1), of lt d x] obtain b q1 where
    1: "pq_insert lt d x q = Some (b, q1)" "pq_wf q1" "maxSize q1 = maxSize q" and
    e: "pq_elems q1 = (if pq_size q < maxSize q then add_mset x (pq_elems q)
      else if pq_size q > 0 \<and> \<not> lt x (pq_top d q) then add_mset x (pq_elems q - {#pq_top d q#}) else pq_elems q)" by blast
  have t: "pq_top d q \<in># pq_elems q" if "pq_size q > 0" using pq_top_elem [OF Cons.prems(1) that] by simp
  have "pq_elems q1 \<subseteq># mset (ys @ [x])"
    using Cons.prems(2) by (auto simp: e subset_mset.le_diff_conv2 intro: subset_mset.order_trans [OF diff_subset_eq_self] subset_mset.order_trans [of _ "mset ys"])
  moreover have "size (pq_elems q1) = min (maxSize q) (length (ys @ [x]))"
  proof (cases "pq_size q < maxSize q")
    case False
    then have "pq_size q = maxSize q" "maxSize q \<le> length ys" using Cons.prems(1,3) by (auto simp: pq_wf_def)
    moreover have "size (add_mset x (pq_elems q - {#pq_top d q#})) = pq_size q" if "pq_size q > 0"
      using size_Suc_Diff1 [OF t [OF that]] size_pq_elems [OF Cons.prems(1)] by simp
    ultimately show ?thesis using False size_pq_elems [OF Cons.prems(1)] by (auto simp: e)
  qed (use Cons.prems(3) size_pq_elems [OF Cons.prems(1)] in \<open>auto simp: e\<close>)
  then have "pq_size q1 = min (maxSize q1) (length (ys @ [x]))" using size_pq_elems [OF 1(2)] 1(3) by simp
  ultimately show ?case using Cons.IH [of q1 "ys @ [x]"] 1 by auto
qed auto

lemma pq_drain_elems:
  assumes "pq_wf q" and "n = pq_size q"
  shows "\<exists>xs. pq_drain lt d n q = Some xs \<and> mset xs = pq_elems q"
  using assms
proof (induction n arbitrary: q)
  case 0
  then show ?case using size_pq_elems [of q] by simp
next
  case (Suc n)
  from pq_pop_elems [OF Suc.prems(1), of lt d] Suc.prems(2) obtain q' where
    p: "pq_pop lt d q = Some (heap q ! 1, q')" "pq_wf q'" "pq_size q' = n" "pq_elems q' = pq_elems q - {#heap q ! 1#}" by auto
  from Suc.IH [OF p(2) p(3) [symmetric]] obtain xs where "pq_drain lt d n q' = Some xs" "mset xs = pq_elems q'" by blast
  moreover have "heap q ! 1 \<in># pq_elems q" using pq_top_elem(2) [OF Suc.prems(1)] Suc.prems(2) by simp
  ultimately show ?case using p by (intro exI [of _ "heap q ! 1 # xs"]) simp
qed

lemma pq_top_k_elems:
  "\<exists>ys. pq_top_k lt d n xs = Some ys \<and> mset ys \<subseteq># mset xs \<and> length ys = min n (length xs)"
proof -
  have "pq_size (pq_initialize d n) = 0" by (simp add: pq_initialize_def)
  with pq_insert_all_elems [of "pq_initialize d n" "[]" lt d xs] obtain q where
    q: "pq_insert_all lt d xs (pq_initialize d n) = Some q" "pq_wf q" "pq_elems q \<subseteq># mset xs" "pq_size q = min n (length xs)" by auto
  from pq_drain_elems [OF q(2) refl, of lt d] obtain ys where "pq_drain lt d (pq_size q) q = Some ys" "mset ys = pq_elems q" by blast
  moreover from this(2) have "length ys = pq_size q" using size_pq_elems [OF q(2)] by (metis size_mset)
  ultimately show ?thesis using q by (simp add: pq_top_k_def)
qed

section \<open>The heap order\<close>

definition heap_ok :: "('a \<Rightarrow> 'a \<Rightarrow> bool) \<Rightarrow> 'a list \<Rightarrow> nat \<Rightarrow> bool" where
  "heap_ok lt h n \<longleftrightarrow> (\<forall>k. 2 \<le> k \<and> k \<le> n \<longrightarrow> \<not> lt (h ! k) (h ! (k div 2)))"

text \<open>The heap order except at \<open>i\<close> and its parent, and except between \<open>i\<close> and its children.\<close>

definition up_ok :: "('a \<Rightarrow> 'a \<Rightarrow> bool) \<Rightarrow> 'a list \<Rightarrow> nat \<Rightarrow> nat \<Rightarrow> bool" where
  "up_ok lt h n i \<longleftrightarrow> (\<forall>k. 2 \<le> k \<and> k \<le> n \<longrightarrow>
     (k \<noteq> i \<longrightarrow> \<not> lt (h ! k) (h ! (k div 2))) \<and> (k div 2 = i \<longrightarrow> 2 \<le> i \<longrightarrow> \<not> lt (h ! k) (h ! (i div 2))))"

definition down_ok :: "('a \<Rightarrow> 'a \<Rightarrow> bool) \<Rightarrow> 'a list \<Rightarrow> nat \<Rightarrow> nat \<Rightarrow> bool" where
  "down_ok lt h n i \<longleftrightarrow> (\<forall>k. 2 \<le> k \<and> k \<le> n \<longrightarrow>
     (k div 2 \<noteq> i \<longrightarrow> \<not> lt (h ! k) (h ! (k div 2))) \<and> (k div 2 = i \<longrightarrow> 2 \<le> i \<longrightarrow> \<not> lt (h ! k) (h ! (i div 2))))"

definition pq_ok :: "('a \<Rightarrow> 'a \<Rightarrow> bool) \<Rightarrow> 'a pqueue \<Rightarrow> bool" where
  "pq_ok lt q \<longleftrightarrow> pq_wf q \<and> heap_ok lt (heap q) (pq_size q)"

text \<open>The queue holds the largest of the elements seen so far.\<close>

definition holds_largest :: "('a \<Rightarrow> 'a \<Rightarrow> bool) \<Rightarrow> 'a list \<Rightarrow> 'a pqueue \<Rightarrow> bool" where
  "holds_largest lt xs q \<longleftrightarrow> pq_ok lt q \<and> pq_elems q \<subseteq># mset xs \<and> pq_size q = min (maxSize q) (length xs) \<and>
     (\<forall>x \<in># mset xs - pq_elems q. \<forall>y \<in># pq_elems q. \<not> lt y x)"

lemma children: "k div 2 = i \<Longrightarrow> k = 2 * i \<or> k = 2 * i + 1" for k i :: nat
  by linarith

locale priority_order =
  fixes lt :: "'a \<Rightarrow> 'a \<Rightarrow> bool"
  assumes asym: "lt a b \<Longrightarrow> \<not> lt b a"
    and not_lt_trans: "\<not> lt a b \<Longrightarrow> \<not> lt b c \<Longrightarrow> \<not> lt a c"
begin

lemma irrefl: "\<not> lt a a"
  using asym by blast

lemma up_loop_heap:
  assumes "1 \<le> i" and "i \<le> n" and "n < length h" and "j = i div 2" and "up_ok lt (h[i := node]) n i"
  shows "heap_ok lt (up_loop lt node h i j) n"
  using assms
proof (induction j arbitrary: h i rule: less_induct)
  case (less j)
  let ?h = "h[i := node]"
  have i: "i < length h" using less.prems by simp
  note ok = less.prems(5) [unfolded up_ok_def, rule_format]
  show ?case
  proof (cases "j > 0 \<and> lt node (h ! j)")
    case True
    let ?g = "h[i := h ! j, j := node]"
    have ij: "j < i" "j \<noteq> i" "j < length h" "2 \<le> i" using less.prems True by auto
    have par: "\<not> lt (h ! j) (h ! (j div 2))" if "2 \<le> j"
      using ok [of j] that ij less.prems(2) by (auto simp: nth_list_update)
    have "up_ok lt ?g n j" unfolding up_ok_def
    proof (intro allI impI conjI)
      fix k
      assume k: "2 \<le> k \<and> k \<le> n"
      then have kl: "k < length h" using less.prems by simp
      show "\<not> lt (?g ! k) (?g ! (k div 2))" if "k \<noteq> j"
      proof -
        consider "k = i" | "k \<noteq> i" "k div 2 = i" | "k \<noteq> i" "k div 2 = j" | "k \<noteq> i" "k div 2 \<noteq> i" "k div 2 \<noteq> j" by blast
        then show ?thesis
        proof cases
          case 1
          then show ?thesis using asym True ij less.prems(4) i by (simp add: nth_list_update)
        next
          case 2
          then show ?thesis using ok [of k] k ij i kl that less.prems(4) by (simp add: nth_list_update)
        next
          case 3
          then have "\<not> lt (h ! k) (h ! j)" using ok [of k] k ij i kl by (simp add: nth_list_update)
          from not_lt_trans [OF this, of node] have "\<not> lt (h ! k) node" using True asym by blast
          then show ?thesis using 3 that ij i kl by (simp add: nth_list_update)
        next
          case 4
          then show ?thesis using ok [of k] k that ij i kl by (simp add: nth_list_update)
        qed
      qed
      show "\<not> lt (?g ! k) (?g ! (j div 2))" if kj: "k div 2 = j" "2 \<le> j"
      proof -
        have d: "j div 2 \<noteq> j" "j div 2 \<noteq> i" using ij kj by linarith+
        show ?thesis
        proof (cases "k = i")
          case True
          then show ?thesis using par kj ij i d by (simp add: nth_list_update)
        next
          case False
          then have "\<not> lt (h ! k) (h ! j)" using ok [of k] k kj ij i kl by (simp add: nth_list_update)
          from not_lt_trans [OF this par [OF kj(2)]] show ?thesis using False kj k d kl by (auto simp: nth_list_update)
        qed
      qed
    qed
    then have "heap_ok lt (up_loop lt node (h[i := h ! j]) j (j div 2)) n"
      using less.IH [of "j div 2"] less.prems True ij by simp
    then show ?thesis using True by (simp add: up_loop.simps [of lt node h i j])
  next
    case False
    have "\<not> lt (?h ! k) (?h ! (k div 2))" if "2 \<le> k" "k \<le> n" for k
    proof (cases "k = i")
      case True
      then show ?thesis using False that i less.prems(4) by (auto simp: nth_list_update)
    qed (use ok [of k] that in simp)
    then show ?thesis using False by (auto simp: up_loop.simps [of lt node h i j] heap_ok_def)
  qed
qed

lemma smaller_child_least:
  assumes "k div 2 = i" and "k \<le> n"
  shows "smaller_child lt h n i \<le> n" and "\<not> lt (h ! k) (h ! smaller_child lt h n i)"
  using children [OF assms(1)] assms(2) irrefl asym by (auto simp: smaller_child_def Let_def)

lemma smaller_child_div: "smaller_child lt h n i div 2 = i"
  by (simp add: smaller_child_def Let_def)

lemma down_loop_heap:
  assumes "1 \<le> i" and "i \<le> n" and "n < length h" and "down_ok lt (h[i := node]) n i"
  shows "heap_ok lt (down_loop lt node h n i) n"
  using assms
proof (induction "n - i" arbitrary: h i rule: less_induct)
  case less
  let ?h = "h[i := node]" and ?j = "smaller_child lt h n i"
  have i: "i < length h" using less.prems by simp
  note ok = less.prems(4) [unfolded down_ok_def, rule_format]
  have ji: "?j div 2 = i" "i < ?j" "?j \<noteq> i" using less.prems(1) by (auto simp: smaller_child_def Let_def)
  have least: "\<not> lt (h ! k) (h ! ?j)" if "k div 2 = i" "k \<le> n" for k using smaller_child_least [OF that] by blast
  show ?case
  proof (cases "?j \<le> n \<and> lt (h ! ?j) node")
    case True
    let ?g = "h[i := h ! ?j, ?j := node]"
    have jl: "?j < length h" using True less.prems by simp
    have "down_ok lt ?g n ?j" unfolding down_ok_def
    proof (intro allI impI conjI)
      fix k
      assume k: "2 \<le> k \<and> k \<le> n"
      then have kl: "k < length h" "k div 2 \<noteq> k" "k div 2 < length h" using less.prems by auto
      show "\<not> lt (?g ! k) (?g ! (k div 2))" if kj: "k div 2 \<noteq> ?j"
      proof -
        consider "k = ?j" | "k \<noteq> ?j" "k div 2 = i" | "k = i" "k div 2 \<noteq> i" | "k \<noteq> ?j" "k \<noteq> i" "k div 2 \<noteq> i" by blast
        then show ?thesis
        proof cases
          case 1
          then show ?thesis using asym True ji jl i by (simp add: nth_list_update)
        next
          case 2
          then show ?thesis using least [of k] k kl i ji less.prems(1) by (auto simp: nth_list_update)
        next
          case 3
          then show ?thesis using ok [of ?j] k kj True ji i jl less.prems(1) by (simp add: nth_list_update)
        next
          case 4
          then show ?thesis using ok [of k] k kl kj by (simp add: nth_list_update)
        qed
      qed
      show "\<not> lt (?g ! k) (?g ! (?j div 2))" if "k div 2 = ?j"
      proof -
        have "k \<noteq> ?j" "k \<noteq> i" using that ji kl by auto
        then show ?thesis using ok [of k] that k ji kl i by (simp add: nth_list_update)
      qed
    qed
    moreover have "n - ?j < n - i" using True ji by linarith
    ultimately have "heap_ok lt (down_loop lt node (h[i := h ! ?j]) n ?j) n"
      using less.hyps [of ?j "h[i := h ! ?j]"] True ji less.prems by simp
    then show ?thesis using True ji by (simp add: down_loop.simps [of lt node h n i] Let_def)
  next
    case False
    have "\<not> lt (?h ! k) (?h ! (k div 2))" if k: "2 \<le> k" "k \<le> n" for k
    proof (cases "k div 2 = i")
      case True
      then have "k \<noteq> i" using k by auto
      have "\<not> lt (h ! ?j) node" using False smaller_child_least(1) [OF True k(2)] by blast
      from not_lt_trans [OF least [OF True k(2)] this] show ?thesis using True i \<open>k \<noteq> i\<close> by (simp add: nth_list_update)
    qed (use ok [of k] k in simp)
    then show ?thesis using False by (auto simp: down_loop.simps [of lt node h n i] Let_def heap_ok_def)
  qed
qed

lemma heap_top_least:
  assumes "heap_ok lt h n" and "1 \<le> i" and "i \<le> n"
  shows "\<not> lt (h ! i) (h ! 1)"
  using assms(2,3)
proof (induction i rule: less_induct)
  case (less i)
  show ?case
  proof (cases "i = 1")
    case False
    then have "\<not> lt (h ! i) (h ! (i div 2))" using assms(1) less.prems by (simp add: heap_ok_def)
    moreover have "\<not> lt (h ! (i div 2)) (h ! 1)" using False less.prems by (intro less.IH) auto
    ultimately show ?thesis by (rule not_lt_trans)
  qed (simp add: irrefl)
qed

lemma pq_ok_initialize: "pq_ok lt (pq_initialize d n)"
  by (simp add: pq_ok_def heap_ok_def) (simp add: pq_initialize_def)

lemma pq_put_ok:
  assumes "pq_ok lt q" and "pq_put lt x q = Some q'"
  shows "heap_ok lt (heap q') (pq_size q')"
proof -
  let ?n = "Suc (pq_size q)" and ?h = "(heap q)[Suc (pq_size q) := x]"
  have l: "?n < length (heap q)" and q': "q' = q\<lparr>pq_size := ?n, heap := up_loop lt (?h ! ?n) ?h ?n (?n div 2)\<rparr>"
    using assms(2) by (auto simp: pq_put_def upHeap_def split: if_splits)
  have "up_ok lt (?h[?n := ?h ! ?n]) ?n ?n"
    using assms(1) l by (auto simp: up_ok_def pq_ok_def heap_ok_def)
  then show ?thesis using up_loop_heap [of ?n ?n ?h "?n div 2" "?h ! ?n"] l by (simp add: q')
qed

lemma downHeap_ok:
  assumes "downHeap lt q = Some q'" and "pq_wf q" and "\<forall>k. 4 \<le> k \<and> k \<le> pq_size q \<longrightarrow> \<not> lt (heap q ! k) (heap q ! (k div 2))"
  shows "heap_ok lt (heap q') (pq_size q')"
proof (cases "pq_size q")
  case 0
  then show ?thesis using assms(1) by (auto simp: downHeap_def heap_ok_def split: if_splits)
next
  case (Suc n)
  have q': "q' = q\<lparr>heap := down_loop lt (heap q ! 1) (heap q) (pq_size q) 1\<rparr>"
    using assms(1) by (auto simp: downHeap_def split: if_splits)
  have "down_ok lt ((heap q)[1 := heap q ! 1]) (pq_size q) 1"
    using assms(3) by (auto simp: down_ok_def)
  then show ?thesis using down_loop_heap [of 1 "pq_size q" "heap q" "heap q ! 1"] Suc assms(2) by (simp add: q' pq_wf_def)
qed

lemma pq_insert_ok:
  assumes "pq_ok lt q" and "pq_insert lt d x q = Some (b, q')"
  shows "pq_ok lt q'"
proof -
  have w: "pq_wf q" using assms(1) by (simp add: pq_ok_def)
  have "pq_wf q'" using pq_insert_elems [OF w, of lt d x] assms(2) by auto
  moreover have "heap_ok lt (heap q') (pq_size q')"
  proof -
    let ?q = "q\<lparr>heap := (heap q)[1 := x]\<rparr>"
    have k: "\<forall>k. 4 \<le> k \<and> k \<le> pq_size ?q \<longrightarrow> \<not> lt (heap ?q ! k) (heap ?q ! (k div 2))" "pq_wf ?q"
      using assms(1) by (auto simp: pq_ok_def heap_ok_def pq_wf_def)
    consider "pq_put lt x q = Some q'" | "downHeap lt ?q = Some q'" | "q' = q"
      using assms(2) by (auto simp: pq_insert_def split: if_splits)
    then show ?thesis
    proof cases
      case 1
      then show ?thesis by (rule pq_put_ok [OF assms(1)])
    next
      case 2
      then show ?thesis using k by (intro downHeap_ok)
    next
      case 3
      then show ?thesis using assms(1) by (simp add: pq_ok_def)
    qed
  qed
  ultimately show ?thesis by (simp add: pq_ok_def)
qed

lemma pq_pop_ok:
  assumes "pq_ok lt q" and "pq_pop lt d q = Some (x, q')" and "0 < pq_size q"
  shows "pq_ok lt q'"
proof -
  have w: "pq_wf q" using assms(1) by (simp add: pq_ok_def)
  have "pq_wf q'" using pq_pop_elems [OF w assms(3), of lt d] assms(2) by auto
  moreover let ?q = "q\<lparr>heap := (heap q)[1 := heap q ! pq_size q, pq_size q := d], pq_size := pq_size q - 1\<rparr>"
  have "downHeap lt ?q = Some q'" using assms(2,3) by (auto simp: pq_pop_def)
  moreover have "pq_wf ?q" using w by (auto simp: pq_wf_def)
  moreover have "\<forall>k. 4 \<le> k \<and> k \<le> pq_size ?q \<longrightarrow> \<not> lt (heap ?q ! k) (heap ?q ! (k div 2))"
    using assms(1,3) by (auto simp: pq_ok_def heap_ok_def)
  ultimately show ?thesis using downHeap_ok unfolding pq_ok_def by blast
qed

lemma top_least: "pq_ok lt q \<Longrightarrow> y \<in># pq_elems q \<Longrightarrow> \<not> lt y (heap q ! 1)"
  using heap_top_least by (fastforce simp: pq_ok_def pq_elems_slots slots_def)

lemma insert_holds_largest:
  assumes "holds_largest lt xs q" and "pq_insert lt d x q = Some (b, q')"
  shows "holds_largest lt (xs @ [x]) q' \<and> maxSize q' = maxSize q"
proof -
  have ok: "pq_ok lt q" and w: "pq_wf q" and sub: "pq_elems q \<subseteq># mset xs" and n: "pq_size q = min (maxSize q) (length xs)"
    and out: "\<And>z y. z \<in># mset xs - pq_elems q \<Longrightarrow> y \<in># pq_elems q \<Longrightarrow> \<not> lt y z"
    using assms(1) by (auto simp: holds_largest_def pq_ok_def)
  note i = pq_insert_elems [OF w, of lt d x]
  from pq_insert_all_elems [OF w sub n, of lt d "[x]"] assms(2)
  have keep: "pq_elems q' \<subseteq># mset (xs @ [x])" "pq_size q' = min (maxSize q') (length (xs @ [x]))" "maxSize q' = maxSize q" by auto
  have t: "pq_top d q \<in># pq_elems q" "pq_top d q = heap q ! 1" if "pq_size q > 0"
    using pq_top_elem(1) [OF w that, of d] pq_top_elem(2) [OF w that] by simp_all
  have "\<not> lt y z" if z: "z \<in># mset (xs @ [x]) - pq_elems q'" and y: "y \<in># pq_elems q'" for z y
  proof -
    consider (room) "pq_size q < maxSize q" "pq_elems q' = add_mset x (pq_elems q)"
      | (swap) "pq_size q > 0" "\<not> lt x (pq_top d q)" "pq_elems q' = add_mset x (pq_elems q - {#pq_top d q#})"
      | (drop) "pq_size q > 0" "lt x (pq_top d q)" "pq_elems q' = pq_elems q"
      | (none) "pq_size q = 0" "pq_elems q' = pq_elems q"
      using i assms(2) by (auto split: if_splits)
    then show ?thesis
    proof cases
      case room
      then have "size (pq_elems q) = size (mset xs)" using n size_pq_elems [OF w] by simp
      then have "pq_elems q = mset xs" using sub by (metis mset_subset_size nless_le subset_mset.le_imp_less_or_eq)
      then show ?thesis using z room by simp
    next
      case swap
      let ?t = "pq_top d q"
      obtain E R where E: "pq_elems q = add_mset ?t E" and R: "mset xs = pq_elems q + R"
        using multi_member_split [OF t(1) [OF swap(1)]] sub by (metis subset_mset.le_iff_add)
      have least: "\<not> lt y ?t"
        using y swap top_least [OF ok] t(2) [OF swap(1)] by (auto simp: E)
      have "z = ?t \<or> z \<in># R" using z by (simp add: R E swap(3))
      moreover have "\<not> lt y z" if "z \<in># R"
        using not_lt_trans [OF least, of z] out [of z ?t] that by (simp add: R E)
      ultimately show ?thesis using least by blast
    next
      case drop
      obtain R where R: "mset xs = pq_elems q + R" using sub by (metis subset_mset.le_iff_add)
      have least: "\<not> lt y (pq_top d q)" using y drop top_least [OF ok] t(2) [OF drop(1)] by simp
      have "z = x \<or> z \<in># R" using z by (simp add: R drop(3))
      moreover have "\<not> lt y x" using not_lt_trans [OF least, of x] asym drop(2) by blast
      moreover have "\<not> lt y z" if "z \<in># R" using out [of z y] that y by (simp add: R drop(3))
      ultimately show ?thesis by blast
    next
      case none
      then show ?thesis using y size_pq_elems [OF w] by simp
    qed
  qed
  then show ?thesis using keep pq_insert_ok [OF ok assms(2)] by (simp add: holds_largest_def)
qed

lemma insert_all_holds_largest:
  "holds_largest lt ys q \<Longrightarrow> pq_insert_all lt d xs q = Some q' \<Longrightarrow> holds_largest lt (ys @ xs) q' \<and> maxSize q' = maxSize q"
proof (induction xs arbitrary: ys q)
  case (Cons x xs)
  then obtain b q1 where "pq_insert lt d x q = Some (b, q1)" "pq_insert_all lt d xs q1 = Some q'"
    by (auto simp: bind_eq_Some_conv)
  with insert_holds_largest [OF Cons.prems(1) this(1)] Cons.IH [of "ys @ [x]" q1] show ?case by simp
qed simp

lemma drain_sorted:
  "pq_ok lt q \<Longrightarrow> n = pq_size q \<Longrightarrow> pq_drain lt d n q = Some xs \<Longrightarrow> sorted_wrt (\<lambda>a b. \<not> lt b a) xs"
proof (induction n arbitrary: q xs)
  case (Suc n)
  have w: "pq_wf q" "0 < pq_size q" using Suc.prems by (simp_all add: pq_ok_def)
  from pq_pop_elems [OF w, of lt d] obtain q' where
    p: "pq_pop lt d q = Some (heap q ! 1, q')" "pq_wf q'" "pq_size q' = pq_size q - 1" "pq_elems q' = pq_elems q - {#heap q ! 1#}" by blast
  then obtain ys where ys: "pq_drain lt d n q' = Some ys" "xs = heap q ! 1 # ys" using Suc.prems(3) by auto
  have n: "n = pq_size q'" using p(3) Suc.prems(2) by simp
  from pq_drain_elems [OF p(2) n, of lt d] ys(1) have "mset ys = pq_elems q - {#heap q ! 1#}" using p(4) by simp
  then have "set ys \<subseteq> set_mset (pq_elems q)" by (metis in_diffD set_mset_mset subsetI)
  then have "\<forall>y \<in> set ys. \<not> lt y (heap q ! 1)" using top_least [OF Suc.prems(1)] by blast
  with Suc.IH [OF pq_pop_ok [OF Suc.prems(1) p(1) w(2)] n ys(1)] show ?case by (simp add: ys(2))
qed simp

lemma top_k:
  "\<exists>ys rest. pq_top_k lt d n xs = Some ys \<and> mset xs = mset (ys @ rest) \<and> length ys = min n (length xs) \<and>
     sorted_wrt (\<lambda>a b. \<not> lt b a) ys \<and> (\<forall>x \<in> set rest. \<forall>y \<in> set ys. \<not> lt y x)"
proof -
  have s: "pq_size (pq_initialize d n) = 0" by (simp add: pq_initialize_def)
  have h: "holds_largest lt [] (pq_initialize d n)" by (simp add: holds_largest_def pq_ok_initialize s)
  from pq_insert_all_elems [of "pq_initialize d n" "[]" lt d xs] s obtain q where q: "pq_insert_all lt d xs (pq_initialize d n) = Some q" by auto
  from insert_all_holds_largest [OF h q] have hq: "holds_largest lt xs q" "maxSize q = n" by simp_all
  then have ok: "pq_ok lt q" "pq_wf q" unfolding holds_largest_def pq_ok_def by blast+
  from pq_drain_elems [OF ok(2) refl, of lt d] obtain ys where ys: "pq_drain lt d (pq_size q) q = Some ys" "mset ys = pq_elems q" by blast
  obtain rest where r: "mset rest = mset xs - pq_elems q" using ex_mset by blast
  have "mset xs = mset (ys @ rest)" using hq(1) by (simp add: r ys(2) holds_largest_def)
  moreover have "length ys = min n (length xs)"
    using hq size_pq_elems [OF ok(2)] ys(2) by (metis holds_largest_def size_mset)
  moreover have "\<forall>x \<in> set rest. \<forall>y \<in> set ys. \<not> lt y x"
    using hq(1) r ys(2) unfolding holds_largest_def by (metis set_mset_mset)
  ultimately show ?thesis using ys(1) q drain_sorted [OF ok(1) refl ys(1)] by (auto simp: pq_top_k_def)
qed

end

section \<open>Orders on the elements in use\<close>

text \<open>Only comparisons of elements that were inserted matter.\<close>

lemma up_loop_cong:
  assumes "\<forall>a \<in> A. \<forall>b \<in> A. lt a b = lt' a b" and "node \<in> A" and "\<forall>k. 1 \<le> k \<and> k \<le> n \<and> k \<noteq> i \<longrightarrow> h ! k \<in> A"
    and "1 \<le> i" "i \<le> n" "n < length h" "j < i"
  shows "up_loop lt node h i j = up_loop lt' node h i j"
  using assms(3-)
proof (induction j arbitrary: h i rule: less_induct)
  case (less j)
  have "up_loop lt node (h[i := h ! j]) j (j div 2) = up_loop lt' node (h[i := h ! j]) j (j div 2)" if "j > 0"
    using less.prems that by (intro less.IH) (auto simp: nth_list_update)
  moreover have "j > 0 \<Longrightarrow> lt node (h ! j) = lt' node (h ! j)" using less.prems assms(1,2) by simp
  ultimately show ?case unfolding up_loop.simps [of _ _ h i j] by auto
qed

lemma down_loop_cong:
  assumes "\<forall>a \<in> A. \<forall>b \<in> A. lt a b = lt' a b" and "node \<in> A" and "\<forall>k. 1 \<le> k \<and> k \<le> n \<and> k \<noteq> i \<longrightarrow> h ! k \<in> A"
    and "1 \<le> i" "i \<le> n" "n < length h"
  shows "down_loop lt node h n i = down_loop lt' node h n i"
  using assms(3-)
proof (induction "n - i" arbitrary: h i rule: less_induct)
  case less
  have c: "smaller_child lt h n i = smaller_child lt' h n i"
    using less.prems assms(1) by (auto simp: smaller_child_def Let_def)
  let ?j = "smaller_child lt h n i"
  have j: "i < ?j" using less.prems by (auto simp: smaller_child_def Let_def)
  have "down_loop lt node (h[i := h ! ?j]) n ?j = down_loop lt' node (h[i := h ! ?j]) n ?j" if "?j \<le> n"
    using less.prems that j by (intro less.hyps) (auto simp: nth_list_update)
  moreover have "?j \<le> n \<Longrightarrow> lt (h ! ?j) node = lt' (h ! ?j) node" using less.prems j assms(1,2) by simp
  ultimately show ?case unfolding down_loop.simps [of _ _ h n i] Let_def c [symmetric] by auto
qed

lemma elems_nth: "pq_wf q \<Longrightarrow> 1 \<le> k \<Longrightarrow> k \<le> pq_size q \<Longrightarrow> heap q ! k \<in># pq_elems q"
  by (auto simp: pq_elems_slots slots_def)

lemma downHeap_cong:
  assumes "\<forall>a \<in> A. \<forall>b \<in> A. lt a b = lt' a b" and "pq_wf q" and "set_mset (pq_elems q) \<subseteq> A"
  shows "downHeap lt q = downHeap lt' q"
proof (cases "pq_size q = 0")
  case True
  then show ?thesis by (simp add: downHeap_def down_loop.simps [of _ _ _ 0] smaller_child_def)
next
  case False
  have "heap q ! k \<in> A" if "1 \<le> k" "k \<le> pq_size q" for k using elems_nth [OF assms(2) that] assms(3) by blast
  then have "down_loop lt (heap q ! 1) (heap q) (pq_size q) 1 = down_loop lt' (heap q ! 1) (heap q) (pq_size q) 1"
    using False assms(2) by (intro down_loop_cong [OF assms(1)]) (auto simp: pq_wf_def)
  then show ?thesis by (simp add: downHeap_def)
qed

lemma pq_insert_cong:
  assumes "\<forall>a \<in> A. \<forall>b \<in> A. lt a b = lt' a b" and "pq_wf q" and "set_mset (pq_elems q) \<subseteq> A" and "x \<in> A"
  shows "pq_insert lt d x q = pq_insert lt' d x q"
proof -
  have m: "heap q ! k \<in> A" if "1 \<le> k" "k \<le> pq_size q" for k using elems_nth [OF assms(2) that] assms(3) by blast
  let ?n = "Suc (pq_size q)" and ?h = "(heap q)[Suc (pq_size q) := x]"
  have "up_loop lt x ?h ?n (?n div 2) = up_loop lt' x ?h ?n (?n div 2)" if "?n < length (heap q)"
    using that m assms(4) by (intro up_loop_cong [OF assms(1), where n = ?n]) auto
  then have 1: "pq_put lt x q = pq_put lt' x q" by (simp add: pq_put_def upHeap_def)
  let ?q = "q\<lparr>heap := (heap q)[1 := x]\<rparr>"
  have w: "pq_wf ?q" using assms(2) by (simp add: pq_wf_def)
  have 2: "downHeap lt ?q = downHeap lt' ?q"
  proof (rule downHeap_cong [OF assms(1) w])
    show "set_mset (pq_elems ?q) \<subseteq> A"
      unfolding pq_elems_slots [OF w] using m assms(2,4) by (auto simp: slots_def pq_wf_def nth_list_update)
  qed
  have 3: "lt x (pq_top d q) = lt' x (pq_top d q)" if "pq_size q > 0" using that m [of 1] assms(1,4) by (simp add: pq_top_def)
  show ?thesis unfolding pq_insert_def 1 2 using 3 by auto
qed

lemma pq_insert_all_cong:
  assumes "\<forall>a \<in> A. \<forall>b \<in> A. lt a b = lt' a b" and "pq_wf q" and "set_mset (pq_elems q) \<subseteq> A" and "set xs \<subseteq> A"
  shows "pq_insert_all lt d xs q = pq_insert_all lt' d xs q"
  using assms(2-)
proof (induction xs arbitrary: q)
  case (Cons x xs)
  have i: "pq_insert lt d x q = pq_insert lt' d x q" using Cons.prems by (intro pq_insert_cong [OF assms(1)]) auto
  from pq_insert_elems [OF Cons.prems(1), of lt' d x] obtain b q' where
    q': "pq_insert lt' d x q = Some (b, q')" "pq_wf q'" and
    e: "pq_elems q' = (if pq_size q < maxSize q then add_mset x (pq_elems q)
      else if pq_size q > 0 \<and> \<not> lt' x (pq_top d q) then add_mset x (pq_elems q - {#pq_top d q#}) else pq_elems q)" by blast
  have "set_mset (pq_elems q') \<subseteq> A" using Cons.prems(2,3) by (auto simp: e dest: in_diffD)
  then show ?case using Cons.IH [of q'] Cons.prems q' by (simp add: i)
qed simp

lemma pq_drain_cong:
  assumes "\<forall>a \<in> A. \<forall>b \<in> A. lt a b = lt' a b" and "pq_wf q" and "set_mset (pq_elems q) \<subseteq> A" and "n = pq_size q"
  shows "pq_drain lt d n q = pq_drain lt' d n q"
  using assms(2-)
proof (induction n arbitrary: q)
  case (Suc n)
  have s: "0 < pq_size q" using Suc.prems by simp
  let ?q = "q\<lparr>heap := (heap q)[1 := heap q ! pq_size q, pq_size q := d], pq_size := pq_size q - 1\<rparr>"
  have m: "heap q ! k \<in> A" if "1 \<le> k" "k \<le> pq_size q" for k using elems_nth [OF Suc.prems(1) that] Suc.prems(2) by blast
  have w: "pq_wf ?q" using Suc.prems(1) by (auto simp: pq_wf_def)
  have "set_mset (pq_elems ?q) \<subseteq> A"
    unfolding pq_elems_slots [OF w] using m s Suc.prems(1) by (auto simp: slots_def pq_wf_def nth_list_update)
  from downHeap_cong [OF assms(1) w this] have p: "pq_pop lt d q = pq_pop lt' d q" by (simp add: pq_pop_def)
  from pq_pop_elems [OF Suc.prems(1) s, of lt' d] obtain q' where
    q': "pq_pop lt' d q = Some (heap q ! 1, q')" "pq_wf q'" "pq_size q' = pq_size q - 1" "pq_elems q' = pq_elems q - {#heap q ! 1#}" by blast
  have "set_mset (pq_elems q') \<subseteq> A" using Suc.prems(2) by (auto simp: q'(4) dest: in_diffD)
  then have "pq_drain lt d n q' = pq_drain lt' d n q'" using Suc.prems(3) q'(3) by (intro Suc.IH [OF q'(2)]) simp_all
  then show ?case by (simp add: p q'(1))
qed simp

lemma pq_top_k_cong:
  assumes "\<forall>a \<in> set xs. \<forall>b \<in> set xs. lt a b = lt' a b"
  shows "pq_top_k lt d n xs = pq_top_k lt' d n xs"
proof -
  have i: "pq_insert_all lt d xs (pq_initialize d n) = pq_insert_all lt' d xs (pq_initialize d n)"
    by (rule pq_insert_all_cong [OF assms]) simp_all
  have "pq_size (pq_initialize d n) = 0" by (simp add: pq_initialize_def)
  with pq_insert_all_elems [of "pq_initialize d n" "[]" lt' d xs] obtain q where
    q: "pq_insert_all lt' d xs (pq_initialize d n) = Some q" "pq_wf q" "pq_elems q \<subseteq># mset xs" by auto
  have "set_mset (pq_elems q) \<subseteq> set xs" using set_mset_mono [OF q(3)] by simp
  from pq_drain_cong [OF assms q(2) this refl, of d] show ?thesis by (simp add: pq_top_k_def i q(1))
qed

text \<open>So it is enough that \<open>lessThan\<close> is a strict weak order on the elements inserted.\<close>

definition order_on :: "'a set \<Rightarrow> ('a \<Rightarrow> 'a \<Rightarrow> bool) \<Rightarrow> bool" where
  "order_on A lt \<longleftrightarrow> (\<forall>a \<in> A. \<forall>b \<in> A. lt a b \<longrightarrow> \<not> lt b a) \<and>
     (\<forall>a \<in> A. \<forall>b \<in> A. \<forall>c \<in> A. \<not> lt a b \<longrightarrow> \<not> lt b c \<longrightarrow> \<not> lt a c)"

lemma order_on_extension:
  "order_on A lt \<Longrightarrow> priority_order (\<lambda>a b. if a \<in> A \<and> b \<in> A then lt a b else a \<in> A \<and> b \<notin> A)"
proof unfold_locales
  assume o: "order_on A lt"
  let ?lt = "\<lambda>a b. if a \<in> A \<and> b \<in> A then lt a b else a \<in> A \<and> b \<notin> A"
  have l: "\<not> lt b a" if "a \<in> A" "b \<in> A" "lt a b" for a b using o that unfolding order_on_def by blast
  have t: "\<not> lt a c" if "a \<in> A" "b \<in> A" "c \<in> A" "\<not> lt a b" "\<not> lt b c" for a b c using o that unfolding order_on_def by blast
  show "\<not> ?lt b a" if "?lt a b" for a b using l [of a b] that by (simp split: if_splits)
  show "\<not> ?lt a c" if "\<not> ?lt a b" "\<not> ?lt b c" for a b c using t [of a b c] that by (simp split: if_splits)
qed

lemma top_k_on:
  assumes "order_on (set xs) lt"
  shows "\<exists>ys rest. pq_top_k lt d n xs = Some ys \<and> mset xs = mset (ys @ rest) \<and> length ys = min n (length xs) \<and>
     sorted_wrt (\<lambda>a b. \<not> lt b a) ys \<and> (\<forall>x \<in> set rest. \<forall>y \<in> set ys. \<not> lt y x)"
proof -
  let ?lt = "\<lambda>a b. if a \<in> set xs \<and> b \<in> set xs then lt a b else a \<in> set xs \<and> b \<notin> set xs"
  from priority_order.top_k [OF order_on_extension [OF assms], of d n xs] obtain ys rest where
    k: "pq_top_k ?lt d n xs = Some ys" "mset xs = mset (ys @ rest)" "length ys = min n (length xs)"
      "sorted_wrt (\<lambda>a b. \<not> ?lt b a) ys" "\<forall>x \<in> set rest. \<forall>y \<in> set ys. \<not> ?lt y x" by blast
  have "pq_top_k lt d n xs = pq_top_k ?lt d n xs" by (rule pq_top_k_cong) simp
  moreover have m: "set ys \<subseteq> set xs" "set rest \<subseteq> set xs" using k(2) by (metis Un_iff set_append set_mset_mset subsetI)+
  moreover have "sorted_wrt (\<lambda>a b. \<not> lt b a) ys" 
    by (rule sorted_wrt_mono_rel [OF _ k(4)]) (use m(1) in \<open>auto split: if_splits\<close>)
  moreover have "\<forall>x \<in> set rest. \<forall>y \<in> set ys. \<not> lt y x" using k(5) m by (auto split: if_splits)
  ultimately show ?thesis using k(1-3) by auto
qed

text \<open>
  C18. What a bounded queue is for. When \<open>lessThan\<close> is a strict weak order on the elements
  inserted, inserting them one by one into a queue of capacity \<open>n\<close> and popping until it is
  empty stays inside the array and yields the \<open>n\<close> largest of them (all, if there are fewer),
  least first: what is left out is not larger than anything that is kept.
\<close>

theorem queue_keeps_largest:
  assumes "order_on (set xs) lt"
  shows "\<exists>ys rest. pq_top_k lt d n xs = Some ys \<and> mset xs = mset (ys @ rest) \<and> length ys = min n (length xs) \<and>
     sorted_wrt (\<lambda>a b. \<not> lt b a) ys \<and> (\<forall>x \<in> set rest. \<forall>y \<in> set ys. \<not> lt y x)"
  by (rule top_k_on [OF assms])

theorem queue_keeps_largest_witness:
  "\<exists>ys rest. pq_top_k (<) (0 :: nat) 2 [5, 1, 4, 2] = Some ys \<and> mset [5, 1, 4, 2] = mset (ys @ rest) \<and> length ys = 2 \<and> sorted ys"
proof -
  have "order_on (set [5, 1, 4, 2 :: nat]) (<)" by (simp add: order_on_def)
  from queue_keeps_largest [OF this, of 0 2] show ?thesis by (auto simp: not_less sorted_wrt_iff_nth_less)
qed

end
