(* ===== verification/Segments.thy ===== *)
theory Segments
  imports Prelude
begin

text \<open>
  The segment strings of \<open>AdSelector\<close>: \<open>std::map\<close> with string keys as an association list in
  key order, the odometer \<open>getAllPossibleSegStr\<close> over all combinations of feature values, and
  \<open>expandSegmentStr\<close>, which spells out the combinations of one user or ad. Both are compared
  with \<open>product_lists\<close>, the Cartesian product in lexicographic order.
\<close>

type_synonym feature = "(string \<times> string) list"
type_synonym feature_map = "(string \<times> string list) list"

definition linker :: string where "linker = ''-''"
definition UnknownStr :: string where "UnknownStr = ''Unknown''"

section \<open>\<open>std::map\<close> with string keys\<close>

text \<open>\<open>m[k] = f(m[k])\<close>, where \<open>m[k]\<close> is \<open>d\<close> when the key is new.\<close>

fun smap_upd :: "string \<Rightarrow> 'v \<Rightarrow> ('v \<Rightarrow> 'v) \<Rightarrow> (string \<times> 'v) list \<Rightarrow> (string \<times> 'v) list" where
  "smap_upd k d f [] = [(k, f d)]"
| "smap_upd k d f ((k', v) # m) =
     (if k < k' then (k, f d) # (k', v) # m
      else if k = k' then (k', f v) # m
      else (k', v) # smap_upd k d f m)"

abbreviation smap_put :: "string \<Rightarrow> 'v \<Rightarrow> (string \<times> 'v) list \<Rightarrow> (string \<times> 'v) list" where
  "smap_put k v \<equiv> smap_upd k v (\<lambda>_. v)"

definition smap_ok :: "(string \<times> 'v) list \<Rightarrow> bool" where
  "smap_ok m \<longleftrightarrow> sorted_wrt (<) (map fst m)"

section \<open>All combinations of segment values\<close>

text \<open>
  The values the counters select, with the key they make. Reading \<open>segments_counter[name]\<close>
  inserts a counter 0 for a name without one; a counter outside the values is undefined.
\<close>

fun read_segments :: "feature_map \<Rightarrow> (string \<times> nat) list \<Rightarrow> (string \<times> feature \<times> (string \<times> nat) list) option" where
  "read_segments [] counter = Some ([], [], counter)"
| "read_segments ((k, vs) # segs) counter =
     (let counter' = smap_upd k 0 (\<lambda>c. c) counter
      in case vec_at vs (the (map_of counter' k)) of
           None \<Rightarrow> None
         | Some v \<Rightarrow>
             (case read_segments segs counter' of
                None \<Rightarrow> None
              | Some (key, data, c) \<Rightarrow>
                  Some (if v \<noteq> UnknownStr then (v @ linker @ key, (k, v) # data, c) else (key, data, c))))"

text \<open>
  The carry, over the counters from the last name to the first: \<open>Some None\<close> when all counters
  were at their last value. The comparison with \<open>size() - 1\<close> is unsigned, so it never holds of
  an empty vector.
\<close>

fun carry :: "feature_map \<Rightarrow> (string \<times> nat) list \<Rightarrow> (string \<times> nat) list option option" where
  "carry segs [] = Some None"
| "carry segs ((k, c) # rest) =
     (case map_of segs k of
        None \<Rightarrow> None
      | Some vs \<Rightarrow>
          if vs \<noteq> [] \<and> c \<ge> length vs - 1 then map_option (map_option ((#) (k, 0))) (carry segs rest)
          else Some (Some ((k, c + 1) # rest)))"

partial_function (option) seg_loop ::
  "feature_map \<Rightarrow> (string \<times> nat) list \<Rightarrow> (string \<times> feature) list \<Rightarrow> (string \<times> feature) list option" where
  "seg_loop segs counter all_keys =
     (case read_segments segs counter of
        None \<Rightarrow> None
      | Some (key, data, counter') \<Rightarrow>
          (case carry segs (rev counter') of
             None \<Rightarrow> None
           | Some None \<Rightarrow> Some (smap_put key data all_keys)
           | Some (Some next) \<Rightarrow> seg_loop segs (rev next) (smap_put key data all_keys)))"

definition getAllPossibleSegStr ::
  "feature_map \<Rightarrow> (string \<times> nat) list \<Rightarrow> (string \<times> feature) list \<Rightarrow> (string \<times> feature) list option" where
  "getAllPossibleSegStr segments segments_counter all_keys =
     (if segments_counter = [] then Some all_keys else seg_loop segments segments_counter all_keys)"

section \<open>Segment strings of one user or ad\<close>

definition expand_feature :: "string list \<Rightarrow> string list \<Rightarrow> string list" where
  "expand_feature vs strs =
     (if vs = [] then strs
      else map (\<lambda>s. s @ hd vs @ linker) strs @
           concat (map (\<lambda>s. map (\<lambda>v. s @ v @ linker) (tl vs)) strs))"

definition expandSegmentStr :: "string list \<Rightarrow> feature_map \<Rightarrow> string list" where
  "expandSegmentStr strs features = fold (\<lambda>(k, vs) strs. expand_feature vs strs) features strs"

text \<open>The overload over segment ids, with numbers in place of values and no separator.\<close>

definition expandSegmentIds :: "string list \<Rightarrow> nat list \<Rightarrow> string list" where
  "expandSegmentIds strs ids =
     (if ids = [] then strs
      else map (\<lambda>s. s @ dec (hd ids)) strs @ concat (map (\<lambda>s. map (\<lambda>i. s @ dec i) (tl ids)) strs))"

definition collect_features :: "feature \<Rightarrow> feature_map" where
  "collect_features info = fold (\<lambda>(k, v). smap_upd k [] (\<lambda>vs. vs @ [v])) info []"

definition getUserSegmentStr :: "feature \<Rightarrow> string list" where
  "getUserSegmentStr info = expandSegmentStr [[]] (collect_features info)"

section \<open>Facts about the maps\<close>

lemma smap_ok_Nil [simp]: "smap_ok []"
  by (simp add: smap_ok_def)

lemma smap_ok_Cons [simp]: "smap_ok ((k, v) # m) \<longleftrightarrow> (\<forall>k' \<in> fst ` set m. k < k') \<and> smap_ok m"
  by (auto simp: smap_ok_def)

lemma smap_upd_keys [simp]: "fst ` set (smap_upd k d f m) = insert k (fst ` set m)"
  by (induction k d f m rule: smap_upd.induct) auto

lemma smap_upd_ok [simp]: "smap_ok m \<Longrightarrow> smap_ok (smap_upd k d f m)"
  by (induction k d f m rule: smap_upd.induct) auto

lemma map_of_less: "\<forall>k' \<in> fst ` set m. k < k' \<Longrightarrow> map_of m (k :: string) = None"
  by (auto simp: map_of_eq_None_iff)

lemma map_of_smap_upd [simp]:
  "smap_ok m \<Longrightarrow> map_of (smap_upd k d f m) =
     (map_of m)(k \<mapsto> f (case map_of m k of None \<Rightarrow> d | Some v \<Rightarrow> v))"
proof (induction k d f m rule: smap_upd.induct)
  case (2 k d f k' v m)
  then have "k < k' \<Longrightarrow> map_of m k = None" by (intro map_of_less) auto
  with 2 show ?case by (auto simp: fun_eq_iff)
qed auto

lemma smap_upd_same: "smap_ok m \<Longrightarrow> map_of m k = Some v \<Longrightarrow> smap_upd k d (\<lambda>c. c) m = m"
proof (induction m)
  case (Cons p m)
  then show ?case by (cases p) (auto dest!: map_of_SomeD split: if_splits)
qed simp

lemma smap_ok_distinct: "smap_ok m \<Longrightarrow> distinct (map fst m)"
  by (simp add: smap_ok_def strict_sorted_iff)

section \<open>The odometer is the Cartesian product\<close>

text \<open>Reference: the choices from a position on, in lexicographic order, and the next position.\<close>

fun choices_from :: "'a list list \<Rightarrow> nat list \<Rightarrow> 'a list list" where
  "choices_from (vs # vss) (d # ds) =
     map ((#) (vs ! d)) (choices_from vss ds) @
     concat (map (\<lambda>v. map ((#) v) (product_lists vss)) (drop (Suc d) vs))"
| "choices_from _ _ = [[]]"

fun next_digits :: "'a list list \<Rightarrow> nat list \<Rightarrow> nat list option" where
  "next_digits (vs # vss) (d # ds) =
     (case next_digits vss ds of
        Some ds' \<Rightarrow> Some (d # ds')
      | None \<Rightarrow> if Suc d < length vs then Some (Suc d # replicate (length ds) 0) else None)"
| "next_digits _ _ = None"

definition digits_ok :: "'a list list \<Rightarrow> nat list \<Rightarrow> bool" where
  "digits_ok vss ds = list_all2 (\<lambda>vs d. d < length vs) vss ds"

definition choice_at :: "'a list list \<Rightarrow> nat list \<Rightarrow> 'a list" where
  "choice_at vss ds = map2 (!) vss ds"

lemma digits_ok_simps [simp]:
  "digits_ok [] ds \<longleftrightarrow> ds = []"
  "digits_ok (vs # vss) (d # ds) \<longleftrightarrow> d < length vs \<and> digits_ok vss ds"
  "digits_ok vss [] \<longleftrightarrow> vss = []"
  by (auto simp: digits_ok_def)

lemma digits_ok_Cons: "digits_ok (vs # vss) ds \<longleftrightarrow> (\<exists>d ds'. ds = d # ds' \<and> d < length vs \<and> digits_ok vss ds')"
  by (cases ds) auto

lemma choice_at_simps [simp]: "choice_at [] ds = []" "choice_at (vs # vss) (d # ds) = (vs ! d) # choice_at vss ds"
  by (simp_all add: choice_at_def)

lemma choices_from_start: "\<forall>vs \<in> set vss. vs \<noteq> [] \<Longrightarrow> choices_from vss (replicate (length vss) 0) = product_lists vss"
proof (induction vss)
  case (Cons vs vss)
  then obtain v vs' where "vs = v # vs'" by (cases vs) auto
  with Cons show ?case by simp
qed simp

lemma digits_ok_start: "\<forall>vs \<in> set vss. vs \<noteq> [] \<Longrightarrow> digits_ok vss (replicate (length vss) 0)"
  by (induction vss) auto

lemma digits_ok_zero: "digits_ok vss ds \<Longrightarrow> length ds = length vss \<and> (\<forall>vs \<in> set vss. vs \<noteq> [])"
  by (induction vss arbitrary: ds) (auto simp: digits_ok_Cons)

lemma next_digits_ok: "digits_ok vss ds \<Longrightarrow> next_digits vss ds = Some ds' \<Longrightarrow> digits_ok vss ds'"
proof (induction vss arbitrary: ds ds')
  case (Cons vs vss)
  then obtain d es where e: "ds = d # es" "d < length vs" "digits_ok vss es" by (auto simp: digits_ok_Cons)
  from digits_ok_zero [OF e(3)] have z: "digits_ok vss (replicate (length es) 0)" by (simp add: digits_ok_start)
  from Cons e z show ?case by (auto split: option.splits if_splits)
qed simp

lemma choices_from_next:
  "digits_ok vss ds \<Longrightarrow> choices_from vss ds = choice_at vss ds #
     (case next_digits vss ds of None \<Rightarrow> [] | Some ds' \<Rightarrow> choices_from vss ds')"
proof (induction vss arbitrary: ds)
  case (Cons vs vss)
  then obtain d es where e: "ds = d # es" "d < length vs" "digits_ok vss es" by (auto simp: digits_ok_Cons)
  note IH = Cons.IH [OF e(3)]
  show ?case
  proof (cases "next_digits vss es")
    case None
    with IH have c: "choices_from vss es = [choice_at vss es]" by simp
    have z: "choices_from vss (replicate (length es) 0) = product_lists vss"
      using digits_ok_zero [OF e(3)] choices_from_start [of vss] by simp
    show ?thesis
    proof (cases "Suc d < length vs")
      case True
      then have "drop (Suc d) vs = vs ! Suc d # drop (Suc (Suc d)) vs" by (simp add: Cons_nth_drop_Suc)
      with True None e(1) c z show ?thesis by simp
    qed (use None e(1) c in simp)
  qed (use IH e(1) in simp)
qed simp

section \<open>The loop follows the reference\<close>

lemma carry_append:
  "carry segs (xs @ ys) = (case carry segs xs of
     None \<Rightarrow> None
   | Some (Some r) \<Rightarrow> Some (Some (r @ ys))
   | Some None \<Rightarrow> map_option (map_option ((@) (map (\<lambda>(k, c). (k, 0)) xs))) (carry segs ys))"
proof (induction xs)
  case Nil
  have "map_option ((@) []) a = a" for a :: "(string \<times> nat) list option" by (cases a) auto
  then show ?case by (cases "carry segs ys") auto
next
  case (Cons p xs)
  have "(@) ((a, 0) # zs) = (\<lambda>x. (a, 0) # zs @ x)" for a and zs :: "(string \<times> nat) list" by (rule ext) simp
  with Cons show ?case by (cases p) (auto split: option.splits simp: option.map_comp comp_def)
qed

lemma zip_zeros: "length xs = length ys \<Longrightarrow> map (\<lambda>(k, c). (k, 0)) (zip xs ys) = zip xs (replicate (length ys) 0)"
  by (induction xs ys rule: list_induct2) auto

lemma carry_next:
  "digits_ok vss ds \<Longrightarrow> length ks = length vss \<Longrightarrow> \<forall>(k, vs) \<in> set (zip ks vss). map_of segs k = Some vs \<Longrightarrow>
   carry segs (rev (zip ks ds)) = Some (map_option (\<lambda>ds'. rev (zip ks ds')) (next_digits vss ds))"
proof (induction vss arbitrary: ds ks)
  case (Cons vs vss)
  then obtain d es where e: "ds = d # es" "d < length vs" "digits_ok vss es" by (auto simp: digits_ok_Cons)
  from Cons.prems(2) obtain k ks' where k: "ks = k # ks'" "length ks' = length vss" by (cases ks) auto
  with Cons.prems(3) have m: "map_of segs k = Some vs" "\<forall>(k, vs) \<in> set (zip ks' vss). map_of segs k = Some vs" by auto
  have l: "length es = length ks'" using e(3) k(2) by (simp add: digits_ok_def list_all2_lengthD)
  have z: "map (\<lambda>(k, c). (k, 0)) (rev (zip ks' es)) = rev (zip ks' (replicate (length es) 0))"
    using l by (simp add: rev_map [symmetric] zip_zeros)
  show ?case
    using Cons.IH [OF e(3) k(2) m(2)] m(1) e(1,2) k(1) z
    by (auto simp: carry_append Suc_le_eq not_less split: option.splits)
qed simp

text \<open>The key and the data of one choice of values.\<close>

fun seg_key :: "string list \<Rightarrow> string" where
  "seg_key [] = []"
| "seg_key (v # vs) = (if v \<noteq> UnknownStr then v @ linker @ seg_key vs else seg_key vs)"

definition seg_data :: "string list \<Rightarrow> string list \<Rightarrow> feature" where
  "seg_data names vs = filter (\<lambda>(k, v). v \<noteq> UnknownStr) (zip names vs)"

lemma read_segments_pick:
  assumes "digits_ok vss ds" and "length ks = length vss" and "smap_ok counter"
    and "\<forall>(k, d) \<in> set (zip ks ds). map_of counter k = Some d"
  shows "read_segments (zip ks vss) counter = Some (seg_key (choice_at vss ds), seg_data ks (choice_at vss ds), counter)"
  using assms
proof (induction vss arbitrary: ds ks)
  case (Cons vs vss)
  then obtain d es where e: "ds = d # es" "d < length vs" "digits_ok vss es" by (auto simp: digits_ok_Cons)
  from Cons.prems(2) obtain k ks' where k: "ks = k # ks'" "length ks' = length vss" by (cases ks) auto
  from Cons.prems(4) e(1) k(1) have c: "map_of counter k = Some d"
    "\<forall>(k, d) \<in> set (zip ks' es). map_of counter k = Some d" by auto
  show ?case
    using Cons.IH [OF e(3) k(2) Cons.prems(3) c(2)] c(1) e(1,2) k(1)
    by (simp add: smap_upd_same [OF Cons.prems(3) c(1)] seg_data_def vec_at_def)
qed (simp add: seg_data_def)

definition put_choice :: "string list \<Rightarrow> string list \<Rightarrow> (string \<times> feature) list \<Rightarrow> (string \<times> feature) list" where
  "put_choice names vs all_keys = smap_put (seg_key vs) (seg_data names vs) all_keys"

lemma seg_loop_choices:
  assumes "digits_ok vss ds" and "length ks = length vss" and "sorted_wrt (<) ks"
  shows "seg_loop (zip ks vss) (zip ks ds) all_keys = Some (fold (put_choice ks) (choices_from vss ds) all_keys)"
  using assms
proof (induction "length (choices_from vss ds)" arbitrary: ds all_keys rule: less_induct)
  case less
  have l: "length ds = length ks" using less.prems(1,2) digits_ok_zero by metis
  have sm: "smap_ok (zip ks ds)" using less.prems(3) l by (simp add: smap_ok_def)
  have d: "distinct ks" using less.prems(3) by (simp add: strict_sorted_iff)
  have "\<forall>(k, d) \<in> set (zip ks ds). map_of (zip ks ds) k = Some d"
    using d l by (auto intro: map_of_is_SomeI)
  note r = read_segments_pick [OF less.prems(1,2) sm this]
  have "\<forall>(k, vs) \<in> set (zip ks vss). map_of (zip ks vss) k = Some vs"
    using d less.prems(2) by (auto intro: map_of_is_SomeI)
  note c = carry_next [OF less.prems(1,2) this]
  note n = choices_from_next [OF less.prems(1)]
  show ?case
  proof (cases "next_digits vss ds")
    case None
    then show ?thesis using n c by (subst seg_loop.simps) (simp add: r put_choice_def)
  next
    case (Some ds')
    have "length (choices_from vss ds') < length (choices_from vss ds)" using n Some by simp
    from less.hyps [OF this next_digits_ok [OF less.prems(1) Some] less.prems(2,3)] Some n c
    show ?thesis by (subst seg_loop.simps) (simp add: r put_choice_def)
  qed
qed

lemma getAllPossibleSegStr_choices:
  assumes "smap_ok segs" and "segs \<noteq> []" and "\<forall>(k, vs) \<in> set segs. vs \<noteq> []"
  shows "getAllPossibleSegStr segs (map (\<lambda>(k, vs). (k, 0)) segs) all_keys =
    Some (fold (put_choice (map fst segs)) (product_lists (map snd segs)) all_keys)"
proof -
  let ?ks = "map fst segs" and ?vss = "map snd segs"
  have ne: "\<forall>vs \<in> set ?vss. vs \<noteq> []" using assms(3) by auto
  have z: "map (\<lambda>(k, vs). (k, 0)) segs = zip ?ks (replicate (length ?vss) 0)"
    by (induction segs) auto
  have "seg_loop (zip ?ks ?vss) (zip ?ks (replicate (length ?vss) 0)) all_keys =
      Some (fold (put_choice ?ks) (choices_from ?vss (replicate (length ?vss) 0)) all_keys)"
    using assms(1) by (intro seg_loop_choices digits_ok_start ne) (auto simp: smap_ok_def)
  then show ?thesis
    using assms(2) unfolding choices_from_start [OF ne] getAllPossibleSegStr_def z zip_map_fst_snd by simp
qed

section \<open>Expansion is the Cartesian product\<close>

lemma mset_expand_feature:
  "vs \<noteq> [] \<Longrightarrow> mset (expand_feature vs strs) = mset (concat (map (\<lambda>s. map (\<lambda>v. s @ v @ linker) vs) strs))"
proof (induction strs)
  case (Cons s strs)
  then obtain v vs' where "vs = v # vs'" by (cases vs) auto
  with Cons show ?case by (simp add: expand_feature_def)
qed (simp add: expand_feature_def)

lemma mset_sum_list_cong:
  assumes "mset xs = mset ys"
  shows "sum_list (map mset (map h xs)) = sum_list (map mset (map h ys))"
proof -
  have "sum_list (map mset (map h zs)) = sum_mset (image_mset (mset \<circ> h) (mset zs))" for zs
    by (induction zs) auto
  then show ?thesis using assms by metis
qed

lemma mset_expandSegmentStr:
  "mset (expandSegmentStr strs features) =
     mset (concat (map (\<lambda>s. map (\<lambda>c. s @ concat (map (\<lambda>v. v @ linker) c))
       (product_lists (filter (\<lambda>vs. vs \<noteq> []) (map snd features)))) strs))"
proof (induction features arbitrary: strs)
  case Nil
  then show ?case by (induction strs) (auto simp: expandSegmentStr_def)
next
  case (Cons f features)
  obtain k vs where f: "f = (k, vs)" by (cases f)
  let ?P = "product_lists (filter (\<lambda>vs. vs \<noteq> []) (map snd features))"
  let ?g = "\<lambda>s. map (\<lambda>c. s @ concat (map (\<lambda>v. v @ linker) c)) ?P"
  have e: "expandSegmentStr strs (f # features) = expandSegmentStr (expand_feature vs strs) features"
    by (simp add: expandSegmentStr_def f)
  show ?case
  proof (cases "vs = []")
    case True
    then show ?thesis using Cons e f by (simp add: expand_feature_def)
  next
    case False
    have m: "mset (concat (map h xs)) = mset (concat (map h ys))" if "mset xs = mset ys" for h :: "string \<Rightarrow> string list" and xs ys
      unfolding mset_concat by (rule mset_sum_list_cong [OF that])
    have "mset (concat (map ?g (expand_feature vs strs))) =
        mset (concat (map ?g (concat (map (\<lambda>s. map (\<lambda>v. s @ v @ linker) vs) strs))))"
      by (rule m [OF mset_expand_feature [OF False]])
    also have "\<dots> = mset (concat (map (\<lambda>s. map (\<lambda>c. s @ concat (map (\<lambda>v. v @ linker) c))
        (concat (map (\<lambda>v. map ((#) v) ?P) vs))) strs))"
      by (induction strs) (simp_all add: map_concat comp_def)
    finally show ?thesis using Cons e f False by simp
  qed
qed

lemma set_expandSegmentStr:
  "set (expandSegmentStr [[]] features) =
     {concat (map (\<lambda>v. v @ linker) c) | c. list_all2 (\<lambda>v vs. v \<in> set vs) c (filter (\<lambda>vs. vs \<noteq> []) (map snd features))}"
proof -
  have "set (expandSegmentStr [[]] features) = (\<lambda>c. concat (map (\<lambda>v. v @ linker) c)) `
      set (product_lists (filter (\<lambda>vs. vs \<noteq> []) (map snd features)))"
    using mset_expandSegmentStr [of "[[]]" features, THEN mset_eq_setD] by simp
  then show ?thesis by (auto simp: product_lists_set)
qed

section \<open>Every segment string of an ad is one of the enumerated keys\<close>

text \<open>The values of a feature are among those known for its segment, which also has \<open>UnknownStr\<close>.\<close>

definition features_known :: "feature_map \<Rightarrow> feature_map \<Rightarrow> bool" where
  "features_known segs features \<longleftrightarrow>
     (\<forall>(k, us) \<in> set segs. UnknownStr \<in> set us) \<and>
     (\<forall>(k, vs) \<in> set features. UnknownStr \<notin> set vs \<and> (\<exists>us. map_of segs k = Some us \<and> set vs \<subseteq> set us))"

lemma features_known_key: "features_known segs features \<Longrightarrow> (k, vs) \<in> set features \<Longrightarrow> k \<in> fst ` set segs"
proof -
  assume "features_known segs features" "(k, vs) \<in> set features"
  then have "map_of segs k \<noteq> None" by (auto simp: features_known_def)
  then show ?thesis by (simp add: map_of_eq_None_iff)
qed

lemma features_known_tail:
  assumes "features_known ((k, us) # segs) features" and "set fs \<subseteq> set features" and "k \<notin> fst ` set fs"
  shows "features_known segs fs"
proof -
  have "UnknownStr \<notin> set vs \<and> (\<exists>us. map_of segs k' = Some us \<and> set vs \<subseteq> set us)" if p: "(k', vs) \<in> set fs" for k' vs
  proof -
    have "k' \<noteq> k" using assms(3) p by force
    moreover have "(k', vs) \<in> set features" using p assms(2) by blast
    ultimately show ?thesis using assms(1) by (auto simp: features_known_def)
  qed
  then show ?thesis using assms(1) by (auto simp: features_known_def)
qed

lemma choice_of_features:
  "smap_ok segs \<Longrightarrow> smap_ok features \<Longrightarrow> features_known segs features \<Longrightarrow>
   list_all2 (\<lambda>v vs. v \<in> set vs) c (filter (\<lambda>vs. vs \<noteq> []) (map snd features)) \<Longrightarrow>
   \<exists>c'. list_all2 (\<lambda>v vs. v \<in> set vs) c' (map snd segs) \<and> seg_key c' = concat (map (\<lambda>v. v @ linker) c)"
proof (induction segs arbitrary: features c)
  case Nil
  then have "features = []" by (cases features) (auto simp: features_known_def)
  with Nil show ?case by simp
next
  case (Cons seg segs)
  obtain k us where s: "seg = (k, us)" by (cases seg)
  have u: "UnknownStr \<in> set us" "smap_ok segs" using Cons.prems(1,3) s by (auto simp: features_known_def)
  show ?case
  proof (cases "\<exists>vs fs. features = (k, vs) # fs \<and> vs \<noteq> []")
    case True
    then obtain vs fs where f: "features = (k, vs) # fs" "vs \<noteq> []" by blast
    with Cons.prems(4) obtain v c1 where c: "c = v # c1" "v \<in> set vs"
      "list_all2 (\<lambda>v vs. v \<in> set vs) c1 (filter (\<lambda>vs. vs \<noteq> []) (map snd fs))"
      by (auto simp: list_all2_Cons2)
    have "k \<notin> fst ` set fs" using Cons.prems(2) f by auto
    then have kn: "features_known segs fs" using Cons.prems(3) s f by (intro features_known_tail [of k us segs features]) auto
    have v: "v \<noteq> UnknownStr" "v \<in> set us" using Cons.prems(3) s f c(2) by (auto simp: features_known_def)
    from Cons.IH [OF u(2) _ kn c(3)] Cons.prems(2) f obtain c' where
      "list_all2 (\<lambda>v vs. v \<in> set vs) c' (map snd segs)" "seg_key c' = concat (map (\<lambda>v. v @ linker) c1)" by auto
    then show ?thesis using v s c(1) by (intro exI [of _ "v # c'"]) simp
  next
    case False
    define fs where "fs = (case features of [] \<Rightarrow> [] | (k', vs) # fs \<Rightarrow> if k' = k then fs else features)"
    have f: "filter (\<lambda>vs. vs \<noteq> []) (map snd features) = filter (\<lambda>vs. vs \<noteq> []) (map snd fs)" "smap_ok fs"
      using False Cons.prems(2) by (auto simp: fs_def split: list.splits) fastforce+
    have "k \<notin> fst ` set fs"
    proof
      assume k: "k \<in> fst ` set fs"
      then obtain k1 v1 fs1 where e: "features = (k1, v1) # fs1" by (cases features) (auto simp: fs_def)
      then have "k1 \<noteq> k" using k Cons.prems(2) by (auto simp: fs_def split: if_splits)
      with k e have "k \<in> fst ` set fs1" by (auto simp: fs_def)
      with Cons.prems(2) e have "k1 < k" by auto
      moreover have "k1 \<in> fst ` set (seg # segs)"
        by (rule features_known_key [OF Cons.prems(3), of k1 v1]) (simp add: e)
      ultimately show False using Cons.prems(1) s by auto
    qed
    moreover have "set fs \<subseteq> set features" by (auto simp: fs_def split: list.splits if_splits)
    ultimately have kn: "features_known segs fs"
      using Cons.prems(3) s by (intro features_known_tail [of k us segs features]) auto
    from Cons.IH [OF u(2) f(2) kn] Cons.prems(4) f(1) obtain c' where
      "list_all2 (\<lambda>v vs. v \<in> set vs) c' (map snd segs)" "seg_key c' = concat (map (\<lambda>v. v @ linker) c)" by auto
    then show ?thesis using u(1) s by (intro exI [of _ "UnknownStr # c'"]) simp
  qed
qed

lemma put_choices_keys:
  "fst ` set (fold (put_choice ks) cs m) = seg_key ` set cs \<union> fst ` set m"
  by (induction cs arbitrary: m) (auto simp: put_choice_def)

section \<open>Properties\<close>



text \<open>
  C32. The two ways of spelling segments agree: every string \<open>expandSegmentStr\<close> makes of the
  features of an ad, whose values are known to the segment table, is a key that
  \<open>getAllPossibleSegStr\<close> enumerates from that table, so a click rate is computed for it; and it
  makes one string for each combination of the values, with repetitions counted.
\<close>

theorem segment_strings_covered:
  assumes "smap_ok segs" and "segs \<noteq> []" and "smap_ok features" and "features_known segs features"
  shows "\<exists>all. getAllPossibleSegStr segs (map (\<lambda>(k, vs). (k, 0)) segs) [] = Some all \<and>
    set (expandSegmentStr [[]] features) \<subseteq> fst ` set all \<and>
    length (expandSegmentStr [[]] features) = prod_list (map length (filter (\<lambda>vs. vs \<noteq> []) (map snd features)))"
proof -
  have ne: "\<forall>(k, vs) \<in> set segs. vs \<noteq> []" using assms(4) by (auto simp: features_known_def)
  let ?all = "fold (put_choice (map fst segs)) (product_lists (map snd segs)) []"
  have "seg_key ` {c. list_all2 (\<lambda>v vs. v \<in> set vs) c (map snd segs)} \<subseteq> fst ` set ?all"
    by (simp add: put_choices_keys product_lists_set)
  moreover have "set (expandSegmentStr [[]] features) \<subseteq> seg_key ` {c. list_all2 (\<lambda>v vs. v \<in> set vs) c (map snd segs)}"
    using choice_of_features [OF assms(1,3,4)] unfolding set_expandSegmentStr by force
  moreover have "length (product_lists vss) = prod_list (map length vss)" for vss :: "string list list"
    by (induction vss) (simp_all add: length_concat comp_def sum_list_triv)
  then have "length (expandSegmentStr [[]] features) = prod_list (map length (filter (\<lambda>vs. vs \<noteq> []) (map snd features)))"
    using mset_expandSegmentStr [of "[[]]" features, THEN mset_eq_length] by simp
  ultimately show ?thesis using getAllPossibleSegStr_choices [OF assms(1,2) ne, of "[]"] by auto
qed

theorem segment_strings_covered_witness:
  "\<exists>all. getAllPossibleSegStr [(''Age'', [''Unknown'', ''20'']), (''Sex'', [''Unknown'', ''m'', ''f''])]
     [(''Age'', 0), (''Sex'', 0)] [] = Some all \<and>
     set (expandSegmentStr [[]] [(''Sex'', [''f'', ''m''])]) \<subseteq> fst ` set all"
proof -
  let ?segs = "[(''Age'', [''Unknown'', ''20'']), (''Sex'', [''Unknown'', ''m'', ''f''])]"
  have "features_known ?segs [(''Sex'', [''f'', ''m''])]" by (simp add: features_known_def UnknownStr_def)
  with segment_strings_covered [of ?segs "[(''Sex'', [''f'', ''m''])]"] show ?thesis by auto
qed

end
