(* ===== verification/PropTable.thy ===== *)
theory PropTable
  imports Prelude "HOL-Library.Word"
begin

unbundle bit_operations_syntax

text \<open>
  The property tables of the group manager, from which the ads' features are read:
  \<open>PropIdTable\<close> packs the value ids of every document into one 32-bit index per document, the
  highest bit telling a single id from a position in the table of longer lists;
  \<open>PropValueTable\<close> numbers the paths of a tree of values. A \<open>UString\<close> is a string. An exception
  is returned beside the state, which keeps what was changed before it was thrown.
\<close>

type_synonym pvid = "32 word"

datatype mining_error = ValueIdOutOfRange | ValueCountOutOfRange | PropValueCountOutOfRange

section \<open>\<open>PropIdTable\<close>\<close>

record prop_id_table =
  indexTable :: "pvid list"
  multiValueTable :: "pvid list"

definition INDEX_MSB :: pvid where "INDEX_MSB = push_bit 31 1"
definition INDEX_MASK :: pvid where "INDEX_MASK = NOT INDEX_MSB"

definition prop_id_table0 :: prop_id_table where
  "prop_id_table0 = \<lparr>indexTable = [0], multiValueTable = []\<rparr>"

definition id_table_clear :: "prop_id_table \<Rightarrow> prop_id_table" where
  "id_table_clear t = \<lparr>indexTable = resize 1 0 (indexTable t), multiValueTable = []\<rparr>"

definition id_table_resize :: "nat \<Rightarrow> prop_id_table \<Rightarrow> prop_id_table" where
  "id_table_resize n t = t\<lparr>indexTable := resize n 0 (indexTable t)\<rparr>"

text \<open>
  The elements a \<open>PropIdList\<close> of size \<open>n\<close> shows: its \<open>operator[]\<close> returns the single id, 0 by
  default, when the size is 1.
\<close>

definition id_list_elems :: "pvid list \<Rightarrow> pvid list" where
  "id_list_elems ids = (if length ids = 1 then [0] else ids)"

definition getIdList :: "prop_id_table \<Rightarrow> nat \<Rightarrow> pvid list option" where
  "getIdList t docId =
     (if docId \<ge> length (indexTable t) then Some []
      else let index = indexTable t ! docId
           in if index AND INDEX_MSB \<noteq> 0
              then (let i = unat (index AND INDEX_MASK)
                    in case vec_at (multiValueTable t) i of
                         None \<Rightarrow> None
                       | Some n \<Rightarrow>
                           if i + 1 + unat n \<le> length (multiValueTable t)
                           then Some (id_list_elems (take (unat n) (drop (i + 1) (multiValueTable t)))) else None)
              else if index \<noteq> 0 then Some [index] else Some [])"

definition getIdCount :: "prop_id_table \<Rightarrow> nat \<Rightarrow> nat option" where
  "getIdCount t docId =
     (if docId \<ge> length (indexTable t) then Some 0
      else let index = indexTable t ! docId
           in if index AND INDEX_MSB \<noteq> 0
              then map_option unat (vec_at (multiValueTable t) (unat (index AND INDEX_MASK)))
              else Some (if index \<noteq> 0 then 1 else 0))"

definition setIdList :: "nat \<Rightarrow> pvid list \<Rightarrow> prop_id_table \<Rightarrow> mining_error option \<times> prop_id_table" where
  "setIdList docId ids t =
     (let t1 = t\<lparr>indexTable := grow (docId + 1) 0 (indexTable t)\<rparr>
      in case ids of
           [] \<Rightarrow> (None, t1\<lparr>indexTable := (indexTable t1)[docId := 0]\<rparr>)
         | [i] \<Rightarrow> (if i \<ge> INDEX_MSB then (Some ValueIdOutOfRange, t1)
                   else (None, t1\<lparr>indexTable := (indexTable t1)[docId := i]\<rparr>))
         | _ \<Rightarrow> (let n = length (multiValueTable t1)
                 in if n \<ge> unat INDEX_MSB then (Some ValueCountOutOfRange, t1)
                    else (None, t1\<lparr>indexTable := (indexTable t1)[docId := INDEX_MSB OR of_nat n],
                                   multiValueTable := multiValueTable t1 @ of_nat (length ids) # ids\<rparr>)))"

section \<open>\<open>PropValueTable\<close>\<close>

record prop_value_table =
  propStrVec :: "string list"
  parentIdVec :: "nat list"
  childMapTable :: "(string \<rightharpoonup> nat) list"
  valueIdTable :: prop_id_table

definition prop_value_table0 :: prop_value_table where
  "prop_value_table0 = \<lparr>propStrVec = [[]], parentIdVec = [0], childMapTable = [Map.empty], valueIdTable = prop_id_table0\<rparr>"

definition prop_value_clear :: "prop_value_table \<Rightarrow> prop_value_table" where
  "prop_value_clear t = \<lparr>propStrVec = resize 1 [] (propStrVec t), parentIdVec = resize 1 0 (parentIdVec t),
     childMapTable = [Map.empty], valueIdTable = id_table_clear (valueIdTable t)\<rparr>"

definition setPropIdList :: "nat \<Rightarrow> pvid list \<Rightarrow> prop_value_table \<Rightarrow> mining_error option \<times> prop_value_table" where
  "setPropIdList docId ids t =
     (let (e, v) = setIdList docId ids (valueIdTable t) in (e, t\<lparr>valueIdTable := v\<rparr>))"

text \<open>
  Walk down a path, making the nodes that are missing; \<open>None\<close> in front is undefined behaviour,
  the inner error an exception. A new id is \<open>size()\<close> cut to 32 bits.
\<close>

fun insert_path ::
  "string list \<Rightarrow> nat \<Rightarrow> prop_value_table \<Rightarrow> (mining_error option \<times> nat \<times> prop_value_table) option" where
  "insert_path [] pvId t = Some (None, pvId, t)"
| "insert_path (s # path) pvId t =
     (case vec_at (childMapTable t) pvId of
        None \<Rightarrow> None
      | Some children \<Rightarrow>
          (case children s of
             Some i \<Rightarrow> insert_path path i t
           | None \<Rightarrow>
               (let i = length (propStrVec t) mod 2 ^ 32
                in if i \<noteq> 0
                   then insert_path path i (t\<lparr>propStrVec := propStrVec t @ [s], parentIdVec := parentIdVec t @ [pvId],
                          childMapTable := (childMapTable t)[pvId := children(s \<mapsto> i)] @ [Map.empty]\<rparr>)
                   else Some (Some PropValueCountOutOfRange, i, t))))"

definition insertPropValueId :: "string list \<Rightarrow> prop_value_table \<Rightarrow> (mining_error option \<times> nat \<times> prop_value_table) option" where
  "insertPropValueId path t = insert_path path 0 t"

fun find_path :: "prop_value_table \<Rightarrow> string list \<Rightarrow> nat \<Rightarrow> nat option" where
  "find_path t [] pvId = Some pvId"
| "find_path t (s # path) pvId =
     (case vec_at (childMapTable t) pvId of
        None \<Rightarrow> None
      | Some children \<Rightarrow> (case children s of Some i \<Rightarrow> find_path t path i | None \<Rightarrow> Some 0))"

definition propValueId :: "prop_value_table \<Rightarrow> string list \<Rightarrow> nat option" where
  "propValueId t path = find_path t path 0"

text \<open>The chain \<open>for (; pvId; pvId = parentIdVec_[pvId])\<close> shared by the functions below.\<close>

partial_function (option) getParentIds :: "nat list \<Rightarrow> nat \<Rightarrow> nat list option" where
  "getParentIds parents pvId =
     (if pvId = 0 then Some []
      else Option.bind (vec_at parents pvId)
             (\<lambda>p. Option.bind (getParentIds parents p) (\<lambda>ids. Some (pvId # ids))))"

definition getRootValueId :: "prop_value_table \<Rightarrow> nat \<Rightarrow> nat option" where
  "getRootValueId t pvId = map_option (\<lambda>ids. if ids = [] then 0 else last ids) (getParentIds (parentIdVec t) pvId)"

text \<open>The path is appended to what the vector holds, then the whole vector is reversed.\<close>

definition propValuePath :: "prop_value_table \<Rightarrow> nat \<Rightarrow> string list \<Rightarrow> string list option" where
  "propValuePath t pvId path =
     Option.bind (getParentIds (parentIdVec t) pvId)
       (\<lambda>ids. Option.bind (those (map (vec_at (propStrVec t)) ids)) (\<lambda>strs. Some (rev (path @ strs))))"

definition getFirstValueId :: "prop_value_table \<Rightarrow> nat \<Rightarrow> pvid option" where
  "getFirstValueId t docId = map_option (\<lambda>ids. if ids = [] then 0 else hd ids) (getIdList (valueIdTable t) docId)"

text \<open>Add a value and its parents to a set, stopping at the first that is already there.\<close>

partial_function (option) insert_parents :: "nat list \<Rightarrow> nat \<Rightarrow> nat set \<Rightarrow> nat set option" where
  "insert_parents parents pvId s =
     (if pvId = 0 \<or> pvId \<in> s then Some s
      else Option.bind (vec_at parents pvId) (\<lambda>p. insert_parents parents p (insert pvId s)))"

fun insert_all_parents :: "nat list \<Rightarrow> nat list \<Rightarrow> nat set \<Rightarrow> nat set option" where
  "insert_all_parents parents [] s = Some s"
| "insert_all_parents parents (i # is) s =
     Option.bind (insert_parents parents i s) (insert_all_parents parents is)"

definition parentIdSet :: "prop_value_table \<Rightarrow> nat \<Rightarrow> nat set option" where
  "parentIdSet t docId =
     Option.bind (getIdList (valueIdTable t) docId) (\<lambda>ids. insert_all_parents (parentIdVec t) (map unat ids) {})"

definition testDoc :: "prop_value_table \<Rightarrow> nat \<Rightarrow> nat \<Rightarrow> bool option" where
  "testDoc t docId labelId = map_option (\<lambda>s. labelId \<in> s) (parentIdSet t docId)"

text \<open>\<open>open\<close>: the child maps are not saved but rebuilt from the other two vectors.\<close>

definition rebuild_children :: "string list \<Rightarrow> nat list \<Rightarrow> (string \<rightharpoonup> nat) list option" where
  "rebuild_children strs parents =
     (if length strs \<noteq> length parents then None
      else fold (\<lambda>i cm. Option.bind cm (\<lambda>cm. let p = parents ! i
             in if p < length cm then Some (cm[p := (cm ! p)(strs ! i \<mapsto> i)]) else None))
           [1..<length strs] (Some (replicate (length strs) Map.empty)))"

section \<open>Packing of value ids\<close>

lemma unat_INDEX_MSB [simp]: "unat INDEX_MSB = 2 ^ 31"
  by (simp add: INDEX_MSB_def unsigned_push_bit_eq)

lemma no_high_bit: "unat (i :: pvid) < 2 ^ 31 \<Longrightarrow> \<not> bit i 31"
proof -
  assume "unat i < 2 ^ 31"
  then have "unat i div 2 ^ 31 = 0" by (rule div_less)
  then have "\<not> bit (unat i) 31" by (simp only: bit_iff_odd) simp
  then show ?thesis by (simp add: bit_unsigned_iff)
qed

lemma bit_INDEX_MSB: "bit INDEX_MSB n \<longleftrightarrow> n = 31"
proof -
  have "bit INDEX_MSB n \<longleftrightarrow> 31 \<le> n \<and> n < 32 \<and> n - 31 = 0"
    unfolding INDEX_MSB_def by (simp only: bit_push_bit_iff bit_1_iff possible_bit_word) auto
  then show ?thesis by auto
qed

lemma and_INDEX_MSB: "i AND INDEX_MSB = (if bit i 31 then INDEX_MSB else 0)"
  by (rule bit_word_eqI) (auto simp: bit_INDEX_MSB bit_and_iff)

lemma INDEX_MSB_nonzero [simp]: "INDEX_MSB \<noteq> 0"
proof
  assume "INDEX_MSB = 0"
  then have "unat INDEX_MSB = 0" by simp
  then show False by simp
qed

lemma small_index [simp]: "i < INDEX_MSB \<Longrightarrow> i AND INDEX_MSB = 0"
  using no_high_bit [of i] by (simp add: and_INDEX_MSB word_less_nat_alt)

lemma packed_index:
  assumes "n < 2 ^ 31"
  shows "(INDEX_MSB OR of_nat n) AND INDEX_MSB \<noteq> 0" and "unat ((INDEX_MSB OR of_nat n) AND INDEX_MASK) = n"
proof -
  have u: "unat (of_nat n :: pvid) = n" using assms by (simp add: unat_of_nat)
  show "(INDEX_MSB OR of_nat n) AND INDEX_MSB \<noteq> 0" by (simp add: and_INDEX_MSB bit_or_iff bit_INDEX_MSB)
  have "\<not> bit (of_nat n :: pvid) 31" using assms u by (intro no_high_bit) simp
  then have "(INDEX_MSB OR of_nat n) AND INDEX_MASK = of_nat n"
    by (intro bit_word_eqI) (auto simp: INDEX_MASK_def bit_INDEX_MSB bit_and_iff bit_or_iff bit_not_iff)
  then show "unat ((INDEX_MSB OR of_nat n) AND INDEX_MASK) = n" using u by simp
qed

section \<open>The invariant of the id table\<close>

definition block_ok :: "pvid list \<Rightarrow> pvid \<Rightarrow> bool" where
  "block_ok multi index \<longleftrightarrow>
     (index AND INDEX_MSB \<noteq> 0 \<longrightarrow>
        (let i = unat (index AND INDEX_MASK)
         in i < length multi \<and> unat (multi ! i) \<noteq> 1 \<and> i + 1 + unat (multi ! i) \<le> length multi))"

definition id_table_ok :: "prop_id_table \<Rightarrow> bool" where
  "id_table_ok t \<longleftrightarrow> (\<forall>index \<in> set (indexTable t). block_ok (multiValueTable t) index)"

definition unpack :: "pvid list \<Rightarrow> pvid \<Rightarrow> pvid list" where
  "unpack multi index =
     (if index AND INDEX_MSB \<noteq> 0
      then (let i = unat (index AND INDEX_MASK) in take (unat (multi ! i)) (drop (i + 1) multi))
      else if index \<noteq> 0 then [index] else [])"

lemma block_ok_0 [simp]: "block_ok multi 0"
  by (simp add: block_ok_def)

lemma block_ok_append: "block_ok multi index \<Longrightarrow> block_ok (multi @ xs) index \<and> unpack (multi @ xs) index = unpack multi index"
  by (auto simp: block_ok_def unpack_def Let_def nth_append)

lemma getIdList_unpack:
  assumes "id_table_ok t"
  shows "getIdList t d = Some (if d < length (indexTable t) then unpack (multiValueTable t) (indexTable t ! d) else [])"
proof (cases "d < length (indexTable t)")
  case True
  then have "block_ok (multiValueTable t) (indexTable t ! d)" using assms by (simp add: id_table_ok_def)
  then show ?thesis using True
    by (auto simp: getIdList_def unpack_def block_ok_def id_list_elems_def Let_def vec_at_def)
qed (simp add: getIdList_def)

lemma setIdList_cases:
  assumes "id_table_ok t" and "setIdList d ids t = (None, t')" and "length ids < 2 ^ 32" and "ids \<noteq> [0]"
  shows "\<exists>index xs. indexTable t' = (grow (d + 1) 0 (indexTable t))[d := index] \<and>
    multiValueTable t' = multiValueTable t @ xs \<and> block_ok (multiValueTable t') index \<and> unpack (multiValueTable t') index = ids"
proof (cases ids)
  case Nil
  then show ?thesis using assms(2) by (intro exI [of _ 0] exI [of _ "[]"]) (auto simp: setIdList_def Let_def unpack_def)
next
  case (Cons i rest)
  show ?thesis
  proof (cases rest)
    case Nil
    then have "i < INDEX_MSB" using assms(2) Cons by (auto simp: setIdList_def Let_def not_le split: if_splits)
    then show ?thesis using assms(2,4) Cons Nil
      by (intro exI [of _ i] exI [of _ "[]"]) (auto simp: setIdList_def Let_def unpack_def block_ok_def split: if_splits)
  next
    case (Cons j js)
    with \<open>ids = i # rest\<close> have ids: "ids = i # j # js" by simp
    let ?n = "length (multiValueTable t)"
    have n: "?n < 2 ^ 31" and t': "t' = t\<lparr>indexTable := (grow (d + 1) 0 (indexTable t))[d := INDEX_MSB OR of_nat ?n],
        multiValueTable := multiValueTable t @ of_nat (length ids) # ids\<rparr>"
      using assms(2) unfolding ids by (auto simp: setIdList_def Let_def not_le split: if_splits)
    have u: "unat (of_nat (length ids) :: pvid) = length ids" using assms(3) by (simp add: unat_of_nat)
    note p = packed_index [OF n]
    have "block_ok (multiValueTable t') (INDEX_MSB OR of_nat ?n) \<and> unpack (multiValueTable t') (INDEX_MSB OR of_nat ?n) = ids"
      using u p unfolding t' block_ok_def unpack_def by (simp add: nth_append ids)
    then show ?thesis unfolding t' by (intro exI [of _ "INDEX_MSB OR of_nat ?n"] exI [of _ "of_nat (length ids) # ids"]) simp
  qed
qed

lemma setIdList_ok:
  assumes "id_table_ok t" and "setIdList d ids t = (None, t')" and "length ids < 2 ^ 32" and "ids \<noteq> [0]"
  shows "id_table_ok t' \<and> getIdList t' d = Some ids \<and> (\<forall>d'. d' \<noteq> d \<longrightarrow> getIdList t' d' = getIdList t d')"
proof -
  obtain index xs where x: "indexTable t' = (grow (d + 1) 0 (indexTable t))[d := index]"
    "multiValueTable t' = multiValueTable t @ xs" "block_ok (multiValueTable t') index" "unpack (multiValueTable t') index = ids"
    using setIdList_cases [OF assms] by blast
  have old: "block_ok (multiValueTable t) i \<Longrightarrow> block_ok (multiValueTable t') i \<and> unpack (multiValueTable t') i = unpack (multiValueTable t) i" for i
    using block_ok_append x(2) by simp
  have "set (indexTable t') \<subseteq> insert index (insert 0 (set (indexTable t)))"
    unfolding x(1) using set_update_subset_insert set_grow by (metis insert_mono subset_trans)
  then have ok: "id_table_ok t'" using assms(1) x(3) old unfolding id_table_ok_def by fastforce
  have l: "length (indexTable t') = max (d + 1) (length (indexTable t))" by (simp add: x(1))
  have "getIdList t' d' = getIdList t d'" if "d' \<noteq> d" for d'
  proof (cases "d' < length (indexTable t)")
    case True
    then have "block_ok (multiValueTable t) (indexTable t ! d')" using assms(1) by (simp add: id_table_ok_def)
    from old [OF this] True that show ?thesis
      by (simp add: getIdList_unpack [OF ok] getIdList_unpack [OF assms(1)] l x(1) nth_grow less_max_iff_disj)
  next
    case False
    then show ?thesis using that
      by (auto simp: getIdList_unpack [OF ok] getIdList_unpack [OF assms(1)] l x(1) nth_grow unpack_def)
  qed
  then show ?thesis using ok x(4) by (auto simp: getIdList_unpack [OF ok] l x(1))
qed

lemma id_table0_ok [simp]: "id_table_ok prop_id_table0"
  by (simp add: id_table_ok_def prop_id_table0_def)

lemma getIdCount_length:
  assumes "id_table_ok t"
  shows "getIdCount t d = map_option length (getIdList t d)"
proof (cases "d < length (indexTable t)")
  case True
  then have "block_ok (multiValueTable t) (indexTable t ! d)" using assms by (simp add: id_table_ok_def)
  then show ?thesis using True
    by (auto simp: getIdList_unpack [OF assms] getIdCount_def unpack_def block_ok_def Let_def vec_at_def)
qed (simp add: getIdList_unpack [OF assms] getIdCount_def)

section \<open>The tree of values\<close>

text \<open>
  A node has its parent before it, and the child maps are exactly the inverse of the two
  vectors.
\<close>

definition pv_ok :: "prop_value_table \<Rightarrow> bool" where
  "pv_ok t \<longleftrightarrow> 0 < length (propStrVec t) \<and> length (propStrVec t) \<le> 2 ^ 32 \<and>
     length (parentIdVec t) = length (propStrVec t) \<and> length (childMapTable t) = length (propStrVec t) \<and>
     (\<forall>i. 0 < i \<and> i < length (propStrVec t) \<longrightarrow> parentIdVec t ! i < i) \<and>
     (\<forall>p < length (propStrVec t). \<forall>s i. (childMapTable t ! p) s = Some i \<longleftrightarrow>
        0 < i \<and> i < length (propStrVec t) \<and> parentIdVec t ! i = p \<and> propStrVec t ! i = s)"

text \<open>The reference: the path of a node, from the root down.\<close>

fun node_path :: "nat \<Rightarrow> prop_value_table \<Rightarrow> nat \<Rightarrow> string list" where
  "node_path 0 t i = []"
| "node_path (Suc n) t i = (if i = 0 then [] else node_path n t (parentIdVec t ! i) @ [propStrVec t ! i])"

abbreviation path_of :: "prop_value_table \<Rightarrow> nat \<Rightarrow> string list" where
  "path_of t i \<equiv> node_path i t i"

lemma node_path_enough: "pv_ok t \<Longrightarrow> i < length (propStrVec t) \<Longrightarrow> i \<le> n \<Longrightarrow> node_path n t i = path_of t i"
proof (induction i arbitrary: n rule: less_induct)
  case (less i)
  show ?case
  proof (cases i)
    case (Suc j)
    then obtain m where n: "n = Suc m" using less.prems(3) by (cases n) auto
    have p: "parentIdVec t ! i < i" using less.prems(1,2) Suc by (simp add: pv_ok_def)
    then have "node_path m t (parentIdVec t ! i) = node_path j t (parentIdVec t ! i)"
      using less.IH [OF p less.prems(1), of m] less.IH [OF p less.prems(1), of j] less.prems(2,3) n Suc by simp
    then show ?thesis using n Suc by simp
  qed (cases n; simp)
qed

lemma path_of_step:
  assumes "pv_ok t" and "0 < i" and "i < length (propStrVec t)"
  shows "path_of t i = path_of t (parentIdVec t ! i) @ [propStrVec t ! i]" and "parentIdVec t ! i < i"
proof -
  show p: "parentIdVec t ! i < i" using assms by (simp add: pv_ok_def)
  obtain j where j: "i = Suc j" using assms(2) by (cases i) auto
  then have "node_path j t (parentIdVec t ! i) = path_of t (parentIdVec t ! i)"
    using node_path_enough [OF assms(1), of "parentIdVec t ! i" j] p assms(3) by simp
  then show "path_of t i = path_of t (parentIdVec t ! i) @ [propStrVec t ! i]" using j by simp
qed

lemma getParentIds_0 [simp]: "getParentIds ps 0 = Some []"
  by (subst getParentIds.simps) simp

lemma getParentIds_path:
  assumes "pv_ok t" and "i < length (propStrVec t)"
  shows "\<exists>ids. getParentIds (parentIdVec t) i = Some ids \<and> (\<forall>j \<in> set ids. 0 < j \<and> j \<le> i) \<and>
    map ((!) (propStrVec t)) ids = rev (path_of t i)"
  using assms(2)
proof (induction i rule: less_induct)
  case (less i)
  show ?case
  proof (cases "i = 0")
    case False
    then have i: "0 < i" by simp
    note st = path_of_step [OF assms(1) i less.prems]
    obtain ids where ids: "getParentIds (parentIdVec t) (parentIdVec t ! i) = Some ids"
      "\<forall>j \<in> set ids. 0 < j \<and> j \<le> parentIdVec t ! i" "map ((!) (propStrVec t)) ids = rev (path_of t (parentIdVec t ! i))"
      using less.IH [OF st(2)] st(2) less.prems by auto
    have "i < length (parentIdVec t)" using assms(1) less.prems by (simp add: pv_ok_def)
    then have "getParentIds (parentIdVec t) i = Some (i # ids)"
      using i ids(1) by (subst getParentIds.simps) (simp add: vec_at_def)
    then show ?thesis using ids(2,3) st i by force
  qed simp
qed

lemma path_inj:
  assumes "pv_ok t" and "i < length (propStrVec t)" and "j < length (propStrVec t)" and "path_of t i = path_of t j"
  shows "i = j"
  using assms(2-)
proof (induction i arbitrary: j rule: less_induct)
  case (less i)
  show ?case
  proof (cases "i = 0 \<or> j = 0")
    case True
    then show ?thesis
      using less.prems path_of_step(1) [OF assms(1), of i] path_of_step(1) [OF assms(1), of j] by (cases "i = 0"; cases "j = 0"; force)
  next
    case False
    let ?p = "parentIdVec t" and ?s = "propStrVec t"
    from False have i: "0 < i" "0 < j" by auto
    note si = path_of_step [OF assms(1) i(1) less.prems(1)] and sj = path_of_step [OF assms(1) i(2) less.prems(2)]
    from less.prems(3) have e: "path_of t (?p ! i) = path_of t (?p ! j)" "?s ! i = ?s ! j"
      unfolding si(1) sj(1) by simp_all
    have "?p ! i = ?p ! j" using less.IH [OF si(2) _ _ e(1)] si(2) sj(2) less.prems by simp
    then have "(childMapTable t ! (?p ! i)) (?s ! i) = Some i \<and> (childMapTable t ! (?p ! i)) (?s ! i) = Some j"
      using assms(1) i less.prems si(2) e(2) unfolding pv_ok_def by simp
    then show ?thesis by (metis option.inject)
  qed
qed

lemma path_prefix:
  assumes "pv_ok t" and "j < length (propStrVec t)" and "path_of t j = p @ q"
  shows "\<exists>k < length (propStrVec t). path_of t k = p"
  using assms(2,3)
proof (induction j arbitrary: q rule: less_induct)
  case (less j)
  show ?case
  proof (cases "q = []")
    case True
    then show ?thesis using less.prems by auto
  next
    case False
    then have "0 < j" using less.prems(2) by (cases j) auto
    note st = path_of_step [OF assms(1) this less.prems(1)]
    from False obtain q' x where "q = q' @ [x]" by (cases q rule: rev_cases) auto
    with st(1) less.prems(2) have "path_of t (parentIdVec t ! j) = p @ q'" by simp
    then show ?thesis using less.IH [OF st(2)] st(2) less.prems(1) by simp
  qed
qed

lemma child_path:
  assumes "pv_ok t" and "i < length (propStrVec t)"
  shows "(childMapTable t ! i) s = Some k \<longleftrightarrow> k < length (propStrVec t) \<and> path_of t k = path_of t i @ [s]"
proof
  assume "(childMapTable t ! i) s = Some k"
  then have k: "0 < k" "k < length (propStrVec t)" "parentIdVec t ! k = i" "propStrVec t ! k = s"
    using assms by (auto simp: pv_ok_def)
  from path_of_step(1) [OF assms(1) k(1,2)] k show "k < length (propStrVec t) \<and> path_of t k = path_of t i @ [s]" by simp
next
  assume k: "k < length (propStrVec t) \<and> path_of t k = path_of t i @ [s]"
  then have "0 < k" by (cases k) auto
  note st = path_of_step [OF assms(1) this k [THEN conjunct1]]
  then have "path_of t (parentIdVec t ! k) = path_of t i" "propStrVec t ! k = s" using k by simp_all
  moreover from this have "parentIdVec t ! k = i" using path_inj [OF assms(1) _ assms(2)] st(2) k by simp
  ultimately show "(childMapTable t ! i) s = Some k" using assms \<open>0 < k\<close> k unfolding pv_ok_def by simp
qed

lemma find_path_iff:
  assumes "pv_ok t" and "i < length (propStrVec t)"
  shows "(\<forall>j < length (propStrVec t). path_of t j = path_of t i @ path \<longrightarrow> find_path t path i = Some j) \<and>
    ((\<forall>j < length (propStrVec t). path_of t j \<noteq> path_of t i @ path) \<longrightarrow> find_path t path i = Some 0)"
  using assms(2)
proof (induction path arbitrary: i)
  case Nil
  then show ?case using path_inj [OF assms(1)] by auto
next
  case (Cons s path)
  have v: "vec_at (childMapTable t) i = Some (childMapTable t ! i)" using assms(1) Cons.prems by (simp add: pv_ok_def)
  show ?case
  proof (cases "(childMapTable t ! i) s")
    case None
    have "path_of t j \<noteq> path_of t i @ s # path" if j: "j < length (propStrVec t)" for j
    proof
      assume "path_of t j = path_of t i @ s # path"
      then obtain k where "k < length (propStrVec t)" "path_of t k = path_of t i @ [s]"
        using path_prefix [OF assms(1) j, of "path_of t i @ [s]" path] by auto
      then show False using child_path [OF assms(1) Cons.prems, of s k] None by simp
    qed
    then show ?thesis using v None by (auto simp: vec_at_def)
  next
    case (Some k)
    then have k: "k < length (propStrVec t)" "path_of t k = path_of t i @ [s]"
      using child_path [OF assms(1) Cons.prems] by auto
    show ?thesis using Cons.IH [OF k(1)] k(2) Some v by (auto simp: vec_at_def)
  qed
qed

text \<open>Adding a leaf: ids and paths of the old nodes stay as they are.\<close>

definition add_leaf :: "nat \<Rightarrow> string \<Rightarrow> prop_value_table \<Rightarrow> prop_value_table" where
  "add_leaf p s t = t\<lparr>propStrVec := propStrVec t @ [s], parentIdVec := parentIdVec t @ [p],
     childMapTable := (childMapTable t)[p := (childMapTable t ! p)(s \<mapsto> length (propStrVec t))] @ [Map.empty]\<rparr>"

lemma add_leaf_path:
  assumes "pv_ok t" and "p < length (propStrVec t)"
  shows "k < length (propStrVec t) \<Longrightarrow> path_of (add_leaf p s t) k = path_of t k"
    and "path_of (add_leaf p s t) (length (propStrVec t)) = path_of t p @ [s]"
proof -
  have l: "length (parentIdVec t) = length (propStrVec t)" using assms(1) by (simp add: pv_ok_def)
  have "k < length (propStrVec t) \<Longrightarrow> node_path n (add_leaf p s t) k = node_path n t k" for n k
  proof (induction n arbitrary: k)
    case (Suc n)
    then have "k \<noteq> 0 \<Longrightarrow> parentIdVec t ! k < length (propStrVec t)"
      using assms(1) unfolding pv_ok_def by (metis less_trans neq0_conv)
    with Suc l show ?case by (simp add: add_leaf_def nth_append)
  qed simp
  note old = this
  then show "k < length (propStrVec t) \<Longrightarrow> path_of (add_leaf p s t) k = path_of t k" by blast
  obtain m where m: "length (propStrVec t) = Suc m" using assms(2) by (cases "length (propStrVec t)") auto
  have "node_path m (add_leaf p s t) p = path_of t p"
    using old [OF assms(2)] node_path_enough [OF assms, of m] assms(2) m by simp
  then show "path_of (add_leaf p s t) (length (propStrVec t)) = path_of t p @ [s]"
    unfolding m using l m by (simp add: add_leaf_def nth_append)
qed

lemma add_leaf_ok:
  assumes "pv_ok t" and "p < length (propStrVec t)" and "length (propStrVec t) < 2 ^ 32" and "(childMapTable t ! p) s = None"
  shows "pv_ok (add_leaf p s t)"
proof -
  let ?n = "length (propStrVec t)" and ?t = "add_leaf p s t"
  have l: "length (parentIdVec t) = ?n" "length (childMapTable t) = ?n" using assms(1) by (simp_all add: pv_ok_def)
  have "parentIdVec ?t ! i < i" if "0 < i" "i < Suc ?n" for i
  proof (cases "i = ?n")
    case True
    then show ?thesis using assms(2) l by (simp add: add_leaf_def nth_append)
  next
    case False
    then show ?thesis using assms(1) that l by (simp add: add_leaf_def nth_append pv_ok_def)
  qed
  moreover have "(childMapTable ?t ! q) s' = Some i \<longleftrightarrow>
      0 < i \<and> i < Suc ?n \<and> parentIdVec ?t ! i = q \<and> propStrVec ?t ! i = s'" if q: "q < Suc ?n" for q s' i
  proof (cases "q = ?n")
    case True
    have "0 < i \<and> i < ?n \<longrightarrow> parentIdVec t ! i < ?n" using assms(1) unfolding pv_ok_def by (metis less_trans)
    then show ?thesis using True assms(2) l by (auto simp: add_leaf_def nth_append less_Suc_eq)
  next
    case False
    then have q': "q < ?n" using q by simp
    have c: "(childMapTable t ! q) s' = Some i \<longleftrightarrow> 0 < i \<and> i < ?n \<and> parentIdVec t ! i = q \<and> propStrVec t ! i = s'"
      using assms(1) q' unfolding pv_ok_def by blast
    have n: "0 < ?n" by (rule le_less_trans [OF _ assms(2)]) simp
    show ?thesis
    proof (cases "q = p \<and> s' = s")
      case True
      then have "\<not> (0 < i \<and> i < ?n \<and> parentIdVec t ! i = p \<and> propStrVec t ! i = s)" using c assms(4) by simp
      then show ?thesis using True l q' n by (auto simp: add_leaf_def nth_append less_Suc_eq)
    next
      case False
      then have "(childMapTable ?t ! q) s' = (childMapTable t ! q) s'"
        using l q' by (cases "q = p") (auto simp: add_leaf_def nth_append nth_list_update)
      then show ?thesis using c False l q' by (auto simp: add_leaf_def nth_append less_Suc_eq)
    qed
  qed
  ultimately show ?thesis using assms(3) l unfolding pv_ok_def by (simp add: add_leaf_def)
qed

lemma insert_path_ok:
  assumes "pv_ok t" and "i < length (propStrVec t)" and "length (propStrVec t) + length path \<le> 2 ^ 32"
  shows "\<exists>j t'. insert_path path i t = Some (None, j, t') \<and> pv_ok t' \<and> j < length (propStrVec t') \<and>
    path_of t' j = path_of t i @ path \<and> valueIdTable t' = valueIdTable t \<and>
    length (propStrVec t) \<le> length (propStrVec t') \<and> (\<forall>k < length (propStrVec t). path_of t' k = path_of t k) \<and>
    (\<forall>k. length (propStrVec t) \<le> k \<and> k < length (propStrVec t') \<longrightarrow> (\<exists>q r. path = q @ r \<and> path_of t' k = path_of t i @ q))"
  using assms
proof (induction path arbitrary: i t)
  case (Cons s path)
  have v: "i < length (childMapTable t)" using Cons.prems(1,2) by (simp add: pv_ok_def)
  show ?case
  proof (cases "(childMapTable t ! i) s")
    case (Some k)
    then have k: "k < length (propStrVec t)" "path_of t k = path_of t i @ [s]"
      using child_path [OF Cons.prems(1,2)] by auto
    obtain j t' where t': "insert_path path k t = Some (None, j, t')" "pv_ok t'" "j < length (propStrVec t')"
      "path_of t' j = path_of t k @ path" "valueIdTable t' = valueIdTable t" "length (propStrVec t) \<le> length (propStrVec t')"
      "\<forall>k < length (propStrVec t). path_of t' k = path_of t k"
      "\<forall>x. length (propStrVec t) \<le> x \<and> x < length (propStrVec t') \<longrightarrow> (\<exists>q r. path = q @ r \<and> path_of t' x = path_of t k @ q)"
      using Cons.IH [OF Cons.prems(1) k(1)] Cons.prems(3) by auto
    have "\<exists>q r. s # path = q @ r \<and> path_of t' x = path_of t i @ q"
      if "length (propStrVec t) \<le> x \<and> x < length (propStrVec t')" for x
      using t'(8) that k(2) by (metis append.assoc append_Cons append_Nil)
    then show ?thesis using t'(1-7) Some k(2) v by (simp add: vec_at_def)
  next
    case None
    let ?n = "length (propStrVec t)" and ?t = "add_leaf i s t"
    have n: "?n < 2 ^ 32" "?n \<noteq> 0" using Cons.prems(2,3) by auto
    have ok: "pv_ok ?t" by (rule add_leaf_ok [OF Cons.prems(1,2) n(1) None])
    have l: "length (propStrVec ?t) = Suc ?n" "valueIdTable ?t = valueIdTable t" by (simp_all add: add_leaf_def)
    note pa = add_leaf_path [OF Cons.prems(1,2), where s = s]
    obtain j t' where t': "insert_path path ?n ?t = Some (None, j, t')" "pv_ok t'" "j < length (propStrVec t')"
      "path_of t' j = path_of ?t ?n @ path" "valueIdTable t' = valueIdTable ?t" "Suc ?n \<le> length (propStrVec t')"
      "\<forall>k < Suc ?n. path_of t' k = path_of ?t k"
      "\<forall>x. Suc ?n \<le> x \<and> x < length (propStrVec t') \<longrightarrow> (\<exists>q r. path = q @ r \<and> path_of t' x = path_of ?t ?n @ q)"
      using Cons.IH [OF ok, of ?n] Cons.prems(3) l by auto
    have "\<exists>q r. s # path = q @ r \<and> path_of t' x = path_of t i @ q" if x: "?n \<le> x \<and> x < length (propStrVec t')" for x
    proof (cases "x = ?n")
      case True
      then have "path_of t' x = path_of t i @ [s]" using t'(7) pa(2) by simp
      then show ?thesis by (intro exI [of _ "[s]"] exI [of _ path]) simp
    next
      case False
      then have "Suc ?n \<le> x \<and> x < length (propStrVec t')" using x by linarith
      with t'(8) obtain q r where "path = q @ r" "path_of t' x = path_of ?t ?n @ q" by blast
      then show ?thesis using pa(2) by (intro exI [of _ "s # q"] exI [of _ r]) simp
    qed
    moreover have "insert_path (s # path) i t = Some (None, j, t')"
      using None v n t'(1) by (simp add: vec_at_def add_leaf_def Let_def)
    moreover have "\<forall>k < ?n. path_of t' k = path_of t k" using t'(7) pa(1) by simp
    ultimately show ?thesis using t'(2-6) l pa(2) by simp
  qed
qed auto

lemma pv_ok0: "pv_ok prop_value_table0"
  by (auto simp: pv_ok_def prop_value_table0_def)

lemma propValuePath_path:
  assumes "pv_ok t" and "k < length (propStrVec t)"
  shows "propValuePath t k [] = Some (path_of t k)"
proof -
  obtain ids where ids: "getParentIds (parentIdVec t) k = Some ids" "\<forall>j \<in> set ids. 0 < j \<and> j \<le> k"
    "map ((!) (propStrVec t)) ids = rev (path_of t k)" using getParentIds_path [OF assms] by blast
  have "map (vec_at (propStrVec t)) ids = map Some (map ((!) (propStrVec t)) ids)"
    using ids(2) assms(2) by (auto simp: vec_at_def)
  then have "those (map (vec_at (propStrVec t)) ids) = Some (rev (path_of t k))"
    unfolding ids(3) by (simp add: those_eq_Some)
  then show ?thesis using ids(1) by (simp add: propValuePath_def)
qed

section \<open>Ancestors\<close>

definition ancestors :: "prop_value_table \<Rightarrow> nat \<Rightarrow> nat set" where
  "ancestors t i = {k. 0 < k \<and> k < length (propStrVec t) \<and> (\<exists>q. path_of t i = path_of t k @ q)}"

lemma path_of_Nil: "pv_ok t \<Longrightarrow> k < length (propStrVec t) \<Longrightarrow> path_of t k = [] \<longleftrightarrow> k = 0"
  using path_of_step(1) [of t k] by (cases "k = 0") force+

lemma ancestors_0 [simp]: "pv_ok t \<Longrightarrow> ancestors t 0 = {}"
  using path_of_Nil by (auto simp: ancestors_def)

lemma ancestors_step:
  assumes "pv_ok t" and "0 < i" and "i < length (propStrVec t)"
  shows "ancestors t i = insert i (ancestors t (parentIdVec t ! i))"
proof -
  note st = path_of_step [OF assms]
  have "(\<exists>q. path_of t i = path_of t k @ q) \<longleftrightarrow> k = i \<or> (\<exists>q. path_of t (parentIdVec t ! i) = path_of t k @ q)"
    if k: "k < length (propStrVec t)" for k
  proof
    assume "\<exists>q. path_of t i = path_of t k @ q"
    then obtain q where q: "path_of t i = path_of t k @ q" by blast
    show "k = i \<or> (\<exists>q. path_of t (parentIdVec t ! i) = path_of t k @ q)"
    proof (cases q rule: rev_cases)
      case Nil
      then show ?thesis using q path_inj [OF assms(1) k assms(3)] by simp
    next
      case (snoc q' x)
      then show ?thesis using q st(1) by simp
    qed
  next
    assume "k = i \<or> (\<exists>q. path_of t (parentIdVec t ! i) = path_of t k @ q)"
    then show "\<exists>q. path_of t i = path_of t k @ q" using st(1) by auto
  qed
  then show ?thesis using assms(2,3) unfolding ancestors_def by blast
qed

lemma ancestors_trans: "k \<in> ancestors t i \<Longrightarrow> ancestors t k \<subseteq> ancestors t i"
  by (auto simp: ancestors_def)

lemma insert_parents_ancestors:
  assumes "pv_ok t" and "i < length (propStrVec t)" and "\<forall>j \<in> s. ancestors t j \<subseteq> s" and "\<forall>d \<in> D. i < d"
  shows "insert_parents (parentIdVec t) i (s \<union> D) = Some (s \<union> D \<union> ancestors t i)"
  using assms(2,4)
proof (induction i arbitrary: D rule: less_induct)
  case (less i)
  show ?case
  proof (cases "i = 0 \<or> i \<in> s")
    case True
    then have "ancestors t i \<subseteq> s" using assms(1,3) by auto
    then show ?thesis using True by (subst insert_parents.simps) auto
  next
    case False
    then have i: "0 < i" by simp
    note st = path_of_step [OF assms(1) i less.prems(1)]
    have n: "i \<notin> s \<union> D" "i < length (parentIdVec t)" using False less.prems assms(1) by (auto simp: pv_ok_def)
    have "\<forall>d \<in> insert i D. parentIdVec t ! i < d" using less.prems(2) st(2) by auto
    from less.IH [OF st(2) _ this] st(2) less.prems(1)
    have "insert_parents (parentIdVec t) (parentIdVec t ! i) (insert i (s \<union> D)) =
        Some (insert i (s \<union> D) \<union> ancestors t (parentIdVec t ! i))" by simp
    then show ?thesis
      using n i by (subst insert_parents.simps) (simp add: vec_at_def ancestors_step [OF assms(1) i less.prems(1)])
  qed
qed

lemma insert_all_parents_ancestors:
  assumes "pv_ok t" and "\<forall>i \<in> set is. i < length (propStrVec t)" and "\<forall>j \<in> s. ancestors t j \<subseteq> s"
  shows "insert_all_parents (parentIdVec t) is s = Some (s \<union> (\<Union>i \<in> set is. ancestors t i))"
  using assms(2,3)
proof (induction "is" arbitrary: s)
  case (Cons i "is")
  have "insert_parents (parentIdVec t) i s = Some (s \<union> ancestors t i)"
    using insert_parents_ancestors [OF assms(1) _ Cons.prems(2), of i "{}"] Cons.prems(1) by simp
  moreover have "\<forall>j \<in> s \<union> ancestors t i. ancestors t j \<subseteq> s \<union> ancestors t i"
    using Cons.prems(2) ancestors_trans by blast
  ultimately show ?case using Cons.IH [of "s \<union> ancestors t i"] Cons.prems(1) by (simp add: Un_assoc)
qed simp

section \<open>Reopening\<close>

lemma rebuild_fold:
  assumes "pv_ok t" and "m \<le> length (propStrVec t)"
  shows "\<exists>cm. fold (\<lambda>i cm. Option.bind cm (\<lambda>cm. let p = parentIdVec t ! i
             in if p < length cm then Some (cm[p := (cm ! p)(propStrVec t ! i \<mapsto> i)]) else None))
           [1..<m] (Some (replicate (length (propStrVec t)) Map.empty)) = Some cm \<and> length cm = length (propStrVec t) \<and>
    (\<forall>p < length (propStrVec t). \<forall>s i. (cm ! p) s = Some i \<longleftrightarrow>
       0 < i \<and> i < m \<and> parentIdVec t ! i = p \<and> propStrVec t ! i = s)"
  using assms(2)
proof (induction m)
  case (Suc m)
  then obtain cm where cm: "fold (\<lambda>i cm. Option.bind cm (\<lambda>cm. let p = parentIdVec t ! i
             in if p < length cm then Some (cm[p := (cm ! p)(propStrVec t ! i \<mapsto> i)]) else None))
           [1..<m] (Some (replicate (length (propStrVec t)) Map.empty)) = Some cm" "length cm = length (propStrVec t)"
    "\<forall>p < length (propStrVec t). \<forall>s i. (cm ! p) s = Some i \<longleftrightarrow>
       0 < i \<and> i < m \<and> parentIdVec t ! i = p \<and> propStrVec t ! i = s" by auto
  show ?case
  proof (cases "m = 0")
    case False
    let ?p = "parentIdVec t ! m" and ?s = "propStrVec t ! m"
    have p: "?p < length (propStrVec t)" using assms(1) False Suc.prems unfolding pv_ok_def by (meson Suc_le_lessD less_trans neq0_conv)
    have "i = m" if "0 < i" "i < Suc m" "parentIdVec t ! i = ?p" "propStrVec t ! i = ?s" for i
    proof -
      have "(childMapTable t ! ?p) ?s = Some i" "(childMapTable t ! ?p) ?s = Some m"
        using assms(1) p that False Suc.prems unfolding pv_ok_def by auto
      then show ?thesis by (metis option.inject)
    qed
    then have "(cm[?p := (cm ! ?p)(?s \<mapsto> m)] ! q) s = Some i \<longleftrightarrow>
        0 < i \<and> i < Suc m \<and> parentIdVec t ! i = q \<and> propStrVec t ! i = s" if "q < length (propStrVec t)" for q s i
      using cm(2,3) that p False by (cases "q = ?p") (auto simp: nth_list_update less_Suc_eq)
    moreover have "[1..<Suc m] = [1..<m] @ [m]" using False by simp
    ultimately show ?thesis using cm(1,2) p by (simp add: Let_def del: upt_Suc)
  qed auto
qed auto

lemma rebuild_children_same:
  assumes "pv_ok t"
  shows "rebuild_children (propStrVec t) (parentIdVec t) = Some (childMapTable t)"
proof -
  obtain cm where cm: "rebuild_children (propStrVec t) (parentIdVec t) = Some cm" "length cm = length (propStrVec t)"
    "\<forall>p < length (propStrVec t). \<forall>s i. (cm ! p) s = Some i \<longleftrightarrow>
       0 < i \<and> i < length (propStrVec t) \<and> parentIdVec t ! i = p \<and> propStrVec t ! i = s"
    using rebuild_fold [OF assms order_refl] assms unfolding rebuild_children_def pv_ok_def by auto
  have "cm ! p = childMapTable t ! p" if "p < length cm" for p
  proof
    fix s
    have "(cm ! p) s = Some i \<longleftrightarrow> (childMapTable t ! p) s = Some i" for i
      using cm(2,3) that assms unfolding pv_ok_def by auto
    then show "(cm ! p) s = (childMapTable t ! p) s" by (metis option.exhaust)
  qed
  then have "cm = childMapTable t" using cm(2) assms by (intro nth_equalityI) (auto simp: pv_ok_def)
  with cm(1) show ?thesis by simp
qed

section \<open>Properties\<close>

text \<open>
  The packed id table is a map from documents to id lists. The empty table is well formed.
  If \<open>setIdList\<close> of a list other than \<open>[0]\<close> (id 0 means no value) does not throw, the table
  stays well formed, \<open>getIdList\<close> reads the list back for that document and what it read
  before for every other one, and \<open>getIdCount\<close> is its length. It throws exactly for a single
  id of at least \<open>2 ^ 31\<close> and for a longer list once the table of lists has \<open>2 ^ 31\<close> entries.
\<close>

lemma prop_ids_roundtrip:
  assumes "id_table_ok t" and "length ids < 2 ^ 32" and "ids \<noteq> [0]" and "setIdList d ids t = (e, t')"
  shows "(e = None \<longrightarrow> id_table_ok t' \<and> getIdList t' d = Some ids \<and> getIdCount t' d = Some (length ids) \<and>
      (\<forall>d'. d' \<noteq> d \<longrightarrow> getIdList t' d' = getIdList t d')) \<and>
    (e \<noteq> None \<longleftrightarrow> (length ids = 1 \<and> 2 ^ 31 \<le> unat (hd ids)) \<or> (1 < length ids \<and> 2 ^ 31 \<le> length (multiValueTable t)))"
proof -
  have "e = None \<longrightarrow> id_table_ok t' \<and> getIdList t' d = Some ids \<and> (\<forall>d'. d' \<noteq> d \<longrightarrow> getIdList t' d' = getIdList t d')"
    using setIdList_ok [OF assms(1) _ assms(2,3)] assms(4) by blast
  moreover have "e = None \<longrightarrow> getIdCount t' d = Some (length ids)"
    using calculation getIdCount_length by auto
  moreover have "e \<noteq> None \<longleftrightarrow> (length ids = 1 \<and> 2 ^ 31 \<le> unat (hd ids)) \<or> (1 < length ids \<and> 2 ^ 31 \<le> length (multiValueTable t))"
    using assms(4) by (auto simp: setIdList_def Let_def word_le_nat_alt split: list.splits if_splits)
  ultimately show ?thesis by blast
qed

text \<open>
  The tree of values numbers paths. On a well-formed table with room, \<open>insertPropValueId\<close>
  returns without an exception; the table stays well formed; the id it returns has the
  inserted path, which \<open>propValuePath\<close> of that id gives back and \<open>propValueId\<close> finds; every id
  that existed keeps its path; a path that is not a prefix of the inserted one is found under
  the same id as before, or not at all as before (0); and rebuilding the child maps from the
  saved vectors, as \<open>open\<close> does, gives them back.
\<close>

lemma value_tree_insert:
  assumes "pv_ok t" and "length (propStrVec t) + length path \<le> 2 ^ 32"
  shows "\<exists>i t'. insertPropValueId path t = Some (None, i, t') \<and> pv_ok t' \<and>
    propValuePath t' i [] = Some path \<and> propValueId t' path = Some i \<and>
    (\<forall>k < length (propStrVec t). propValuePath t' k [] = propValuePath t k []) \<and>
    (\<forall>p. (\<nexists>r. path = p @ r) \<longrightarrow> propValueId t' p = propValueId t p) \<and>
    rebuild_children (propStrVec t') (parentIdVec t') = Some (childMapTable t')"
proof -
  have z: "0 < length (propStrVec t)" using assms(1) by (simp add: pv_ok_def)
  obtain i t' where t': "insertPropValueId path t = Some (None, i, t')" "pv_ok t'" "i < length (propStrVec t')"
    "path_of t' i = path" "length (propStrVec t) \<le> length (propStrVec t')"
    "\<forall>k < length (propStrVec t). path_of t' k = path_of t k"
    "\<forall>k. length (propStrVec t) \<le> k \<and> k < length (propStrVec t') \<longrightarrow> (\<exists>q r. path = q @ r \<and> path_of t' k = q)"
    using insert_path_ok [OF assms(1) z assms(2)] by (auto simp: insertPropValueId_def)
  have pp: "propValuePath u k [] = Some (path_of u k)" if "pv_ok u" "k < length (propStrVec u)" for u k
    by (rule propValuePath_path [OF that])
  have z': "0 < length (propStrVec t')" using t'(3) by linarith
  note f = find_path_iff [OF assms(1) z] and f' = find_path_iff [OF t'(2) z']
  have "propValueId t' p = propValueId t p" if p: "\<nexists>r. path = p @ r" for p
  proof (cases "\<exists>j < length (propStrVec t). path_of t j = p")
    case True
    then obtain j where j: "j < length (propStrVec t)" "path_of t j = p" by blast
    then have "j < length (propStrVec t')" "path_of t' j = p" using t'(5,6) by auto
    then show ?thesis using f f' j by (simp add: propValueId_def)
  next
    case False
    have "path_of t' j \<noteq> p" if "j < length (propStrVec t')" for j
      using False t'(6,7) p that by (cases "j < length (propStrVec t)") force+
    then show ?thesis using f f' False by (simp add: propValueId_def)
  qed
  moreover have "propValueId t' path = Some i" using f' t'(3,4) by (simp add: propValueId_def)
  moreover have "\<forall>k < length (propStrVec t). propValuePath t' k [] = propValuePath t k []"
    using pp [OF assms(1)] pp [OF t'(2)] t'(5,6) by simp
  ultimately show ?thesis using t'(1-4) pp [OF t'(2,3)] rebuild_children_same [OF t'(2)] by blast
qed

text \<open>
  C35. A document belongs to a label exactly when the label's path leads to one of its values:
  on a well-formed table whose ids for the document are ids of the tree, \<open>testDoc\<close> of a label
  returns, and is true exactly when the label is a node of the tree whose path is a prefix of
  the path of one of the values of the document.
\<close>

theorem doc_labels:
  assumes "pv_ok t" and "getIdList (valueIdTable t) d = Some ids" and "\<forall>i \<in> set ids. unat i < length (propStrVec t)"
  shows "testDoc t d label = Some (0 < label \<and> label < length (propStrVec t) \<and>
    (\<exists>i \<in> set ids. \<exists>p q. propValuePath t label [] = Some p \<and> propValuePath t (unat i) [] = Some (p @ q)))"
proof -
  have "testDoc t d label = Some (label \<in> (\<Union>i \<in> set (map unat ids). ancestors t i))"
    using insert_all_parents_ancestors [OF assms(1), of "map unat ids" "{}"] assms(2,3)
    by (simp add: testDoc_def parentIdSet_def)
  moreover have "(label \<in> (\<Union>i \<in> set (map unat ids). ancestors t i)) \<longleftrightarrow> (0 < label \<and> label < length (propStrVec t) \<and>
      (\<exists>i \<in> set ids. \<exists>p q. propValuePath t label [] = Some p \<and> propValuePath t (unat i) [] = Some (p @ q)))"
    using assms(3) propValuePath_path [OF assms(1)] unfolding ancestors_def by fastforce
  ultimately show ?thesis by simp
qed

theorem doc_labels_witness:
  "let t = \<lparr>propStrVec = [[], ''Shoes'', ''Boots''], parentIdVec = [0, 0, 1],
         childMapTable = [[''Shoes'' \<mapsto> 1], [''Boots'' \<mapsto> 2], Map.empty],
         valueIdTable = \<lparr>indexTable = [0, 2], multiValueTable = []\<rparr>\<rparr>
   in \<exists>b. testDoc t 1 1 = Some b"
proof -
  let ?t = "\<lparr>propStrVec = [[], ''Shoes'', ''Boots''], parentIdVec = [0, 0, 1],
         childMapTable = [[''Shoes'' \<mapsto> 1], [''Boots'' \<mapsto> 2], Map.empty],
         valueIdTable = \<lparr>indexTable = [0, 2], multiValueTable = []\<rparr>\<rparr>"
  have i: "i < 3 \<longleftrightarrow> i = 0 \<or> i = 1 \<or> i = 2" for i :: nat by auto
  have "pv_ok ?t" by (auto simp: pv_ok_def i less_Suc_eq split: if_splits)
  moreover have "2 AND INDEX_MSB = 0" by (rule small_index) (simp add: INDEX_MSB_def)
  then have "getIdList (valueIdTable ?t) 1 = Some [2]" by (simp add: getIdList_def Let_def)
  ultimately show ?thesis using doc_labels [of ?t 1 "[2]" 1] by (simp add: Let_def)
qed

end
