(* ===== verification/AdSelector.thy ===== *)
theory AdSelector
  imports Segments PropTable KeywordDict ImageFile
begin

text \<open>
  The state of \<open>AdSelector\<close> and all its operations but \<open>select\<close>: segment tables, segment ids of
  the ads, the history of predicted click rates, the set of clicked ads, load and save. The
  id manager that numbers segment strings and the record store that maps a number back to
  its string are not part of the repository: they are the type parameters \<open>'i\<close> and \<open>'s\<close>
  with the operations of \<open>seg_ops\<close>. The click predictor is the parameter \<open>predict\<close>, the group
  manager a function from property names to tables. \<open>None\<close> is undefined behaviour or an
  exception that leaves the class.
\<close>

record ('i, 's) seg_ops =
  id_find :: "'i \<Rightarrow> string \<Rightarrow> nat option"
  id_add :: "'i \<Rightarrow> string \<Rightarrow> nat \<times> 'i"
  st_get :: "'s \<Rightarrow> nat \<Rightarrow> string option"
  st_put :: "'s \<Rightarrow> nat \<Rightarrow> string \<Rightarrow> 's"

text \<open>\<open>all_segments\<close>, \<open>updated_segments\<close>, \<open>init_counter\<close> and \<open>default_full_features\<close> are indexed by \<open>SegType\<close>.\<close>

definition UserSeg :: nat where "UserSeg = 0"
definition AdSeg :: nat where "AdSeg = 1"
definition TotalSeg :: nat where "TotalSeg = 2"
definition MAX_AD_DOCID :: nat where "MAX_AD_DOCID = 1024 * 1024 * 1024"
definition MAX_HISTORY_CTR_NUM :: nat where "MAX_HISTORY_CTR_NUM = 1024 * 1024 * 16"

record ('i, 's) ad_selector =
  history_ctr_data :: "string \<rightharpoonup> real list"
  pending_compute_doclist :: "(feature \<times> nat list) list"
  clicked_ads :: "nat list"
  all_segments :: "feature_map list"
  updated_segments :: "feature_map list"
  init_counter :: "(string \<times> nat) list list"
  default_full_features :: "feature_map list"
  need_refresh :: bool
  ad_segid_data :: "nat list list"
  ad_segid_mgr :: 'i
  ad_segid_str_data :: 's

section \<open>Start\<close>

text \<open>\<open>loadDef\<close>, given the lines of the file; it throws when no name is found.\<close>

definition loadDef :: "string list \<Rightarrow> (feature_map \<times> (string \<times> nat) list) option" where
  "loadDef ls =
     (let names = filter (\<lambda>l. l \<noteq> []) ls;
          features = fold (\<lambda>n. smap_put n []) names [];
          counter = fold (\<lambda>n. smap_put n 0) names []
      in if features = [] then None else Some (features, counter))"

definition init_segments :: "feature_map \<Rightarrow> feature_map \<Rightarrow> feature_map" where
  "init_segments defaults segs =
     (if segs = [] then map (\<lambda>(k, vs). (k, vs @ [UnknownStr])) defaults
      else fold (\<lambda>(k, _) segs. if map_of segs k = None then smap_put k [UnknownStr] segs else segs) defaults
             (filter (\<lambda>(k, _). map_of defaults k \<noteq> None) segs))"

definition selector_init ::
  "string list \<Rightarrow> string list \<Rightarrow> ('i, 's) ad_selector \<Rightarrow> ('i, 's) ad_selector option" where
  "selector_init user_names ad_names loaded =
     (case (loadDef user_names, loadDef ad_names) of
        (Some (uf, uc), Some (af, ac)) \<Rightarrow>
          Some (loaded\<lparr>default_full_features := [uf, af], init_counter := [uc, ac],
            all_segments := map2 init_segments [uf, af] (resize TotalSeg [] (all_segments loaded))\<rparr>)
      | _ \<Rightarrow> None)"

section \<open>Clicked ads\<close>

text \<open>The set positions of \<open>std::bitset<MAX_AD_DOCID>\<close>, in increasing order; \<open>set\<close> throws outside.\<close>

definition set_clicked :: "nat \<Rightarrow> nat list \<Rightarrow> nat list option" where
  "set_clicked ad clicked = (if ad < MAX_AD_DOCID then Some (insort_insert ad clicked) else None)"

definition updateClicked :: "nat \<Rightarrow> ('i, 's) ad_selector \<Rightarrow> ('i, 's) ad_selector option" where
  "updateClicked ad sel = map_option (\<lambda>c. sel\<lparr>clicked_ads := c\<rparr>) (set_clicked ad (clicked_ads sel))"

definition save_clicked :: "nat list \<Rightarrow> byte list" where
  "save_clicked clicked = enc_size 8 (length clicked) @ concat (map (enc_size 4) clicked)"

fun chunks4 :: "nat \<Rightarrow> byte list \<Rightarrow> byte list list" where
  "chunks4 0 bs = []"
| "chunks4 (Suc n) bs = resize 4 0 (take 4 bs) # chunks4 n (drop 4 bs)"

text \<open>Ids that a short file does not hold keep the 0 of \<open>clicked_list.resize(num)\<close>.\<close>

definition load_clicked :: "byte list \<Rightarrow> nat list \<Rightarrow> nat list option" where
  "load_clicked bs clicked =
     (let hdr = take 8 bs; n = dec_size hdr; body = (if length hdr < 8 then [] else take (4 * n) (drop 8 bs))
      in fold (\<lambda>c acc. Option.bind acc (set_clicked (dec_size c))) (chunks4 n body) (Some clicked))"

section \<open>Load and save\<close>

record selector_files =
  clicked_file :: "byte list option"
  segments_file :: "byte list option"
  segid_file :: "byte list option"

definition selector_save ::
  "(feature_map list \<Rightarrow> byte list) \<Rightarrow> (nat list list \<Rightarrow> byte list) \<Rightarrow> ('i, 's) ad_selector \<Rightarrow> selector_files" where
  "selector_save ser_f ser_i sel = \<lparr>clicked_file = Some (save_clicked (clicked_ads sel)),
     segments_file = Some (write_block (ser_f (all_segments sel))),
     segid_file = Some (write_block (ser_i (ad_segid_data sel)))\<rparr>"

definition selector_load ::
  "(byte list \<Rightarrow> feature_map list) \<Rightarrow> (byte list \<Rightarrow> nat list list) \<Rightarrow> selector_files \<Rightarrow>
   ('i, 's) ad_selector \<Rightarrow> ('i, 's) ad_selector option" where
  "selector_load deser_f deser_i files sel =
     (let clicked = (case clicked_file files of None \<Rightarrow> Some (clicked_ads sel) | Some bs \<Rightarrow> load_clicked bs (clicked_ads sel));
          segs = (case segments_file files of None \<Rightarrow> all_segments sel
                  | Some bs \<Rightarrow> deser_f (fst (read_block [] \<lparr>if_rest = bs, if_fail = False\<rparr>)));
          ids = (case segid_file files of None \<Rightarrow> ad_segid_data sel
                 | Some bs \<Rightarrow> deser_i (fst (read_block [] \<lparr>if_rest = bs, if_fail = False\<rparr>)))
      in map_option (\<lambda>c. sel\<lparr>clicked_ads := c, all_segments := segs, ad_segid_data := ids\<rparr>) clicked)"

section \<open>Segments of ads\<close>

definition getAdSegmentStrList :: "('i, 's) seg_ops \<Rightarrow> nat \<Rightarrow> ('i, 's) ad_selector \<Rightarrow> string list option" where
  "getAdSegmentStrList ops ad sel =
     (if ad > length (ad_segid_data sel) then Some []
      else case vec_at (ad_segid_data sel) ad of
             None \<Rightarrow> None
           | Some ids \<Rightarrow> Some (filter (\<lambda>s. s \<noteq> []) (List.map_filter (st_get ops (ad_segid_str_data sel)) ids)))"

fun register_segments :: "('i, 's) seg_ops \<Rightarrow> string list \<Rightarrow> 'i \<Rightarrow> 's \<Rightarrow> nat list \<times> 'i \<times> 's" where
  "register_segments ops [] idm st = ([], idm, st)"
| "register_segments ops (s # strs) idm st =
     (if s = [] then register_segments ops strs idm st
      else (let (i, idm') = id_add ops idm s;
                (is, idm'', st') = register_segments ops strs idm' (st_put ops st i s)
            in (i # is, idm'', st')))"

definition updateAdSegmentStr :: "('i, 's) seg_ops \<Rightarrow> nat \<Rightarrow> feature_map \<Rightarrow> ('i, 's) ad_selector \<Rightarrow> ('i, 's) ad_selector" where
  "updateAdSegmentStr ops ad features sel =
     (let (ids, idm, st) = register_segments ops (expandSegmentStr [[]] features) (ad_segid_mgr sel) (ad_segid_str_data sel)
      in sel\<lparr>ad_segid_data := (grow (ad + 1) [] (ad_segid_data sel))[ad := ids], ad_segid_mgr := idm, ad_segid_str_data := st\<rparr>)"

definition updateAdSegmentStrs ::
  "('i, 's) seg_ops \<Rightarrow> nat list \<Rightarrow> feature_map list \<Rightarrow> ('i, 's) ad_selector \<Rightarrow> ('i, 's) ad_selector option" where
  "updateAdSegmentStrs ops ads features sel =
     (if length ads = length features then Some (fold (\<lambda>(ad, f). updateAdSegmentStr ops ad f) (zip ads features) sel) else None)"

section \<open>New segment values\<close>

definition updateSegmentsNamed :: "string \<Rightarrow> string list \<Rightarrow> nat \<Rightarrow> ('i, 's) ad_selector \<Rightarrow> ('i, 's) ad_selector" where
  "updateSegmentsNamed name values ty sel =
     sel\<lparr>need_refresh := True,
         updated_segments := (updated_segments sel)[ty := smap_upd name [] (\<lambda>vs. vs @ values) (updated_segments sel ! ty)]\<rparr>"

definition updateSegments :: "feature \<Rightarrow> nat \<Rightarrow> ('i, 's) ad_selector \<Rightarrow> ('i, 's) ad_selector" where
  "updateSegments segs ty sel =
     sel\<lparr>updated_segments := (updated_segments sel)
           [ty := fold (\<lambda>(k, v). smap_upd k [] (\<lambda>vs. vs @ [v])) segs (updated_segments sel ! ty)]\<rparr>"

definition add_new :: "string list \<Rightarrow> string list \<Rightarrow> string list" where
  "add_new vs old = fold (\<lambda>v l. if v \<in> set l then l else l @ [v]) vs old"

definition merge_segments :: "feature_map \<Rightarrow> feature_map \<Rightarrow> feature_map" where
  "merge_segments updates segs =
     fold (\<lambda>(k, vs) segs. if map_of segs k = None then segs else smap_upd k [] (add_new vs) segs) updates segs"

definition merge_updates :: "('i, 's) ad_selector \<Rightarrow> ('i, 's) ad_selector" where
  "merge_updates sel = sel\<lparr>all_segments := map2 merge_segments (updated_segments sel) (all_segments sel),
     updated_segments := map (\<lambda>_. []) (updated_segments sel)\<rparr>"

section \<open>Features of ads\<close>

text \<open>
  \<open>getValueStrFromPropId\<close>: the vector \<open>value\<close> is not cleared between the ids, so each path is
  put in front of the reversed earlier ones.
\<close>

fun value_strs :: "prop_value_table \<Rightarrow> nat list \<Rightarrow> string list \<Rightarrow> string list option" where
  "value_strs t [] value = Some []"
| "value_strs t (i # is) value =
     Option.bind (propValuePath t i value)
       (\<lambda>v. Option.bind (value_strs t is v) (\<lambda>r. Some (if v = [] then r else hd v # r)))"

definition getValueStrFromPropId :: "prop_value_table \<Rightarrow> nat list \<Rightarrow> string list option" where
  "getValueStrFromPropId t ids = value_strs t ids []"

definition doc_values :: "prop_value_table \<Rightarrow> nat \<Rightarrow> string list option" where
  "doc_values t doc = Option.bind (getIdList (valueIdTable t) doc) (\<lambda>ids. getValueStrFromPropId t (map unat ids))"

type_synonym group_mgr = "string \<Rightarrow> prop_value_table option"

text \<open>The features of one document: a name without a table is left out.\<close>

fun doc_features :: "group_mgr \<Rightarrow> string list \<Rightarrow> nat \<Rightarrow> feature_map option" where
  "doc_features gm [] doc = Some []"
| "doc_features gm (n # ns) doc =
     (case gm n of
        None \<Rightarrow> doc_features gm ns doc
      | Some t \<Rightarrow> Option.bind (doc_values t doc) (\<lambda>vs. map_option ((#) (n, vs)) (doc_features gm ns doc)))"

definition getAdFeatureList :: "group_mgr \<Rightarrow> nat \<Rightarrow> ('i, 's) ad_selector \<Rightarrow> feature option" where
  "getAdFeatureList gm ad sel =
     map_option (\<lambda>fs. concat (map (\<lambda>(n, vs). map (Pair n) vs) fs))
       (doc_features gm (map fst (default_full_features sel ! AdSeg)) ad)"

section \<open>Mining\<close>

text \<open>The loop over the documents; \<open>kinds\<close> are the sets of values found per feature name.\<close>

fun mine_segments ::
  "('i, 's) seg_ops \<Rightarrow> group_mgr \<Rightarrow> string list \<Rightarrow> nat list \<Rightarrow> string list list \<Rightarrow> ('i, 's) ad_selector \<Rightarrow>
   (string list list \<times> ('i, 's) ad_selector) option" where
  "mine_segments ops gm names [] kinds sel = Some (kinds, sel)"
| "mine_segments ops gm names (d # ds) kinds sel =
     Option.bind (doc_features gm names d)
       (\<lambda>fs. mine_segments ops gm names ds
          (map2 (\<lambda>n k. case map_of fs n of None \<Rightarrow> k | Some vs \<Rightarrow> fold insort_insert vs k) names kinds)
          (updateAdSegmentStr ops d fs sel))"

text \<open>
  The final loop passes \<open>it->first\<close> without ever advancing \<open>it\<close>: the values of all features
  are handed over under the first name.
\<close>

definition miningAdSegmentStr ::
  "('i, 's) seg_ops \<Rightarrow> group_mgr option \<Rightarrow> nat \<Rightarrow> nat \<Rightarrow> ('i, 's) ad_selector \<Rightarrow> ('i, 's) ad_selector option" where
  "miningAdSegmentStr ops gm startid endid sel =
     (case gm of
        None \<Rightarrow> Some sel
      | Some gm \<Rightarrow>
          (let names = map fst (default_full_features sel ! AdSeg)
           in map_option (\<lambda>(kinds, sel'). fold (\<lambda>vs. updateSegmentsNamed (hd names) vs AdSeg) kinds sel')
                (mine_segments ops gm names [startid..<endid + 1] (map (\<lambda>_. []) names) sel)))"

section \<open>Features for the recommender\<close>

fun tag_loop :: "string list \<Rightarrow> string list \<Rightarrow> string list" where
  "tag_loop [] tags = tags"
| "tag_loop (t # ts) tags =
     (let tags' = (if length t > 1 then tags @ [t] else tags)
      in if length tags' > 3 then tags' else tag_loop ts tags')"

text \<open>\<open>pca\<close> gives the tokens with their scores, the brand and the model of a title.\<close>

definition getAdTagsForRec :: "(string \<Rightarrow> (string \<times> real) list \<times> string \<times> string) \<Rightarrow> string \<Rightarrow> string list" where
  "getAdTagsForRec pca title =
     (let (tokens, brand, model) = pca title;
          tags = (if brand = [] then [] else [brand]) @ (if model = [] then [] else [model])
      in tag_loop (map fst (sort_by (\<lambda>l r. snd l > snd r) tokens)) tags)"

definition updateAdFeatureItemsForRec ::
  "(string \<Rightarrow> (string \<times> real) list \<times> string \<times> string) \<Rightarrow> string \<Rightarrow> feature_map \<Rightarrow> string list" where
  "updateAdFeatureItemsForRec pca title features = concat (map snd features) @ getAdTagsForRec pca title"

section \<open>History of click rates\<close>

definition put_ctr :: "string \<Rightarrow> nat \<Rightarrow> real \<Rightarrow> (string \<rightharpoonup> real list) \<Rightarrow> (string \<rightharpoonup> real list)" where
  "put_ctr key segid x h =
     (let v = (case h key of None \<Rightarrow> [] | Some v \<Rightarrow> v) in h(key \<mapsto> (grow (segid + 1) 0 v)[segid := x]))"

definition ad_key_id :: "('i, 's) seg_ops \<Rightarrow> 'i \<Rightarrow> string \<Rightarrow> nat \<times> 'i" where
  "ad_key_id ops idm key = (if key = [] then (0, idm) else id_add ops idm key)"

fun compute_row ::
  "('i, 's) seg_ops \<Rightarrow> (feature \<Rightarrow> feature \<Rightarrow> real) \<Rightarrow> string \<Rightarrow> feature \<Rightarrow> (string \<times> feature) list \<Rightarrow>
   'i \<times> (string \<rightharpoonup> real list) \<Rightarrow> 'i \<times> (string \<rightharpoonup> real list)" where
  "compute_row ops predict ukey uf [] s = s"
| "compute_row ops predict ukey uf ((akey, af) # akeys) (idm, h) =
     (let (i, idm') = ad_key_id ops idm akey
      in compute_row ops predict ukey uf akeys (idm', put_ctr ukey i (predict uf af) h))"

fun compute_rows ::
  "('i, 's) seg_ops \<Rightarrow> (feature \<Rightarrow> feature \<Rightarrow> real) \<Rightarrow> (string \<times> feature) list \<Rightarrow> (string \<times> feature) list \<Rightarrow>
   'i \<times> (string \<rightharpoonup> real list) \<Rightarrow> 'i \<times> (string \<rightharpoonup> real list)" where
  "compute_rows ops predict [] akeys s = s"
| "compute_rows ops predict ((ukey, uf) # ukeys) akeys s =
     compute_rows ops predict ukeys akeys (compute_row ops predict ukey uf akeys s)"

text \<open>Pending ads: only segments the id manager knows get a rate.\<close>

definition pending_pair ::
  "('i, 's) seg_ops \<Rightarrow> (feature \<Rightarrow> feature \<Rightarrow> real) \<Rightarrow> (string \<times> feature) list \<Rightarrow> feature \<Rightarrow> 'i \<Rightarrow> string \<Rightarrow> string \<Rightarrow>
   (string \<rightharpoonup> real list) \<Rightarrow> (string \<rightharpoonup> real list)" where
  "pending_pair ops predict ad_features user_info idm ukey seg h =
     (case id_find ops idm seg of
        None \<Rightarrow> h
      | Some i \<Rightarrow> put_ctr ukey i (predict user_info (case map_of ad_features seg of None \<Rightarrow> [] | Some f \<Rightarrow> f)) h)"

fun pending_docs ::
  "('i, 's) seg_ops \<Rightarrow> (feature \<Rightarrow> feature \<Rightarrow> real) \<Rightarrow> (string \<times> feature) list \<Rightarrow> feature \<Rightarrow> nat list \<Rightarrow>
   ('i, 's) ad_selector \<Rightarrow> ('i, 's) ad_selector option" where
  "pending_docs ops predict ad_features user_info [] sel = Some sel"
| "pending_docs ops predict ad_features user_info (d # ds) sel =
     (case getAdSegmentStrList ops d sel of
        None \<Rightarrow> None
      | Some segs \<Rightarrow>
          pending_docs ops predict ad_features user_info ds
            (sel\<lparr>history_ctr_data :=
               fold (\<lambda>ukey. fold (pending_pair ops predict ad_features user_info (ad_segid_mgr sel) ukey) segs)
                 (getUserSegmentStr user_info) (history_ctr_data sel)\<rparr>))"

definition updatePendingHistoryCTRData ::
  "('i, 's) seg_ops \<Rightarrow> (feature \<Rightarrow> feature \<Rightarrow> real) \<Rightarrow> ('i, 's) ad_selector \<Rightarrow> ('i, 's) ad_selector option" where
  "updatePendingHistoryCTRData ops predict sel =
     (let pending = pending_compute_doclist sel; sel1 = sel\<lparr>pending_compute_doclist := []\<rparr>
      in if pending = [] then Some sel1
         else Option.bind (getAllPossibleSegStr (all_segments sel ! AdSeg) (init_counter sel ! AdSeg) [])
                (\<lambda>ad_features. fold (\<lambda>(info, docs) s. Option.bind s (pending_docs ops predict ad_features info docs))
                   pending (Some sel1)))"

definition computeHistoryCTR ::
  "('i, 's) seg_ops \<Rightarrow> (feature \<Rightarrow> feature \<Rightarrow> real) \<Rightarrow> ('i, 's) ad_selector \<Rightarrow> ('i, 's) ad_selector option" where
  "computeHistoryCTR ops predict sel =
     (let sel1 = merge_updates sel
      in Option.bind (getAllPossibleSegStr (all_segments sel1 ! UserSeg) (init_counter sel1 ! UserSeg) [])
           (\<lambda>ukeys. Option.bind (getAllPossibleSegStr (all_segments sel1 ! AdSeg) (init_counter sel1 ! AdSeg) [])
              (\<lambda>akeys.
                 if length ukeys * length akeys > MAX_HISTORY_CTR_NUM div 2
                 then updatePendingHistoryCTRData ops predict sel1
                 else (let (idm, h) = compute_rows ops predict ukeys akeys (ad_segid_mgr sel1, history_ctr_data sel1)
                       in Some (sel1\<lparr>ad_segid_mgr := idm, history_ctr_data := h\<rparr>)))))"

definition getHistoryCTR :: "(string \<rightharpoonup> real list) \<Rightarrow> string list \<Rightarrow> nat list \<Rightarrow> bool \<times> real" where
  "getHistoryCTR h user_keys ids =
     (if ids = [] then (True, 0)
      else fold (\<lambda>key acc. case h key of
                   None \<Rightarrow> acc
                 | Some v \<Rightarrow> fold (\<lambda>i (found, best). if i \<ge> length v then (found, best) else (True, max (v ! i) best)) ids acc)
             user_keys (False, 0))"

section \<open>What the code relies on of the id manager and the store\<close>

definition seg_ops_ok :: "('i, 's) seg_ops \<Rightarrow> bool" where
  "seg_ops_ok ops \<longleftrightarrow>
     (\<forall>d s. id_find ops (snd (id_add ops d s)) s = Some (fst (id_add ops d s))) \<and>
     (\<forall>d s k i. id_find ops d s = Some i \<longrightarrow> id_find ops (snd (id_add ops d k)) s = Some i) \<and>
     (\<forall>d s s' i. id_find ops d s = Some i \<and> id_find ops d s' = Some i \<longrightarrow> s = s' \<and> 0 < i) \<and>
     (\<forall>t k v k'. st_get ops (st_put ops t k v) k' = (if k' = k then Some v else st_get ops t k'))"

lemma seg_ops_laws:
  assumes "seg_ops_ok ops"
  shows "id_find ops (snd (id_add ops d s)) s = Some (fst (id_add ops d s))"
    and "id_find ops d s = Some i \<Longrightarrow> id_find ops (snd (id_add ops d k)) s = Some i"
    and "id_find ops d s = Some i \<Longrightarrow> id_find ops d s' = Some i \<Longrightarrow> s = s'"
    and "id_find ops d s = Some i \<Longrightarrow> 0 < i"
    and "st_get ops (st_put ops t n v) n' = (if n' = n then Some v else st_get ops t n')"
  using assms unfolding seg_ops_ok_def by blast+

definition ids_extend :: "('i, 's) seg_ops \<Rightarrow> 'i \<Rightarrow> 'i \<Rightarrow> bool" where
  "ids_extend ops d d' \<longleftrightarrow> (\<forall>s i. id_find ops d s = Some i \<longrightarrow> id_find ops d' s = Some i)"

lemma ids_extend_refl [simp]: "ids_extend ops d d"
  by (simp add: ids_extend_def)

lemma ids_extend_trans: "ids_extend ops d d' \<Longrightarrow> ids_extend ops d' d'' \<Longrightarrow> ids_extend ops d d''"
  by (simp add: ids_extend_def)

lemma ids_extend_add: "seg_ops_ok ops \<Longrightarrow> ids_extend ops d (snd (id_add ops d k))"
  unfolding ids_extend_def by (blast intro: seg_ops_laws(2))

section \<open>Registered segments\<close>

text \<open>A stored number is the number of the string stored under it.\<close>

definition registered :: "('i, 's) seg_ops \<Rightarrow> 'i \<Rightarrow> 's \<Rightarrow> nat \<Rightarrow> string \<Rightarrow> bool" where
  "registered ops idm st i s \<longleftrightarrow> s \<noteq> [] \<and> st_get ops st i = Some s \<and> id_find ops idm s = Some i"

definition store_extend :: "('i, 's) seg_ops \<Rightarrow> 'i \<times> 's \<Rightarrow> 'i \<times> 's \<Rightarrow> bool" where
  "store_extend ops p q \<longleftrightarrow> ids_extend ops (fst p) (fst q) \<and>
     (\<forall>i s. registered ops (fst p) (snd p) i s \<longrightarrow> registered ops (fst q) (snd q) i s)"

lemma registered_put:
  assumes "seg_ops_ok ops" and "s \<noteq> []" and "id_add ops idm s = (i, idm')"
  shows "registered ops idm' (st_put ops st i s) i s" and "store_extend ops (idm, st) (idm', st_put ops st i s)"
proof -
  have i: "id_find ops idm' s = Some i" using seg_ops_laws(1) [OF assms(1), of idm s] assms(3) by simp
  then show "registered ops idm' (st_put ops st i s) i s"
    using assms(1,2) by (simp add: registered_def seg_ops_laws(5))
  have "registered ops idm' (st_put ops st i s) j r" if r: "registered ops idm st j r" for j r
  proof -
    have "id_find ops idm' r = Some j"
      using r seg_ops_laws(2) [OF assms(1), of idm r j s] assms(3) by (simp add: registered_def)
    then show ?thesis
      using r i seg_ops_laws(3) [OF assms(1), of idm' r j s] by (auto simp: registered_def seg_ops_laws(5) [OF assms(1)])
  qed
  then show "store_extend ops (idm, st) (idm', st_put ops st i s)"
    using ids_extend_add [OF assms(1), of idm s] assms(3) by (simp add: store_extend_def)
qed

lemma register_segments_ok:
  assumes "seg_ops_ok ops" and "register_segments ops strs idm st = (ids, idm', st')"
  shows "store_extend ops (idm, st) (idm', st') \<and> list_all2 (registered ops idm' st') ids (filter (\<lambda>s. s \<noteq> []) strs)"
  using assms(2)
proof (induction strs arbitrary: idm st ids)
  case (Cons s strs)
  show ?case
  proof (cases "s = []")
    case False
    obtain i idm1 where a: "id_add ops idm s = (i, idm1)" by (cases "id_add ops idm s")
    obtain ids1 where r: "register_segments ops strs idm1 (st_put ops st i s) = (ids1, idm', st')" "ids = i # ids1"
      using Cons.prems False a by (auto split: prod.splits)
    note p = registered_put [OF assms(1) False a, of st] and IH = Cons.IH [OF r(1)]
    then show ?thesis using False r(2) ids_extend_trans by (auto simp: store_extend_def)
  qed (use Cons in simp)
qed (simp add: store_extend_def)

definition segids_ok :: "('i, 's) seg_ops \<Rightarrow> ('i, 's) ad_selector \<Rightarrow> bool" where
  "segids_ok ops sel \<longleftrightarrow>
     (\<forall>ids \<in> set (ad_segid_data sel). \<forall>i \<in> set ids. \<exists>s. registered ops (ad_segid_mgr sel) (ad_segid_str_data sel) i s)"

lemma registered_strings:
  assumes "list_all2 (registered ops idm st) ids strs"
  shows "filter (\<lambda>s. s \<noteq> []) (List.map_filter (st_get ops st) ids) = strs"
  using assms by (induction ids strs rule: list_all2_induct) (auto simp: registered_def List.map_filter_def)

lemma getAdSegmentStrList_registered:
  assumes "ad < length (ad_segid_data sel)" and "list_all2 (registered ops (ad_segid_mgr sel) (ad_segid_str_data sel)) (ad_segid_data sel ! ad) strs"
  shows "getAdSegmentStrList ops ad sel = Some strs"
  using assms registered_strings [OF assms(2)] by (simp add: getAdSegmentStrList_def vec_at_def)

lemma updateAdSegmentStr_registered:
  assumes "seg_ops_ok ops" and "segids_ok ops sel" and "sel' = updateAdSegmentStr ops ad features sel"
  shows "segids_ok ops sel' \<and> ad < length (ad_segid_data sel') \<and>
    list_all2 (registered ops (ad_segid_mgr sel') (ad_segid_str_data sel')) (ad_segid_data sel' ! ad)
      (filter (\<lambda>s. s \<noteq> []) (expandSegmentStr [[]] features)) \<and>
    store_extend ops (ad_segid_mgr sel, ad_segid_str_data sel) (ad_segid_mgr sel', ad_segid_str_data sel') \<and>
    ad_segid_data sel' = (grow (ad + 1) [] (ad_segid_data sel))[ad := ad_segid_data sel' ! ad]"
proof -
  obtain ids idm st where r: "register_segments ops (expandSegmentStr [[]] features) (ad_segid_mgr sel) (ad_segid_str_data sel) = (ids, idm, st)"
    by (metis prod_cases3)
  have sel': "sel' = sel\<lparr>ad_segid_data := (grow (ad + 1) [] (ad_segid_data sel))[ad := ids], ad_segid_mgr := idm, ad_segid_str_data := st\<rparr>"
    using assms(3) r by (simp add: updateAdSegmentStr_def)
  note ok = register_segments_ok [OF assms(1) r]
  have e: "\<exists>s. registered ops idm st i s" if "i \<in> set ids" for i
    using ok that by (auto simp: list_all2_conv_all_nth in_set_conv_nth)
  have "\<exists>s. registered ops idm st i s" if "js \<in> set (ad_segid_data sel')" "i \<in> set js" for js i
  proof -
    have "js = ids \<or> js = [] \<or> js \<in> set (ad_segid_data sel)"
      using that(1) set_update_subset_insert [of "grow (ad + 1) [] (ad_segid_data sel)" ad ids]
        set_grow [of "ad + 1" "[]" "ad_segid_data sel"] unfolding sel' by auto
    then show ?thesis
      using that(2) e assms(2) ok unfolding segids_ok_def store_extend_def fst_conv snd_conv by (metis empty_iff empty_set)
  qed
  then have "segids_ok ops sel'" by (simp add: segids_ok_def sel')
  then show ?thesis using ok by (simp add: sel')
qed

section \<open>Entries of the history\<close>

definition entry_at :: "(string \<rightharpoonup> real list) \<Rightarrow> string \<Rightarrow> nat \<Rightarrow> real option" where
  "entry_at h key i = (case h key of None \<Rightarrow> None | Some v \<Rightarrow> vec_at v i)"

lemma entry_put [simp]: "entry_at (put_ctr key i x h) key i = Some x"
  by (simp add: entry_at_def put_ctr_def Let_def)

lemma entry_put_other: "j \<noteq> i \<Longrightarrow> entry_at h key j = Some y \<Longrightarrow> entry_at (put_ctr key i x h) key j = Some y"
  by (auto simp: entry_at_def put_ctr_def Let_def nth_grow split: option.splits)

lemma put_ctr_other [simp]: "k \<noteq> key \<Longrightarrow> put_ctr key i x h k = h k"
  by (simp add: put_ctr_def Let_def)

text \<open>The number of an ad segment, 0 for the segment of unknown values only.\<close>

definition seg_id :: "('i, 's) seg_ops \<Rightarrow> 'i \<Rightarrow> string \<Rightarrow> nat option" where
  "seg_id ops idm key = (if key = [] then Some 0 else id_find ops idm key)"

lemma seg_id_inj: "seg_ops_ok ops \<Longrightarrow> seg_id ops d s = Some i \<Longrightarrow> seg_id ops d s' = Some i \<Longrightarrow> s = s'"
  using seg_ops_laws(3) [of ops d s i s'] seg_ops_laws(4) [of ops d s 0] seg_ops_laws(4) [of ops d s' 0]
  by (cases "s = []"; cases "s' = []") (auto simp: seg_id_def)

lemma seg_id_extend: "ids_extend ops d d' \<Longrightarrow> seg_id ops d s = Some i \<Longrightarrow> seg_id ops d' s = Some i"
  by (auto simp: seg_id_def ids_extend_def split: if_splits)

lemma ad_key_id_ok:
  assumes "seg_ops_ok ops" and "ad_key_id ops d key = (i, d')"
  shows "ids_extend ops d d'" and "seg_id ops d' key = Some i"
  using assms ids_extend_add [OF assms(1), of d key] seg_ops_laws(1) [OF assms(1), of d key]
  by (auto simp: ad_key_id_def seg_id_def split: if_splits)

lemma compute_row_ok:
  assumes "seg_ops_ok ops" and "compute_row ops predict uk uf akeys (d, h) = (d', h')" and "distinct (map fst akeys)"
  shows "ids_extend ops d d' \<and> (\<forall>k. k \<noteq> uk \<longrightarrow> h' k = h k) \<and>
    (\<forall>(ak, af) \<in> set akeys. \<exists>i. seg_id ops d' ak = Some i \<and> entry_at h' uk i = Some (predict uf af)) \<and>
    (\<forall>b i y. seg_id ops d b = Some i \<and> b \<notin> fst ` set akeys \<and> entry_at h uk i = Some y \<longrightarrow> entry_at h' uk i = Some y)"
  using assms(2,3)
proof (induction akeys arbitrary: d h)
  case (Cons a akeys)
  obtain ak af where a: "a = (ak, af)" by (cases a)
  obtain i d1 where i: "ad_key_id ops d ak = (i, d1)" by (cases "ad_key_id ops d ak")
  let ?h = "put_ctr uk i (predict uf af) h"
  have r: "compute_row ops predict uk uf akeys (d1, ?h) = (d', h')" using Cons.prems(1) a i by simp
  note k = ad_key_id_ok [OF assms(1) i] and IH = Cons.IH [OF r]
  have dis: "distinct (map fst akeys)" "ak \<notin> fst ` set akeys" using Cons.prems(2) a by auto
  from IH dis(1) have e1: "ids_extend ops d1 d'" and h1: "\<forall>k. k \<noteq> uk \<longrightarrow> h' k = ?h k"
    and rest: "\<forall>(ak, af) \<in> set akeys. \<exists>i. seg_id ops d' ak = Some i \<and> entry_at h' uk i = Some (predict uf af)"
    and kept: "\<forall>b i y. seg_id ops d1 b = Some i \<and> b \<notin> fst ` set akeys \<and> entry_at ?h uk i = Some y \<longrightarrow> entry_at h' uk i = Some y"
    by auto
  have first: "seg_id ops d' ak = Some i \<and> entry_at h' uk i = Some (predict uf af)"
    using kept k(2) dis(2) seg_id_extend [OF e1 k(2)] entry_put by blast
  have "entry_at h' uk j = Some y" if "seg_id ops d b = Some j" "b \<notin> fst ` set (a # akeys)" "entry_at h uk j = Some y" for b j y
  proof -
    have b: "seg_id ops d1 b = Some j" by (rule seg_id_extend [OF k(1) that(1)])
    then have "j \<noteq> i" using seg_id_inj [OF assms(1) _ k(2), of b] that(2) a by auto
    then show ?thesis using kept b that(2,3) entry_put_other a by auto
  qed
  moreover have "\<forall>k. k \<noteq> uk \<longrightarrow> h' k = h k" using h1 by simp
  moreover have "\<forall>(ak, af) \<in> set (a # akeys). \<exists>i. seg_id ops d' ak = Some i \<and> entry_at h' uk i = Some (predict uf af)"
    using first rest a by auto
  ultimately show ?case using ids_extend_trans [OF k(1) e1] by blast
qed simp

lemma compute_rows_ok:
  assumes "seg_ops_ok ops" and "compute_rows ops predict ukeys akeys (d, h) = (d', h')"
    and "distinct (map fst ukeys)" and "distinct (map fst akeys)"
  shows "ids_extend ops d d' \<and> (\<forall>k. k \<notin> fst ` set ukeys \<longrightarrow> h' k = h k) \<and>
    (\<forall>(uk, uf) \<in> set ukeys. \<forall>(ak, af) \<in> set akeys. \<exists>i. seg_id ops d' ak = Some i \<and> entry_at h' uk i = Some (predict uf af))"
  using assms(2,3)
proof (induction ukeys arbitrary: d h)
  case (Cons u ukeys)
  obtain uk uf where u: "u = (uk, uf)" by (cases u)
  obtain d1 h1 where r1: "compute_row ops predict uk uf akeys (d, h) = (d1, h1)" by (cases "compute_row ops predict uk uf akeys (d, h)")
  have r: "compute_rows ops predict ukeys akeys (d1, h1) = (d', h')" using Cons.prems(1) u r1 by simp
  note row = compute_row_ok [OF assms(1) r1 assms(4)] and IH = Cons.IH [OF r]
  have n: "uk \<notin> fst ` set ukeys" "distinct (map fst ukeys)" using Cons.prems(2) u by auto
  have e: "ids_extend ops d1 d'" and hk: "h' uk = h1 uk" using IH n by auto
  have "\<forall>(ak, af) \<in> set akeys. \<exists>i. seg_id ops d' ak = Some i \<and> entry_at h' uk i = Some (predict uf af)"
  proof (intro ballI, clarify)
    fix ak af assume "(ak, af) \<in> set akeys"
    then obtain i where "seg_id ops d1 ak = Some i" "entry_at h1 uk i = Some (predict uf af)" using row by blast
    then show "\<exists>i. seg_id ops d' ak = Some i \<and> entry_at h' uk i = Some (predict uf af)"
      using seg_id_extend [OF e] hk by (auto simp: entry_at_def)
  qed
  moreover have "ids_extend ops d d'" by (rule ids_extend_trans [OF row [THEN conjunct1] e])
  moreover have "\<forall>k. k \<notin> fst ` set (u # ukeys) \<longrightarrow> h' k = h k" using IH n row u by simp
  moreover have "\<forall>(uk, uf) \<in> set ukeys. \<forall>(ak, af) \<in> set akeys. \<exists>i. seg_id ops d' ak = Some i \<and> entry_at h' uk i = Some (predict uf af)"
    using IH n by blast
  ultimately show ?case unfolding u by simp
qed simp

lemma getHistoryCTR_fold:
  "fold (\<lambda>i (found, best). if i \<ge> length v then (found, best) else (True, max (v ! i) best)) ids (f0, b0) = (f, b) \<Longrightarrow>
   (f \<longleftrightarrow> f0 \<or> (\<exists>i \<in> set ids. i < length v)) \<and> b0 \<le> b \<and> (\<forall>i \<in> set ids. i < length v \<longrightarrow> v ! i \<le> b) \<and>
   (b = b0 \<or> (\<exists>i \<in> set ids. i < length v \<and> v ! i = b))" for v :: "real list"
proof (induction ids arbitrary: f0 b0)
  case (Cons i ids)
  show ?case
  proof (cases "i < length v")
    case True
    with Cons.prems Cons.IH [of True "max (v ! i) b0"] show ?thesis by (auto simp: max_def split: if_splits)
  next
    case False
    with Cons.prems Cons.IH [of f0 b0] show ?thesis by (auto simp: not_less)
  qed
qed simp

lemma getHistoryCTR_spec:
  assumes "ids \<noteq> []" and "getHistoryCTR h keys ids = (f, b)"
  shows "(f \<longleftrightarrow> (\<exists>k \<in> set keys. \<exists>i \<in> set ids. entry_at h k i \<noteq> None)) \<and>
    (\<forall>k \<in> set keys. \<forall>i \<in> set ids. \<forall>x. entry_at h k i = Some x \<longrightarrow> x \<le> b) \<and>
    (b = 0 \<or> (\<exists>k \<in> set keys. \<exists>i \<in> set ids. entry_at h k i = Some b))"
proof -
  let ?g = "\<lambda>key acc. case h key of None \<Rightarrow> acc
    | Some v \<Rightarrow> fold (\<lambda>i (found, best). if i \<ge> length v then (found, best) else (True, max (v ! i) best)) ids acc"
  have "fold ?g keys (f0, b0) = (f, b) \<Longrightarrow> (f \<longleftrightarrow> f0 \<or> (\<exists>k \<in> set keys. \<exists>i \<in> set ids. entry_at h k i \<noteq> None)) \<and> b0 \<le> b \<and>
    (\<forall>k \<in> set keys. \<forall>i \<in> set ids. \<forall>x. entry_at h k i = Some x \<longrightarrow> x \<le> b) \<and>
    (b = b0 \<or> (\<exists>k \<in> set keys. \<exists>i \<in> set ids. entry_at h k i = Some b))" for f0 b0
  proof (induction keys arbitrary: f0 b0)
    case (Cons k keys)
    show ?case
    proof (cases "h k")
      case None
      then show ?thesis using Cons.IH [of f0 b0] Cons.prems by (auto simp: entry_at_def)
    next
      case (Some v)
      obtain f1 b1 where m: "fold (\<lambda>i (found, best). if i \<ge> length v then (found, best) else (True, max (v ! i) best)) ids (f0, b0) = (f1, b1)"
        by fastforce
      note g = getHistoryCTR_fold [OF m]
      have IH: "(f \<longleftrightarrow> f1 \<or> (\<exists>k \<in> set keys. \<exists>i \<in> set ids. entry_at h k i \<noteq> None)) \<and> b1 \<le> b \<and>
        (\<forall>k \<in> set keys. \<forall>i \<in> set ids. \<forall>x. entry_at h k i = Some x \<longrightarrow> x \<le> b) \<and>
        (b = b1 \<or> (\<exists>k \<in> set keys. \<exists>i \<in> set ids. entry_at h k i = Some b))"
        using Cons.IH [of f1 b1] Cons.prems Some m by simp
      have E: "entry_at h k i = (if i < length v then Some (v ! i) else None)" for i using Some by (simp add: entry_at_def vec_at_def)
      have "f \<longleftrightarrow> f0 \<or> (\<exists>k \<in> set (k # keys). \<exists>i \<in> set ids. entry_at h k i \<noteq> None)" using IH g by (auto simp: E)
      moreover have "b0 \<le> b" using IH g by linarith
      moreover have "\<forall>i \<in> set ids. \<forall>x. entry_at h k i = Some x \<longrightarrow> x \<le> b"
        using g IH by (auto simp: E split: if_splits intro: order_trans)
      moreover have "b = b0 \<or> (\<exists>k \<in> set (k # keys). \<exists>i \<in> set ids. entry_at h k i = Some b)"
        using g IH E by (metis list.set_intros(1,2))
      ultimately show ?thesis using IH by simp
    qed
  qed simp
  note spec = this
  have "fold ?g keys (False, 0) = (f, b)" using assms by (simp add: getHistoryCTR_def)
  from spec [OF this] show ?thesis by simp
qed

section \<open>The invariant of the segment tables\<close>

definition seg_table_ok :: "feature_map \<Rightarrow> (string \<times> nat) list \<Rightarrow> bool" where
  "seg_table_ok segs counter \<longleftrightarrow> smap_ok segs \<and> segs \<noteq> [] \<and> counter = map (\<lambda>(k, vs). (k, 0)) segs \<and>
     (\<forall>(k, vs) \<in> set segs. UnknownStr \<in> set vs)"

definition selector_ok :: "('i, 's) ad_selector \<Rightarrow> bool" where
  "selector_ok sel \<longleftrightarrow> length (all_segments sel) = TotalSeg \<and> length (updated_segments sel) = TotalSeg \<and>
     length (init_counter sel) = TotalSeg \<and>
     (\<forall>ty < TotalSeg. seg_table_ok (all_segments sel ! ty) (init_counter sel ! ty) \<and> smap_ok (updated_segments sel ! ty))"

lemma add_new_set [simp]: "set (add_new vs old) = set vs \<union> set old"
  unfolding add_new_def by (induction vs arbitrary: old) auto

lemma smap_upd_known_keys: "smap_ok m \<Longrightarrow> map_of m k \<noteq> None \<Longrightarrow> map fst (smap_upd k d f m) = map fst m"
proof (induction m)
  case (Cons p m)
  obtain k' v where p: "p = (k', v)" by (cases p)
  have "\<not> k < k'" if "k \<noteq> k'" using Cons.prems map_of_less [of m k] that p by (auto simp: order.strict_trans)
  then show ?case using Cons p by auto
qed simp

lemma smap_upd_values:
  "(k', v) \<in> set (smap_upd k d f m) \<Longrightarrow> (k', v) \<in> set m \<or> v = f d \<or> (\<exists>u. (k, u) \<in> set m \<and> v = f u)"
  by (induction k d f m rule: smap_upd.induct) (auto split: if_splits)

lemma merge_segments_ok:
  assumes "seg_table_ok segs counter"
  shows "seg_table_ok (merge_segments updates segs) counter"
  using assms
proof (induction updates arbitrary: segs)
  case (Cons p updates)
  obtain k vs where p: "p = (k, vs)" by (cases p)
  show ?case
  proof (cases "map_of segs k")
    case None
    then show ?thesis using Cons p by (simp add: merge_segments_def)
  next
    case (Some old)
    let ?s = "smap_upd k [] (add_new vs) segs"
    have ok: "smap_ok segs" "segs \<noteq> []" "counter = map (\<lambda>(k, vs). (k, 0)) segs" "\<forall>(k, vs) \<in> set segs. UnknownStr \<in> set vs"
      using Cons.prems by (simp_all add: seg_table_ok_def)
    have fs: "map fst ?s = map fst segs" using smap_upd_known_keys [OF ok(1)] Some by simp
    have z: "map (\<lambda>(k, vs). (k, 0)) m = map (\<lambda>k. (k, 0)) (map fst m)" for m :: feature_map by (induction m) auto
    have "UnknownStr \<in> set v" if v: "(k', v) \<in> set ?s" for k' v
    proof -
      have m: "map_of ?s k' = Some v" using smap_ok_distinct smap_upd_ok [OF ok(1)] v by (metis map_of_is_SomeI)
      show ?thesis
      proof (cases "k' = k")
        case True
        then have "v = add_new vs old" using m Some by (simp add: map_of_smap_upd [OF ok(1)])
        then show ?thesis using ok(4) Some by (auto dest: map_of_SomeD)
      next
        case False
        then have "map_of segs k' = Some v" using m by (simp add: map_of_smap_upd [OF ok(1)])
        then show ?thesis using ok(4) by (auto dest: map_of_SomeD)
      qed
    qed
    moreover have "?s \<noteq> []" using fs ok(2) by (metis map_is_Nil_conv)
    moreover have "counter = map (\<lambda>(k, vs). (k, 0)) ?s" using ok(3) fs unfolding z by simp
    ultimately have "seg_table_ok ?s counter" using ok(1) by (auto simp: seg_table_ok_def)
    with Cons.IH [OF this] show ?thesis using p Some by (simp add: merge_segments_def)
  qed
qed (simp add: merge_segments_def)

lemma less_TotalSeg: "ty < TotalSeg \<longleftrightarrow> ty = UserSeg \<or> ty = AdSeg"
  by (auto simp: TotalSeg_def UserSeg_def AdSeg_def)

lemma merge_updates_ok: "selector_ok sel \<Longrightarrow> selector_ok (merge_updates sel)"
  using merge_segments_ok by (auto simp: selector_ok_def merge_updates_def)

lemma all_keys_ok:
  assumes "seg_table_ok segs counter"
  shows "\<exists>all. getAllPossibleSegStr segs counter [] = Some all \<and> smap_ok all \<and>
    fst ` set all = seg_key ` {c. list_all2 (\<lambda>v vs. v \<in> set vs) c (map snd segs)}"
proof -
  have ok: "smap_ok segs" "segs \<noteq> []" "counter = map (\<lambda>(k, vs). (k, 0)) segs" "\<forall>(k, vs) \<in> set segs. vs \<noteq> []"
    using assms by (auto simp: seg_table_ok_def)
  have "smap_ok m \<Longrightarrow> smap_ok (fold (put_choice ks) cs m)" for ks cs m
    by (induction cs arbitrary: m) (auto simp: put_choice_def)
  then show ?thesis
    using getAllPossibleSegStr_choices [OF ok(1,2,4), of "[]"] put_choices_keys [of "map fst segs" "product_lists (map snd segs)" "[]"]
    by (simp add: ok(3) product_lists_set)
qed

text \<open>What \<open>computeHistoryCTR\<close> leaves when the number of pairs is below its limit.\<close>

lemma computeHistoryCTR_ok:
  assumes "seg_ops_ok ops" and "selector_ok sel" and "sel1 = merge_updates sel"
    and "getAllPossibleSegStr (all_segments sel1 ! UserSeg) (init_counter sel1 ! UserSeg) [] = Some ukeys"
    and "getAllPossibleSegStr (all_segments sel1 ! AdSeg) (init_counter sel1 ! AdSeg) [] = Some akeys"
    and "length ukeys * length akeys \<le> MAX_HISTORY_CTR_NUM div 2"
  shows "\<exists>sel'. computeHistoryCTR ops predict sel = Some sel' \<and> selector_ok sel' \<and>
    all_segments sel' = all_segments sel1 \<and> ad_segid_data sel' = ad_segid_data sel \<and>
    ids_extend ops (ad_segid_mgr sel) (ad_segid_mgr sel') \<and>
    (\<forall>(uk, uf) \<in> set ukeys. \<forall>(ak, af) \<in> set akeys. \<exists>i. seg_id ops (ad_segid_mgr sel') ak = Some i \<and>
       entry_at (history_ctr_data sel') uk i = Some (predict uf af))"
proof -
  have ok: "selector_ok sel1" using merge_updates_ok assms(2,3) by blast
  have t: "UserSeg < TotalSeg" "AdSeg < TotalSeg" by (simp_all add: less_TotalSeg)
  obtain idm h where r: "compute_rows ops predict ukeys akeys (ad_segid_mgr sel1, history_ctr_data sel1) = (idm, h)"
    by (cases "compute_rows ops predict ukeys akeys (ad_segid_mgr sel1, history_ctr_data sel1)")
  have "distinct (map fst ukeys)" "distinct (map fst akeys)"
    using all_keys_ok ok t assms(4,5) smap_ok_distinct unfolding selector_ok_def by (metis option.inject)+
  note c = compute_rows_ok [OF assms(1) r this]
  let ?s = "sel1\<lparr>ad_segid_mgr := idm, history_ctr_data := h\<rparr>"
  have "computeHistoryCTR ops predict sel = Some ?s"
    using assms(3-6) r by (simp add: computeHistoryCTR_def Let_def)
  moreover have "selector_ok ?s" using ok by (simp add: selector_ok_def)
  moreover have "ad_segid_mgr sel1 = ad_segid_mgr sel" "ad_segid_data sel1 = ad_segid_data sel"
    by (simp_all add: assms(3) merge_updates_def)
  ultimately show ?thesis using c by auto
qed

lemma expand_nonempty: "expandSegmentStr strs features = [] \<longleftrightarrow> strs = []"
proof (induction features arbitrary: strs)
  case (Cons f features)
  obtain k vs where "f = (k, vs)" by (cases f)
  moreover have "expand_feature vs strs = [] \<longleftrightarrow> strs = []" by (auto simp: expand_feature_def)
  ultimately show ?case using Cons [of "expand_feature vs strs"] by (simp add: expandSegmentStr_def)
qed (simp add: expandSegmentStr_def)

lemma collect_features_ok: "smap_ok (collect_features info)"
proof -
  have "smap_ok m \<Longrightarrow> smap_ok (fold (\<lambda>(k, v). smap_upd k [] (\<lambda>vs. vs @ [v])) info m)" for m
    by (induction info arbitrary: m) auto
  then show ?thesis by (simp add: collect_features_def)
qed

lemma features_keys:
  assumes "seg_table_ok segs counter" and "smap_ok features" and "features_known segs features"
    and "getAllPossibleSegStr segs counter [] = Some all"
  shows "set (expandSegmentStr [[]] features) \<subseteq> fst ` set all"
proof
  fix x assume "x \<in> set (expandSegmentStr [[]] features)"
  then obtain c where c: "x = concat (map (\<lambda>v. v @ linker) c)"
    "list_all2 (\<lambda>v vs. v \<in> set vs) c (filter (\<lambda>vs. vs \<noteq> []) (map snd features))"
    unfolding set_expandSegmentStr by blast
  have "smap_ok segs" using assms(1) by (simp add: seg_table_ok_def)
  from choice_of_features [OF this assms(2,3) c(2)] obtain c' where
    c': "list_all2 (\<lambda>v vs. v \<in> set vs) c' (map snd segs)" "seg_key c' = x" using c(1) by blast
  have "fst ` set all = seg_key ` {c. list_all2 (\<lambda>v vs. v \<in> set vs) c (map snd segs)}"
    using all_keys_ok [OF assms(1)] assms(4) by auto
  then show "x \<in> fst ` set all" using c' by blast
qed

section \<open>Properties\<close>


text \<open>A numbering by position and a store as a function satisfy what is required.\<close>

definition list_ops :: "(string list, nat \<rightharpoonup> string) seg_ops" where
  "list_ops = \<lparr>id_find = (\<lambda>l s. if s \<in> set l then Some (Suc (length (takeWhile ((\<noteq>) s) l))) else None),
     id_add = (\<lambda>l s. if s \<in> set l then (Suc (length (takeWhile ((\<noteq>) s) l)), l) else (Suc (length l), l @ [s])),
     st_get = (\<lambda>f n. f n), st_put = (\<lambda>f n v. f(n \<mapsto> v))\<rparr>"

lemma takeWhile_neq_nth: "s \<in> set l \<Longrightarrow> length (takeWhile ((\<noteq>) s) l) < length l \<and> l ! length (takeWhile ((\<noteq>) s) l) = s"
  by (induction l) auto

lemma list_ops_ok: "seg_ops_ok list_ops"
proof -
  have "s = s'" if "s \<in> set l" "s' \<in> set l" "length (takeWhile ((\<noteq>) s) l) = length (takeWhile ((\<noteq>) s') l)" for s s' and l :: "string list"
    using takeWhile_neq_nth [OF that(1)] takeWhile_neq_nth [OF that(2)] that(3) by metis
  moreover have "takeWhile ((\<noteq>) s) (l @ [k]) = takeWhile ((\<noteq>) s) l" if "s \<in> set l" for s k and l :: "string list"
    using that by simp
  moreover have "length (takeWhile ((\<noteq>) s) (l @ [s])) = length l" if "s \<notin> set l" for s and l :: "string list"
    using that by (induction l) auto
  ultimately show ?thesis
    unfolding seg_ops_ok_def list_ops_def by auto
qed


text \<open>
  Segment strings round-trip through the id manager and the store: after
  \<open>updateAdSegmentStr\<close> the ad's list reads back as the non-empty strings of its features, the
  lists of all other ads (that are in the table) read as before, and the numbers stay
  consistent.
\<close>

lemma ad_segments_roundtrip:
  assumes "seg_ops_ok ops" and "segids_ok ops sel" and "sel' = updateAdSegmentStr ops ad features sel"
  shows "segids_ok ops sel' \<and>
    getAdSegmentStrList ops ad sel' = Some (filter (\<lambda>s. s \<noteq> []) (expandSegmentStr [[]] features)) \<and>
    (\<forall>b. b \<noteq> ad \<and> b < length (ad_segid_data sel) \<longrightarrow> getAdSegmentStrList ops b sel' = getAdSegmentStrList ops b sel)"
proof -
  note u = updateAdSegmentStr_registered [OF assms]
  have "getAdSegmentStrList ops b sel' = getAdSegmentStrList ops b sel" if b: "b \<noteq> ad" "b < length (ad_segid_data sel)" for b
  proof -
    let ?ids = "ad_segid_data sel ! b"
    have "\<forall>i \<in> set ?ids. \<exists>s. registered ops (ad_segid_mgr sel) (ad_segid_str_data sel) i s"
      using assms(2) nth_mem [OF b(2)] unfolding segids_ok_def by blast
    then obtain f where "\<forall>i \<in> set ?ids. registered ops (ad_segid_mgr sel) (ad_segid_str_data sel) i (f i)" by metis
    then obtain strs where old: "list_all2 (registered ops (ad_segid_mgr sel) (ad_segid_str_data sel)) ?ids strs"
      by (metis (mono_tags, lifting) list_all2_map2 list.rel_refl_strong)
    then have "list_all2 (registered ops (ad_segid_mgr sel') (ad_segid_str_data sel')) ?ids strs"
      using u by (auto simp: store_extend_def elim: list_all2_mono)
    moreover have "ad_segid_data sel' ! b = ?ids" "b < length (ad_segid_data sel')"
    proof -
      have e: "ad_segid_data sel' = (grow (ad + 1) [] (ad_segid_data sel))[ad := ad_segid_data sel' ! ad]" using u by blast
      show "ad_segid_data sel' ! b = ?ids" using b by (subst e) (simp add: nth_grow)
      show "b < length (ad_segid_data sel')" using b by (subst e) simp
    qed
    ultimately show ?thesis using getAdSegmentStrList_registered b(2) old by metis
  qed
  then show ?thesis using u getAdSegmentStrList_registered by blast
qed

lemma updateSegmentsNamed_other:
  "k \<noteq> n \<Longrightarrow> selector_ok sel \<Longrightarrow> map_of (updated_segments (fold (\<lambda>vs. updateSegmentsNamed n vs AdSeg) kinds sel) ! AdSeg) k =
     map_of (updated_segments sel ! AdSeg) k"
proof (induction kinds arbitrary: sel)
  case (Cons vs kinds)
  let ?s = "updateSegmentsNamed n vs AdSeg sel"
  have l: "AdSeg < length (updated_segments sel)" "smap_ok (updated_segments sel ! AdSeg)"
    using Cons.prems(2) by (simp_all add: selector_ok_def less_TotalSeg)
  then have "selector_ok ?s"
    using Cons.prems(2) by (auto simp: selector_ok_def updateSegmentsNamed_def nth_list_update)
  moreover have "map_of (updated_segments ?s ! AdSeg) k = map_of (updated_segments sel ! AdSeg) k"
    using l Cons.prems(1) by (simp add: updateSegmentsNamed_def)
  ultimately show ?case using Cons.IH [of ?s] Cons.prems(1) by simp
qed simp

lemma mine_segments_frame:
  "mine_segments ops gm names ds kinds sel = Some (kinds', sel') \<Longrightarrow>
   updated_segments sel' = updated_segments sel \<and> (selector_ok sel \<longrightarrow> selector_ok sel') \<and>
   default_full_features sel' = default_full_features sel"
proof (induction ds arbitrary: kinds sel)
  case (Cons d ds)
  then obtain fs where fs: "doc_features gm names d = Some fs"
    "mine_segments ops gm names ds (map2 (\<lambda>n k. case map_of fs n of None \<Rightarrow> k | Some vs \<Rightarrow> fold insort_insert vs k) names kinds)
       (updateAdSegmentStr ops d fs sel) = Some (kinds', sel')" by (auto simp: bind_eq_Some_conv)
  show ?case using Cons.IH [OF fs(2)] by (auto simp: updateAdSegmentStr_def selector_ok_def split: prod.splits)
qed simp

text \<open>
  Mining hands all values to the first feature: \<open>miningAdSegmentStr\<close> changes the pending
  segment values of ads under the first feature name only, although it collects a set of
  values for every name. Values of the other features never reach the segment tables, so the
  enumeration of ad segments does not cover them.
\<close>

lemma mining_first_name_only:
  assumes "selector_ok sel" and "miningAdSegmentStr ops (Some gm) startid endid sel = Some sel'"
    and "name \<noteq> hd (map fst (default_full_features sel ! AdSeg))"
  shows "map_of (updated_segments sel' ! AdSeg) name = map_of (updated_segments sel ! AdSeg) name"
proof -
  obtain kinds sel1 where m: "mine_segments ops gm (map fst (default_full_features sel ! AdSeg)) [startid..<endid + 1]
      (map (\<lambda>_. []) (map fst (default_full_features sel ! AdSeg))) sel = Some (kinds, sel1)"
    "sel' = fold (\<lambda>vs. updateSegmentsNamed (hd (map fst (default_full_features sel ! AdSeg))) vs AdSeg) kinds sel1"
    using assms(2) by (auto simp: miningAdSegmentStr_def Let_def)
  from mine_segments_frame [OF m(1)] assms(1) have f: "selector_ok sel1" "updated_segments sel1 = updated_segments sel" by auto
  from updateSegmentsNamed_other [OF assms(3) f(1), of kinds] show ?thesis unfolding m(2) f(2) .
qed

end
