(* ===== verification/AdSelect.thy ===== *)
theory AdSelect
  imports AdSelector
begin

text \<open>
  \<open>AdSelector::select\<close>: of the ads a search returned, keep the best clicked ones, the best of
  the others by their history, and some at random. The bounded queue \<open>ScoreSortedHitQueue\<close> of
  the utility library is the parameter \<open>queue\<close>: \<open>queue n items\<close> are the items it pops, lowest
  first, after \<open>items\<close> were inserted into a queue of size \<open>n\<close>. \<open>rnd\<close> are the values of
  \<open>random_gen_()\<close> in the order of the calls.
\<close>

record score_doc =
  sd_docId :: nat
  sd_score :: real

type_synonym hit_queue = "nat \<Rightarrow> score_doc list \<Rightarrow> score_doc list"

definition E_GREEDY_RATIO :: real where "E_GREEDY_RATIO = 1 / 10"

section \<open>Random choice\<close>

text \<open>
  The random numbers go through a \<open>std::set<int>\<close>: equal ones collapse and they are visited in
  the order of the signed values; \<open>% size()\<close> converts a negative one to \<open>size_t\<close>.
\<close>

definition as_int :: "nat \<Rightarrow> int" where
  "as_int r = (if r mod 2 ^ 32 < 2 ^ 31 then int (r mod 2 ^ 32) else int (r mod 2 ^ 32) - 2 ^ 32)"

definition selectByRandSelectPolicy :: "(nat \<Rightarrow> nat) \<Rightarrow> nat \<Rightarrow> nat list \<Rightarrow> nat list" where
  "selectByRandSelectPolicy rnd n docs =
     (let idx = fold (\<lambda>i s. insort_insert (as_int (rnd i)) s) [0..<n] []
      in map (\<lambda>r. docs ! (nat (r mod 2 ^ 64) mod length docs)) idx)"

section \<open>Sorting the ads\<close>

record select_state =
  clicked_items :: "score_doc list"
  unclicked_items :: "score_doc list"
  unclicked_docs :: "nat list"
  pending_docs_of :: "nat list"

text \<open>
  One ad. The history is consulted for a clicked ad only when there are more ads than the
  clicked queue holds; without an entry it is treated as unclicked and becomes pending.
\<close>

definition classify ::
  "(string \<rightharpoonup> real list) \<Rightarrow> nat list list \<Rightarrow> nat list \<Rightarrow> string list \<Rightarrow> bool \<Rightarrow> bool \<Rightarrow> nat \<Rightarrow> select_state \<Rightarrow> select_state option" where
  "classify h segids clicked user_keys many random_select doc st =
     (if doc \<ge> MAX_AD_DOCID then None
      else if doc \<in> set clicked
      then (if many
            then (case vec_at segids doc of
                    None \<Rightarrow> None
                  | Some ids \<Rightarrow>
                      (case getHistoryCTR h user_keys ids of
                         (True, score) \<Rightarrow> Some (st\<lparr>clicked_items := clicked_items st @ [\<lparr>sd_docId = doc, sd_score = score\<rparr>]\<rparr>)
                       | (False, _) \<Rightarrow> Some (st\<lparr>unclicked_docs := unclicked_docs st @ [doc],
                                              pending_docs_of := pending_docs_of st @ [doc]\<rparr>)))
            else Some (st\<lparr>clicked_items := clicked_items st @ [\<lparr>sd_docId = doc, sd_score = 0\<rparr>]\<rparr>))
      else if random_select then Some (st\<lparr>unclicked_docs := unclicked_docs st @ [doc]\<rparr>)
      else (case vec_at segids doc of
              None \<Rightarrow> None
            | Some ids \<Rightarrow>
                (case getHistoryCTR h user_keys ids of
                   (True, score) \<Rightarrow> Some (st\<lparr>unclicked_items := unclicked_items st @ [\<lparr>sd_docId = doc, sd_score = score\<rparr>]\<rparr>)
                 | (False, _) \<Rightarrow> Some (st\<lparr>unclicked_docs := unclicked_docs st @ [doc]\<rparr>))))"

fun classify_all ::
  "(nat \<Rightarrow> select_state \<Rightarrow> select_state option) \<Rightarrow> nat list \<Rightarrow> select_state \<Rightarrow> select_state option" where
  "classify_all f [] st = Some st"
| "classify_all f (d # ds) st = Option.bind (f d st) (classify_all f ds)"

definition select_state0 :: select_state where
  "select_state0 = \<lparr>clicked_items = [], unclicked_items = [], unclicked_docs = [], pending_docs_of = []\<rparr>"

section \<open>The selection\<close>

text \<open>
  The property tables of the ad features are looked up but the result is not assigned
  (\<open>pvt\<close> stays null), so the predictor always sees an empty feature list.
\<close>

definition rescore :: "(feature \<Rightarrow> feature \<Rightarrow> real) \<Rightarrow> feature \<Rightarrow> score_doc \<Rightarrow> score_doc" where
  "rescore predict user_info d = d\<lparr>sd_score := predict user_info []\<rparr>"

text \<open>
  The result is written over \<open>ad_doclist\<close> (\<open>None\<close> when it would not fit).
  \<open>max_select - max_clicked_retnum\<close> is unsigned: for \<open>max_select = 0\<close> it wraps, and the queue
  cannot be allocated (\<open>None\<close>).
\<close>

definition select_ads ::
  "(nat \<Rightarrow> nat) \<Rightarrow> hit_queue \<Rightarrow> (feature \<Rightarrow> feature \<Rightarrow> real) \<Rightarrow> feature \<Rightarrow> nat \<Rightarrow> nat list \<Rightarrow> ('i, 's) ad_selector \<Rightarrow>
   (bool \<times> nat list \<times> real list \<times> ('i, 's) ad_selector) option" where
  "select_ads rnd queue predict user_info max_select docs sel =
     (if docs = [] then Some (False, [], [], sel)
      else if max_select = 0 then None
      else
        (let user_keys = getUserSegmentStr user_info;
             max_clicked = max_select div 3 + 1;
             max_unclicked = max_select - max_clicked;
             many = (length docs > max_clicked * 2);
             random_select = (real (rnd 0 mod 1000) < E_GREEDY_RATIO * 1000)
         in Option.bind (classify_all
              (classify (history_ctr_data sel) (ad_segid_data sel) (clicked_ads sel) user_keys many random_select) docs select_state0)
            (\<lambda>st.
               let sel' = (if pending_docs_of st = [] then sel
                           else sel\<lparr>pending_compute_doclist := pending_compute_doclist sel @ [(user_info, pending_docs_of st)],
                                    need_refresh := True\<rparr>);
                   clicked = map (rescore predict user_info) (queue (max_clicked * 2) (clicked_items st));
                   unclicked = queue max_unclicked (unclicked_items st);
                   left = max_unclicked - length unclicked;
                   total = rev (queue (max_clicked + length unclicked) (clicked @ unclicked));
                   rest = (if left < length (unclicked_docs st)
                           then selectByRandSelectPolicy (\<lambda>i. rnd (i + 1)) left (unclicked_docs st) else unclicked_docs st);
                   min_score = fold (\<lambda>d m. min (sd_score d) m) total 0
               in if length total + length rest \<le> length docs
                  then Some (total \<noteq> [] \<or> rest \<noteq> [], map sd_docId total @ rest,
                             map sd_score total @ map (\<lambda>_. min_score - 1) rest, sel')
                  else None)))"

section \<open>What is relied on of the queue\<close>

definition hit_queue_ok :: "hit_queue \<Rightarrow> bool" where
  "hit_queue_ok queue \<longleftrightarrow>
     (\<forall>n items. length (queue n items) = min n (length items) \<and> mset (queue n items) \<subseteq># mset items)"

lemma hit_queue_facts:
  assumes "hit_queue_ok queue"
  shows "length (queue n items) \<le> n" and "length (queue n items) \<le> length items" and "set (queue n items) \<subseteq> set items"
proof -
  show "length (queue n items) \<le> n" "length (queue n items) \<le> length items" using assms by (simp_all add: hit_queue_ok_def)
  have "mset (queue n items) \<subseteq># mset items" using assms by (simp add: hit_queue_ok_def)
  from set_mset_mono [OF this] show "set (queue n items) \<subseteq> set items" by simp
qed

section \<open>Every ad is classified once\<close>

lemma classify_split:
  assumes "classify h segids clicked keys many rs doc st = Some st'"
  shows "mset (map sd_docId (clicked_items st') @ map sd_docId (unclicked_items st') @ unclicked_docs st') =
    add_mset doc (mset (map sd_docId (clicked_items st) @ map sd_docId (unclicked_items st) @ unclicked_docs st))"
  using assms by (auto simp: classify_def split: if_splits option.splits prod.splits bool.splits)

lemma classify_all_split:
  "classify_all (classify h segids clicked keys many rs) docs st = Some st' \<Longrightarrow>
   mset (map sd_docId (clicked_items st') @ map sd_docId (unclicked_items st') @ unclicked_docs st') =
   mset docs + mset (map sd_docId (clicked_items st) @ map sd_docId (unclicked_items st) @ unclicked_docs st)"
proof (induction docs arbitrary: st)
  case (Cons d ds)
  then obtain st1 where s: "classify h segids clicked keys many rs d st = Some st1"
    "classify_all (classify h segids clicked keys many rs) ds st1 = Some st'" by (auto simp: bind_eq_Some_conv)
  show ?case using Cons.IH [OF s(2)] classify_split [OF s(1)] by simp
qed simp

lemma classify_all_pending:
  "classify_all (classify h segids clicked keys many rs) docs st = Some st' \<Longrightarrow>
   set (pending_docs_of st') \<subseteq> set (pending_docs_of st) \<union> (set docs \<inter> set clicked)"
proof (induction docs arbitrary: st)
  case (Cons d ds)
  then obtain st1 where s: "classify h segids clicked keys many rs d st = Some st1"
    "classify_all (classify h segids clicked keys many rs) ds st1 = Some st'" by (auto simp: bind_eq_Some_conv)
  have "set (pending_docs_of st1) \<subseteq> set (pending_docs_of st) \<union> ({d} \<inter> set clicked)"
    using s(1) by (auto simp: classify_def split: if_splits option.splits prod.splits bool.splits)
  then show ?case using Cons.IH [OF s(2)] by auto
qed simp

lemma classify_total:
  assumes "\<forall>d \<in> set docs. d < MAX_AD_DOCID \<and> d < length segids"
  shows "\<exists>st'. classify_all (classify h segids clicked keys many rs) docs st = Some st'"
  using assms
proof (induction docs arbitrary: st)
  case (Cons d ds)
  have "\<exists>st1. classify h segids clicked keys many rs d st = Some st1"
    using Cons.prems by (auto simp: classify_def vec_at_def split: prod.splits bool.splits)
  then obtain st1 where "classify h segids clicked keys many rs d st = Some st1" by blast
  with Cons show ?case by simp
qed simp

lemma rand_select:
  assumes "docs \<noteq> []"
  shows "set (selectByRandSelectPolicy rnd n docs) \<subseteq> set docs" and "length (selectByRandSelectPolicy rnd n docs) \<le> n"
proof -
  show "set (selectByRandSelectPolicy rnd n docs) \<subseteq> set docs"
    using assms by (auto simp: selectByRandSelectPolicy_def Let_def)
  have "length (fold (\<lambda>i s. insort_insert (as_int (rnd i)) s) is s) \<le> length s + length is" for "is" s
  proof (induction "is" arbitrary: s)
    case (Cons i "is")
    have "length (insort_insert (as_int (rnd i)) s) \<le> Suc (length s)" by (simp add: insort_insert_key_def)
    with Cons [of "insort_insert (as_int (rnd i)) s"] show ?case by simp
  qed simp
  from this [of "[0..<n]" "[]"] show "length (selectByRandSelectPolicy rnd n docs) \<le> n"
    by (simp add: selectByRandSelectPolicy_def Let_def)
qed

lemma min_score_le: "\<forall>d \<in> set ds. fold (\<lambda>d m. min (sd_score d) m) ds m \<le> sd_score d"
  and min_score_start: "fold (\<lambda>d m. min (sd_score d) m) ds m \<le> m"
proof -
  have "fold (\<lambda>d m. min (sd_score d) m) ds m \<le> m \<and> (\<forall>d \<in> set ds. fold (\<lambda>d m. min (sd_score d) m) ds m \<le> sd_score d)" for m
  proof (induction ds arbitrary: m)
    case (Cons d ds)
    from Cons [of "min (sd_score d) m"] show ?case by auto
  qed simp
  then show "\<forall>d \<in> set ds. fold (\<lambda>d m. min (sd_score d) m) ds m \<le> sd_score d" "fold (\<lambda>d m. min (sd_score d) m) ds m \<le> m" by auto
qed

section \<open>The result of a selection\<close>

lemma select_result:
  assumes "hit_queue_ok queue" and "docs \<noteq> []" and "0 < max_select"
    and "\<forall>d \<in> set docs. d < MAX_AD_DOCID \<and> d < length (ad_segid_data sel)"
  shows "\<exists>ranked rest scores sel'.
    select_ads rnd queue predict user_info max_select docs sel = Some (ranked @ rest \<noteq> [], ranked @ rest, scores, sel') \<and>
    set (ranked @ rest) \<subseteq> set docs \<and> length (ranked @ rest) \<le> max_select \<and> length scores = length (ranked @ rest) \<and>
    (\<forall>i < length ranked. \<forall>j < length rest. scores ! (length ranked + j) < scores ! i) \<and>
    (sel' = sel \<or> (\<exists>p. p \<noteq> [] \<and> set p \<subseteq> set docs \<inter> set (clicked_ads sel) \<and>
       sel' = sel\<lparr>pending_compute_doclist := pending_compute_doclist sel @ [(user_info, p)], need_refresh := True\<rparr>))"
proof -
  let ?mc = "max_select div 3 + 1" and ?rs = "real (rnd 0 mod 1000) < E_GREEDY_RATIO * 1000"
  let ?f = "classify (history_ctr_data sel) (ad_segid_data sel) (clicked_ads sel) (getUserSegmentStr user_info) (length docs > ?mc * 2) ?rs"
  obtain st where st: "classify_all ?f docs select_state0 = Some st" using classify_total [OF assms(4)] by blast
  note q = hit_queue_facts [OF assms(1)]
  define clicked where "clicked = map (rescore predict user_info) (queue (?mc * 2) (clicked_items st))"
  define unclicked where "unclicked = queue (max_select - ?mc) (unclicked_items st)"
  define left where "left = max_select - ?mc - length unclicked"
  define total where "total = rev (queue (?mc + length unclicked) (clicked @ unclicked))"
  define rest where "rest = (if left < length (unclicked_docs st)
      then selectByRandSelectPolicy (\<lambda>i. rnd (i + 1)) left (unclicked_docs st) else unclicked_docs st)"
  define sel' where "sel' = (if pending_docs_of st = [] then sel
      else sel\<lparr>pending_compute_doclist := pending_compute_doclist sel @ [(user_info, pending_docs_of st)], need_refresh := True\<rparr>)"
  define ms where "ms = fold (\<lambda>d m. min (sd_score d) m) total 0"
  have split: "mset (map sd_docId (clicked_items st) @ map sd_docId (unclicked_items st) @ unclicked_docs st) = mset docs"
    using classify_all_split [OF st] by (simp add: select_state0_def)
  have all: "sd_docId ` set (clicked_items st) \<union> sd_docId ` set (unclicked_items st) \<union> set (unclicked_docs st) = set docs"
    using mset_eq_setD [OF split] by auto
  have len: "length (clicked_items st) + length (unclicked_items st) + length (unclicked_docs st) = length docs"
    using mset_eq_length [OF split] by simp
  have r: "set rest \<subseteq> set (unclicked_docs st)" "length rest \<le> left" "length rest \<le> length (unclicked_docs st)"
    using rand_select [of "unclicked_docs st" "\<lambda>i. rnd (i + 1)" left]
    by (cases "left < length (unclicked_docs st)"; cases "unclicked_docs st"; simp add: rest_def)+
  have u: "set unclicked \<subseteq> set (unclicked_items st)" "length unclicked \<le> max_select - ?mc" "length unclicked \<le> length (unclicked_items st)"
    using q by (simp_all add: unclicked_def)
  have c: "sd_docId ` set clicked \<subseteq> sd_docId ` set (clicked_items st)" "length clicked \<le> length (clicked_items st)"
    using q(3) [of "?mc * 2" "clicked_items st"] q(2) by (auto simp: clicked_def rescore_def)
  have t: "set total \<subseteq> set clicked \<union> set unclicked" "length total \<le> ?mc + length unclicked" "length total \<le> length clicked + length unclicked"
    using q(1) [of "?mc + length unclicked" "clicked @ unclicked"] q(2) [of "?mc + length unclicked" "clicked @ unclicked"]
      q(3) [of "?mc + length unclicked" "clicked @ unclicked"] by (simp_all add: total_def)
  have fit: "length total + length rest \<le> length docs" using len r(3) u(3) c(2) t(3) by linarith
  have m: "?mc \<le> max_select" using assms(3) by simp
  have le: "length total + length rest \<le> max_select" using t(2) r(2) u(2) m by (simp add: left_def)
  have d: "(docs = []) = False" "(max_select = 0) = False" using assms(2,3) by simp_all
  have "select_ads rnd queue predict user_info max_select docs sel =
      (if length total + length rest \<le> length docs then Some (total \<noteq> [] \<or> rest \<noteq> [], map sd_docId total @ rest,
         map sd_score total @ map (\<lambda>_. ms - 1) rest, sel') else None)"
    by (simp only: select_ads_def d if_False Let_def st Option.bind.bind_lunit
        ms_def sel'_def rest_def total_def left_def unclicked_def clicked_def)
  then have run: "select_ads rnd queue predict user_info max_select docs sel =
      Some (map sd_docId total @ rest \<noteq> [], map sd_docId total @ rest, map sd_score total @ map (\<lambda>_. ms - 1) rest, sel')"
    using fit by simp
  have sub: "set (map sd_docId total @ rest) \<subseteq> set docs" using t(1) c(1) u(1) r(1) all by fastforce
  have ord: "(map sd_score total @ map (\<lambda>_. ms - 1) rest) ! (length (map sd_docId total) + j) <
      (map sd_score total @ map (\<lambda>_. ms - 1) rest) ! i" if "i < length (map sd_docId total)" "j < length rest" for i j
  proof -
    have "ms \<le> sd_score (total ! i)" using min_score_le that(1) unfolding ms_def by (metis length_map nth_mem)
    then show ?thesis using that by (simp add: nth_append)
  qed
  have "sel' = sel \<or> (\<exists>p. p \<noteq> [] \<and> set p \<subseteq> set docs \<inter> set (clicked_ads sel) \<and>
       sel' = sel\<lparr>pending_compute_doclist := pending_compute_doclist sel @ [(user_info, p)], need_refresh := True\<rparr>)"
    using classify_all_pending [OF st] by (auto simp: sel'_def select_state0_def)
  with run sub le ord show ?thesis by (intro exI [of _ "map sd_docId total"] exI [of _ rest]) auto
qed

section \<open>Properties\<close>



end
