(* ===== verification/Recommender.thy ===== *)
theory Recommender
  imports KeywordDict Segments ImageFile
begin

text \<open>
  \<open>AdRecommender\<close>: ads and user features have latent vectors of dimension
  \<open>LATENT_VEC_DIM\<close>; every view or click moves the vectors of the user's features and of the ad
  towards or away from each other, and a recommendation ranks the ads by the scalar product
  with the user's mean vector. \<open>random()\<close> is the sequence \<open>rnd\<close>, read from a position that is
  passed along. \<open>None\<close> is an access outside a vector; an exception of \<open>std::bitset\<close> is returned
  beside the state it leaves behind. The text dump of the vectors is not modelled.
\<close>

section \<open>State\<close>

definition LATENT_VEC_DIM :: nat where "LATENT_VEC_DIM = 10"
definition MAX_AD_ITEMS :: nat where "MAX_AD_ITEMS = 1024 * 1024"
definition SMOOTH :: real where "SMOOTH = 2 / 100"
definition MAX_NORM :: real where "MAX_NORM = 100"

type_synonym latent_vec = "real list"
type_synonym latent_map = "string \<rightharpoonup> latent_vec"

datatype rec_error = BitOutOfRange

text \<open>
  \<open>feature_dict\<close> is the pair \<open>ad_feature_value_list_\<close>, \<open>ad_feature_value_id_list_\<close>; a
  \<open>std::set<uint32_t>\<close> is an ascending list, \<open>unviewed_items\<close> the set of the bits that are 1.
\<close>

record recommender =
  use_ad_feature :: bool
  ad_latent_vec_list :: latent_map
  user_feature_latent_vec_list :: latent_map
  clicked_num :: nat
  impression_num :: nat
  ratio :: real
  learning_rate :: real
  default_latent :: latent_vec
  feature_dict :: str_dict
  ad_features_map :: "string \<rightharpoonup> nat list"
  unviewed_items :: "nat set"

section \<open>Vectors and keys\<close>

definition affinity :: "latent_vec \<Rightarrow> latent_vec \<Rightarrow> real option" where
  "affinity l r = (if length l \<le> length r then Some (sum_list (map2 (*) l r)) else None)"

definition getunviewed :: "nat set \<Rightarrow> nat \<Rightarrow> nat option" where
  "getunviewed bits i = vec_at (sorted_list_of_set bits) i"

definition getUserLatentVecKeys :: "feature \<Rightarrow> string list" where
  "getUserLatentVecKeys user_info = map (\<lambda>(n, v). n @ v) user_info"

definition feature_id :: "str_dict \<Rightarrow> string \<Rightarrow> nat \<times> str_dict" where
  "feature_id d s =
     (case value_ids d s of
        Some i \<Rightarrow> (i, d)
      | None \<Rightarrow> (length (id_values d),
          \<lparr>id_values = id_values d @ [s], value_ids = (value_ids d)(s \<mapsto> length (id_values d))\<rparr>))"

fun add_features :: "string \<Rightarrow> string list \<Rightarrow> nat list \<Rightarrow> recommender \<Rightarrow> rec_error option \<times> recommender" where
  "add_features ad [] ids r = (None, r)"
| "add_features ad (s # ss) ids r =
     (let known = (value_ids (feature_dict r) s \<noteq> None); (i, d) = feature_id (feature_dict r) s;
          r1 = r\<lparr>feature_dict := d\<rparr>
      in if \<not> known \<and> i \<ge> MAX_AD_ITEMS then (Some BitOutOfRange, r1)
         else (let ids' = insort_insert i ids
               in add_features ad ss ids'
                    (r1\<lparr>unviewed_items := (if known then unviewed_items r else insert i (unviewed_items r)),
                        ad_features_map := (ad_features_map r)(ad \<mapsto> ids')\<rparr>)))"

definition updateAdFeatures :: "string \<Rightarrow> string list \<Rightarrow> recommender \<Rightarrow> rec_error option \<times> recommender" where
  "updateAdFeatures ad features r =
     add_features ad (if \<not> use_ad_feature r \<or> features = [] then features @ [ad] else features) []
       (r\<lparr>ad_features_map := (ad_features_map r)(ad \<mapsto> [])\<rparr>)"

definition getAdLatentVecKeys :: "recommender \<Rightarrow> string \<Rightarrow> string list option" where
  "getAdLatentVecKeys r ad =
     (if \<not> use_ad_feature r then Some [ad]
      else (case ad_features_map r ad of
              None \<Rightarrow> Some []
            | Some ids \<Rightarrow> those (map (vec_at (id_values (feature_dict r))) ids)))"

text \<open>The mean of the vectors of the known keys (divided by the number of all keys).\<close>

definition combined_of :: "nat \<Rightarrow> latent_vec list \<Rightarrow> nat \<Rightarrow> real option" where
  "combined_of n vs j =
     map_option (\<lambda>xs. if n = 0 then 1 else sum_list xs / real n) (those (map (\<lambda>v. vec_at v j) vs))"

definition getCombinedUserLatentVec :: "latent_map \<Rightarrow> string list \<Rightarrow> latent_vec option" where
  "getCombinedUserLatentVec m keys =
     those (map (combined_of (length keys) (List.map_filter m keys)) [0..<LATENT_VEC_DIM])"

section \<open>Init\<close>

definition default_counts :: "nat \<Rightarrow> nat \<Rightarrow> nat \<times> nat" where
  "default_counts clicked impressions =
     (let c = (if clicked < 1 then 1 else clicked)
      in (c, if impressions < c then c * 100 else impressions))"

definition recommender0 :: recommender where
  "recommender0 = \<lparr>use_ad_feature = True, ad_latent_vec_list = Map.empty, user_feature_latent_vec_list = Map.empty,
     clicked_num = 1, impression_num = 1000, ratio = 0, learning_rate = 0, default_latent = [],
     feature_dict = str_dict0, ad_features_map = Map.empty, unviewed_items = {}\<rparr>"

definition recommender_init :: "(recommender \<Rightarrow> recommender) \<Rightarrow> bool \<Rightarrow> recommender \<Rightarrow> recommender" where
  "recommender_init load use r =
     (let r1 = load (r\<lparr>clicked_num := 1, impression_num := 1000, use_ad_feature := use\<rparr>);
          (c, i) = default_counts (clicked_num r1) (impression_num r1)
      in r1\<lparr>clicked_num := c, impression_num := i, learning_rate := 1 / real c,
            ratio := - (real c / real (i - c)),
            default_latent := resize LATENT_VEC_DIM 1 (default_latent r1)\<rparr>)"

section \<open>Files\<close>

record rec_io =
  io_latent :: "(latent_map \<Rightarrow> byte list) \<times> (byte list \<Rightarrow> latent_map)"
  io_values :: "(string list \<Rightarrow> byte list) \<times> (byte list \<Rightarrow> string list)"
  io_features :: "((string \<rightharpoonup> nat list) \<Rightarrow> byte list) \<times> (byte list \<Rightarrow> (string \<rightharpoonup> nat list))"

record rec_files =
  ad_latent_file :: "byte list option"
  user_latent_file :: "byte list option"
  history_file :: "byte list option"
  feature_info_file :: "byte list option"

definition rec_save :: "rec_io \<Rightarrow> recommender \<Rightarrow> rec_files" where
  "rec_save c r = \<lparr>
     ad_latent_file = Some (write_block (fst (io_latent c) (ad_latent_vec_list r))),
     user_latent_file = Some (write_block (fst (io_latent c) (user_feature_latent_vec_list r))),
     history_file = Some (enc_size 8 (clicked_num r) @ enc_size 8 (impression_num r)),
     feature_info_file = Some (write_block (fst (io_values c) (id_values (feature_dict r))) @
       write_block (fst (io_features c) (ad_features_map r)))\<rparr>"

text \<open>
  A file that cannot be opened leaves its part as it is. \<open>read\<close> of a counter writes the bytes
  that are there over the old value.
\<close>

definition read_num :: "nat \<Rightarrow> byte list \<Rightarrow> nat" where
  "read_num old bs = dec_size (take 8 bs @ drop (length bs) (enc_size 8 old))"

definition rec_load :: "rec_io \<Rightarrow> rec_files \<Rightarrow> recommender \<Rightarrow> recommender" where
  "rec_load c f r =
     (let stream = (\<lambda>bs. \<lparr>if_rest = bs, if_fail = False\<rparr>);
          (d1, ad) = (case ad_latent_file f of None \<Rightarrow> ([], ad_latent_vec_list r)
             | Some bs \<Rightarrow> let d = fst (read_block [] (stream bs)) in (d, snd (io_latent c) d));
          (d2, us) = (case user_latent_file f of None \<Rightarrow> (d1, user_feature_latent_vec_list r)
             | Some bs \<Rightarrow> let d = fst (read_block d1 (stream bs)) in (d, snd (io_latent c) d));
          (cl, im) = (case history_file f of None \<Rightarrow> (clicked_num r, impression_num r)
             | Some bs \<Rightarrow> (read_num (clicked_num r) bs, if length bs < 8 then impression_num r else read_num (impression_num r) (drop 8 bs)));
          (vals, ids, fm) = (case feature_info_file f of
               None \<Rightarrow> (id_values (feature_dict r), value_ids (feature_dict r), ad_features_map r)
             | Some bs \<Rightarrow> (let (d3, s) = read_block d2 (stream bs); vs = snd (io_values c) d3
                 in (vs, fold (\<lambda>i m. m(vs ! i \<mapsto> i)) [0..<length vs] (value_ids (feature_dict r)),
                     snd (io_features c) (fst (read_block d3 s)))))
      in r\<lparr>ad_latent_vec_list := ad, user_feature_latent_vec_list := us, clicked_num := cl, impression_num := im,
           feature_dict := \<lparr>id_values = vals, value_ids = ids\<rparr>, ad_features_map := fm\<rparr>)"

section \<open>Recommending\<close>

text \<open>
  \<open>order\<close> lists the keys of \<open>ad_latent_vec_list_\<close> in the order of the hash map; \<open>queue n items\<close>
  are the at most \<open>n\<close> items that \<open>ScoreSortedAdQueue\<close> keeps, in the order in which they are
  popped, lowest score first.
\<close>

type_synonym ad_queue = "nat \<Rightarrow> (string \<times> real) list \<Rightarrow> (string \<times> real) list"

fun score_ads :: "latent_map \<Rightarrow> latent_vec \<Rightarrow> string list \<Rightarrow> (string \<times> real) list option" where
  "score_ads m u [] = Some []"
| "score_ads m u (k # ks) =
     (case m k of
        None \<Rightarrow> score_ads m u ks
      | Some v \<Rightarrow> if v = [] then score_ads m u ks
          else Option.bind (affinity u v) (\<lambda>x. map_option ((#) (k, x)) (score_ads m u ks)))"

text \<open>The \<open>p\<close>-th popped item, possibly replaced by the \<open>p\<close>-th unviewed one.\<close>

definition replace_unviewed :: "recommender \<Rightarrow> bool \<Rightarrow> real \<Rightarrow> nat \<Rightarrow> string \<times> real \<Rightarrow> string \<times> real" where
  "replace_unviewed r has_unviewed default_score p item =
     (if has_unviewed \<and> snd item < default_score
      then (case getunviewed (unviewed_items r) p of
              None \<Rightarrow> item
            | Some u \<Rightarrow> if u < length (id_values (feature_dict r))
                        then (id_values (feature_dict r) ! u, default_score) else item)
      else item)"

definition doRecommend ::
  "ad_queue \<Rightarrow> string list \<Rightarrow> feature \<Rightarrow> nat \<Rightarrow> string list \<Rightarrow> bool \<Rightarrow> recommender \<Rightarrow> (string \<times> real) list option" where
  "doRecommend queue order user_info max_return cand rec_for_unview r =
     Option.bind (getCombinedUserLatentVec (user_feature_latent_vec_list r) (getUserLatentVecKeys user_info)) (\<lambda>u.
     let has_unviewed = (rec_for_unview \<and> unviewed_items r \<noteq> {})
     in Option.bind (score_ads (ad_latent_vec_list r) u (if cand = [] then order else cand)) (\<lambda>items.
        Option.bind (if has_unviewed then affinity u (default_latent r) else Some 0) (\<lambda>default_score.
        let popped = queue max_return items
        in Some (rev (map2 (replace_unviewed r has_unviewed default_score) [0..<length popped] popped)))))"

definition recommendFromCand ::
  "ad_queue \<Rightarrow> string list \<Rightarrow> feature \<Rightarrow> nat \<Rightarrow> string list \<Rightarrow> recommender \<Rightarrow> (string \<times> real) list option" where
  "recommendFromCand queue order user_info n cand r = doRecommend queue order user_info n cand False r"

definition recommend ::
  "ad_queue \<Rightarrow> string list \<Rightarrow> feature \<Rightarrow> nat \<Rightarrow> string list \<Rightarrow> recommender \<Rightarrow> (string \<times> real) list option" where
  "recommend queue order user_info n cand r = doRecommend queue order user_info n cand True r"

section \<open>Training\<close>

definition new_vec :: "(nat \<Rightarrow> nat) \<Rightarrow> nat \<Rightarrow> latent_vec" where
  "new_vec rnd n = map (\<lambda>j. real (rnd (n + j) mod 10)) [0..<LATENT_VEC_DIM]"

text \<open>
  The vectors of the user's features. A pointer into the map is its key; a feature seen for
  the first time gets a random vector and takes part only in a click.
\<close>

fun user_vectors ::
  "(nat \<Rightarrow> nat) \<Rightarrow> bool \<Rightarrow> string list \<Rightarrow> nat \<Rightarrow> latent_map \<Rightarrow> string list \<times> nat \<times> latent_map" where
  "user_vectors rnd clicked [] n m = ([], n, m)"
| "user_vectors rnd clicked (k # ks) n m =
     (case m k of
        None \<Rightarrow> (let (ps, n', m') = user_vectors rnd clicked ks (n + LATENT_VEC_DIM) (m(k \<mapsto> new_vec rnd n))
                 in (if clicked then k # ps else ps, n', m'))
      | Some _ \<Rightarrow> (let (ps, n', m') = user_vectors rnd clicked ks n m in (k # ps, n', m')))"

text \<open>
  The vectors of the ad. \<open>ad_feature_value_id_list_[key]\<close> makes an entry 0 for a key that has no
  number.
\<close>

fun ad_vectors ::
  "(nat \<Rightarrow> nat) \<Rightarrow> string list \<Rightarrow> nat \<Rightarrow> recommender \<Rightarrow> rec_error option \<times> recommender" where
  "ad_vectors rnd [] n r = (None, r)"
| "ad_vectors rnd (k # ks) n r =
     (let known = (ad_latent_vec_list r k \<noteq> None);
          r1 = (if known then r else r\<lparr>ad_latent_vec_list := (ad_latent_vec_list r)(k \<mapsto> new_vec rnd n)\<rparr>);
          d = feature_dict r1;
          d' = (if value_ids d k = None then d\<lparr>value_ids := (value_ids d)(k \<mapsto> 0)\<rparr> else d);
          i = the (value_ids d' k); r2 = r1\<lparr>feature_dict := d'\<rparr>
      in if i \<ge> MAX_AD_ITEMS then (Some BitOutOfRange, r2)
         else ad_vectors rnd ks (if known then n else n + LATENT_VEC_DIM)
                (r2\<lparr>unviewed_items := unviewed_items r2 - {i}\<rparr>))"

text \<open>One component of one ad vector: the ad moves by the mean of the users, then they by it.\<close>

definition grad_at ::
  "real \<Rightarrow> nat \<Rightarrow> latent_vec \<times> latent_vec list \<times> real \<Rightarrow> (latent_vec \<times> latent_vec list \<times> real) option" where
  "grad_at g k = (\<lambda>(ad, us, nmax).
     if k \<ge> LATENT_VEC_DIM then None
     else Option.bind (those (map (\<lambda>u. vec_at u k) us)) (\<lambda>xs.
       let c = (if us = [] then 1 else sum_list xs / real (length us)); a = ad ! k + g * c
       in Some (ad[k := a], map (\<lambda>u. u[k := u ! k + g * a]) us,
                fold (\<lambda>x n. max n \<bar>x + g * a\<bar>) xs (max nmax \<bar>a\<bar>))))"

definition grad_ad ::
  "real \<Rightarrow> latent_vec \<Rightarrow> latent_vec list \<Rightarrow> real \<Rightarrow> (latent_vec \<times> latent_vec list \<times> real) option" where
  "grad_ad g ad us nmax = fold (\<lambda>k acc. Option.bind acc (grad_at g k)) [0..<length ad] (Some (ad, us, nmax))"

fun grad_ads ::
  "real \<Rightarrow> latent_vec list \<Rightarrow> latent_vec list \<Rightarrow> real \<Rightarrow> (latent_vec list \<times> latent_vec list \<times> real) option" where
  "grad_ads g [] us nmax = Some ([], us, nmax)"
| "grad_ads g (ad # ads) us nmax =
     Option.bind (grad_ad g ad us nmax) (\<lambda>(ad', us', n').
       map_option (\<lambda>(ads', us'', n''). (ad' # ads', us'', n'')) (grad_ads g ads us' n'))"

definition write_back :: "string list \<Rightarrow> latent_vec list \<Rightarrow> latent_map \<Rightarrow> latent_map" where
  "write_back ks vs m = fold (\<lambda>(k, v) m. m(k \<mapsto> v)) (zip ks vs) m"

definition scale_map :: "real \<Rightarrow> latent_map \<Rightarrow> latent_map" where
  "scale_map nmax m = (if nmax > MAX_NORM then (\<lambda>k. map_option (map (\<lambda>x. x * (MAX_NORM / nmax))) (m k)) else m)"

definition count_view :: "bool \<Rightarrow> recommender \<Rightarrow> recommender" where
  "count_view clicked r =
     (let i = impression_num r + 1; c = (if clicked then clicked_num r + 1 else clicked_num r);
          r1 = r\<lparr>impression_num := i, clicked_num := c\<rparr>
      in if i mod 50000 = 0
         then r1\<lparr>learning_rate := 1 / real c,
                 ratio := - (SMOOTH * real c / real (i - c)) + (1 - SMOOTH) * ratio r1\<rparr>
         else r1)"

text \<open>The steps on copies of the vectors and the writing back of the copies.\<close>

definition train_vectors :: "bool \<Rightarrow> string list \<Rightarrow> string list \<Rightarrow> recommender \<Rightarrow> recommender option" where
  "train_vectors clicked uks aks r =
     (let g = (if clicked then learning_rate r else ratio r * learning_rate r)
      in map_option (\<lambda>(ads, us, nmax).
           r\<lparr>user_feature_latent_vec_list := scale_map nmax (write_back uks us (user_feature_latent_vec_list r)),
             ad_latent_vec_list := scale_map nmax (write_back aks ads (ad_latent_vec_list r))\<rparr>)
         (grad_ads g (map (\<lambda>k. the (ad_latent_vec_list r k)) aks) (map (\<lambda>k. the (user_feature_latent_vec_list r k)) uks) 0))"

definition rec_update ::
  "(nat \<Rightarrow> nat) \<Rightarrow> feature \<Rightarrow> string \<Rightarrow> bool \<Rightarrow> recommender \<Rightarrow> (rec_error option \<times> recommender) option" where
  "rec_update rnd user_info ad clicked r =
     (let r1 = count_view clicked r;
          (uks, n, um) = user_vectors rnd clicked (getUserLatentVecKeys user_info) 0 (user_feature_latent_vec_list r1);
          r2 = r1\<lparr>user_feature_latent_vec_list := um\<rparr>
      in Option.bind (getAdLatentVecKeys r2 ad) (\<lambda>aks.
         case ad_vectors rnd aks n r2 of
           (Some e, r3) \<Rightarrow> Some (Some e, r3)
         | (None, r3) \<Rightarrow> map_option (Pair None) (train_vectors clicked uks aks r3)))"

lemma rec_update_run:
  assumes "user_vectors rnd clicked (getUserLatentVecKeys user_info) 0 (user_feature_latent_vec_list (count_view clicked r)) = (uks, n, um)"
    and "getAdLatentVecKeys ((count_view clicked r)\<lparr>user_feature_latent_vec_list := um\<rparr>) ad = Some aks"
    and "ad_vectors rnd aks n ((count_view clicked r)\<lparr>user_feature_latent_vec_list := um\<rparr>) = (e, r3)"
  shows "rec_update rnd user_info ad clicked r =
    (case e of Some e \<Rightarrow> Some (Some e, r3) | None \<Rightarrow> map_option (Pair None) (train_vectors clicked uks aks r3))"
  by (simp only: rec_update_def Let_def assms prod.case Option.bind.bind_lunit)

lemma train_frame:
  "train_vectors clicked uks aks r = Some r' \<Longrightarrow>
   \<exists>m1 m2. r' = r\<lparr>user_feature_latent_vec_list := m1, ad_latent_vec_list := m2\<rparr>"
  unfolding train_vectors_def Let_def by (auto split: prod.splits)

section \<open>The numbering of features\<close>

interpretation fdict: id_dictionary feature_id value_ids dict_name dict_ok
proof
  fix d :: str_dict and k s :: string and i :: nat
  assume ok: "dict_ok d"
  show "dict_ok (snd (feature_id d k))"
    using ok dict_ok_new [OF ok] by (simp add: feature_id_def split: option.split)
  show "value_ids d k = Some i \<longleftrightarrow> dict_name d i = Some k"
    using ok by (simp add: dict_name_def dict_ok_def)
  show "dict_name (snd (feature_id d k)) (fst (feature_id d k)) = Some k"
    using ok by (auto simp: feature_id_def dict_name_def dict_ok_def split: option.split)
  show "dict_name d i = Some s \<Longrightarrow> dict_name (snd (feature_id d k)) i = Some s"
    by (auto simp: feature_id_def dict_name_def nth_append split: option.split)
qed

section \<open>Bounded vectors\<close>

definition vec_ok :: "real \<Rightarrow> latent_vec \<Rightarrow> bool" where
  "vec_ok b v \<longleftrightarrow> length v = LATENT_VEC_DIM \<and> (\<forall>x \<in> set v. \<bar>x\<bar> \<le> b)"

definition map_ok :: "real \<Rightarrow> latent_map \<Rightarrow> bool" where
  "map_ok b m \<longleftrightarrow> (\<forall>v \<in> ran m. vec_ok b v)"

lemma map_okD: "map_ok b m \<Longrightarrow> m k = Some v \<Longrightarrow> vec_ok b v"
  by (auto simp: map_ok_def ran_def)

lemma map_ok_upd: "map_ok b m \<Longrightarrow> vec_ok b v \<Longrightarrow> map_ok b (m(k \<mapsto> v))"
  by (auto simp: map_ok_def ran_def split: if_splits)

lemma vec_ok_mono: "vec_ok b v \<Longrightarrow> b \<le> c \<Longrightarrow> vec_ok c v"
  by (auto simp: vec_ok_def)

lemma map_ok_mono: "map_ok b m \<Longrightarrow> b \<le> c \<Longrightarrow> map_ok c m"
  by (auto simp: map_ok_def intro: vec_ok_mono)

lemma vec_ok_upd: "vec_ok b v \<Longrightarrow> \<bar>x\<bar> \<le> b \<Longrightarrow> vec_ok b (v[k := x])"
  by (auto simp: vec_ok_def dest!: set_update_subset_insert [THEN subsetD])

lemma new_vec_ok: "vec_ok MAX_NORM (new_vec rnd n)"
proof -
  have "real (m mod 10) \<le> 100" for m :: nat
  proof -
    have "m mod 10 \<le> 100" using mod_less_divisor [of 10 m] by linarith
    then show ?thesis by linarith
  qed
  then show ?thesis by (auto simp: vec_ok_def new_vec_def MAX_NORM_def)
qed

lemma user_vectors_ok:
  assumes "user_vectors rnd clicked ks n m = (ps, n', m')" and "map_ok MAX_NORM m"
  shows "map_ok MAX_NORM m'" and "set ps \<subseteq> dom m'" and "m \<subseteq>\<^sub>m m'"
proof -
  have "user_vectors rnd clicked ks n m = (ps, n', m') \<Longrightarrow> map_ok MAX_NORM m \<Longrightarrow>
      map_ok MAX_NORM m' \<and> set ps \<subseteq> dom m' \<and> m \<subseteq>\<^sub>m m'" for ps n' m'
  proof (induction rnd clicked ks n m arbitrary: ps n' m' rule: user_vectors.induct)
    case (1 rnd clicked n m)
    then show ?case by simp
  next
    case (2 rnd clicked k ks n m)
    show ?case
    proof (cases "m k")
      case None
      obtain qs n1 m1 where u: "user_vectors rnd clicked ks (n + LATENT_VEC_DIM) (m(k \<mapsto> new_vec rnd n)) = (qs, n1, m1)"
        by (metis prod_cases3)
      have "map_ok MAX_NORM (m(k \<mapsto> new_vec rnd n))" by (rule map_ok_upd [OF "2.prems"(2) new_vec_ok])
      from "2.IH"(1) [OF None u this] have i: "map_ok MAX_NORM m1" "set qs \<subseteq> dom m1" "m(k \<mapsto> new_vec rnd n) \<subseteq>\<^sub>m m1" by blast+
      have "m \<subseteq>\<^sub>m m(k \<mapsto> new_vec rnd n)" using None by (auto simp: map_le_def)
      then have "m \<subseteq>\<^sub>m m1" using i(3) map_le_trans by blast
      moreover have "(m(k \<mapsto> new_vec rnd n)) k = m1 k" using i(3) by (auto simp: map_le_def)
      then have "k \<in> dom m1" by (simp add: domI [OF sym])
      ultimately show ?thesis using "2.prems"(1) None u i by (auto split: if_splits)
    next
      case (Some v)
      obtain qs n1 m1 where u: "user_vectors rnd clicked ks n m = (qs, n1, m1)" by (metis prod_cases3)
      from "2.IH"(2) [OF Some u "2.prems"(2)] have i: "map_ok MAX_NORM m1" "set qs \<subseteq> dom m1" "m \<subseteq>\<^sub>m m1" by blast+
      have "k \<in> dom m1" using i(3) Some by (metis domI map_le_def)
      with i show ?thesis using "2.prems"(1) Some u by auto
    qed
  qed
  with assms show "map_ok MAX_NORM m'" "set ps \<subseteq> dom m'" "m \<subseteq>\<^sub>m m'" by blast+
qed

section \<open>Gradient steps stay within the recorded maximum\<close>

lemma fold_max_ge: "(a :: real) \<le> fold (\<lambda>x n. max n (f x)) xs a"
  by (induction xs arbitrary: a) (auto intro: order_trans [OF max.cobounded1])

lemma fold_max_mem: "x \<in> set xs \<Longrightarrow> (f x :: real) \<le> fold (\<lambda>x n. max n (f x)) xs a"
proof (induction xs arbitrary: a)
  case (Cons y ys)
  show ?case
  proof (cases "x \<in> set ys")
    case False
    then have "f x \<le> max a (f y)" using Cons.prems by simp
    from order_trans [OF this fold_max_ge] show ?thesis by simp
  qed (use Cons.IH in simp)
qed simp

lemma fold_max_attained: "fold (\<lambda>x n. max n (f x)) xs a = (a :: real) \<or> (\<exists>x \<in> set xs. fold (\<lambda>x n. max n (f x)) xs a = f x)"
proof (induction xs arbitrary: a)
  case (Cons x xs)
  show ?case using Cons.IH [of "max a (f x)"] by (auto simp: max_def)
qed simp

lemma grad_at_ok:
  assumes "vec_ok (max b n) ad" and "\<forall>u \<in> set us. vec_ok (max b n) u" and "k < LATENT_VEC_DIM"
  shows "\<exists>ad' us' n'. grad_at g k (ad, us, n) = Some (ad', us', n') \<and> n \<le> n' \<and> length us' = length us \<and>
    vec_ok (max b n') ad' \<and> (\<forall>u \<in> set us'. vec_ok (max b n') u)"
proof -
  define xs where "xs = map (\<lambda>u. u ! k) us"
  define a where "a = ad ! k + g * (if us = [] then 1 else sum_list xs / real (length us))"
  define n' where "n' = fold (\<lambda>x n. max n \<bar>x + g * a\<bar>) xs (max n \<bar>a\<bar>)"
  have l: "\<forall>u \<in> set us. k < length u" using assms by (auto simp: vec_ok_def)
  then have "those (map (\<lambda>u. vec_at u k) us) = Some xs" by (auto simp: those_eq_Some xs_def vec_at_def)
  then have r: "grad_at g k (ad, us, n) = Some (ad[k := a], map (\<lambda>u. u[k := u ! k + g * a]) us, n')"
    using assms(3) by (simp add: grad_at_def a_def n'_def Let_def)
  have m: "max n \<bar>a\<bar> \<le> n'" unfolding n'_def by (rule fold_max_ge)
  have u: "\<bar>u ! k + g * a\<bar> \<le> n'" if "u \<in> set us" for u
    unfolding n'_def using that by (intro fold_max_mem [where f = "\<lambda>x. \<bar>x + g * a\<bar>"]) (simp add: xs_def)
  have n: "max b n \<le> max b n'" using m by linarith
  have "vec_ok (max b n') (ad[k := a])" using vec_ok_upd [OF vec_ok_mono [OF assms(1) n]] m by (simp add: le_max_iff_disj)
  moreover have "\<forall>u \<in> set us. vec_ok (max b n') (u[k := u ! k + g * a])"
    using assms(2) u vec_ok_upd [OF vec_ok_mono [OF _ n]] by (metis le_max_iff_disj)
  ultimately show ?thesis using r m by auto
qed

lemma grad_fold_ok:
  assumes "\<forall>k \<in> set ks. k < LATENT_VEC_DIM" and "vec_ok (max b n) ad" and "\<forall>u \<in> set us. vec_ok (max b n) u"
  shows "\<exists>ad' us' n'. fold (\<lambda>k acc. Option.bind acc (grad_at g k)) ks (Some (ad, us, n)) = Some (ad', us', n') \<and> n \<le> n' \<and>
    length us' = length us \<and> vec_ok (max b n') ad' \<and> (\<forall>u \<in> set us'. vec_ok (max b n') u)"
  using assms
proof (induction ks arbitrary: ad us n)
  case (Cons k ks)
  then obtain ad1 us1 n1 where "grad_at g k (ad, us, n) = Some (ad1, us1, n1)" "n \<le> n1" "length us1 = length us"
    "vec_ok (max b n1) ad1" "\<forall>u \<in> set us1. vec_ok (max b n1) u"
    using grad_at_ok [of b n ad us k g] by auto
  with Cons.IH [of n1 ad1 us1] Cons.prems(1) show ?case by fastforce
qed auto

lemma grad_ads_ok:
  assumes "\<forall>ad \<in> set ads. vec_ok (max b n) ad" and "\<forall>u \<in> set us. vec_ok (max b n) u"
  shows "\<exists>ads' us' n'. grad_ads g ads us n = Some (ads', us', n') \<and> n \<le> n' \<and> length ads' = length ads \<and> length us' = length us \<and>
    (\<forall>ad \<in> set ads'. vec_ok (max b n') ad) \<and> (\<forall>u \<in> set us'. vec_ok (max b n') u)"
  using assms
proof (induction ads arbitrary: us n)
  case (Cons ad ads)
  have "\<forall>k \<in> set [0..<length ad]. k < LATENT_VEC_DIM" using Cons.prems(1) by (simp add: vec_ok_def)
  from grad_fold_ok [OF this, of b n ad us g] Cons.prems obtain ad1 us1 n1 where
    1: "grad_ad g ad us n = Some (ad1, us1, n1)" "n \<le> n1" "length us1 = length us"
      "vec_ok (max b n1) ad1" "\<forall>u \<in> set us1. vec_ok (max b n1) u"
    unfolding grad_ad_def by auto
  have "max b n \<le> max b n1" using 1(2) by linarith
  then have "\<forall>ad \<in> set ads. vec_ok (max b n1) ad" using Cons.prems(1) vec_ok_mono by (metis list.set_intros(2))
  from Cons.IH [OF this 1(5)] obtain ads2 us2 n2 where
    2: "grad_ads g ads us1 n1 = Some (ads2, us2, n2)" "n1 \<le> n2" "length ads2 = length ads" "length us2 = length us1"
      "\<forall>ad \<in> set ads2. vec_ok (max b n2) ad" "\<forall>u \<in> set us2. vec_ok (max b n2) u" by blast
  have "vec_ok (max b n2) ad1" by (rule vec_ok_mono [OF 1(4)]) (use 2(2) in linarith)
  with 1 2 show ?case by auto
qed auto

lemma write_back_ok:
  assumes "map_ok b m" and "\<forall>v \<in> set vs. vec_ok b v"
  shows "map_ok b (write_back ks vs m)"
proof -
  have "\<forall>(k, v) \<in> set kvs. vec_ok b v \<Longrightarrow> map_ok b m \<Longrightarrow> map_ok b (fold (\<lambda>(k, v) m. m(k \<mapsto> v)) kvs m)" for kvs :: "(string \<times> latent_vec) list" and m
    by (induction kvs arbitrary: m) (auto intro: map_ok_upd)
  moreover have "\<forall>(k, v) \<in> set (zip ks vs). vec_ok b v" using assms(2) by (auto dest: set_zip_rightD)
  ultimately show ?thesis using assms(1) by (simp add: write_back_def)
qed

lemma scale_map_ok:
  assumes "map_ok (max MAX_NORM n) m"
  shows "map_ok MAX_NORM (scale_map n m)"
proof (cases "n > MAX_NORM")
  case True
  have p: "0 < MAX_NORM" by (simp add: MAX_NORM_def)
  have "\<bar>x * (MAX_NORM / n)\<bar> \<le> MAX_NORM" if "\<bar>x\<bar> \<le> n" for x
  proof -
    have "\<bar>x * (MAX_NORM / n)\<bar> = \<bar>x\<bar> * (MAX_NORM / n)" using p True by (simp add: abs_mult)
    also have "\<dots> \<le> n * (MAX_NORM / n)" using that p True by (intro mult_right_mono) simp_all
    finally show ?thesis using p True by simp
  qed
  then have "vec_ok MAX_NORM (map (\<lambda>x. x * (MAX_NORM / n)) v)" if "vec_ok n v" for v
    using that by (auto simp: vec_ok_def)
  moreover have "max MAX_NORM n = n" using True by simp
  ultimately show ?thesis using assms True by (auto simp: scale_map_def map_ok_def ran_def)
qed (use assms in \<open>simp add: scale_map_def max_def\<close>)

section \<open>The invariant of the recommender\<close>

definition rec_ok :: "recommender \<Rightarrow> bool" where
  "rec_ok r \<longleftrightarrow> map_ok MAX_NORM (ad_latent_vec_list r) \<and> map_ok MAX_NORM (user_feature_latent_vec_list r) \<and>
     1 \<le> clicked_num r \<and> clicked_num r < impression_num r \<and> 0 \<le> learning_rate r \<and> ratio r \<le> 0 \<and>
     length (default_latent r) = LATENT_VEC_DIM \<and>
     (use_ad_feature r \<longrightarrow> dict_ok (feature_dict r) \<and>
        (\<forall>ids \<in> ran (ad_features_map r). \<forall>i \<in> set ids. i < length (id_values (feature_dict r))))"

lemma ad_vectors_ok:
  assumes "ad_vectors rnd ks n r = (e, r')" and "map_ok MAX_NORM (ad_latent_vec_list r)"
  shows "map_ok MAX_NORM (ad_latent_vec_list r') \<and> ad_latent_vec_list r \<subseteq>\<^sub>m ad_latent_vec_list r' \<and>
    (e = None \<longrightarrow> set ks \<subseteq> dom (ad_latent_vec_list r')) \<and>
    (\<exists>m d u. r' = r\<lparr>ad_latent_vec_list := m, feature_dict := d, unviewed_items := u\<rparr>) \<and>
    ((\<forall>k \<in> set ks. value_ids (feature_dict r) k \<noteq> None) \<longrightarrow> feature_dict r' = feature_dict r)"
  using assms
proof (induction ks arbitrary: n r)
  case Nil
  have "r = r\<lparr>ad_latent_vec_list := ad_latent_vec_list r, feature_dict := feature_dict r, unviewed_items := unviewed_items r\<rparr>" by simp
  then have "\<exists>m d u. r = r\<lparr>ad_latent_vec_list := m, feature_dict := d, unviewed_items := u\<rparr>" by blast
  then show ?case using Nil.prems by simp
next
  case (Cons k ks)
  define m1 where "m1 = (if ad_latent_vec_list r k \<noteq> None then ad_latent_vec_list r else (ad_latent_vec_list r)(k \<mapsto> new_vec rnd n))"
  define d' where "d' = (if value_ids (feature_dict r) k = None
      then (feature_dict r)\<lparr>value_ids := (value_ids (feature_dict r))(k \<mapsto> 0)\<rparr> else feature_dict r)"
  define r2 where "r2 = r\<lparr>ad_latent_vec_list := m1, feature_dict := d'\<rparr>"
  define i where "i = the (value_ids d' k)"
  define r3 where "r3 = r2\<lparr>unviewed_items := unviewed_items r2 - {i}\<rparr>"
  have r: "ad_vectors rnd (k # ks) n r = (if i \<ge> MAX_AD_ITEMS then (Some BitOutOfRange, r2)
      else ad_vectors rnd ks (if ad_latent_vec_list r k \<noteq> None then n else n + LATENT_VEC_DIM) r3)"
    by (simp add: m1_def d'_def r2_def i_def r3_def Let_def)
  have m: "map_ok MAX_NORM m1" "ad_latent_vec_list r \<subseteq>\<^sub>m m1" "k \<in> dom m1"
    using Cons.prems(2) by (auto simp: m1_def map_le_def intro!: map_ok_upd new_vec_ok)
  have d: "value_ids (feature_dict r) k \<noteq> None \<Longrightarrow> d' = feature_dict r" by (auto simp: d'_def)
  show ?case
  proof (cases "i \<ge> MAX_AD_ITEMS")
    case True
    then have e: "e = Some BitOutOfRange" "r' = r2" using Cons.prems(1) r by simp_all
    have "r2 = r\<lparr>ad_latent_vec_list := m1, feature_dict := d', unviewed_items := unviewed_items r\<rparr>" by (simp add: r2_def)
    then have "\<exists>m d u. r2 = r\<lparr>ad_latent_vec_list := m, feature_dict := d, unviewed_items := u\<rparr>" by blast
    then show ?thesis unfolding e using m d by (simp add: r2_def)
  next
    case False
    then have a: "ad_vectors rnd ks (if ad_latent_vec_list r k \<noteq> None then n else n + LATENT_VEC_DIM) r3 = (e, r')"
      using Cons.prems(1) r by simp
    have "map_ok MAX_NORM (ad_latent_vec_list r3)" using m(1) by (simp add: r3_def r2_def)
    note IH = Cons.IH [OF a this]
    have s: "ad_latent_vec_list r3 = m1" "feature_dict r3 = d'" by (simp_all add: r3_def r2_def)
    have le: "m1 \<subseteq>\<^sub>m ad_latent_vec_list r'" using IH [THEN conjunct2, THEN conjunct1] s(1) by simp
    then have "ad_latent_vec_list r \<subseteq>\<^sub>m ad_latent_vec_list r'" by (rule map_le_trans [OF m(2)])
    moreover have "k \<in> dom (ad_latent_vec_list r')" using map_le_implies_dom_le [OF le] m(3) by blast
    moreover obtain m' d2 u where "r' = r3\<lparr>ad_latent_vec_list := m', feature_dict := d2, unviewed_items := u\<rparr>" using IH by blast
    then have "r' = r\<lparr>ad_latent_vec_list := m', feature_dict := d2, unviewed_items := u\<rparr>" by (simp add: r3_def r2_def)
    then have "\<exists>m d u. r' = r\<lparr>ad_latent_vec_list := m, feature_dict := d, unviewed_items := u\<rparr>" by blast
    moreover have "feature_dict r' = feature_dict r" if k: "\<forall>k' \<in> set (k # ks). value_ids (feature_dict r) k' \<noteq> None"
    proof -
      have "feature_dict r3 = feature_dict r" using d k s(2) by simp
      then show ?thesis using IH k by simp
    qed
    ultimately show ?thesis using IH [THEN conjunct1] IH [THEN conjunct2, THEN conjunct2, THEN conjunct1] by simp
  qed
qed

lemma count_view_ok: "rec_ok r \<Longrightarrow> rec_ok (count_view clicked r)"
proof -
  assume ok: "rec_ok r"
  let ?c = "if clicked then clicked_num r + 1 else clicked_num r" and ?i = "impression_num r + 1"
  have "0 \<le> SMOOTH * real ?c / real (?i - ?c)" by (simp add: SMOOTH_def)
  moreover have "(1 - SMOOTH) * ratio r \<le> 0" using ok by (simp add: rec_ok_def SMOOTH_def)
  ultimately have "- (SMOOTH * real ?c / real (?i - ?c)) + (1 - SMOOTH) * ratio r \<le> 0"
    by (intro add_nonpos_nonpos) simp_all
  then show ?thesis using ok unfolding count_view_def Let_def rec_ok_def by (simp split: if_splits)
qed

lemma ad_keys_known:
  assumes "rec_ok r"
  obtains aks where "getAdLatentVecKeys r ad = Some aks"
    and "use_ad_feature r \<longrightarrow> (\<forall>k \<in> set aks. value_ids (feature_dict r) k \<noteq> None)"
proof (cases "use_ad_feature r \<and> ad_features_map r ad \<noteq> None")
  case True
  then obtain ids where i: "ad_features_map r ad = Some ids" by auto
  have d: "dict_ok (feature_dict r)" and l: "\<forall>i \<in> set ids. i < length (id_values (feature_dict r))"
    using assms True i by (auto simp: rec_ok_def ran_def)
  let ?aks = "map (\<lambda>i. id_values (feature_dict r) ! i) ids"
  have "those (map (vec_at (id_values (feature_dict r))) ids) = Some ?aks"
    using l by (auto simp: those_eq_Some vec_at_def)
  moreover have "\<forall>k \<in> set ?aks. value_ids (feature_dict r) k \<noteq> None" using d l by (fastforce simp: dict_ok_def)
  ultimately show ?thesis using that True i by (simp add: getAdLatentVecKeys_def)
next
  case False
  then show ?thesis using that [of "if use_ad_feature r then [] else [ad]"] by (auto simp: getAdLatentVecKeys_def)
qed

lemma vectors_found:
  assumes "map_ok b m" and "set ks \<subseteq> dom m"
  shows "\<forall>v \<in> set (map (\<lambda>k. the (m k)) ks). vec_ok b v"
  using assms map_okD by fastforce

lemma rec_update_keeps:
  assumes "rec_ok r"
  shows "\<exists>e r'. rec_update rnd user_info ad clicked r = Some (e, r') \<and> rec_ok r' \<and>
    impression_num r' = impression_num r + 1 \<and> clicked_num r' = clicked_num r + (if clicked then 1 else 0)"
proof -
  define r1 where "r1 = count_view clicked r"
  have ok1: "rec_ok r1" unfolding r1_def by (rule count_view_ok [OF assms])
  obtain uks n um where u: "user_vectors rnd clicked (getUserLatentVecKeys user_info) 0 (user_feature_latent_vec_list r1) = (uks, n, um)"
    by (metis prod_cases3)
  have um: "map_ok MAX_NORM um" "set uks \<subseteq> dom um" using user_vectors_ok [OF u] ok1 by (auto simp: rec_ok_def)
  define r2 where "r2 = r1\<lparr>user_feature_latent_vec_list := um\<rparr>"
  have ok2: "rec_ok r2" using ok1 um(1) by (simp add: rec_ok_def r2_def)
  obtain aks where aks: "getAdLatentVecKeys r2 ad = Some aks" "use_ad_feature r2 \<longrightarrow> (\<forall>k \<in> set aks. value_ids (feature_dict r2) k \<noteq> None)"
    by (rule ad_keys_known [OF ok2])
  obtain e r3 where v: "ad_vectors rnd aks n r2 = (e, r3)" by fastforce
  have "map_ok MAX_NORM (ad_latent_vec_list r2)" using ok2 by (simp add: rec_ok_def)
  note w = ad_vectors_ok [OF v this]
  obtain m d uv where r3: "r3 = r2\<lparr>ad_latent_vec_list := m, feature_dict := d, unviewed_items := uv\<rparr>" using w by blast
  have ok3: "rec_ok r3" using ok2 w aks(2) unfolding rec_ok_def r3 by (cases "use_ad_feature r2") auto
  have c3: "impression_num r3 = impression_num r + 1" "clicked_num r3 = clicked_num r + (if clicked then 1 else 0)"
    by (simp_all add: r3 r2_def r1_def count_view_def Let_def)
  note run = rec_update_run [OF u [unfolded r1_def] aks(1) [unfolded r2_def r1_def] v [unfolded r2_def r1_def]]
  show ?thesis
  proof (cases e)
    case (Some x)
    then show ?thesis using run ok3 c3 by auto
  next
    case None
    let ?g = "if clicked then learning_rate r3 else ratio r3 * learning_rate r3"
    have m3: "map_ok MAX_NORM (ad_latent_vec_list r3)" "map_ok MAX_NORM (user_feature_latent_vec_list r3)"
      using ok3 by (auto simp: rec_ok_def)
    have z: "max MAX_NORM 0 = MAX_NORM" by (simp add: MAX_NORM_def)
    have "set aks \<subseteq> dom (ad_latent_vec_list r3)" "set uks \<subseteq> dom (user_feature_latent_vec_list r3)"
      using w None um(2) by (auto simp: r3 r2_def)
    note f = vectors_found [OF m3(1) this(1)] vectors_found [OF m3(2) this(2)]
    from grad_ads_ok [of _ MAX_NORM 0, unfolded z, OF f, of ?g] obtain ads us nmax where g: "grad_ads ?g (map (\<lambda>k. the (ad_latent_vec_list r3 k)) aks)
        (map (\<lambda>k. the (user_feature_latent_vec_list r3 k)) uks) 0 = Some (ads, us, nmax)"
      "\<forall>ad \<in> set ads. vec_ok (max MAX_NORM nmax) ad" "\<forall>u \<in> set us. vec_ok (max MAX_NORM nmax) u"
      by blast
    have l: "MAX_NORM \<le> max MAX_NORM nmax" by simp
    note sc = scale_map_ok [OF write_back_ok [OF map_ok_mono [OF m3(2) l] g(3)], of uks]
      scale_map_ok [OF write_back_ok [OF map_ok_mono [OF m3(1) l] g(2)], of aks]
    let ?r = "r3\<lparr>user_feature_latent_vec_list := scale_map nmax (write_back uks us (user_feature_latent_vec_list r3)),
        ad_latent_vec_list := scale_map nmax (write_back aks ads (ad_latent_vec_list r3))\<rparr>"
    have "rec_update rnd user_info ad clicked r = Some (None, ?r)"
      using run None g(1) by (simp add: train_vectors_def Let_def)
    moreover have "rec_ok ?r" using ok3 sc by (simp add: rec_ok_def)
    ultimately show ?thesis using c3 by simp
  qed
qed

lemma add_features_ok:
  assumes "rec_ok r" and "\<forall>i \<in> set ids. use_ad_feature r \<longrightarrow> i < length (id_values (feature_dict r))"
  shows "rec_ok (snd (add_features ad ss ids r))"
  using assms
proof (induction ss arbitrary: ids r)
  case (Cons s ss)
  obtain i d where f: "feature_id (feature_dict r) s = (i, d)" by fastforce
  let ?known = "value_ids (feature_dict r) s \<noteq> None"
  let ?r = "r\<lparr>feature_dict := d, unviewed_items := (if ?known then unviewed_items r else insert i (unviewed_items r)),
      ad_features_map := (ad_features_map r)(ad \<mapsto> insort_insert i ids)\<rparr>"
  have run: "add_features ad (s # ss) ids r = (if \<not> ?known \<and> i \<ge> MAX_AD_ITEMS then (Some BitOutOfRange, r\<lparr>feature_dict := d\<rparr>)
      else add_features ad ss (insort_insert i ids) ?r)"
    using f by (simp add: Let_def)
  have len: "length (id_values (feature_dict r)) \<le> length (id_values d)"
    using f by (auto simp: feature_id_def split: option.splits)
  have use: "dict_ok d \<and> i < length (id_values d)" if "use_ad_feature r"
  proof -
    have ok: "dict_ok (feature_dict r)" using Cons.prems(1) that by (simp add: rec_ok_def)
    then show ?thesis using fdict.add_ok [OF ok, of s] fdict.name_added [OF ok, of s] f by (simp add: dict_name_def)
  qed
  have ids: "\<forall>j \<in> set (insort_insert i ids). use_ad_feature r \<longrightarrow> j < length (id_values d)"
    using Cons.prems(2) use len by (auto simp: set_insort_insert)
  have r1: "rec_ok (r\<lparr>feature_dict := d\<rparr>)" using Cons.prems(1) use len by (fastforce simp: rec_ok_def)
  then have "rec_ok ?r" using ids by (auto simp: rec_ok_def ran_def)
  from Cons.IH [OF this, of "insort_insert i ids"] ids r1 run show ?case by simp
qed simp

section \<open>One step of training\<close>

text \<open>The mean of the user vectors in one component.\<close>

definition mean_at :: "latent_vec list \<Rightarrow> nat \<Rightarrow> real" where
  "mean_at us k = sum_list (map (\<lambda>u. u ! k) us) / real (length us)"

lemma grad_at_value:
  assumes "us \<noteq> []" and "\<forall>u \<in> set us. length u = LATENT_VEC_DIM" and "k < LATENT_VEC_DIM"
  shows "\<exists>n'. grad_at g k (ad, us, n) = Some (ad[k := ad ! k + g * mean_at us k],
    map (\<lambda>u. u[k := u ! k + g * (ad ! k + g * mean_at us k)]) us, n') \<and>
    (n' = n \<or> n' = \<bar>ad ! k + g * mean_at us k\<bar> \<or> (\<exists>u \<in> set us. n' = \<bar>u ! k + g * (ad ! k + g * mean_at us k)\<bar>))"
proof -
  let ?a = "ad ! k + g * mean_at us k" and ?xs = "map (\<lambda>u. u ! k) us"
  have "those (map (\<lambda>u. vec_at u k) us) = Some ?xs"
    using assms(2,3) by (simp add: those_eq_Some vec_at_def)
  then have "grad_at g k (ad, us, n) = Some (ad[k := ?a], map (\<lambda>u. u[k := u ! k + g * ?a]) us, fold (\<lambda>x n. max n \<bar>x + g * ?a\<bar>) ?xs (max n \<bar>?a\<bar>))"
    using assms(1,3) by (simp add: grad_at_def Let_def mean_at_def)
  moreover have "fold (\<lambda>x n. max n \<bar>x + g * ?a\<bar>) ?xs (max n \<bar>?a\<bar>) \<in> {n, \<bar>?a\<bar>} \<union> (\<lambda>u. \<bar>u ! k + g * ?a\<bar>) ` set us"
    using fold_max_attained [of "\<lambda>x. \<bar>x + g * ?a\<bar>" ?xs "max n \<bar>?a\<bar>"] by (auto simp: max_def split: if_splits)
  ultimately show ?thesis by blast
qed

text \<open>The recorded maximum is one of the components written.\<close>

definition attained :: "real \<Rightarrow> nat \<Rightarrow> latent_vec \<Rightarrow> latent_vec list \<Rightarrow> bool" where
  "attained n K ad us \<longleftrightarrow> (\<exists>k < K. n = \<bar>ad ! k\<bar> \<or> (\<exists>j < length us. n = \<bar>us ! j ! k\<bar>))"

lemma attained_later:
  assumes "attained n K ad us" and "length us' = length us"
    and "\<forall>k < K. ad' ! k = ad ! k \<and> (\<forall>j < length us. us' ! j ! k = us ! j ! k)"
  shows "attained n (Suc K) ad' us'"
  using assms unfolding attained_def by (metis less_SucI)

lemma grad_ad_value:
  assumes "us \<noteq> []" and "\<forall>u \<in> set us. length u = LATENT_VEC_DIM" and "length ad = LATENT_VEC_DIM"
  shows "\<exists>ad' us' n'. grad_ad g ad us n = Some (ad', us', n') \<and> length ad' = LATENT_VEC_DIM \<and> length us' = length us \<and>
    (\<forall>k < LATENT_VEC_DIM. ad' ! k = ad ! k + g * mean_at us k \<and>
       (\<forall>j < length us. length (us' ! j) = LATENT_VEC_DIM \<and> us' ! j ! k = us ! j ! k + g * ad' ! k)) \<and>
    (n' = n \<or> attained n' LATENT_VEC_DIM ad' us')"
proof -
  have "\<exists>ad' us' n'. fold (\<lambda>k acc. Option.bind acc (grad_at g k)) [0..<K] (Some (ad, us, n)) = Some (ad', us', n') \<and>
      length ad' = LATENT_VEC_DIM \<and> length us' = length us \<and> (\<forall>j < length us. length (us' ! j) = LATENT_VEC_DIM) \<and>
      (n' = n \<or> attained n' K ad' us') \<and>
      (\<forall>k < LATENT_VEC_DIM. if k < K
         then ad' ! k = ad ! k + g * mean_at us k \<and> (\<forall>j < length us. us' ! j ! k = us ! j ! k + g * ad' ! k)
         else ad' ! k = ad ! k \<and> (\<forall>j < length us. us' ! j ! k = us ! j ! k))"
    if "K \<le> LATENT_VEC_DIM" for K
    using that
  proof (induction K)
    case 0
    then show ?case using assms by simp
  next
    case (Suc K)
    then obtain ad1 us1 n1 where 1: "fold (\<lambda>k acc. Option.bind acc (grad_at g k)) [0..<K] (Some (ad, us, n)) = Some (ad1, us1, n1)"
      and l: "length ad1 = LATENT_VEC_DIM" "length us1 = length us" "\<forall>j < length us. length (us1 ! j) = LATENT_VEC_DIM"
      and n: "n1 = n \<or> attained n1 K ad1 us1"
      and v: "\<forall>k < LATENT_VEC_DIM. if k < K
         then ad1 ! k = ad ! k + g * mean_at us k \<and> (\<forall>j < length us. us1 ! j ! k = us ! j ! k + g * ad1 ! k)
         else ad1 ! k = ad ! k \<and> (\<forall>j < length us. us1 ! j ! k = us ! j ! k)" by auto
    have "map (\<lambda>u. u ! K) us1 = map (\<lambda>u. u ! K) us" using v Suc.prems l by (intro nth_equalityI) auto
    then have mean: "mean_at us1 K = mean_at us K" using l(2) by (simp add: mean_at_def)
    have a: "ad1 ! K = ad ! K" using v Suc.prems by auto
    have "us1 \<noteq> []" "\<forall>u \<in> set us1. length u = LATENT_VEC_DIM" using assms(1) l by (auto simp: in_set_conv_nth)
    from grad_at_value [OF this, of K g ad1 n1] Suc.prems obtain n2 where
      2: "grad_at g K (ad1, us1, n1) = Some (ad1[K := ad ! K + g * mean_at us K],
            map (\<lambda>u. u[K := u ! K + g * (ad ! K + g * mean_at us K)]) us1, n2)"
      and n2: "n2 = n1 \<or> n2 = \<bar>ad ! K + g * mean_at us K\<bar> \<or> (\<exists>u \<in> set us1. n2 = \<bar>u ! K + g * (ad ! K + g * mean_at us K)\<bar>)"
      by (auto simp: mean a)
    let ?ad = "ad1[K := ad ! K + g * mean_at us K]" and ?us = "map (\<lambda>u. u[K := u ! K + g * (ad ! K + g * mean_at us K)]) us1"
    have "fold (\<lambda>k acc. Option.bind acc (grad_at g k)) [0..<Suc K] (Some (ad, us, n)) = Some (?ad, ?us, n2)"
      using 1 2 by simp
    moreover have "if k < Suc K
         then ?ad ! k = ad ! k + g * mean_at us k \<and> (\<forall>j < length us. ?us ! j ! k = us ! j ! k + g * ?ad ! k)
         else ?ad ! k = ad ! k \<and> (\<forall>j < length us. ?us ! j ! k = us ! j ! k)" if k: "k < LATENT_VEC_DIM" for k
      using v [rule_format, OF k] k l Suc.prems by (cases "k = K") (auto simp: less_Suc_eq)
    moreover have "length ?ad = LATENT_VEC_DIM" "length ?us = length us" "\<forall>j < length us. length (?us ! j) = LATENT_VEC_DIM"
      using l by simp_all
    moreover have "n2 = n \<or> attained n2 (Suc K) ?ad ?us"
    proof (cases "n2 = n1")
      case True
      then show ?thesis using n l attained_later [of n1 K ad1 us1 ?us ?ad] by auto
    next
      case False
      with n2 show ?thesis
      proof (elim disjE bexE)
        fix u
        assume u: "u \<in> set us1" "n2 = \<bar>u ! K + g * (ad ! K + g * mean_at us K)\<bar>"
        then obtain j where "j < length us1" "u = us1 ! j" by (metis in_set_conv_nth)
        then have "n2 = \<bar>?us ! j ! K\<bar>" "j < length ?us" using u(2) l Suc.prems by auto
        then show ?thesis unfolding attained_def by blast
      next
        assume "n2 = \<bar>ad ! K + g * mean_at us K\<bar>"
        then have "n2 = \<bar>?ad ! K\<bar>" using l(1) Suc.prems by simp
        then show ?thesis unfolding attained_def by blast
      qed simp
    qed
    ultimately show ?case by blast
  qed
  from this [of LATENT_VEC_DIM] show ?thesis using assms(3) unfolding grad_ad_def by auto
qed

lemma mean_moved:
  assumes "length us' = length us" and "us \<noteq> []" and "\<forall>j < length us. us' ! j ! k = us ! j ! k + d"
  shows "mean_at us' k = mean_at us k + d"
proof -
  have "map (\<lambda>u. u ! k) us' = map (\<lambda>u. u ! k + d) us" using assms by (intro nth_equalityI) auto
  then have "sum_list (map (\<lambda>u. u ! k) us') = sum_list (map (\<lambda>u. u ! k) us) + real (length us) * d"
    by (simp add: sum_list_addf sum_list_triv)
  then show ?thesis using assms(1,2) by (simp add: mean_at_def field_simps)
qed

text \<open>The score of an ad for a user, as \<open>doRecommend\<close> computes it.\<close>

definition ad_score :: "recommender \<Rightarrow> feature \<Rightarrow> string \<Rightarrow> real option" where
  "ad_score r user_info ad =
     Option.bind (getCombinedUserLatentVec (user_feature_latent_vec_list r) (getUserLatentVecKeys user_info))
       (\<lambda>u. Option.bind (ad_latent_vec_list r ad) (affinity u))"

definition dot :: "latent_vec list \<Rightarrow> latent_vec \<Rightarrow> real" where
  "dot us v = (\<Sum>k < LATENT_VEC_DIM. mean_at us k * v ! k)"

lemma combined_value:
  assumes "ks \<noteq> []" and "\<forall>k \<in> set ks. \<exists>v. m k = Some v \<and> length v = LATENT_VEC_DIM"
  shows "getCombinedUserLatentVec m ks = Some (map (mean_at (map (\<lambda>k. the (m k)) ks)) [0..<LATENT_VEC_DIM])"
proof -
  have f: "List.map_filter m ks = map (\<lambda>k. the (m k)) ks"
    using assms(2) by (induction ks) auto
  have "those (map (\<lambda>v. vec_at v j) (map (\<lambda>k. the (m k)) ks)) = Some (map (\<lambda>v. v ! j) (map (\<lambda>k. the (m k)) ks))"
    if "j < LATENT_VEC_DIM" for j using assms(2) that by (fastforce simp: those_eq_Some vec_at_def)
  then have "combined_of (length ks) (map (\<lambda>k. the (m k)) ks) j = Some (mean_at (map (\<lambda>k. the (m k)) ks) j)"
    if "j < LATENT_VEC_DIM" for j using assms(1) that by (simp add: combined_of_def mean_at_def del: map_map)
  then show ?thesis by (simp add: getCombinedUserLatentVec_def f those_eq_Some)
qed

lemma affinity_mean:
  assumes "length v = LATENT_VEC_DIM"
  shows "affinity (map (mean_at us) [0..<LATENT_VEC_DIM]) v = Some (dot us v)"
proof -
  have "map2 (*) (map (mean_at us) [0..<LATENT_VEC_DIM]) v = map (\<lambda>k. mean_at us k * v ! k) [0..<LATENT_VEC_DIM]"
    using assms by (intro nth_equalityI) auto
  then show ?thesis using assms
    by (simp add: affinity_def dot_def sum_list_distinct_conv_sum_set atLeast0LessThan)
qed

lemma score_value:
  assumes "user_info \<noteq> []" and "\<forall>k \<in> set (getUserLatentVecKeys user_info). \<exists>v. user_feature_latent_vec_list r k = Some v \<and> length v = LATENT_VEC_DIM"
    and "ad_latent_vec_list r ad = Some v" and "length v = LATENT_VEC_DIM"
  shows "ad_score r user_info ad = Some (dot (map (\<lambda>k. the (user_feature_latent_vec_list r k)) (getUserLatentVecKeys user_info)) v)"
proof -
  have "getUserLatentVecKeys user_info \<noteq> []" using assms(1) by (simp add: getUserLatentVecKeys_def)
  then show ?thesis using combined_value [OF _ assms(2)] affinity_mean [OF assms(4)] assms(3) by (simp add: ad_score_def)
qed

lemma dot_moved:
  assumes "us \<noteq> []" and "length us' = length us"
    and "\<forall>k < LATENT_VEC_DIM. ad' ! k = ad ! k + g * mean_at us k \<and> (\<forall>j < length us. us' ! j ! k = us ! j ! k + g * ad' ! k)"
  shows "dot us' ad' = dot us ad + g * (\<Sum>k < LATENT_VEC_DIM. (mean_at us k)\<^sup>2 + (ad' ! k)\<^sup>2)"
proof -
  have "mean_at us' k * ad' ! k = mean_at us k * ad ! k + g * ((mean_at us k)\<^sup>2 + (ad' ! k)\<^sup>2)" if "k < LATENT_VEC_DIM" for k
  proof -
    have "mean_at us' k = mean_at us k + g * ad' ! k" using assms that by (intro mean_moved) auto
    moreover have "ad' ! k = ad ! k + g * mean_at us k" using assms(3) that by blast
    ultimately show ?thesis by (simp add: algebra_simps power2_eq_square)
  qed
  then have "dot us' ad' = (\<Sum>k < LATENT_VEC_DIM. mean_at us k * ad ! k + g * ((mean_at us k)\<^sup>2 + (ad' ! k)\<^sup>2))"
    by (simp add: dot_def)
  also have "\<dots> = dot us ad + (\<Sum>k < LATENT_VEC_DIM. g * ((mean_at us k)\<^sup>2 + (ad' ! k)\<^sup>2))"
    by (simp only: dot_def sum.distrib)
  finally show ?thesis by (simp only: sum_distrib_left)
qed

lemma dot_scaled:
  assumes "\<forall>u \<in> set us. length u = LATENT_VEC_DIM" and "length v = LATENT_VEC_DIM"
  shows "dot (map (map (\<lambda>x. x * c)) us) (map (\<lambda>x. x * c) v) = c\<^sup>2 * dot us v"
proof -
  have "mean_at (map (map (\<lambda>x. x * c)) us) k = mean_at us k * c" if "k < LATENT_VEC_DIM" for k
  proof -
    have "map (\<lambda>u. u ! k) (map (map (\<lambda>x. x * c)) us) = map (\<lambda>u. u ! k * c) us" using assms(1) that by auto
    then show ?thesis by (simp add: mean_at_def sum_list_mult_const del: map_map)
  qed
  then show ?thesis using assms(2) by (simp add: dot_def sum_distrib_left power2_eq_square algebra_simps)
qed

lemma write_back_other: "k \<notin> set ks \<Longrightarrow> write_back ks vs m k = m k"
proof -
  assume "k \<notin> set ks"
  then have "k \<notin> fst ` set (zip ks vs)" by (auto dest: set_zip_leftD)
  moreover have "k \<notin> fst ` set kvs \<Longrightarrow> fold (\<lambda>(k, v) m. m(k \<mapsto> v)) kvs m k = m k" for kvs :: "(string \<times> latent_vec) list" and m
    by (induction kvs arbitrary: m) auto
  ultimately show ?thesis by (simp add: write_back_def)
qed

lemma write_back_lookup:
  assumes "distinct ks" and "length vs = length ks"
  shows "map (write_back ks vs m) ks = map Some vs"
  using assms
proof (induction ks arbitrary: vs m)
  case (Cons k ks)
  then obtain v vs' where v: "vs = v # vs'" by (cases vs) auto
  have "write_back (k # ks) vs m k = Some v"
    using write_back_other [of k ks vs' "m(k \<mapsto> v)"] Cons.prems(1) by (simp add: write_back_def v)
  moreover have "map (write_back (k # ks) vs m) ks = map Some vs'"
    using Cons.IH [of vs' "m(k \<mapsto> v)"] Cons.prems v by (simp add: write_back_def del: fun_upd_apply)
  ultimately show ?case by (simp add: v)
qed simp

lemma user_vectors_known:
  "set ks \<subseteq> dom m \<Longrightarrow> user_vectors rnd clicked ks n m = (ks, n, m)"
  by (induction ks) auto

lemma known_ad_update:
  assumes "rec_update rnd user_info ad clicked r = Some (None, r')" and "\<not> use_ad_feature r"
    and "set (getUserLatentVecKeys user_info) \<subseteq> dom (user_feature_latent_vec_list r)" and "ad_latent_vec_list r ad = Some v"
  shows "\<exists>g ads us nmax. (g = (let r1 = count_view clicked r in if clicked then learning_rate r1 else ratio r1 * learning_rate r1)) \<and>
    grad_ads g [v] (map (\<lambda>k. the (user_feature_latent_vec_list r k)) (getUserLatentVecKeys user_info)) 0 = Some (ads, us, nmax) \<and>
    user_feature_latent_vec_list r' = scale_map nmax (write_back (getUserLatentVecKeys user_info) us (user_feature_latent_vec_list r)) \<and>
    ad_latent_vec_list r' = scale_map nmax (write_back [ad] ads (ad_latent_vec_list r))"
proof -
  let ?ks = "getUserLatentVecKeys user_info" and ?r1 = "count_view clicked r"
  have f: "use_ad_feature ?r1 = use_ad_feature r" "user_feature_latent_vec_list ?r1 = user_feature_latent_vec_list r"
    "ad_latent_vec_list ?r1 = ad_latent_vec_list r" by (simp_all add: count_view_def Let_def)
  have u: "?r1\<lparr>user_feature_latent_vec_list := user_feature_latent_vec_list r\<rparr> = ?r1" by (simp add: count_view_def Let_def)
  have k: "getAdLatentVecKeys ?r1 ad = Some [ad]" using assms(2) f by (simp add: getAdLatentVecKeys_def)
  obtain e r3 where v: "ad_vectors rnd [ad] 0 ?r1 = (e, r3)" by fastforce
  have r3: "learning_rate r3 = learning_rate ?r1" "ratio r3 = ratio ?r1" "user_feature_latent_vec_list r3 = user_feature_latent_vec_list r"
    "ad_latent_vec_list r3 = ad_latent_vec_list r"
    using v assms(4) f by (auto simp: Let_def split: if_splits)
  have "rec_update rnd user_info ad clicked r =
      (case e of Some e \<Rightarrow> Some (Some e, r3) | None \<Rightarrow> map_option (Pair None) (train_vectors clicked ?ks [ad] r3))"
    using rec_update_run [of rnd clicked user_info r ?ks 0 "user_feature_latent_vec_list r" ad "[ad]" e r3]
      user_vectors_known [OF assms(3), of rnd clicked 0] k v by (simp only: f u)
  with assms(1,4) r3 show ?thesis by (cases e) (auto simp: train_vectors_def Let_def)
qed

lemma update_error:
  assumes "rec_update rnd user_info ad clicked r = Some (e, r')" and "\<not> use_ad_feature r"
    and "case value_ids (feature_dict r) ad of None \<Rightarrow> True | Some i \<Rightarrow> i < MAX_AD_ITEMS"
  shows "e = None"
proof -
  let ?r1 = "count_view clicked r"
  obtain uks n um where u: "user_vectors rnd clicked (getUserLatentVecKeys user_info) 0 (user_feature_latent_vec_list ?r1) = (uks, n, um)"
    by (metis prod_cases3)
  let ?r2 = "?r1\<lparr>user_feature_latent_vec_list := um\<rparr>"
  have k: "getAdLatentVecKeys ?r2 ad = Some [ad]" using assms(2) by (simp add: getAdLatentVecKeys_def count_view_def Let_def)
  have "feature_dict ?r2 = feature_dict r" by (simp add: count_view_def Let_def)
  then have "fst (ad_vectors rnd [ad] n ?r2) = None"
    using assms(3) by (cases "value_ids (feature_dict r) ad") (simp_all add: Let_def MAX_AD_ITEMS_def)
  then obtain r3 where "ad_vectors rnd [ad] n ?r2 = (None, r3)" by (cases "ad_vectors rnd [ad] n ?r2") simp
  from rec_update_run [OF u k this] assms(1) show ?thesis by (cases "train_vectors clicked uks [ad] r3") auto
qed

lemma scaled_top:
  assumes "c = (if nmax > MAX_NORM then MAX_NORM / nmax else 1)" and "nmax = 0 \<or> attained nmax LATENT_VEC_DIM ad us"
    and "length ad = LATENT_VEC_DIM" and "\<forall>u \<in> set us. length u = LATENT_VEC_DIM"
    and "map um ks = map Some (map (map (\<lambda>x. x * c)) us)" and "am a = Some (map (\<lambda>x. x * c) ad)"
  shows "c \<noteq> 1 \<longrightarrow> (\<exists>v \<in> ran um \<union> ran am. \<exists>x \<in> set v. \<bar>x\<bar> = MAX_NORM)"
proof
  assume "c \<noteq> 1"
  then have n: "nmax > MAX_NORM" "c = MAX_NORM / nmax" using assms(1) by (simp_all split: if_splits)
  have p: "0 < MAX_NORM" by (simp add: MAX_NORM_def)
  have e: "\<bar>x * c\<bar> = MAX_NORM" if "nmax = \<bar>x\<bar>" for x using that n p by (auto simp: abs_mult)
  from assms(2) n p obtain k where k: "k < LATENT_VEC_DIM" "nmax = \<bar>ad ! k\<bar> \<or> (\<exists>j < length us. nmax = \<bar>us ! j ! k\<bar>)"
    by (auto simp: attained_def)
  from k(2) show "\<exists>v \<in> ran um \<union> ran am. \<exists>x \<in> set v. \<bar>x\<bar> = MAX_NORM"
  proof (elim disjE exE conjE)
    assume "nmax = \<bar>ad ! k\<bar>"
    from e [OF this] have "\<exists>x \<in> set (map (\<lambda>x. x * c) ad). \<bar>x\<bar> = MAX_NORM"
      using k(1) assms(3) nth_mem [of k ad] by auto
    then show ?thesis using ranI [of am, OF assms(6)] by blast
  next
    fix j
    assume j: "j < length us" "nmax = \<bar>us ! j ! k\<bar>"
    have "us ! j \<in> set us" using j(1) by simp
    then have "\<exists>x \<in> set (map (\<lambda>x. x * c) (us ! j)). \<bar>x\<bar> = MAX_NORM"
      using e [OF j(2)] k(1) assms(4) nth_mem [of k "us ! j"] by auto
    moreover have "um (ks ! j) = Some (map (\<lambda>x. x * c) (us ! j))"
      using arg_cong [OF assms(5), of "\<lambda>l. l ! j"] arg_cong [OF assms(5), of length] j(1) by simp
    ultimately show ?thesis using ranI [of um] by blast
  qed
qed

text \<open>
  C21. Learning goes in the right direction. Take a user with features, all of them known and
  different, and a known ad (with ads identified by their own key, as \<open>AdSelector\<close> sets the
  recommender up). After a click the score of the ad for the user, as \<open>recommend\<close> computes it,
  is at least what it was, and after a view without a click at most what it was, up to a
  factor \<open>c\<close> by which all vectors, those of the other users and ads too, are scaled down. They
  are scaled only when a component had passed \<open>MAX_NORM\<close>, and then the largest is \<open>MAX_NORM\<close>.
\<close>

theorem training_direction:
  assumes "rec_ok r" and "\<not> use_ad_feature r" and "user_info \<noteq> []" and "distinct (getUserLatentVecKeys user_info)"
    and "set (getUserLatentVecKeys user_info) \<subseteq> dom (user_feature_latent_vec_list r)" and "ad_latent_vec_list r ad \<noteq> None"
    and "case value_ids (feature_dict r) ad of None \<Rightarrow> True | Some i \<Rightarrow> i < MAX_AD_ITEMS"
  shows "\<exists>r' x x' c. rec_update rnd user_info ad clicked r = Some (None, r') \<and> ad_score r user_info ad = Some x \<and> ad_score r' user_info ad = Some x' \<and> 0 < c \<and> c \<le> 1 \<and>
    (if clicked then c\<^sup>2 * x \<le> x' else x' \<le> c\<^sup>2 * x) \<and>
    (\<forall>k. k \<notin> set (getUserLatentVecKeys user_info) \<longrightarrow> user_feature_latent_vec_list r' k = map_option (map (\<lambda>x. x * c)) (user_feature_latent_vec_list r k)) \<and>
    (\<forall>k. k \<noteq> ad \<longrightarrow> ad_latent_vec_list r' k = map_option (map (\<lambda>x. x * c)) (ad_latent_vec_list r k)) \<and>
    (c \<noteq> 1 \<longrightarrow> (\<exists>v \<in> ran (user_feature_latent_vec_list r') \<union> ran (ad_latent_vec_list r'). \<exists>x \<in> set v. \<bar>x\<bar> = MAX_NORM))"
proof -
  let ?ks = "getUserLatentVecKeys user_info"
  let ?us = "map (\<lambda>k. the (user_feature_latent_vec_list r k)) ?ks"
  obtain v where v: "ad_latent_vec_list r ad = Some v" using assms(6) by auto
  obtain e r' where "rec_update rnd user_info ad clicked r = Some (e, r')" using rec_update_keeps [OF assms(1)] by blast
  then have run': "rec_update rnd user_info ad clicked r = Some (None, r')" using update_error assms(2,7) by blast
  from known_ad_update [OF run' assms(2,5) v] obtain g ads us nmax where
    g: "g = (let r1 = count_view clicked r in if clicked then learning_rate r1 else ratio r1 * learning_rate r1)" and
    run: "grad_ads g [v] ?us 0 = Some (ads, us, nmax)" and
    r': "user_feature_latent_vec_list r' = scale_map nmax (write_back ?ks us (user_feature_latent_vec_list r))"
      "ad_latent_vec_list r' = scale_map nmax (write_back [ad] ads (ad_latent_vec_list r))" by blast
  have ok1: "rec_ok (count_view clicked r)" by (rule count_view_ok [OF assms(1)])
  have sg: "if clicked then 0 \<le> g else g \<le> 0"
    using ok1 unfolding g Let_def by (auto simp: rec_ok_def intro: mult_nonpos_nonneg)
  have mo: "map_ok MAX_NORM (ad_latent_vec_list r)" "map_ok MAX_NORM (user_feature_latent_vec_list r)"
    using assms(1) unfolding rec_ok_def by blast+
  have lv: "length v = LATENT_VEC_DIM" using map_okD [OF mo(1) v] by (simp add: vec_ok_def)
  have lu: "\<forall>k \<in> set ?ks. \<exists>v. user_feature_latent_vec_list r k = Some v \<and> length v = LATENT_VEC_DIM"
    using assms(5) map_okD [OF mo(2)] unfolding vec_ok_def by blast
  then have lu': "\<forall>u \<in> set ?us. length u = LATENT_VEC_DIM" by auto
  have ne: "?us \<noteq> []" using assms(3) by (simp add: getUserLatentVecKeys_def)
  from grad_ad_value [OF ne lu' lv, of g 0] run obtain ad' where a: "ads = [ad']" and
    st: "length ad' = LATENT_VEC_DIM" "length us = length ?us"
      "\<forall>k < LATENT_VEC_DIM. ad' ! k = v ! k + g * mean_at ?us k \<and>
         (\<forall>j < length ?us. length (us ! j) = LATENT_VEC_DIM \<and> us ! j ! k = ?us ! j ! k + g * ad' ! k)"
    and top: "nmax = 0 \<or> attained nmax LATENT_VEC_DIM ad' us" by auto
  have "0 < LATENT_VEC_DIM" by (simp add: LATENT_VEC_DIM_def)
  then have lus: "\<forall>u \<in> set us. length u = LATENT_VEC_DIM" using st(2,3) by (auto simp: in_set_conv_nth)
  have d: "dot us ad' = dot ?us v + g * (\<Sum>k < LATENT_VEC_DIM. (mean_at ?us k)\<^sup>2 + (ad' ! k)\<^sup>2)"
    using st by (intro dot_moved [OF ne]) auto
  define c where "c = (if nmax > MAX_NORM then MAX_NORM / nmax else 1)"
  have c: "0 < c" "c \<le> 1" by (auto simp: c_def MAX_NORM_def)
  have sm: "scale_map nmax m = (\<lambda>k. map_option (map (\<lambda>x. x * c)) (m k))" for m
    by (rule ext) (simp add: scale_map_def c_def option.map_ident)
  have "map (write_back ?ks us (user_feature_latent_vec_list r)) ?ks = map Some us"
    using st(2) by (intro write_back_lookup [OF assms(4)]) simp
  from arg_cong [OF this, of "map (map_option (map (\<lambda>x. x * c)))"]
  have wk: "map (user_feature_latent_vec_list r') ?ks = map Some (map (map (\<lambda>x. x * c)) us)"
    unfolding r' sm by (simp add: comp_def)
  have "\<exists>u. user_feature_latent_vec_list r' k = Some u \<and> length u = LATENT_VEC_DIM" if "k \<in> set ?ks" for k
  proof -
    obtain j where "j < length ?ks" "k = ?ks ! j" using \<open>k \<in> set ?ks\<close> by (metis in_set_conv_nth)
    then show ?thesis using arg_cong [OF wk, of "\<lambda>l. l ! j"] lus st(2) by simp
  qed
  moreover have wa: "ad_latent_vec_list r' ad = Some (map (\<lambda>x. x * c) ad')" unfolding r' sm by (simp add: a write_back_def)
  ultimately have "ad_score r' user_info ad = Some (dot (map the (map (user_feature_latent_vec_list r') ?ks)) (map (\<lambda>x. x * c) ad'))"
    using score_value [OF assms(3), of r' ad] st(1) by (simp add: comp_def)
  then have x': "ad_score r' user_info ad = Some (c\<^sup>2 * dot us ad')" unfolding wk
    using dot_scaled [OF lus st(1), of c] by (simp add: comp_def)
  have x: "ad_score r user_info ad = Some (dot ?us v)" by (rule score_value [OF assms(3) lu v lv])
  have "if clicked then dot ?us v \<le> dot us ad' else dot us ad' \<le> dot ?us v"
    using sg unfolding d by (auto intro!: mult_nonneg_nonneg mult_nonpos_nonneg sum_nonneg)
  then have m: "if clicked then c\<^sup>2 * dot ?us v \<le> c\<^sup>2 * dot us ad' else c\<^sup>2 * dot us ad' \<le> c\<^sup>2 * dot ?us v"
    by (simp split: if_splits add: mult_left_mono)
  have o: "\<forall>k. k \<notin> set ?ks \<longrightarrow> user_feature_latent_vec_list r' k = map_option (map (\<lambda>x. x * c)) (user_feature_latent_vec_list r k)"
    "\<forall>k. k \<noteq> ad \<longrightarrow> ad_latent_vec_list r' k = map_option (map (\<lambda>x. x * c)) (ad_latent_vec_list r k)"
    unfolding r' sm by (simp_all add: write_back_other)
  have t: "c \<noteq> 1 \<longrightarrow> (\<exists>v \<in> ran (user_feature_latent_vec_list r') \<union> ran (ad_latent_vec_list r'). \<exists>x \<in> set v. \<bar>x\<bar> = MAX_NORM)"
    by (rule scaled_top [where um = "user_feature_latent_vec_list r'" and am = "ad_latent_vec_list r'", OF c_def top st(1) lus wk wa])
  show ?thesis by (intro exI conjI) (rule run' x x' c m o t)+
qed

definition rec_sample :: recommender where
  "rec_sample = (recommender_init (\<lambda>r. r) False recommender0)
     \<lparr>user_feature_latent_vec_list := [''Age20'' \<mapsto> replicate 10 1], ad_latent_vec_list := [''7'' \<mapsto> replicate 10 2]\<rparr>"

lemma init_ok: "rec_ok (recommender_init (\<lambda>r. r) use recommender0)"
  by (auto simp: rec_ok_def recommender_init_def recommender0_def default_counts_def map_ok_def)

lemma sample_ok: "rec_ok rec_sample"
  using init_ok [of False]
  by (auto simp: rec_ok_def rec_sample_def map_ok_def vec_ok_def LATENT_VEC_DIM_def MAX_NORM_def ran_def split: if_splits)

theorem training_direction_witness:
  "\<exists>r' x x' c. rec_update (\<lambda>_. 0) [(''Age'', ''20'')] ''7'' True rec_sample = Some (None, r') \<and>
     ad_score rec_sample [(''Age'', ''20'')] ''7'' = Some x \<and> ad_score r' [(''Age'', ''20'')] ''7'' = Some x' \<and> 0 < c \<and> c \<le> 1 \<and> c\<^sup>2 * x \<le> x'"
proof -
  have k: "getUserLatentVecKeys [(''Age'', ''20'')] = [''Age20'']" by (simp add: getUserLatentVecKeys_def)
  have r: "\<not> use_ad_feature rec_sample" "feature_dict rec_sample = str_dict0"
    by (simp_all add: rec_sample_def recommender_init_def recommender0_def default_counts_def)
  have d: "set (getUserLatentVecKeys [(''Age'', ''20'')]) \<subseteq> dom (user_feature_latent_vec_list rec_sample)" "ad_latent_vec_list rec_sample ''7'' \<noteq> None"
    "distinct (getUserLatentVecKeys [(''Age'', ''20'')])" unfolding k by (simp_all add: rec_sample_def)
  have "case value_ids (feature_dict rec_sample) ''7'' of None \<Rightarrow> True | Some i \<Rightarrow> i < MAX_AD_ITEMS"
    unfolding r(2) by (simp add: str_dict0_def)
  from training_direction [OF sample_ok r(1) list.distinct(2) d(3,1,2) this, of "\<lambda>_. 0" True] obtain r' x x' c where
    "rec_update (\<lambda>_. 0) [(''Age'', ''20'')] ''7'' True rec_sample = Some (None, r')" "ad_score rec_sample [(''Age'', ''20'')] ''7'' = Some x"
    "ad_score r' [(''Age'', ''20'')] ''7'' = Some x'" "0 < c" "c \<le> 1" "if True then c\<^sup>2 * x \<le> x' else x' \<le> c\<^sup>2 * x"
    by (elim exE conjE) simp
  then show ?thesis by (intro exI [of _ r'] exI [of _ x] exI [of _ x'] exI [of _ c]) simp
qed



lemma ad_vectors_unnumbered:
  assumes "value_ids (feature_dict r) ad = None"
  shows "\<exists>m. ad_vectors rnd [ad] n r = (None, r\<lparr>ad_latent_vec_list := m,
    feature_dict := (feature_dict r)\<lparr>value_ids := (value_ids (feature_dict r))(ad \<mapsto> 0)\<rparr>, unviewed_items := unviewed_items r - {0}\<rparr>)"
proof (cases "ad_latent_vec_list r ad")
  case None
  then show ?thesis using assms by (simp add: Let_def MAX_AD_ITEMS_def) (rule exI, rule refl)
next
  case (Some v)
  then show ?thesis using assms by (intro exI [of _ "ad_latent_vec_list r"]) (simp add: Let_def MAX_AD_ITEMS_def)
qed

text \<open>
  A view of an ad that has no number corrupts the numbering: \<open>ad_feature_value_id_list_[key]\<close>
  in \<open>update\<close> gives the ad the number 0, which belongs to another item. That item is no
  longer offered as unviewed, and registering the ad afterwards finds the wrong number, so
  the ad is never added to the items that can be offered.
\<close>

lemma unnumbered_ad_takes_zero:
  assumes "rec_ok r" and "\<not> use_ad_feature r" and "value_ids (feature_dict r) ad = None"
  shows "\<exists>r'. rec_update rnd user_info ad clicked r = Some (None, r') \<and> value_ids (feature_dict r') ad = Some 0 \<and>
    unviewed_items r' = unviewed_items r - {0} \<and> id_values (feature_dict r') = id_values (feature_dict r) \<and>
    (\<exists>r''. updateAdFeatures ad [] r' = (None, r'') \<and> id_values (feature_dict r'') = id_values (feature_dict r) \<and>
       unviewed_items r'' = unviewed_items r')"
proof -
  obtain e r' where "rec_update rnd user_info ad clicked r = Some (e, r')" using rec_update_keeps [OF assms(1)] by blast
  moreover have "e = None" using update_error [OF calculation assms(2)] assms(3) by simp
  ultimately have run: "rec_update rnd user_info ad clicked r = Some (None, r')" by simp
  have r': "value_ids (feature_dict r') ad = Some 0" "unviewed_items r' = unviewed_items r - {0}"
    "id_values (feature_dict r') = id_values (feature_dict r)" "use_ad_feature r' = use_ad_feature r"
  proof -
    let ?r1 = "count_view clicked r"
    obtain uks n um where u: "user_vectors rnd clicked (getUserLatentVecKeys user_info) 0 (user_feature_latent_vec_list ?r1) = (uks, n, um)"
      by (metis prod_cases3)
    let ?r2 = "?r1\<lparr>user_feature_latent_vec_list := um\<rparr>"
    have f: "feature_dict ?r2 = feature_dict r" "unviewed_items ?r2 = unviewed_items r" "use_ad_feature ?r2 = use_ad_feature r"
      by (simp_all add: count_view_def Let_def)
    have k: "getAdLatentVecKeys ?r2 ad = Some [ad]" using assms(2) f by (simp add: getAdLatentVecKeys_def)
    from ad_vectors_unnumbered [of ?r2 ad rnd n] assms(3) f obtain m where
      m: "ad_vectors rnd [ad] n ?r2 = (None, ?r2\<lparr>ad_latent_vec_list := m, feature_dict :=
        (feature_dict ?r2)\<lparr>value_ids := (value_ids (feature_dict ?r2))(ad \<mapsto> 0)\<rparr>, unviewed_items := unviewed_items ?r2 - {0}\<rparr>)" by metis
    define r3 where "r3 = ?r2\<lparr>ad_latent_vec_list := m, feature_dict :=
        (feature_dict ?r2)\<lparr>value_ids := (value_ids (feature_dict ?r2))(ad \<mapsto> 0)\<rparr>, unviewed_items := unviewed_items ?r2 - {0}\<rparr>"
    have v: "ad_vectors rnd [ad] n ?r2 = (None, r3)" "value_ids (feature_dict r3) ad = Some 0" "unviewed_items r3 = unviewed_items r - {0}"
      "id_values (feature_dict r3) = id_values (feature_dict r)" "use_ad_feature r3 = use_ad_feature r"
      using m f by (simp_all add: r3_def)
    have "train_vectors clicked uks [ad] r3 = Some r'" using rec_update_run [OF u k v(1)] run
      by (cases "train_vectors clicked uks [ad] r3") auto
    from train_frame [OF this] obtain m1 m2 where t: "r' = r3\<lparr>user_feature_latent_vec_list := m1, ad_latent_vec_list := m2\<rparr>" by blast
    show "value_ids (feature_dict r') ad = Some 0" "unviewed_items r' = unviewed_items r - {0}"
      "id_values (feature_dict r') = id_values (feature_dict r)" "use_ad_feature r' = use_ad_feature r"
      using v(2-5) by (simp_all add: t)
  qed
  have "\<exists>r''. updateAdFeatures ad [] r' = (None, r'') \<and> id_values (feature_dict r'') = id_values (feature_dict r) \<and>
       unviewed_items r'' = unviewed_items r'"
    using r' by (simp add: updateAdFeatures_def feature_id_def Let_def)
  with run r' show ?thesis by blast
qed

end
