(* ===== verification/Dnf.thy ===== *)
theory Dnf
  imports Prelude
begin

text \<open>
  Targeting conditions of ads: \<open>DNFParser::parseDNF\<close> reads a conjunction of assignments
  \<open>attr~{v1,v2}\<close> (the attribute has one of the values) and \<open>attr!~{v1,v2}\<close> (it has none of
  them), separated by \<open>^\<close>; \<open>AdMiningTask\<close> adds the conditions of new documents to a copy of
  the inverted index and publishes it. The index of the utility library is a parameter.
\<close>

section \<open>Parsing\<close>

record assignment =
  belongsTo :: bool
  attribute :: string
  avalues :: "string list"

type_synonym conjunction = "assignment list"
type_synonym dnf = "conjunction list"

datatype dnf_error = SubstrOutOfRange | UnknownFormat

text \<open>\<open>std::string::find\<close>; \<open>None\<close> is \<open>npos\<close>.\<close>

fun find_sub :: "string \<Rightarrow> string \<Rightarrow> nat option" where
  "find_sub p [] = (if p = [] then Some 0 else None)"
| "find_sub p (c # s) = (if take (length p) (c # s) = p then Some 0 else map_option Suc (find_sub p s))"

text \<open>
  The text after the operator, without its first character (the bracket) and its last:
  \<open>substr\<close> throws when it starts behind the end.
\<close>

definition assignment_from :: "bool \<Rightarrow> nat \<Rightarrow> nat \<Rightarrow> string \<Rightarrow> dnf_error + assignment" where
  "assignment_from belongs i skip s =
     (if i + skip > length s then Inl SubstrOutOfRange
      else Inr \<lparr>belongsTo = belongs, attribute = take i s,
                avalues = split_any (\<lambda>c. c = CHR '','') (butlast (drop (i + skip) s))\<rparr>)"

definition parse_assignment :: "string \<Rightarrow> dnf_error + assignment" where
  "parse_assignment s =
     (case find_sub ''!~'' s of
        Some i \<Rightarrow> assignment_from False i 3 s
      | None \<Rightarrow> (case find_sub ''~'' s of
                   Some i \<Rightarrow> assignment_from True i 2 s
                 | None \<Rightarrow> Inl UnknownFormat))"

fun parse_assignments :: "string list \<Rightarrow> dnf_error + conjunction" where
  "parse_assignments [] = Inr []"
| "parse_assignments (s # ss) =
     (case parse_assignment s of
        Inl e \<Rightarrow> Inl e
      | Inr a \<Rightarrow> (case parse_assignments ss of Inl e \<Rightarrow> Inl e | Inr c \<Rightarrow> Inr (a # c)))"

definition parseDNF :: "string \<Rightarrow> dnf \<Rightarrow> dnf_error + dnf" where
  "parseDNF s dnf =
     (case parse_assignments (split_any (\<lambda>c. c = CHR ''^'') s) of
        Inl e \<Rightarrow> Inl e
      | Inr c \<Rightarrow> Inr (dnf @ [c]))"

section \<open>Mining\<close>

text \<open>The inverted index \<open>DNFInvIndex\<close>.\<close>

record 'x dnf_ops =
  addDNF :: "nat \<Rightarrow> dnf \<Rightarrow> 'x \<Rightarrow> 'x"
  totalNumDNF :: "'x \<Rightarrow> nat"
  retrieve :: "(string \<times> string) list \<Rightarrow> 'x \<Rightarrow> nat list"

record 'x mining_task =
  ad_dnf_index :: 'x
  incrementalAdIndex :: "'x option"
  startDocId :: nat

definition size_assignments :: "(string \<Rightarrow> string) \<Rightarrow> conjunction" where
  "size_assignments props = map (\<lambda>a. \<lparr>belongsTo = True, attribute = a, avalues = [props a]\<rparr>) [''Width'', ''Height'', ''CreativeType'']"

text \<open>
  \<open>props\<close> gives the text of a property of the document, empty when it has none. The outer
  \<open>None\<close> is a null pointer or an exception.
\<close>

definition buildDocument ::
  "'x dnf_ops \<Rightarrow> nat \<Rightarrow> (string \<Rightarrow> string) \<Rightarrow> 'x mining_task \<Rightarrow> (bool \<times> 'x mining_task) option" where
  "buildDocument ops docID props t =
     (if props ''DNF'' = [] then Some (True, t)
      else (case parseDNF (props ''DNF'') [] of
              Inl SubstrOutOfRange \<Rightarrow> None
            | Inl UnknownFormat \<Rightarrow> Some (False, t)
            | Inr dnf \<Rightarrow>
                map_option (\<lambda>x. (True, t\<lparr>incrementalAdIndex := Some (addDNF ops docID (dnf[0 := dnf ! 0 @ size_assignments props]) x)\<rparr>))
                  (incrementalAdIndex t)))"

definition preProcess :: "'x dnf_ops \<Rightarrow> nat \<Rightarrow> 'x mining_task \<Rightarrow> bool \<times> 'x mining_task" where
  "preProcess ops maxDocId t =
     (let start = totalNumDNF ops (ad_dnf_index t) + 1
      in (start \<le> maxDocId, t\<lparr>incrementalAdIndex := Some (ad_dnf_index t), startDocId := start\<rparr>))"

text \<open>\<open>saved\<close> tells whether the index file could be opened and written.\<close>

definition postProcess :: "bool \<Rightarrow> 'x mining_task \<Rightarrow> (bool \<times> 'x mining_task) option" where
  "postProcess saved t =
     (case incrementalAdIndex t of
        None \<Rightarrow> None
      | Some x \<Rightarrow> if saved then Some (True, t\<lparr>ad_dnf_index := x, incrementalAdIndex := None\<rparr>) else Some (False, t))"

section \<open>Printing and parsing back\<close>

definition print_assignment :: "assignment \<Rightarrow> string" where
  "print_assignment a =
     attribute a @ (if belongsTo a then ''~{'' else ''!~{'') @ join (CHR '','') (avalues a) @ ''}''"

definition print_conjunction :: "conjunction \<Rightarrow> string" where
  "print_conjunction c = join (CHR ''^'') (map print_assignment c)"

text \<open>What the format can express: no operator or separator character inside the names.\<close>

definition printable :: "assignment \<Rightarrow> bool" where
  "printable a \<longleftrightarrow> CHR ''~'' \<notin> set (attribute a) \<and> CHR ''^'' \<notin> set (attribute a) \<and>
     (belongsTo a \<longrightarrow> attribute a = [] \<or> last (attribute a) \<noteq> CHR ''!'') \<and> avalues a \<noteq> [] \<and>
     (\<forall>v \<in> set (avalues a). CHR ''~'' \<notin> set v \<and> CHR ''^'' \<notin> set v \<and> CHR '','' \<notin> set v)"

lemma find_op: "CHR ''~'' \<notin> set s \<Longrightarrow> find_sub ''~'' (s @ CHR ''~'' # t) = Some (length s)"
  by (induction s) auto

lemma find_not_op: "CHR ''~'' \<notin> set s \<Longrightarrow> find_sub ''!~'' (s @ CHR ''!'' # CHR ''~'' # t) = Some (length s)"
proof (induction s)
  case (Cons c s)
  then show ?case by (cases s) auto
qed simp

lemma no_not_op: "CHR ''~'' \<notin> set s \<Longrightarrow> find_sub ''!~'' s = None"
proof (induction s)
  case (Cons c s)
  then show ?case by (cases s) auto
qed simp

lemma find_not_op_none:
  "CHR ''~'' \<notin> set s \<Longrightarrow> CHR ''~'' \<notin> set t \<Longrightarrow> s = [] \<or> last s \<noteq> CHR ''!'' \<Longrightarrow> find_sub ''!~'' (s @ CHR ''~'' # t) = None"
proof (induction s)
  case Nil
  then show ?case by (simp add: no_not_op)
next
  case (Cons c s)
  then show ?case by (cases s) auto
qed

lemma values_text:
  assumes "printable a"
  shows "CHR ''~'' \<notin> set (join (CHR '','') (avalues a))" and "CHR ''^'' \<notin> set (join (CHR '','') (avalues a))"
  using assms set_join [of "CHR '',''" "avalues a"] by (auto simp: printable_def)

lemma parse_print_assignment: "printable a \<Longrightarrow> parse_assignment (print_assignment a) = Inr a"
proof -
  assume p: "printable a"
  let ?v = "join (CHR '','') (avalues a)"
  have v: "split_any (\<lambda>c. c = CHR '','') ?v = avalues a"
    using p by (intro split_join) (auto simp: printable_def)
  show ?thesis
  proof (cases "belongsTo a")
    case True
    have s: "print_assignment a = attribute a @ CHR ''~'' # CHR ''{'' # ?v @ ''}''" using True by (simp add: print_assignment_def)
    have "find_sub ''!~'' (print_assignment a) = None" unfolding s
      using p True values_text [OF p] by (intro find_not_op_none) (auto simp: printable_def)
    moreover have "find_sub ''~'' (print_assignment a) = Some (length (attribute a))" unfolding s
      using p by (intro find_op) (simp add: printable_def)
    ultimately show ?thesis using v True
      by (simp add: parse_assignment_def assignment_from_def s butlast_append)
  next
    case False
    have s: "print_assignment a = attribute a @ CHR ''!'' # CHR ''~'' # CHR ''{'' # ?v @ ''}''" using False by (simp add: print_assignment_def)
    have "find_sub ''!~'' (print_assignment a) = Some (length (attribute a))" unfolding s
      using p by (intro find_not_op) (simp add: printable_def)
    then show ?thesis using v False
      by (simp add: parse_assignment_def assignment_from_def s butlast_append)
  qed
qed

lemma parse_print_assignments: "\<forall>a \<in> set c. printable a \<Longrightarrow> parse_assignments (map print_assignment c) = Inr c"
  by (induction c) (simp_all add: parse_print_assignment)

section \<open>Properties\<close>

text \<open>
  C36. Targeting conditions are read back as they are written. For every conjunction with at
  least one assignment, whose attributes and values do not contain the characters of the
  format, \<open>parseDNF\<close> of its text succeeds and appends exactly this conjunction; and adding
  the document to the index then indexes it together with the three size conditions.
\<close>

theorem dnf_roundtrip:
  assumes "c \<noteq> []" and "\<forall>a \<in> set c. printable a"
  shows "parseDNF (print_conjunction c) dnf = Inr (dnf @ [c]) \<and>
    (props ''DNF'' = print_conjunction c \<longrightarrow> incrementalAdIndex t = Some x \<longrightarrow>
      buildDocument ops docID props t =
        Some (True, t\<lparr>incrementalAdIndex := Some (addDNF ops docID [c @ size_assignments props] x)\<rparr>))"
proof (intro conjI impI)
  have "\<forall>s \<in> set (map print_assignment c). \<forall>d \<in> set s. d \<noteq> CHR ''^''"
  proof -
    have "CHR ''^'' \<notin> set (print_assignment a)" if "a \<in> set c" for a
      using values_text(2) [of a] assms(2) that by (auto simp: print_assignment_def printable_def)
    then show ?thesis by auto
  qed
  then have "split_any (\<lambda>c. c = CHR ''^'') (print_conjunction c) = map print_assignment c"
    using assms(1) unfolding print_conjunction_def by (intro split_join) auto
  then show p: "parseDNF (print_conjunction c) dnf = Inr (dnf @ [c])" for dnf
    using parse_print_assignments [OF assms(2)] by (simp add: parseDNF_def)
  assume props: "props ''DNF'' = print_conjunction c" and t: "incrementalAdIndex t = Some x"
  have "print_assignment a \<noteq> []" for a by (simp add: print_assignment_def)
  then have "print_conjunction c \<noteq> []"
    using assms(1) unfolding print_conjunction_def by (cases "map print_assignment c" rule: list.exhaust; cases "tl (map print_assignment c)") auto
  then show "buildDocument ops docID props t =
      Some (True, t\<lparr>incrementalAdIndex := Some (addDNF ops docID [c @ size_assignments props] x)\<rparr>)"
    using p [of "[]"] props t by (simp add: buildDocument_def)
qed

theorem dnf_roundtrip_witness:
  "parseDNF ''age~{20,30}^city!~{bj}'' [] =
     Inr [[\<lparr>belongsTo = True, attribute = ''age'', avalues = [''20'', ''30'']\<rparr>,
           \<lparr>belongsTo = False, attribute = ''city'', avalues = [''bj'']\<rparr>]]"
proof -
  let ?c = "[\<lparr>belongsTo = True, attribute = ''age'', avalues = [''20'', ''30'']\<rparr>,
           \<lparr>belongsTo = False, attribute = ''city'', avalues = [''bj'']\<rparr>]"
  have "\<forall>a \<in> set ?c. printable a" by (simp add: printable_def)
  moreover have "print_conjunction ?c = ''age~{20,30}^city!~{bj}''" by (simp add: print_conjunction_def print_assignment_def)
  ultimately show ?thesis using dnf_roundtrip [of ?c "[]", THEN conjunct1] by simp
qed

end
