(* ===== verification/Feedback.thy ===== *)
theory Feedback
  imports Segments
begin

text \<open>
  \<open>AdFeedbackMgr\<close>: reading the log of views and clicks, and the profiles of the users, which
  are fetched from a key-value server and cached. The JSON library, the cache and the client
  of the server are not part of the repository: \<open>parse\<close> gives the value of a JSON text, the
  cache is the type parameter \<open>'c\<close> with the operations of \<open>cache_ops\<close>, and one request to the
  server is a \<open>dmp_reply\<close>. \<open>None\<close> is undefined behaviour of the JSON library (reading a member
  of a value that is not an object, a string of a value that is not a string). The pool of
  connections holds only handles of the client library and is not modelled.
\<close>

section \<open>JSON values\<close>

datatype json = JNull | JBool bool | JNum real | JStr string | JArr "json list" | JObj "(string \<times> json) list"

definition has_member :: "json \<Rightarrow> string \<Rightarrow> bool option" where
  "has_member j k = (case j of JObj ms \<Rightarrow> Some (map_of ms k \<noteq> None) | _ \<Rightarrow> None)"

definition get_string :: "json \<Rightarrow> string \<Rightarrow> string option" where
  "get_string j k =
     (case j of
        JObj ms \<Rightarrow> (case map_of ms k of Some (JStr s) \<Rightarrow> Some s | _ \<Rightarrow> None)
      | _ \<Rightarrow> None)"

definition is_object :: "json \<Rightarrow> bool" where
  "is_object j = (case j of JObj _ \<Rightarrow> True | _ \<Rightarrow> False)"

section \<open>User profiles\<close>

type_synonym profile = "(string \<times> (string \<times> real) list) list"

record user_profile =
  profile_data :: profile
  up_timestamp :: int

definition USER_PROFILE_CACHE_SECS :: int where "USER_PROFILE_CACHE_SECS = 60 * 10"

definition profile_name_list :: "string list" where
  "profile_name_list = [''page_categories'', ''product_categories'', ''product_price'', ''product_source'']"

fun put_members :: "(string \<times> json) list \<Rightarrow> (string \<times> real) list \<Rightarrow> (string \<times> real) list option" where
  "put_members [] d = Some d"
| "put_members ((k, v) # ms) d = (case v of JNum x \<Rightarrow> put_members ms (smap_upd k 0 (\<lambda>_. x) d) | _ \<Rightarrow> None)"

fun put_profiles :: "(string \<times> json) list \<Rightarrow> string list \<Rightarrow> profile \<Rightarrow> profile option" where
  "put_profiles doc [] p = Some p"
| "put_profiles doc (n # ns) p =
     (case map_of doc n of
        Some (JObj ms) \<Rightarrow>
          Option.bind (put_members ms (case map_of p n of None \<Rightarrow> [] | Some d \<Rightarrow> d))
            (\<lambda>d. put_profiles doc ns (smap_upd n [] (\<lambda>_. d) p))
      | _ \<Rightarrow> put_profiles doc ns p)"

definition convertToUserProfile :: "(string \<Rightarrow> json option) \<Rightarrow> string \<Rightarrow> profile \<Rightarrow> (bool \<times> profile) option" where
  "convertToUserProfile parse data p =
     (case parse data of
        Some (JObj doc) \<Rightarrow> map_option (Pair True) (put_profiles doc profile_name_list p)
      | _ \<Rightarrow> Some (False, p))"

section \<open>Fetching a profile\<close>

record 'c cache_ops =
  cache_get :: "string \<Rightarrow> 'c \<Rightarrow> user_profile option \<times> 'c"
  cache_insert :: "string \<Rightarrow> user_profile \<Rightarrow> 'c \<Rightarrow> 'c"

text \<open>
  One request: no connection, an error of \<open>lcb_get\<close>, or a request that was waited for, after
  which the callback got a body or nothing.
\<close>

datatype dmp_reply = NoConnection | GetFailed | Answered "string option"

record 'c feedback_mgr =
  cached_user_profiles :: 'c
  tmp_rsp_list :: "string \<rightharpoonup> string"

definition setDMPRsp :: "string \<Rightarrow> string \<Rightarrow> 'c feedback_mgr \<Rightarrow> 'c feedback_mgr" where
  "setDMPRsp cookie data f = (if data = [] then f else f\<lparr>tmp_rsp_list := (tmp_rsp_list f)(cookie \<mapsto> data)\<rparr>)"

definition getUserProfileFromDMP ::
  "(string \<Rightarrow> json option) \<Rightarrow> 'c cache_ops \<Rightarrow> int \<Rightarrow> dmp_reply \<Rightarrow> string \<Rightarrow> user_profile \<Rightarrow> 'c feedback_mgr \<Rightarrow>
   (bool \<times> user_profile \<times> 'c feedback_mgr) option" where
  "getUserProfileFromDMP parse ops now reply user p f =
     (let (hit, cache) = cache_get ops user (cached_user_profiles f);
          f1 = f\<lparr>cached_user_profiles := cache\<rparr>; p1 = (case hit of None \<Rightarrow> p | Some q \<Rightarrow> q)
      in if hit \<noteq> None \<and> now < up_timestamp p1 + USER_PROFILE_CACHE_SECS then Some (True, p1, f1)
         else (let p2 = p1\<lparr>profile_data := []\<rparr>
               in case reply of
                    NoConnection \<Rightarrow> Some (False, p2, f1)
                  | GetFailed \<Rightarrow> Some (False, p2, f1)
                  | Answered body \<Rightarrow>
                      (let f2 = (case body of None \<Rightarrow> f1 | Some b \<Rightarrow> setDMPRsp user b f1)
                       in case tmp_rsp_list f2 user of
                            None \<Rightarrow> Some (False, p2, f2)
                          | Some data \<Rightarrow>
                              map_option (\<lambda>(ok, d).
                                if ok then (let p3 = p2\<lparr>profile_data := d, up_timestamp := now\<rparr>
                                            in (True, p3, f2\<lparr>cached_user_profiles := cache_insert ops user p3 (cached_user_profiles f2)\<rparr>))
                                else (False, p2\<lparr>profile_data := d\<rparr>, f2))
                                (convertToUserProfile parse data []))))"

section \<open>Reading the log\<close>

datatype feedback_action = View | Click | Buy

record feedback_info =
  fi_user_id :: string
  fi_ad_id :: string
  fi_hit_bidstr :: string
  fi_action :: feedback_action
  fi_click_cost :: real
  fi_click_slot :: nat
  fi_user_profiles :: user_profile

text \<open>
  The data of a click. The first conversion that fails leaves the block by an exception, so
  the fields after it keep their values. \<open>to_double\<close> and \<open>to_num\<close> are \<open>boost::lexical_cast\<close>;
  the slot is written as a letter and a number.
\<close>

definition read_cost :: "(string \<Rightarrow> real option) \<Rightarrow> json \<Rightarrow> feedback_info \<Rightarrow> (bool \<times> feedback_info) option" where
  "read_cost to_double args i =
     (if has_member args ''click_cost'' \<noteq> Some True then Some (True, i)
      else map_option (\<lambda>s. case to_double s of None \<Rightarrow> (False, i) | Some x \<Rightarrow> (True, i\<lparr>fi_click_cost := x\<rparr>))
             (get_string args ''click_cost''))"

definition read_slot :: "(string \<Rightarrow> int option) \<Rightarrow> json \<Rightarrow> feedback_info \<Rightarrow> (bool \<times> feedback_info) option" where
  "read_slot to_num args i =
     (if has_member args ''click_slot'' \<noteq> Some True then Some (True, i)
      else map_option (\<lambda>s. if s = [] then (False, i)
                           else (case to_num (tl s) of
                                   None \<Rightarrow> (False, i)
                                 | Some n \<Rightarrow> (True, i\<lparr>fi_click_slot := nat (n mod 2 ^ 32)\<rparr>)))
             (get_string args ''click_slot''))"

definition read_bidstr :: "json \<Rightarrow> feedback_info \<Rightarrow> feedback_info option" where
  "read_bidstr args i =
     (if has_member args ''hit_orig_bidstr'' \<noteq> Some True then Some i
      else map_option (\<lambda>s. i\<lparr>fi_hit_bidstr := s\<rparr>) (get_string args ''hit_orig_bidstr''))"

definition read_click ::
  "(string \<Rightarrow> real option) \<Rightarrow> (string \<Rightarrow> int option) \<Rightarrow> json \<Rightarrow> feedback_info \<Rightarrow> feedback_info option" where
  "read_click to_double to_num args i =
     Option.bind (read_cost to_double args i) (\<lambda>(ok, i1).
       if \<not> ok then Some i1
       else Option.bind (read_slot to_num args i1) (\<lambda>(ok, i2). if \<not> ok then Some i2 else read_bidstr args i2))"

record 'c log_env =
  le_parse :: "string \<Rightarrow> json option"
  le_double :: "string \<Rightarrow> real option"
  le_int :: "string \<Rightarrow> int option"
  le_uint :: "string \<Rightarrow> nat option"
  le_cache :: "'c cache_ops"
  le_now :: int
  le_dmp :: "string \<Rightarrow> dmp_reply"

text \<open>The part after the JSON text has been checked to hold an object \<open>args\<close>.\<close>

definition read_args ::
  "'c log_env \<Rightarrow> json \<Rightarrow> feedback_info \<Rightarrow> 'c feedback_mgr \<Rightarrow> (bool \<times> feedback_info \<times> 'c feedback_mgr) option" where
  "read_args env args info f =
     (if has_member args ''ad'' \<noteq> Some True \<or> has_member args ''uid'' \<noteq> Some True \<or> has_member args ''aid'' \<noteq> Some True
      then Some (False, info, f)
      else Option.bind (get_string args ''uid'') (\<lambda>uid. Option.bind (get_string args ''aid'') (\<lambda>aid. Option.bind (get_string args ''ad'') (\<lambda>act.
        let i1 = info\<lparr>fi_user_id := uid, fi_ad_id := aid, fi_action := (if act = ''103'' then Click else View)\<rparr>
        in Option.bind (if fi_action i1 = Click then read_click (le_double env) (le_int env) args i1 else Some i1) (\<lambda>i2.
           if fi_user_id i2 = [] \<and> fi_ad_id i2 = [] then Some (False, i2, f)
           else if fi_user_id i2 = [] then Some (True, i2, f)
           else map_option (\<lambda>(ok, p, f'). (ok, i2\<lparr>fi_user_profiles := p\<rparr>, f'))
                  (getUserProfileFromDMP (le_parse env) (le_cache env) (le_now env) (le_dmp env (fi_user_id i2)) (fi_user_id i2)
                     (fi_user_profiles i2) f))))))"

definition parserFeedbackLog ::
  "'c log_env \<Rightarrow> string \<Rightarrow> feedback_info \<Rightarrow> 'c feedback_mgr \<Rightarrow> (bool \<times> feedback_info \<times> 'c feedback_mgr) option" where
  "parserFeedbackLog env log_data info f =
     (case le_parse env log_data of
        None \<Rightarrow> Some (False, info, f)
      | Some (JObj ms) \<Rightarrow>
          (case map_of ms ''args'' of
             None \<Rightarrow> Some (False, info, f)
           | Some args \<Rightarrow> if is_object args then read_args env args info f else Some (False, info, f))
      | Some _ \<Rightarrow> None)"

text \<open>
  The binary log; \<open>args\<close> is the decoded map, empty for a missing key. A conversion that fails
  leaves the rest of the click data as it is.
\<close>

definition parserFeedbackLogForAVRO ::
  "'c log_env \<Rightarrow> (string \<Rightarrow> string) \<Rightarrow> feedback_info \<Rightarrow> 'c feedback_mgr \<Rightarrow> (bool \<times> feedback_info \<times> 'c feedback_mgr) option" where
  "parserFeedbackLogForAVRO env args info f =
     (let i1 = info\<lparr>fi_user_id := args ''uid'', fi_ad_id := args ''aid'', fi_action := (if args ''ad'' = ''103'' then Click else View)\<rparr>;
          i2 = (if fi_action i1 = Click
                then (case le_double env (args ''click_cost'') of
                        None \<Rightarrow> i1
                      | Some x \<Rightarrow>
                          (case le_uint env (args ''click_slot'') of
                             None \<Rightarrow> i1\<lparr>fi_click_cost := x\<rparr>
                           | Some n \<Rightarrow> i1\<lparr>fi_click_cost := x, fi_click_slot := n\<rparr>))
                else i1)
      in if fi_user_id i2 \<noteq> [] \<and> fi_ad_id i2 \<noteq> []
         then map_option (\<lambda>(ok, p, f'). (ok, i2\<lparr>fi_user_profiles := p\<rparr>, f'))
                (getUserProfileFromDMP (le_parse env) (le_cache env) (le_now env) (le_dmp env (fi_user_id i2)) (fi_user_id i2)
                   (fi_user_profiles i2) f)
         else Some (False, i2, f))"

end
