(* ===== verification/AdIndex.thy ===== *)
theory AdIndex
  imports AdSelect Recommender Dnf Feedback SponsoredSearch SponsoredDaily
begin

text \<open>
  \<open>AdIndexManager\<close>: the class that ties the parts together. It ranks the ads a search has
  found by price and predicted click rate, hands the stream of views and clicks to the
  sponsored search, the predictor, the selector and the recommender, and runs the mining of
  new documents. Everything outside the repository is collected in \<open>index_env\<close>: the id
  manager, document properties, the full-text search, the click predictor (state \<open>'p\<close>), the
  random numbers. \<open>None\<close> is undefined behaviour, for example the use of a part that was not
  created. Periodic saving writes files and changes no state.
\<close>

definition MAX_SELECT_AD_COUNT :: nat where "MAX_SELECT_AD_COUNT = 20"
definition MAX_RECOMMEND_ITEM_NUM :: nat where "MAX_RECOMMEND_ITEM_NUM = 10"

record ad_index_config =
  enable_selector :: bool
  enable_sponsored_search :: bool
  enable_rec :: bool

record ('i, 's, 'x, 'c, 'p) index_env =
  ie_config :: ad_index_config
  ie_seg :: "('i, 's) seg_ops"
  ie_dnf :: "'x dnf_ops"
  ie_log :: "'c log_env"
  ie_ads :: ad_env
  ie_group :: "group_mgr option"
  ie_predict :: "'p \<Rightarrow> feature \<Rightarrow> feature \<Rightarrow> real"
  ie_learn :: "feature \<Rightarrow> feature \<Rightarrow> bool \<Rightarrow> 'p \<Rightarrow> 'p"
  ie_deleted :: "nat \<Rightarrow> bool"
  ie_price :: "(nat \<Rightarrow> real option) option"
  ie_mode :: "(nat \<Rightarrow> int option) option"
  ie_queue :: hit_queue
  ie_ad_queue :: ad_queue
  ie_now :: tm
  ie_random :: "nat \<Rightarrow> nat"

record ('i, 's, 'x, 'c, 'p) ad_index =
  ai_selector :: "('i, 's) ad_selector option"
  ai_rec :: "recommender option"
  ai_sponsored :: "sponsored_mgr option"
  ai_predictor :: 'p
  ai_task :: "'x mining_task"
  ai_feedback :: "'c feedback_mgr"

section \<open>Ranking\<close>

text \<open>
  A value that is missing leaves the variable at 0. Ads of mode 0 are scored by their price,
  ads of mode 1 go to the selector, ads of any other mode get score 0.
\<close>

definition ad_price :: "('i, 's, 'x, 'c, 'p) index_env \<Rightarrow> nat \<Rightarrow> real" where
  "ad_price env d = (case ie_price env of None \<Rightarrow> 0 | Some t \<Rightarrow> (case t d of None \<Rightarrow> 0 | Some x \<Rightarrow> x))"

definition bid_mode :: "('i, 's, 'x, 'c, 'p) index_env \<Rightarrow> nat \<Rightarrow> int" where
  "bid_mode env d = (case ie_mode env of None \<Rightarrow> 0 | Some t \<Rightarrow> (case t d of None \<Rightarrow> 0 | Some x \<Rightarrow> x))"

definition cpm_items :: "('i, 's, 'x, 'c, 'p) index_env \<Rightarrow> nat list \<Rightarrow> score_doc list" where
  "cpm_items env docs = map (\<lambda>d. \<lparr>sd_docId = d, sd_score = (if bid_mode env d = 0 then ad_price env d else 0)\<rparr>)
     (filter (\<lambda>d. \<not> ie_deleted env d \<and> bid_mode env d \<noteq> 1) docs)"

definition cpc_ads :: "('i, 's, 'x, 'c, 'p) index_env \<Rightarrow> nat list \<Rightarrow> nat list" where
  "cpc_ads env docs = filter (\<lambda>d. \<not> ie_deleted env d \<and> bid_mode env d = 1) docs"

text \<open>Without a selector the score list is empty, and reading it for a CPC ad is undefined.\<close>

definition select_cpc ::
  "('i, 's, 'x, 'c, 'p) index_env \<Rightarrow> feature \<Rightarrow> nat list \<Rightarrow> ('i, 's, 'x, 'c, 'p) ad_index \<Rightarrow>
   (nat list \<times> real list \<times> ('i, 's, 'x, 'c, 'p) ad_index) option" where
  "select_cpc env userinfo cands st =
     (case ai_selector st of
        None \<Rightarrow> if cands = [] then Some ([], [], st) else None
      | Some sel \<Rightarrow>
          map_option (\<lambda>(ok, ads, scores, sel'). (ads, scores, st\<lparr>ai_selector := Some sel'\<rparr>))
            (select_ads (ie_random env) (ie_queue env) (ie_predict env (ai_predictor st)) userinfo MAX_SELECT_AD_COUNT cands sel))"

definition rankAndSelect ::
  "('i, 's, 'x, 'c, 'p) index_env \<Rightarrow> feature \<Rightarrow> nat list \<Rightarrow> ('i, 's, 'x, 'c, 'p) ad_index \<Rightarrow>
   (nat list \<times> real list \<times> nat \<times> ('i, 's, 'x, 'c, 'p) ad_index) option" where
  "rankAndSelect env userinfo docs st =
     map_option (\<lambda>(ads, scores, st').
         let items = cpm_items env docs @ map2 (\<lambda>d s. \<lparr>sd_docId = d, sd_score = s * ad_price env d * 1000\<rparr>) ads scores;
             top = rev (ie_queue env (min MAX_SELECT_AD_COUNT (length docs)) items)
         in (map sd_docId top, map sd_score top, length top, st'))
       (select_cpc env userinfo (cpc_ads env docs) st)"

section \<open>Searches\<close>

definition searchByDNF ::
  "('i, 's, 'x, 'c, 'p) index_env \<Rightarrow> feature \<Rightarrow> ('i, 's, 'x, 'c, 'p) ad_index \<Rightarrow>
   (bool \<times> nat list \<times> real list \<times> nat \<times> ('i, 's, 'x, 'c, 'p) ad_index) option" where
  "searchByDNF env info st =
     map_option (Pair True) (rankAndSelect env info (retrieve (ie_dnf env) info (ad_dnf_index (ai_task st))) st)"

text \<open>
  \<open>searcher\<close> is \<open>AdSearchService\<close>: the documents found for a query, or \<open>None\<close> when the search
  fails. A result is the list of documents before ranking and the ranked result.
\<close>

definition ranked_search ::
  "('i, 's, 'x, 'c, 'p) index_env \<Rightarrow> (string \<Rightarrow> nat list option) \<Rightarrow> string \<Rightarrow> ('i, 's, 'x, 'c, 'p) ad_index \<Rightarrow>
   (bool \<times> nat list \<times> (nat list \<times> real list \<times> nat) \<times> ('i, 's, 'x, 'c, 'p) ad_index) option" where
  "ranked_search env searcher query st =
     (case searcher query of
        None \<Rightarrow> Some (False, [], ([], [], 0), st)
      | Some docs \<Rightarrow> map_option (\<lambda>(ds, ss, n, st'). (True, docs, (ds, ss, n), st')) (rankAndSelect env [] docs st))"

definition searchByQuery ::
  "('i, 's, 'x, 'c, 'p) index_env \<Rightarrow> (string \<Rightarrow> nat list option) option \<Rightarrow> string \<Rightarrow> ('i, 's, 'x, 'c, 'p) ad_index \<Rightarrow>
   (bool \<times> nat list \<times> (nat list \<times> real list \<times> nat) \<times> ('i, 's, 'x, 'c, 'p) ad_index) option" where
  "searchByQuery env searcher query st =
     (case searcher of
        None \<Rightarrow> Some (False, [], ([], [], 0), st)
      | Some s \<Rightarrow> if ai_selector st = None then Some (False, [], ([], [], 0), st) else ranked_search env s query st)"

definition selectFromRecommend ::
  "('i, 's, 'x, 'c, 'p) index_env \<Rightarrow> string list \<Rightarrow> feature \<Rightarrow> nat \<Rightarrow> ('i, 's, 'x, 'c, 'p) ad_index \<Rightarrow> (string \<times> real) list option" where
  "selectFromRecommend env order userinfo n st =
     (case ai_rec st of None \<Rightarrow> Some [] | Some r \<Rightarrow> recommend (ie_ad_queue env) order userinfo n [] r)"

definition searchByRecommend ::
  "('i, 's, 'x, 'c, 'p) index_env \<Rightarrow> string list \<Rightarrow> (string \<Rightarrow> nat list option) option \<Rightarrow> ('i, 's, 'x, 'c, 'p) ad_index \<Rightarrow>
   (bool \<times> nat list \<times> (nat list \<times> real list \<times> nat) \<times> ('i, 's, 'x, 'c, 'p) ad_index) option" where
  "searchByRecommend env order searcher st =
     (case searcher of
        None \<Rightarrow> Some (False, [], ([], [], 0), st)
      | Some s \<Rightarrow>
          if ai_selector st = None then Some (False, [], ([], [], 0), st)
          else Option.bind (selectFromRecommend env order [] MAX_RECOMMEND_ITEM_NUM st)
                 (\<lambda>items. ranked_search env s (concat (map (\<lambda>(k, _). k @ '' '') items)) st))"

section \<open>Sponsored search\<close>

definition on_sponsored ::
  "(sponsored_mgr \<Rightarrow> (bool \<times> sponsored_mgr) option) \<Rightarrow> ('i, 's, 'x, 'c, 'p) ad_index \<Rightarrow> (bool \<times> ('i, 's, 'x, 'c, 'p) ad_index) option" where
  "on_sponsored f st =
     (case ai_sponsored st of
        None \<Rightarrow> Some (False, st)
      | Some m \<Rightarrow> map_option (\<lambda>(ok, m'). (ok, st\<lparr>ai_sponsored := Some m'\<rparr>)) (f m))"

definition index_setAdCampaignBudget :: "string \<Rightarrow> int \<Rightarrow> ('i, 's, 'x, 'c, 'p) ad_index \<Rightarrow> (bool \<times> ('i, 's, 'x, 'c, 'p) ad_index) option" where
  "index_setAdCampaignBudget name budget = on_sponsored (\<lambda>m. Some (True, changeDailyBudget name budget m))"

definition index_updateAdOnlineStatus ::
  "('i, 's, 'x, 'c, 'p) index_env \<Rightarrow> string list \<Rightarrow> bool list \<Rightarrow> ('i, 's, 'x, 'c, 'p) ad_index \<Rightarrow> (bool \<times> ('i, 's, 'x, 'c, 'p) ad_index) option" where
  "index_updateAdOnlineStatus env ids online =
     on_sponsored (\<lambda>m. map_option (\<lambda>(_, m'). (True, m')) (updateAdOnlineStatus (ie_ads env) ids online m))"

definition index_delAdBidPhrase ::
  "('i, 's, 'x, 'c, 'p) index_env \<Rightarrow> string \<Rightarrow> string list \<Rightarrow> ('i, 's, 'x, 'c, 'p) ad_index \<Rightarrow> (bool \<times> ('i, 's, 'x, 'c, 'p) ad_index) option" where
  "index_delAdBidPhrase env strid phrases = on_sponsored (delAdBidPhrase (ie_ads env) strid phrases)"

definition index_updateAdBidPhrase ::
  "('i, 's, 'x, 'c, 'p) index_env \<Rightarrow> string \<Rightarrow> string list \<Rightarrow> int list \<Rightarrow> ('i, 's, 'x, 'c, 'p) ad_index \<Rightarrow>
   (bool \<times> ('i, 's, 'x, 'c, 'p) ad_index) option" where
  "index_updateAdBidPhrase env strid phrases prices = on_sponsored (updateAdBidPhrase (ie_ads env) strid phrases prices)"

definition index_sponsoredAdSearch ::
  "('i, 's, 'x, 'c, 'p) index_env \<Rightarrow> (string \<Rightarrow> nat list) option \<Rightarrow> (ad_doc list \<Rightarrow> ad_doc list) \<Rightarrow> string \<Rightarrow> search_result \<Rightarrow>
   ('i, 's, 'x, 'c, 'p) ad_index \<Rightarrow> (bool \<times> search_result \<times> ('i, 's, 'x, 'c, 'p) ad_index) option" where
  "index_sponsoredAdSearch env searcher drain query res st =
     (case ai_sponsored st of
        None \<Rightarrow> Some (False, res, st)
      | Some m \<Rightarrow> map_option (\<lambda>(ok, res', m'). (ok, res', st\<lparr>ai_sponsored := Some m'\<rparr>))
                    (sponsoredAdSearch (ie_now env) (ie_random env) (ie_ads env) searcher drain query res m))"

text \<open>The hourly job: in the first half hour of the day the used budgets start over.\<close>

definition refreshBidStrategy ::
  "('i, 's, 'x, 'c, 'p) index_env \<Rightarrow> bool \<Rightarrow> nat \<Rightarrow> string list \<Rightarrow> (nat \<Rightarrow> int list) \<Rightarrow> (nat \<Rightarrow> rng) \<Rightarrow>
   ('i, 's, 'x, 'c, 'p) ad_index \<Rightarrow> ('i, 's, 'x, 'c, 'p) ad_index option" where
  "refreshBidStrategy env matches_now tm_min keys orders rnds st =
     (if \<not> matches_now then Some st
      else (case ai_sponsored st of
              None \<Rightarrow> Some st
            | Some m \<Rightarrow>
                map_option (\<lambda>m'. st\<lparr>ai_sponsored := Some m'\<rparr>)
                  (reset_daily (ie_now env) (ie_ads env) keys orders rnds (tm_hour (ie_now env) = 0 \<and> tm_min < 30) m)))"

section \<open>Mining\<close>

text \<open>
  The recommender's part of \<open>AdSelector::miningAdSegmentStr\<close>: the features and title tags of
  every document, under its number written in decimal. An exception leaves the function.
\<close>

fun mine_recommender ::
  "group_mgr \<Rightarrow> (nat \<Rightarrow> string list) \<Rightarrow> string list \<Rightarrow> nat list \<Rightarrow> recommender \<Rightarrow> recommender option" where
  "mine_recommender gm tags names [] r = Some r"
| "mine_recommender gm tags names (d # ds) r =
     Option.bind (doc_features gm names d) (\<lambda>fs.
       case updateAdFeatures (dec d) (concat (map snd fs) @ tags d) r of
         (None, r') \<Rightarrow> mine_recommender gm tags names ds r'
       | (Some e, r') \<Rightarrow> None)"

definition selector_mining ::
  "('i, 's, 'x, 'c, 'p) index_env \<Rightarrow> (nat \<Rightarrow> string list) \<Rightarrow> nat \<Rightarrow> nat \<Rightarrow> ('i, 's, 'x, 'c, 'p) ad_index \<Rightarrow>
   ('i, 's, 'x, 'c, 'p) ad_index option" where
  "selector_mining env tags startid endid st =
     (case ai_selector st of
        None \<Rightarrow> Some st
      | Some sel \<Rightarrow>
          Option.bind (miningAdSegmentStr (ie_seg env) (ie_group env) startid endid sel) (\<lambda>sel'.
            let st1 = st\<lparr>ai_selector := Some sel'\<rparr>
            in case (ie_group env, ai_rec st) of
                 (Some gm, Some r) \<Rightarrow>
                   map_option (\<lambda>r'. st1\<lparr>ai_rec := Some r'\<rparr>)
                     (mine_recommender gm tags (map fst (default_full_features sel ! AdSeg)) [startid..<endid + 1] r)
               | _ \<Rightarrow> Some st1))"

definition postMining ::
  "('i, 's, 'x, 'c, 'p) index_env \<Rightarrow> (nat \<Rightarrow> string list) \<Rightarrow> (string \<Rightarrow> real option) \<Rightarrow> (nat \<Rightarrow> ad_props) \<Rightarrow> string list \<Rightarrow>
   (nat \<Rightarrow> int list) \<Rightarrow> (nat \<Rightarrow> rng) \<Rightarrow> nat \<Rightarrow> nat \<Rightarrow> ('i, 's, 'x, 'c, 'p) ad_index \<Rightarrow> ('i, 's, 'x, 'c, 'p) ad_index option" where
  "postMining env tags parse props keys orders rnds startid endid st =
     Option.bind (selector_mining env tags startid endid st) (\<lambda>st1.
       case ai_sponsored st1 of
         None \<Rightarrow> Some st1
       | Some m \<Rightarrow> map_option (\<lambda>m'. st1\<lparr>ai_sponsored := Some m'\<rparr>)
                     (miningAdCreatives (ie_now env) (ie_ads env) parse props keys orders rnds startid endid m))"

section \<open>The stream of views and clicks\<close>

definition user_features :: "feedback_info \<Rightarrow> feature" where
  "user_features info = concat (map (\<lambda>(name, vals). map (\<lambda>(v, _). (name, v)) vals) (profile_data (fi_user_profiles info)))"

definition is_clicked :: "feedback_info \<Rightarrow> bool" where
  "is_clicked info \<longleftrightarrow> fi_action info \<noteq> View"

definition sponsored_message ::
  "('i, 's, 'x, 'c, 'p) index_env \<Rightarrow> feedback_info \<Rightarrow> ('i, 's, 'x, 'c, 'p) ad_index \<Rightarrow> ('i, 's, 'x, 'c, 'p) ad_index option" where
  "sponsored_message env info st =
     (if enable_sponsored_search (ie_config env) \<and> is_clicked info \<and> fi_ad_id info \<noteq> []
      then map_option (\<lambda>m. st\<lparr>ai_sponsored := Some (sponsored_click (ie_now env) (ie_ads env) (fi_ad_id info) (fi_hit_bidstr info)
                              (to_int (fi_click_cost info * 100)) (fi_click_slot info) m)\<rparr>)
             (ai_sponsored st)
      else Some st)"

text \<open>
  \<open>docid\<close> starts as 0 and keeps that value when the id manager does not know the ad. The
  group manager is used without a test.
\<close>

definition learn_message ::
  "('i, 's, 'x, 'c, 'p) index_env \<Rightarrow> feedback_info \<Rightarrow> ('i, 's) ad_selector \<Rightarrow> 'p \<Rightarrow> (('i, 's) ad_selector \<times> 'p) option" where
  "learn_message env info sel p =
     (case adIdOf (ie_ads env) (fi_ad_id info) of
        None \<Rightarrow> Some (sel, p)
      | Some docid \<Rightarrow>
          Option.bind (ie_group env) (\<lambda>gm.
            map_option (\<lambda>ad_feature. (sel, ie_learn env (user_features info) ad_feature (is_clicked info) p))
              (getAdFeatureList gm docid sel)))"

definition click_message ::
  "('i, 's, 'x, 'c, 'p) index_env \<Rightarrow> feedback_info \<Rightarrow> ('i, 's) ad_selector \<Rightarrow> ('i, 's) ad_selector option" where
  "click_message env info sel =
     (if is_clicked info \<and> fi_ad_id info \<noteq> []
      then updateClicked (case adIdOf (ie_ads env) (fi_ad_id info) of None \<Rightarrow> 0 | Some d \<Rightarrow> d) sel
      else Some sel)"

definition train_message ::
  "('i, 's, 'x, 'c, 'p) index_env \<Rightarrow> feedback_info \<Rightarrow> recommender option \<Rightarrow> recommender option option" where
  "train_message env info r =
     (case r of
        None \<Rightarrow> Some None
      | Some r \<Rightarrow>
          if enable_rec (ie_config env)
          then (case rec_update (ie_random env) (user_features info) (fi_ad_id info) (is_clicked info) r of
                  Some (None, r') \<Rightarrow> Some (Some r')
                | _ \<Rightarrow> None)
          else Some (Some r))"

definition selector_message ::
  "('i, 's, 'x, 'c, 'p) index_env \<Rightarrow> feedback_info \<Rightarrow> ('i, 's, 'x, 'c, 'p) ad_index \<Rightarrow> ('i, 's, 'x, 'c, 'p) ad_index option" where
  "selector_message env info st =
     (if \<not> enable_selector (ie_config env) then Some st
      else Option.bind (ai_selector st) (\<lambda>sel.
           Option.bind (learn_message env info sel (ai_predictor st)) (\<lambda>(sel1, p).
           Option.bind (click_message env info sel1) (\<lambda>sel2.
           map_option (\<lambda>r. st\<lparr>ai_selector := Some (updateSegments (user_features info) UserSeg sel2), ai_predictor := p, ai_rec := r\<rparr>)
             (train_message env info (ai_rec st))))))"

text \<open>\<open>feedback_info\<close> is declared outside the loop: every message starts from the last one's.\<close>

definition on_message ::
  "('i, 's, 'x, 'c, 'p) index_env \<Rightarrow> string \<Rightarrow> feedback_info \<times> ('i, 's, 'x, 'c, 'p) ad_index \<Rightarrow>
   (feedback_info \<times> ('i, 's, 'x, 'c, 'p) ad_index) option" where
  "on_message env body = (\<lambda>(info, st).
     Option.bind (parserFeedbackLog (ie_log env) body info (ai_feedback st)) (\<lambda>(ok, info', f).
       let st1 = st\<lparr>ai_feedback := f\<rparr>
       in if \<not> ok then Some (info', st1)
          else map_option (Pair info') (Option.bind (sponsored_message env info' st1) (selector_message env info'))))"

fun onAdStreamMessage ::
  "('i, 's, 'x, 'c, 'p) index_env \<Rightarrow> string list \<Rightarrow> feedback_info \<times> ('i, 's, 'x, 'c, 'p) ad_index \<Rightarrow>
   (feedback_info \<times> ('i, 's, 'x, 'c, 'p) ad_index) option" where
  "onAdStreamMessage env [] s = Some s"
| "onAdStreamMessage env (b # bs) s = Option.bind (on_message env b s) (onAdStreamMessage env bs)"

section \<open>What the ranking returns\<close>

lemma select_cpc_result:
  assumes "hit_queue_ok (ie_queue env)" and "ai_selector st = Some sel"
    and "\<forall>d \<in> set cands. d < MAX_AD_DOCID \<and> d < length (ad_segid_data sel)"
  shows "\<exists>ads scores sel'. select_cpc env userinfo cands st = Some (ads, scores, st\<lparr>ai_selector := Some sel'\<rparr>) \<and>
    set ads \<subseteq> set cands \<and> length scores = length ads"
proof (cases "cands = []")
  case True
  then show ?thesis using assms(2)
    by (intro exI [of _ "[]"] exI [of _ sel]) (simp add: select_cpc_def select_ads_def)
next
  case False
  have "0 < MAX_SELECT_AD_COUNT" by (simp add: MAX_SELECT_AD_COUNT_def)
  from select_result [OF assms(1) False this assms(3), of "ie_random env" "ie_predict env (ai_predictor st)" userinfo]
  obtain ads scores sel' where "select_ads (ie_random env) (ie_queue env) (ie_predict env (ai_predictor st)) userinfo
      MAX_SELECT_AD_COUNT cands sel = Some (ads \<noteq> [], ads, scores, sel')" "set ads \<subseteq> set cands" "length scores = length ads"
    by (elim exE conjE) blast
  then show ?thesis using assms(2) by (intro exI [of _ ads] exI [of _ scores] exI [of _ sel']) (simp add: select_cpc_def)
qed

lemma queue_items:
  assumes "hit_queue_ok queue"
  shows "length (rev (queue n items)) = min n (length items)" and "set (rev (queue n items)) \<subseteq> set items"
  using assms hit_queue_facts(3) [OF assms] by (simp_all add: hit_queue_ok_def)

section \<open>What the stream hands on\<close>

text \<open>The log messages that are accepted, in order, each read over what the one before it left.\<close>

fun accepted :: "'c log_env \<Rightarrow> string list \<Rightarrow> feedback_info \<Rightarrow> 'c feedback_mgr \<Rightarrow> feedback_info list option" where
  "accepted le [] info f = Some []"
| "accepted le (b # bs) info f =
     Option.bind (parserFeedbackLog le b info f) (\<lambda>(ok, info', f').
       map_option (\<lambda>is. if ok then info' # is else is) (accepted le bs info' f'))"

definition paid_clicks :: "feedback_info list \<Rightarrow> feedback_info list" where
  "paid_clicks is = filter (\<lambda>i. is_clicked i \<and> fi_ad_id i \<noteq> []) is"

definition charge :: "('i, 's, 'x, 'c, 'p) index_env \<Rightarrow> feedback_info \<Rightarrow> sponsored_mgr \<Rightarrow> sponsored_mgr" where
  "charge env i = sponsored_click (ie_now env) (ie_ads env) (fi_ad_id i) (fi_hit_bidstr i) (to_int (fi_click_cost i * 100)) (fi_click_slot i)"

lemma selector_message_keeps:
  assumes "selector_message env info st = Some st'"
  shows "ai_sponsored st' = ai_sponsored st" and "ai_feedback st' = ai_feedback st" and "ai_task st' = ai_task st"
  using assms by (auto simp: selector_message_def bind_eq_Some_conv split: if_splits)

lemma on_message_sponsored:
  assumes "on_message env b (info, st) = Some (info', st')" and "enable_sponsored_search (ie_config env)" and "ai_sponsored st = Some m"
  shows "\<exists>ok. parserFeedbackLog (ie_log env) b info (ai_feedback st) = Some (ok, info', ai_feedback st') \<and>
    ai_sponsored st' = Some (if ok \<and> is_clicked info' \<and> fi_ad_id info' \<noteq> [] then charge env info' m else m)"
proof -
  obtain ok i f where p: "parserFeedbackLog (ie_log env) b info (ai_feedback st) = Some (ok, i, f)"
    using assms(1) by (auto simp: on_message_def bind_eq_Some_conv)
  show ?thesis
  proof (cases ok)
    case False
    then have "info' = i" "st' = st\<lparr>ai_feedback := f\<rparr>" using assms(1) p by (simp_all add: on_message_def Let_def)
    then show ?thesis using p False assms(3) by (intro exI [of _ ok]) simp
  next
    case True
    let ?st1 = "st\<lparr>ai_feedback := f\<rparr>"
    have "map_option (Pair i) (Option.bind (sponsored_message env i ?st1) (selector_message env i)) = Some (info', st')"
      using assms(1) p True by (simp only: on_message_def Let_def prod.case Option.bind.bind_lunit simp_thms if_False)
    then have r: "Option.bind (sponsored_message env i ?st1) (selector_message env i) = Some st'" and i: "info' = i"
      unfolding map_option_eq_Some by blast+
    from r obtain st2 where s: "sponsored_message env i ?st1 = Some st2" "selector_message env i st2 = Some st'"
      unfolding bind_eq_Some_conv by blast
    have "ai_sponsored st2 = Some (if is_clicked i \<and> fi_ad_id i \<noteq> [] then charge env i m else m)" "ai_feedback st2 = f"
      using s(1) assms(2,3) by (auto simp: sponsored_message_def charge_def split: if_splits)
    then show ?thesis using selector_message_keeps [OF s(2)] p True i by (intro exI [of _ ok]) simp
  qed
qed

lemma stream_sponsored:
  assumes "onAdStreamMessage env bs (info, st) = Some (info', st')" and "enable_sponsored_search (ie_config env)" and "ai_sponsored st = Some m"
  shows "\<exists>is. accepted (ie_log env) bs info (ai_feedback st) = Some is \<and> ai_sponsored st' = Some (fold (charge env) (paid_clicks is) m)"
  using assms(1,3)
proof (induction bs arbitrary: info st m)
  case (Cons b bs)
  obtain i1 st1 where 1: "on_message env b (info, st) = Some (i1, st1)" "onAdStreamMessage env bs (i1, st1) = Some (info', st')"
    using Cons.prems(1) by (auto simp: bind_eq_Some_conv)
  from on_message_sponsored [OF 1(1) assms(2) Cons.prems(2)] obtain ok where
    p: "parserFeedbackLog (ie_log env) b info (ai_feedback st) = Some (ok, i1, ai_feedback st1)"
      "ai_sponsored st1 = Some (if ok \<and> is_clicked i1 \<and> fi_ad_id i1 \<noteq> [] then charge env i1 m else m)" by blast
  from Cons.IH [OF 1(2) p(2)] p(1) show ?case by (cases ok) (auto simp: paid_clicks_def split: if_splits)
qed (simp add: paid_clicks_def)

text \<open>The cost a click puts on campaign \<open>c\<close>.\<close>

definition click_cost_of :: "('i, 's, 'x, 'c, 'p) index_env \<Rightarrow> nat list \<Rightarrow> nat \<Rightarrow> feedback_info \<Rightarrow> int" where
  "click_cost_of env belong c i =
     (case adIdOf (ie_ads env) (fi_ad_id i) of
        None \<Rightarrow> 0
      | Some a \<Rightarrow> if a < length belong \<and> belong ! a = c then to_int (fi_click_cost i * 100) else 0)"

lemma charge_effect:
  shows "ad_campaign_belong_list (charge env i m) = ad_campaign_belong_list m"
    and "length (ad_budget_used_list (charge env i m)) = length (ad_budget_used_list m)"
    and "c < length (ad_budget_used_list m) \<Longrightarrow>
      ad_budget_used_list (charge env i m) ! c = ad_budget_used_list m ! c + click_cost_of env (ad_campaign_belong_list m) c i"
    and "sponsored_ok m \<Longrightarrow> sponsored_ok (charge env i m)"
proof -
  show "ad_campaign_belong_list (charge env i m) = ad_campaign_belong_list m"
    "length (ad_budget_used_list (charge env i m)) = length (ad_budget_used_list m)"
    by (auto simp: charge_def sponsored_click_def consumeBudget_def Let_def split: option.split)
  show "c < length (ad_budget_used_list m) \<Longrightarrow>
      ad_budget_used_list (charge env i m) ! c = ad_budget_used_list m ! c + click_cost_of env (ad_campaign_belong_list m) c i"
    by (auto simp: charge_def sponsored_click_def consumeBudget_def click_cost_of_def Let_def nth_list_update split: option.split)
  show "sponsored_ok m \<Longrightarrow> sponsored_ok (charge env i m)"
    using consume_sponsored_ok by (simp add: charge_def sponsored_click_def Let_def split: option.split)
qed

lemma charges_effect:
  "c < length (ad_budget_used_list m) \<Longrightarrow>
   ad_budget_used_list (fold (charge env) is m) ! c =
     ad_budget_used_list m ! c + sum_list (map (click_cost_of env (ad_campaign_belong_list m) c) is) \<and>
   (sponsored_ok m \<longrightarrow> sponsored_ok (fold (charge env) is m))"
  by (induction "is" arbitrary: m) (simp_all add: charge_effect)

section \<open>Properties\<close>


definition sample_selector :: "(unit, unit) ad_selector" where
  "sample_selector = \<lparr>history_ctr_data = Map.empty, pending_compute_doclist = [], clicked_ads = [], all_segments = [[], []],
     updated_segments = [[], []], init_counter = [[], []], default_full_features = [[], []], need_refresh = False,
     ad_segid_data = [[], [], []], ad_segid_mgr = (), ad_segid_str_data = ()\<rparr>"

text \<open>A small configuration: document 1 is ad \<open>a\<close> and costs 3, document 2 is deleted.\<close>

definition sample_env :: "(unit, unit, unit, unit, nat) index_env" where
  "sample_env = \<lparr>ie_config = \<lparr>enable_selector = True, enable_sponsored_search = True, enable_rec = False\<rparr>,
     ie_seg = \<lparr>id_find = (\<lambda>_ _. None), id_add = (\<lambda>i _. (0, i)), st_get = (\<lambda>_ _. None), st_put = (\<lambda>s _ _. s)\<rparr>,
     ie_dnf = \<lparr>addDNF = (\<lambda>_ _ x. x), totalNumDNF = (\<lambda>_. 0), retrieve = (\<lambda>_ _. [])\<rparr>,
     ie_log = \<lparr>le_parse = (\<lambda>s. if s = ''c'' then Some (JObj [(''args'', JObj [(''uid'', JStr []), (''aid'', JStr ''a''), (''ad'', JStr ''103''),
                 (''click_cost'', JStr ''0.5'')])])
               else if s = ''v'' then Some (JObj [(''args'', JObj [(''uid'', JStr []), (''aid'', JStr ''a''), (''ad'', JStr ''108'')])])
               else if s = ''x'' then Some (JObj [(''args'', JObj [(''uid'', JStr []), (''aid'', JStr ''b''), (''ad'', JStr ''103'')])])
               else None), le_double = (\<lambda>_. Some (1/2)), le_int = (\<lambda>_. None), le_uint = (\<lambda>_. None),
        le_cache = \<lparr>cache_get = (\<lambda>_ c. (None, c)), cache_insert = (\<lambda>_ _ c. c)\<rparr>, le_now = 0, le_dmp = (\<lambda>_. NoConnection)\<rparr>,
     ie_ads = \<lparr>pca = (\<lambda>t. [(t, 1)]), adIdOf = (\<lambda>s. if s = ''a'' then Some 1 else None), adStrIdOf = (\<lambda>_. None)\<rparr>,
     ie_group = Some (\<lambda>_. None), ie_predict = (\<lambda>_ _ _. 1/2), ie_learn = (\<lambda>u a c p. p + length u), ie_deleted = (\<lambda>d. d = 2),
     ie_price = Some (\<lambda>_. Some 3), ie_mode = None, ie_queue = take, ie_ad_queue = take,
     ie_now = \<lparr>tm_year = 114, tm_yday = 3, tm_hour = 5\<rparr>, ie_random = (\<lambda>_. 500)\<rparr>"

definition sample_index :: "(unit, unit, unit, unit, nat) ad_index" where
  "sample_index = \<lparr>ai_selector = Some sample_selector, ai_rec = None,
     ai_sponsored = Some (sponsored_init\<lparr>campaign_dict := \<lparr>id_values = [''k''], value_ids = [''k'' \<mapsto> 0]\<rparr>,
       ad_campaign_belong_list := [0, 0], ad_budget_used_list := [20]\<rparr>),
     ai_predictor = 0, ai_task = \<lparr>ad_dnf_index = (), incrementalAdIndex = None, startDocId = 1\<rparr>,
     ai_feedback = \<lparr>cached_user_profiles = (), tmp_rsp_list = Map.empty\<rparr>\<rparr>"

definition sample_info :: feedback_info where
  "sample_info = \<lparr>fi_user_id = ''u'', fi_ad_id = [], fi_hit_bidstr = ''x'', fi_action = View, fi_click_cost = 0, fi_click_slot = 0,
     fi_user_profiles = \<lparr>profile_data = [(''price'', [(''low'', 1), (''high'', 2)])], up_timestamp = 0\<rparr>\<rparr>"

lemmas sample_defs = sample_env_def sample_index_def sample_selector_def sample_info_def

lemma take_queue_ok: "hit_queue_ok take"
  unfolding hit_queue_ok_def by (metis length_take min.commute append_take_drop_id mset_append mset_subset_eq_add_left)


text \<open>
  C4. Every click is charged once. When a batch of log messages is processed with sponsored
  search enabled, the manager of the sponsored ads has seen exactly the accepted clicks that
  name an ad, in their order, each with the cost, slot and bid string read for it: the used
  budget of every campaign grows by the sum of the costs of the clicks on its ads, and the
  manager stays well formed. Views and rejected messages leave it alone.
\<close>

theorem stream_charges_clicks:
  assumes "onAdStreamMessage env bs (info, st) = Some (info', st')" and "enable_sponsored_search (ie_config env)"
    and "ai_sponsored st = Some m" and "sponsored_ok m"
  shows "\<exists>is m'. accepted (ie_log env) bs info (ai_feedback st) = Some is \<and> ai_sponsored st' = Some m' \<and> sponsored_ok m' \<and>
    m' = fold (charge env) (paid_clicks is) m \<and>
    (\<forall>c < length (ad_budget_used_list m). ad_budget_used_list m' ! c =
       ad_budget_used_list m ! c + (\<Sum>i \<leftarrow> paid_clicks is. click_cost_of env (ad_campaign_belong_list m) c i))"
proof -
  from stream_sponsored [OF assms(1-3)] obtain "is" where
    s: "accepted (ie_log env) bs info (ai_feedback st) = Some is" "ai_sponsored st' = Some (fold (charge env) (paid_clicks is) m)" by blast
  have "sponsored_ok (fold (charge env) xs m)" for xs
    using assms(4) by (induction xs arbitrary: m) (simp_all add: charge_effect)
  then show ?thesis using s charges_effect [of _ m env "paid_clicks is"] by auto
qed

lemma sample_sponsored_ok: "sponsored_ok (the (ai_sponsored sample_index))"
  by (auto simp: sample_index_def sponsored_ok_def sponsored_init_def tables_ok_def ads_ok_def dict_ok_def str_dict0_def)

lemma sample_click:
  "parserFeedbackLog (ie_log sample_env) ''c'' sample_info f =
     Some (True, sample_info\<lparr>fi_user_id := [], fi_ad_id := ''a'', fi_action := Click, fi_click_cost := 1/2\<rparr>, f)"
  by (simp add: sample_env_def parserFeedbackLog_def read_args_def has_member_def get_string_def is_object_def read_click_def
      read_cost_def read_slot_def read_bidstr_def Let_def)

theorem stream_charges_clicks_witness:
  "let env = sample_env\<lparr>ie_config := \<lparr>enable_selector = False, enable_sponsored_search = True, enable_rec = False\<rparr>\<rparr>
   in \<exists>info' st' m'. onAdStreamMessage env [''c'', ''?''] (sample_info, sample_index) = Some (info', st') \<and>
     ai_sponsored st' = Some m' \<and> sponsored_ok m' \<and> ad_budget_used_list m' ! 0 = 70"
proof -
  let ?env = "sample_env\<lparr>ie_config := \<lparr>enable_selector = False, enable_sponsored_search = True, enable_rec = False\<rparr>\<rparr>"
  let ?i = "sample_info\<lparr>fi_user_id := [], fi_ad_id := ''a'', fi_action := Click, fi_click_cost := 1/2\<rparr>"
  have p: "parserFeedbackLog (ie_log ?env) ''c'' sample_info f = Some (True, ?i, f)"
    "parserFeedbackLog (ie_log ?env) ''?'' i f = Some (False, i, f)" for i f
    using sample_click by (simp_all add: parserFeedbackLog_def sample_env_def)
  have c: "is_clicked ?i" by (simp add: is_clicked_def)
  have m: "ai_sponsored sample_index = Some (the (ai_sponsored sample_index))" by (simp add: sample_index_def)
  have e: "enable_sponsored_search (ie_config ?env)" "\<not> enable_selector (ie_config ?env)" by simp_all
  let ?m = "the (ai_sponsored sample_index)"
  have o1: "\<exists>st'. on_message ?env ''c'' (sample_info, sample_index) = Some (?i, st')"
  proof -
    obtain m0 where "ai_sponsored sample_index = Some m0" by (simp add: sample_index_def)
    then show ?thesis using p(1) c e by (simp add: on_message_def sponsored_message_def selector_message_def Let_def)
  qed
  from o1 obtain st1 where o1: "on_message ?env ''c'' (sample_info, sample_index) = Some (?i, st1)" by blast
  have "\<exists>st2. on_message ?env ''?'' (?i, st1) = Some (?i, st2)" using p(2) by (simp add: on_message_def Let_def)
  then obtain st2 where "on_message ?env ''?'' (?i, st1) = Some (?i, st2)" by blast
  with o1 have "onAdStreamMessage ?env [''c'', ''?''] (sample_info, sample_index) = Some (?i, st2)" by simp
  then obtain info' st' where r: "onAdStreamMessage ?env [''c'', ''?''] (sample_info, sample_index) = Some (info', st')" by blast
  from stream_charges_clicks [OF r e(1) m sample_sponsored_ok] obtain "is" m' where
    a: "accepted (ie_log ?env) [''c'', ''?''] sample_info (ai_feedback sample_index) = Some is" "ai_sponsored st' = Some m'" "sponsored_ok m'"
      "\<forall>c < length (ad_budget_used_list ?m). ad_budget_used_list m' ! c =
         ad_budget_used_list ?m ! c + (\<Sum>i \<leftarrow> paid_clicks is. click_cost_of ?env (ad_campaign_belong_list ?m) c i)" by blast
  have "is = [?i]" using a(1) p by simp
  then have "(\<Sum>i \<leftarrow> paid_clicks is. click_cost_of ?env (ad_campaign_belong_list ?m) 0 i) = 50"
    using c by (simp add: paid_clicks_def click_cost_of_def to_int_def sample_env_def sample_index_def)
  moreover have "length (ad_budget_used_list ?m) = 1" "ad_budget_used_list ?m ! 0 = 20" by (simp_all add: sample_index_def)
  ultimately have "ad_budget_used_list m' ! 0 = 70" using a(4) by simp
  then show ?thesis using r a(2,3) unfolding Let_def by blast
qed

text \<open>
  A message without a user is taken for the user of the message before it. \<open>feedback_info\<close>
  is not cleared between messages, and \<open>parserFeedbackLog\<close> accepts a message with an empty
  user id without touching the profile: the click predictor learns this view of the ad under
  the features of another user.
\<close>

lemma anonymous_view_trains_last_user:
  assumes "le_parse (ie_log env) body = Some (JObj [(''args'', JObj [(''uid'', JStr []), (''aid'', JStr aid), (''ad'', JStr ''108'')])])"
    and "aid \<noteq> []" and "enable_selector (ie_config env)" and "ai_selector st = Some sel" and "ai_rec st = None"
    and "adIdOf (ie_ads env) aid = Some d" and "ie_group env = Some gm" and "getAdFeatureList gm d sel = Some features"
  shows "\<exists>info' st'. on_message env body (info, st) = Some (info', st') \<and> fi_user_id info' = [] \<and>
    fi_user_profiles info' = fi_user_profiles info \<and>
    ai_predictor st' = ie_learn env (user_features info) features False (ai_predictor st)"
proof -
  let ?i = "info\<lparr>fi_user_id := [], fi_ad_id := aid, fi_action := View\<rparr>"
  have p: "parserFeedbackLog (ie_log env) body info f = Some (True, ?i, f)" for f
    using assms(1,2) by (simp add: parserFeedbackLog_def read_args_def has_member_def get_string_def is_object_def Let_def)
  have u: "user_features ?i = user_features info" "\<not> is_clicked ?i" by (simp_all add: user_features_def is_clicked_def)
  let ?st = "st\<lparr>ai_feedback := ai_feedback st\<rparr>"
  have s: "sponsored_message env ?i ?st = Some ?st" using u(2) by (simp add: sponsored_message_def)
  have "selector_message env ?i ?st = Some (?st\<lparr>ai_selector := Some (updateSegments (user_features info) UserSeg sel),
      ai_predictor := ie_learn env (user_features info) features False (ai_predictor st), ai_rec := None\<rparr>)"
    using assms(3-8) u by (simp add: selector_message_def learn_message_def click_message_def train_message_def)
  then have "on_message env body (info, st) = Some (?i, ?st\<lparr>ai_selector := Some (updateSegments (user_features info) UserSeg sel),
      ai_predictor := ie_learn env (user_features info) features False (ai_predictor st), ai_rec := None\<rparr>)"
    using p s by (simp add: on_message_def Let_def)
  then show ?thesis by simp
qed

text \<open>
  A click on an ad that the id manager does not know marks document 0 as clicked: \<open>docid\<close>
  keeps its initial value when the lookup fails, and \<open>updateClicked\<close> is called regardless.
\<close>

lemma unknown_ad_marks_zero:
  assumes "parserFeedbackLog (ie_log env) body info (ai_feedback st) = Some (True, info', f)" and "is_clicked info'" and "fi_ad_id info' \<noteq> []"
    and "adIdOf (ie_ads env) (fi_ad_id info') = None" and "enable_selector (ie_config env)"
    and "ai_selector st = Some sel" and "ai_rec st = None" and "ai_sponsored st \<noteq> None"
  shows "\<exists>st' sel'. on_message env body (info, st) = Some (info', st') \<and> ai_selector st' = Some sel' \<and> 0 \<in> set (clicked_ads sel')"
proof -
  let ?st = "st\<lparr>ai_feedback := f\<rparr>"
  obtain m where "ai_sponsored st = Some m" using assms(8) by auto
  then have "\<exists>st1. sponsored_message env info' ?st = Some st1 \<and> ai_selector st1 = Some sel \<and> ai_rec st1 = None"
    using assms(6,7) by (cases "enable_sponsored_search (ie_config env) \<and> is_clicked info' \<and> fi_ad_id info' \<noteq> []")
      (simp_all add: sponsored_message_def)
  then obtain st1 where s: "sponsored_message env info' ?st = Some st1" "ai_selector st1 = Some sel" "ai_rec st1 = None" by blast
  obtain sel2 where c: "updateClicked 0 sel = Some sel2" "0 \<in> set (clicked_ads sel2)"
    by (auto simp: updateClicked_def set_clicked_def MAX_AD_DOCID_def set_insort_insert)
  have "selector_message env info' st1 = Some (st1\<lparr>ai_selector := Some (updateSegments (user_features info') UserSeg sel2),
      ai_predictor := ai_predictor st1, ai_rec := None\<rparr>)"
    using assms(2-5) s(2,3) c(1) by (simp add: selector_message_def learn_message_def click_message_def train_message_def)
  then have "on_message env body (info, st) = Some (info', st1\<lparr>ai_selector := Some (updateSegments (user_features info') UserSeg sel2),
      ai_predictor := ai_predictor st1, ai_rec := None\<rparr>)"
    using assms(1) s(1) by (simp only: on_message_def Let_def prod.case Option.bind.bind_lunit simp_thms if_False option.map)
  moreover have "clicked_ads (updateSegments (user_features info') UserSeg sel2) = clicked_ads sel2" by (simp add: updateSegments_def)
  ultimately show ?thesis using c(2) by simp
qed

end
