(* ===== verification/HitQueues.thy ===== *)
theory HitQueues
  imports HeapQueue AdIndex
begin

text \<open>
  The queues of hits: \<open>ScoreSortedHitQueue\<close> of \<^verbatim>\<open>src/source/core/search-manager/HitQueue.h\<close>, the
  queue of sponsored ads in \<open>AdSponsoredMgr.cpp\<close> and the queue of the recommender in
  \<open>AdRecommender.h\<close>. Their \<open>lessThan\<close> compares scores, and keys when the scores are less than
  an epsilon apart. With the heap of \<open>HeapQueue\<close> behind them they meet what the rankings rely
  on (\<open>hit_queue_ok\<close>, \<open>bounded_queue\<close>), and they return the best hits in order as long as no
  two different scores are that close; without this \<open>lessThan\<close> has cycles.
\<close>

section \<open>The comparisons\<close>

definition hit_lessThan :: "real \<Rightarrow> score_doc \<Rightarrow> score_doc \<Rightarrow> bool" where
  "hit_lessThan eps o1 o2 =
     (if \<bar>sd_score o1 - sd_score o2\<bar> < eps then sd_docId o1 < sd_docId o2 else sd_score o1 < sd_score o2)"

definition rec_lessThan :: "real \<Rightarrow> string \<times> real \<Rightarrow> string \<times> real \<Rightarrow> bool" where
  "rec_lessThan eps o1 o2 = (if \<bar>snd o1 - snd o2\<bar> < eps then fst o1 < fst o2 else snd o1 < snd o2)"

text \<open>The hits a queue of capacity \<open>n\<close> keeps, as they are popped, least first.\<close>

definition score_sorted_queue :: "real \<Rightarrow> hit_queue" where
  "score_sorted_queue eps n items = the (pq_top_k (hit_lessThan eps) \<lparr>sd_docId = 0, sd_score = 0\<rparr> n items)"

definition sponsored_queue :: "real \<Rightarrow> ad_doc list \<Rightarrow> ad_doc list" where
  "sponsored_queue eps items =
     the (pq_top_k (ad_lessThan eps) \<lparr>docId = 0, score = 0, qscore = 0, hit_bidstr = [], hit_orig_bidstr = []\<rparr>
            MAX_RANKED_AD_NUM items)"

definition scored_ad_queue :: "real \<Rightarrow> ad_queue" where
  "scored_ad_queue eps n items = the (pq_top_k (rec_lessThan eps) ([], 0) n items)"

section \<open>They meet what the rankings rely on\<close>

lemma score_sorted_queue_ok: "hit_queue_ok (score_sorted_queue eps)"
  unfolding hit_queue_ok_def score_sorted_queue_def using pq_top_k_elems by (metis option.sel)

lemma sponsored_queue_ok: "bounded_queue (sponsored_queue eps)"
  unfolding bounded_queue_def sponsored_queue_def using pq_top_k_elems by (metis option.sel)

section \<open>When the comparison is an order\<close>

text \<open>A comparison by score and, when the scores are close, by key; \<open>s\<close> is the score.\<close>

definition eps_less :: "real \<Rightarrow> ('a \<Rightarrow> real) \<Rightarrow> ('a \<Rightarrow> 'b :: linorder) \<Rightarrow> 'a \<Rightarrow> 'a \<Rightarrow> bool" where
  "eps_less eps s k a b = (if \<bar>s a - s b\<bar> < eps then k a < k b else s a < s b)"

definition apart :: "real \<Rightarrow> real set \<Rightarrow> bool" where
  "apart eps S \<longleftrightarrow> (\<forall>x \<in> S. \<forall>y \<in> S. x = y \<or> eps \<le> \<bar>x - y\<bar>)"

lemma eps_lessThan:
  "hit_lessThan eps = eps_less eps sd_score sd_docId" "ad_lessThan eps = eps_less eps score docId"
  "rec_lessThan eps = eps_less eps snd fst"
  by (simp_all add: fun_eq_iff hit_lessThan_def ad_lessThan_def rec_lessThan_def eps_less_def)

lemma eps_less_lex:
  assumes "0 < eps" and "apart eps (s ` A)" and "a \<in> A" "b \<in> A"
  shows "eps_less eps s k a b \<longleftrightarrow> s a < s b \<or> s a = s b \<and> k a < k b"
proof -
  have "s a = s b \<or> eps \<le> \<bar>s a - s b\<bar>" using assms(2-4) unfolding apart_def by blast
  then show ?thesis using assms(1) by (auto simp: eps_less_def)
qed

lemma eps_less_order:
  assumes "0 < eps" and "apart eps (s ` A)"
  shows "order_on A (eps_less eps s k)"
proof -
  note lex = eps_less_lex [OF assms]
  have "\<not> eps_less eps s k b a" if "a \<in> A" "b \<in> A" "eps_less eps s k a b" for a b
    using that(3) unfolding lex [OF that(1,2)] lex [OF that(2,1)] by auto
  moreover have "\<not> eps_less eps s k a c" if "a \<in> A" "b \<in> A" "c \<in> A" "\<not> eps_less eps s k a b" "\<not> eps_less eps s k b c" for a b c
    using that(4,5) unfolding lex [OF that(1,2)] lex [OF that(2,3)] lex [OF that(1,3)] by auto
  ultimately show ?thesis unfolding order_on_def by blast
qed

lemma eps_queue_best:
  assumes "0 < eps" and "apart eps (s ` set items)"
  shows "\<exists>best rest. map_option rev (pq_top_k (eps_less eps s k) d n items) = Some best \<and> mset items = mset (best @ rest) \<and>
    length best = min n (length items) \<and> sorted_wrt (\<lambda>a b. s b < s a \<or> s a = s b \<and> k b \<le> k a) best \<and>
    (\<forall>x \<in> set rest. \<forall>y \<in> set best. s x < s y \<or> s x = s y \<and> k x \<le> k y)"
proof -
  note lex = eps_less_lex [OF assms, of _ _ k]
  from top_k_on [OF eps_less_order [OF assms, of k], of d n] obtain ys rest where
    k: "pq_top_k (eps_less eps s k) d n items = Some ys" "mset items = mset (ys @ rest)" "length ys = min n (length items)"
      "sorted_wrt (\<lambda>a b. \<not> eps_less eps s k b a) ys" "\<forall>x \<in> set rest. \<forall>y \<in> set ys. \<not> eps_less eps s k y x" by blast
  have m: "set ys \<subseteq> set items" "set rest \<subseteq> set items" using k(2) by (metis Un_iff set_append set_mset_mset subsetI)+
  have not: "\<not> eps_less eps s k b a \<longleftrightarrow> s a < s b \<or> s a = s b \<and> k a \<le> k b" if "a \<in> set items" "b \<in> set items" for a b
    unfolding lex [OF that(2,1)] by auto
  have "sorted_wrt (\<lambda>a b. s a < s b \<or> s a = s b \<and> k a \<le> k b) ys"
    by (rule sorted_wrt_mono_rel [OF _ k(4)]) (use m(1) not in blast)
  then have "sorted_wrt (\<lambda>a b. s b < s a \<or> s a = s b \<and> k b \<le> k a) (rev ys)"
    by (simp add: sorted_wrt_rev) (metis (mono_tags, lifting) sorted_wrt_mono_rel)
  moreover have "\<forall>x \<in> set rest. \<forall>y \<in> set (rev ys). s x < s y \<or> s x = s y \<and> k x \<le> k y"
    using k(5) m not by (metis set_rev subsetD)
  ultimately show ?thesis using k(1-3) by (intro exI [of _ "rev ys"] exI [of _ rest]) simp
qed

text \<open>With scores in between, the comparison goes round in circles.\<close>

lemma hit_lessThan_cyclic:
  assumes "0 < eps"
  shows "\<exists>a b c. hit_lessThan eps a b \<and> hit_lessThan eps b c \<and> hit_lessThan eps c a"
proof -
  let ?d = "\<lambda>n x. \<lparr>sd_docId = n, sd_score = x * eps\<rparr>"
  have "hit_lessThan eps (?d 0 (6/5)) (?d 1 (3/5))" "hit_lessThan eps (?d 1 (3/5)) (?d 2 0)" "hit_lessThan eps (?d 2 0) (?d 0 (6/5))"
    using assms by (auto simp: hit_lessThan_def abs_if)
  then show ?thesis by blast
qed

section \<open>The ranking of ads\<close>

definition rank_items :: "('i, 's, 'x, 'c, 'p) index_env \<Rightarrow> nat list \<Rightarrow> nat list \<Rightarrow> real list \<Rightarrow> score_doc list" where
  "rank_items env docs chosen rates =
     cpm_items env docs @ map2 (\<lambda>d s. \<lparr>sd_docId = d, sd_score = s * ad_price env d * 1000\<rparr>) chosen rates"

lemma map2_fields: "map2 (\<lambda>d s. \<lparr>sd_docId = d, sd_score = s\<rparr>) (map sd_docId xs) (map sd_score xs) = xs"
  by (induction xs) auto



end
