(* ===== verification/DocIterator.thy ===== *)
theory DocIterator
  imports Prelude
begin

text \<open>
  The iterators over documents that evaluate boolean queries, of
  \<^verbatim>\<open>src/source/core/search-manager\<close>: the interface \<open>DocumentIterator\<close> and \<open>ANDDocumentIterator\<close>.
  A state of type \<open>'s\<close> and the record \<open>iter_ops\<close> of its virtual functions stand for an
  iterator; a function is undefined (\<open>None\<close>) when it leaves its data or does not return.
  The document that stands for the end, \<open>MAX_DOC_ID\<close>, is the argument \<open>mx\<close>, so that small
  examples can be evaluated; all other documents are below it, so document numbers never
  wrap around. What an iterator
  promises is the locale \<open>doc_iterator\<close>: there is a set of documents still to come, \<open>next\<close>
  delivers its least element and \<open>skipTo\<close> the least one from a target on. The AND iterator
  is shown to keep this contract, for the intersection, whenever its children do, so that it
  can be a child in turn.
\<close>

section \<open>The interface\<close>

definition MAX_DOC_ID :: nat where
  "MAX_DOC_ID = 0xFFFFFFFF"

record 's iter_ops =
  it_next :: "'s \<Rightarrow> (bool \<times> 's) option"
  it_doc :: "'s \<Rightarrow> nat"
  it_skipTo :: "nat \<Rightarrow> 's \<Rightarrow> (nat \<times> 's) option"

text \<open>\<open>skipTo\<close> of the base class: it always advances.\<close>

partial_function (option) default_skipTo ::
  "('s \<Rightarrow> (bool \<times> 's) option) \<Rightarrow> ('s \<Rightarrow> nat) \<Rightarrow> nat \<Rightarrow> nat \<Rightarrow> 's \<Rightarrow> (nat \<times> 's) option" where
  "default_skipTo nxt doc mx target s =
     Option.bind (nxt s) (\<lambda>(b, s').
       if \<not> b then Some (mx, s')
       else if target > doc s' then default_skipTo nxt doc mx target s' else Some (doc s', s'))"

section \<open>The AND iterator\<close>

record ('s, 'n) and_iter =
  and_currDoc :: nat
  hasNot :: bool
  currDocOfNOTIter :: nat
  initNOTIterator :: bool
  notIter :: 'n
  docIterList :: "'s list"
  nIteratorNum :: nat

definition and_init :: "nat \<Rightarrow> nat \<Rightarrow> 'n \<Rightarrow> ('s, 'n) and_iter" where
  "and_init mx c n0 = \<lparr>and_currDoc = c, hasNot = False, currDocOfNOTIter = mx, initNOTIterator = False, notIter = n0,
     docIterList = [], nIteratorNum = 0\<rparr>"

definition and_add :: "('s \<Rightarrow> bool) \<Rightarrow> ('s \<Rightarrow> 'n \<Rightarrow> 'n) \<Rightarrow> 's \<Rightarrow> ('s, 'n) and_iter \<Rightarrow> ('s, 'n) and_iter" where
  "and_add isNot not_add it a =
     (if isNot it then a\<lparr>hasNot := True, notIter := not_add it (notIter a)\<rparr>
      else a\<lparr>docIterList := docIterList a @ [it], nIteratorNum := nIteratorNum a + 1\<rparr>)"

text \<open>
  The loop of \<open>do_next\<close>: the iterator at the front is moved to the target and, when it is
  there or beyond, put at the end; \<open>nMatch\<close> iterators at the end are on the target.
\<close>

partial_function (option) and_loop ::
  "'s iter_ops \<Rightarrow> nat \<Rightarrow> nat \<Rightarrow> nat \<Rightarrow> nat \<Rightarrow> 's list \<Rightarrow> (nat \<times> nat \<times> 's list) option" where
  "and_loop ops mx n nMatch target its =
     (if nMatch < n then
        (case its of
           [] \<Rightarrow> None
         | it # rest \<Rightarrow> Option.bind (it_skipTo ops target it) (\<lambda>(near, it').
             if near = target then and_loop ops mx n (nMatch + 1) target (rest @ [it'])
             else if near = mx then Some (1, target, it' # rest)
             else if near > target then and_loop ops mx n 1 near (rest @ [it'])
             else Some (1, target, it' # rest)))
      else Some (nMatch, target, its))"

definition and_do_next :: "'s iter_ops \<Rightarrow> nat \<Rightarrow> ('s, 'n) and_iter \<Rightarrow> (bool \<times> ('s, 'n) and_iter) option" where
  "and_do_next ops mx a =
     (if nIteratorNum a = 0 then Some (False, a)
      else case docIterList a of
        [] \<Rightarrow> None
      | it # rest \<Rightarrow> Option.bind (it_next ops it) (\<lambda>(b, it').
          if \<not> b then Some (False, a\<lparr>docIterList := it' # rest\<rparr>)
          else if nIteratorNum a = 1 then Some (True, a\<lparr>and_currDoc := it_doc ops it', docIterList := it' # rest\<rparr>)
          else Option.bind (and_loop ops mx (nIteratorNum a) 1 (it_doc ops it') (rest @ [it'])) (\<lambda>(m, target, its).
            if m = nIteratorNum a then Some (True, a\<lparr>and_currDoc := target, docIterList := its\<rparr>)
            else Some (False, a\<lparr>docIterList := its\<rparr>))))"

partial_function (option) and_skip_loop ::
  "'s iter_ops \<Rightarrow> nat \<Rightarrow> nat \<Rightarrow> nat \<Rightarrow> nat \<Rightarrow> nat \<Rightarrow> 's list \<Rightarrow> (nat \<times> nat \<times> nat \<times> 's list) option" where
  "and_skip_loop ops mx n nFound nMatch target its =
     (if nMatch < n then
        (case its of
           [] \<Rightarrow> None
         | it # rest \<Rightarrow> Option.bind (it_skipTo ops target it) (\<lambda>(found, it').
             if found = mx then Some (found, nMatch, target, it' # rest)
             else if found = target then and_skip_loop ops mx n found (nMatch + 1) target (rest @ [it'])
             else if found > target then and_skip_loop ops mx n found 1 found (rest @ [it'])
             else Some (found, nMatch, target, it' # rest)))
      else Some (nFound, nMatch, target, its))"

definition and_do_skipTo :: "'s iter_ops \<Rightarrow> nat \<Rightarrow> nat \<Rightarrow> ('s, 'n) and_iter \<Rightarrow> (nat \<times> ('s, 'n) and_iter) option" where
  "and_do_skipTo ops mx target a =
     map_option (\<lambda>(found, m, t, its).
         if m = length (docIterList a) then (found, a\<lparr>and_currDoc := t, docIterList := its\<rparr>)
         else (mx, a\<lparr>and_currDoc := mx, docIterList := its\<rparr>))
       (and_skip_loop ops mx (length (docIterList a)) mx 0 target (docIterList a))"

text \<open>With a NOT iterator: both move on together while they are on the same document.\<close>

definition not_advance :: "'n iter_ops \<Rightarrow> nat \<Rightarrow> ('s, 'n) and_iter \<Rightarrow> ('s, 'n) and_iter option" where
  "not_advance nops mx a =
     map_option (\<lambda>(b, n'). a\<lparr>notIter := n', currDocOfNOTIter := (if b then it_doc nops n' else mx)\<rparr>) (it_next nops (notIter a))"

definition not_skip :: "'n iter_ops \<Rightarrow> nat \<Rightarrow> ('s, 'n) and_iter \<Rightarrow> ('s, 'n) and_iter option" where
  "not_skip nops t a = map_option (\<lambda>(c, n'). a\<lparr>notIter := n', currDocOfNOTIter := c\<rparr>) (it_skipTo nops t (notIter a))"

partial_function (option) move_together_with_not ::
  "'s iter_ops \<Rightarrow> 'n iter_ops \<Rightarrow> nat \<Rightarrow> ('s, 'n) and_iter \<Rightarrow> (bool \<times> ('s, 'n) and_iter) option" where
  "move_together_with_not ops nops mx a =
     Option.bind (and_do_next ops mx a) (\<lambda>(ret, a1).
       if \<not> ret then Some (False, a1)
       else Option.bind (not_advance nops mx a1) (\<lambda>a2.
         if and_currDoc a2 < currDocOfNOTIter a2 then Some (True, a2)
         else if and_currDoc a2 = currDocOfNOTIter a2 then move_together_with_not ops nops mx a2
         else Option.bind (not_skip nops (and_currDoc a2) a2) (\<lambda>a3.
           if and_currDoc a3 = currDocOfNOTIter a3 then move_together_with_not ops nops mx a3 else Some (True, a3))))"

definition and_next :: "'s iter_ops \<Rightarrow> 'n iter_ops \<Rightarrow> nat \<Rightarrow> ('s, 'n) and_iter \<Rightarrow> (bool \<times> ('s, 'n) and_iter) option" where
  "and_next ops nops mx a =
     (if \<not> hasNot a then and_do_next ops mx a
      else if docIterList a = [] then Some (False, a)
      else Option.bind (if initNOTIterator a then Some a else not_advance nops mx (a\<lparr>initNOTIterator := True\<rparr>)) (\<lambda>a0.
           Option.bind (and_do_next ops mx a0) (\<lambda>(ret, a1).
             if and_currDoc a1 = currDocOfNOTIter a1 then move_together_with_not ops nops mx a1
             else if and_currDoc a1 < currDocOfNOTIter a1 then Some (ret, a1)
             else Option.bind (not_skip nops (and_currDoc a1) a1) (\<lambda>a2.
               if and_currDoc a2 = currDocOfNOTIter a2 then move_together_with_not ops nops mx a2 else Some (ret, a2)))))"

partial_function (option) and_skipTo_loop ::
  "'s iter_ops \<Rightarrow> 'n iter_ops \<Rightarrow> nat \<Rightarrow> nat \<Rightarrow> ('s, 'n) and_iter \<Rightarrow> (nat \<times> ('s, 'n) and_iter) option" where
  "and_skipTo_loop ops nops mx current a =
     Option.bind (and_do_skipTo ops mx current a) (\<lambda>(found, a1).
     Option.bind (not_skip nops current a1) (\<lambda>a2.
       if found \<noteq> mx \<and> found = current \<and> currDocOfNOTIter a2 = current then Some (mx, a2)
       else if found \<noteq> mx \<and> found = currDocOfNOTIter a2 then and_skipTo_loop ops nops mx found a2
       else Some (found, a2)))"

definition and_skipTo :: "'s iter_ops \<Rightarrow> 'n iter_ops \<Rightarrow> nat \<Rightarrow> nat \<Rightarrow> ('s, 'n) and_iter \<Rightarrow> (nat \<times> ('s, 'n) and_iter) option" where
  "and_skipTo ops nops mx target a =
     (if \<not> hasNot a then and_do_skipTo ops mx target a else and_skipTo_loop ops nops mx target a)"

definition and_ops :: "'s iter_ops \<Rightarrow> 'n iter_ops \<Rightarrow> nat \<Rightarrow> ('s, 'n) and_iter iter_ops" where
  "and_ops ops nops mx = \<lparr>it_next = and_next ops nops mx, it_doc = and_currDoc, it_skipTo = and_skipTo ops nops mx\<rparr>"

declare default_skipTo.simps [code] and_loop.simps [code] and_skip_loop.simps [code] move_together_with_not.simps [code] and_skipTo_loop.simps [code]

section \<open>The contract\<close>

text \<open>
  \<open>docs s\<close> are the documents still to come, all beyond \<open>cur s\<close>. A target of \<open>skipTo\<close> lies
  beyond the current document: what happens for other targets differs between the classes
  (the base class advances, the readers of the index stay), and no caller here relies on it.
\<close>

definition least_in :: "nat set \<Rightarrow> nat \<Rightarrow> bool" where
  "least_in D d \<longleftrightarrow> d \<in> D \<and> (\<forall>e \<in> D. d \<le> e)"

lemma least_in_exists: "D \<noteq> {} \<Longrightarrow> \<exists>d. least_in D d"
  unfolding least_in_def by (intro exI [of _ "LEAST d. d \<in> D"]) (auto intro: LeastI Least_le)

lemma least_in_unique: "least_in D d \<Longrightarrow> least_in D e \<Longrightarrow> d = e"
  by (force simp: least_in_def)

locale doc_stream =
  fixes ops :: "'s iter_ops" and mx :: nat and ok :: "'s \<Rightarrow> bool" and docs :: "'s \<Rightarrow> nat set" and cur :: "'s \<Rightarrow> nat"
  assumes docs_range: "ok s \<Longrightarrow> d \<in> docs s \<Longrightarrow> cur s < d \<and> d < mx"
    and next_end: "ok s \<Longrightarrow> docs s = {} \<Longrightarrow> \<exists>s'. it_next ops s = Some (False, s') \<and> ok s' \<and> docs s' = {}"
    and next_doc: "ok s \<Longrightarrow> least_in (docs s) d \<Longrightarrow>
      \<exists>s'. it_next ops s = Some (True, s') \<and> ok s' \<and> it_doc ops s' = d \<and> cur s' = d \<and> docs s' = docs s - {d}"

locale doc_iterator = doc_stream +
  assumes skip_end: "ok s \<Longrightarrow> cur s < t \<Longrightarrow> t < mx \<Longrightarrow> {e \<in> docs s. t \<le> e} = {} \<Longrightarrow>
      \<exists>s'. it_skipTo ops t s = Some (mx, s') \<and> ok s' \<and> docs s' = {}"
    and skip_doc: "ok s \<Longrightarrow> cur s < t \<Longrightarrow> t < mx \<Longrightarrow> least_in {e \<in> docs s. t \<le> e} d \<Longrightarrow>
      \<exists>s'. it_skipTo ops t s = Some (d, s') \<and> ok s' \<and> it_doc ops s' = d \<and> cur s' = d \<and> docs s' = {e \<in> docs s. d < e}"

text \<open>What a caller does: \<open>next\<close> until it fails, reading the document each time.\<close>

fun iterate :: "'s iter_ops \<Rightarrow> nat \<Rightarrow> 's \<Rightarrow> (nat list \<times> 's) option" where
  "iterate ops 0 s = None"
| "iterate ops (Suc n) s =
     Option.bind (it_next ops s) (\<lambda>(b, s').
       if \<not> b then Some ([], s') else map_option (\<lambda>(ds, s''). (it_doc ops s' # ds, s'')) (iterate ops n s'))"

context doc_stream
begin

lemma finite_docs: "ok s \<Longrightarrow> finite (docs s)"
  by (rule finite_subset [of _ "{..<mx}"]) (use docs_range in auto)

lemma docs_less: "ok s \<Longrightarrow> least_in (docs s) d \<Longrightarrow> docs s - {d} = {e \<in> docs s. d < e}"
  by (force simp: least_in_def)

lemma iterate_all:
  assumes "ok s"
  shows "\<exists>s'. iterate ops (Suc (card (docs s))) s = Some (sorted_list_of_set (docs s), s') \<and> ok s' \<and> docs s' = {}"
  using assms
proof (induction "card (docs s)" arbitrary: s)
  case 0
  then have "docs s = {}" using finite_docs by simp
  with next_end [OF 0(2)] show ?case by auto
next
  case (Suc n)
  then have f: "finite (docs s)" "docs s \<noteq> {}" using finite_docs by auto
  then obtain d where d: "least_in (docs s) d" using least_in_exists by blast
  from next_doc [OF Suc(3) this] obtain s1 where
    1: "it_next ops s = Some (True, s1)" "ok s1" "it_doc ops s1 = d" "docs s1 = docs s - {d}" by blast
  have n: "n = card (docs s1)" using Suc(2) d f by (simp add: 1(4) least_in_def)
  from Suc(1) [OF n 1(2)] obtain s' where "iterate ops (Suc n) s1 = Some (sorted_list_of_set (docs s1), s')" "ok s'" "docs s' = {}"
    using n by auto
  moreover have "d = Min (docs s)" using d f by (simp add: least_in_def eq_Min_iff)
  then have "sorted_list_of_set (docs s) = d # sorted_list_of_set (docs s1)"
    using sorted_list_of_set_nonempty [OF f] by (simp add: 1(4))
  ultimately show ?case unfolding Suc(2) [symmetric] using 1(1,3) by simp
qed

lemma default_skip:
  assumes "ok s"
  shows "\<exists>s' f. default_skipTo (it_next ops) (it_doc ops) mx t s = Some (f, s') \<and> ok s' \<and>
    (if {e \<in> docs s. t \<le> e} = {} then f = mx \<and> docs s' = {}
     else least_in {e \<in> docs s. t \<le> e} f \<and> it_doc ops s' = f \<and> cur s' = f \<and> docs s' = {e \<in> docs s. f < e})"
  using assms
proof (induction "card (docs s)" arbitrary: s rule: less_induct)
  case less
  show ?case
  proof (cases "docs s = {}")
    case True
    with next_end [OF less(2)] show ?thesis by (auto simp: default_skipTo.simps [of _ _ _ _ s])
  next
    case False
    then obtain d where d: "least_in (docs s) d" using least_in_exists by blast
    from next_doc [OF less(2) this] obtain s1 where
      1: "it_next ops s = Some (True, s1)" "ok s1" "it_doc ops s1 = d" "cur s1 = d" "docs s1 = docs s - {d}" by blast
    show ?thesis
    proof (cases "t > d")
      case True
      have "card (docs s1) < card (docs s)" 
        unfolding 1(5) using d by (intro card_Diff1_less finite_docs [OF less(2)]) (simp add: least_in_def)
      from less(1) [OF this 1(2)] obtain s' f where
        r: "default_skipTo (it_next ops) (it_doc ops) mx t s1 = Some (f, s')" "ok s'"
          "if {e \<in> docs s1. t \<le> e} = {} then f = mx \<and> docs s' = {}
           else least_in {e \<in> docs s1. t \<le> e} f \<and> it_doc ops s' = f \<and> cur s' = f \<and> docs s' = {e \<in> docs s1. f < e}" by blast
      have e: "{e \<in> docs s1. t \<le> e} = {e \<in> docs s. t \<le> e}" using True by (auto simp: 1(5))
      have "{e \<in> docs s1. f < e} = {e \<in> docs s. f < e}" if "least_in {e \<in> docs s. t \<le> e} f"
        using that True by (auto simp: 1(5) least_in_def)
      moreover have "default_skipTo (it_next ops) (it_doc ops) mx t s = Some (f, s')"
        using True 1(1,3) r(1) by (simp add: default_skipTo.simps [of _ _ _ _ s])
      ultimately show ?thesis using r(2,3) unfolding e by (intro exI [of _ s'] exI [of _ f]) auto
    next
      case False
      then have "{e \<in> docs s. t \<le> e} = docs s" using d by (force simp: least_in_def)
      then show ?thesis using False d 1 docs_less [OF less(2) d] \<open>docs s \<noteq> {}\<close>
        by (auto simp: default_skipTo.simps [of _ _ _ _ s])
    qed
  qed
qed

text \<open>So an iterator that only has \<open>next\<close> is a full one with \<open>skipTo\<close> of the base class.\<close>

lemma base_iterator: "doc_iterator (ops\<lparr>it_skipTo := default_skipTo (it_next ops) (it_doc ops) mx\<rparr>) mx ok docs cur"
proof unfold_locales
  fix s t d
  assume s: "ok s" "cur s < t" "t < mx"
  from default_skip [OF s(1), of t] obtain s' f where
    f: "default_skipTo (it_next ops) (it_doc ops) mx t s = Some (f, s')" "ok s'"
      "if {e \<in> docs s. t \<le> e} = {} then f = mx \<and> docs s' = {}
       else least_in {e \<in> docs s. t \<le> e} f \<and> it_doc ops s' = f \<and> cur s' = f \<and> docs s' = {e \<in> docs s. f < e}" by blast
  show "\<exists>s'. it_skipTo (ops\<lparr>it_skipTo := default_skipTo (it_next ops) (it_doc ops) mx\<rparr>) t s = Some (mx, s') \<and> ok s' \<and> docs s' = {}"
    if "{e \<in> docs s. t \<le> e} = {}" using f that by simp
  show "\<exists>s'. it_skipTo (ops\<lparr>it_skipTo := default_skipTo (it_next ops) (it_doc ops) mx\<rparr>) t s = Some (d, s') \<and> ok s' \<and>
      it_doc (ops\<lparr>it_skipTo := default_skipTo (it_next ops) (it_doc ops) mx\<rparr>) s' = d \<and> cur s' = d \<and> docs s' = {e \<in> docs s. d < e}"
    if d: "least_in {e \<in> docs s. t \<le> e} d"
  proof -
    have "{e \<in> docs s. t \<le> e} \<noteq> {}" using d by (auto simp: least_in_def)
    then show ?thesis using f least_in_unique [OF d, of f] by auto
  qed
qed (use docs_range next_end next_doc in auto)

end

section \<open>The AND iterator without NOT\<close>

text \<open>
  The documents that the loop can still find: \<open>us\<close> are before the target, \<open>ms\<close> on it.
\<close>

definition common :: "('s \<Rightarrow> nat set) \<Rightarrow> nat \<Rightarrow> 's list \<Rightarrow> 's list \<Rightarrow> nat set" where
  "common docs t us ms = {d. t \<le> d \<and> (\<forall>u \<in> set us. d \<in> docs u) \<and> (\<forall>m \<in> set ms. d = t \<or> d \<in> docs m)}"

definition meet :: "('s \<Rightarrow> nat set) \<Rightarrow> 's list \<Rightarrow> nat set" where
  "meet docs its = {d. \<forall>it \<in> set its. d \<in> docs it}"

text \<open>All iterators have come to \<open>t\<close>, the least document of \<open>D\<close>, or the front one is at its end.\<close>

definition and_found :: "('s \<Rightarrow> bool) \<Rightarrow> ('s \<Rightarrow> nat set) \<Rightarrow> ('s \<Rightarrow> nat) \<Rightarrow> nat \<Rightarrow> nat set \<Rightarrow> nat \<Rightarrow> nat \<Rightarrow> 's list \<Rightarrow> bool" where
  "and_found ok docs cur n D m t its \<longleftrightarrow> length its = n \<and> (\<forall>it \<in> set its. ok it) \<and>
     (if D = {} then m < n \<and> docs (hd its) = {}
      else m = n \<and> least_in D t \<and> (\<forall>it \<in> set its. cur it = t) \<and> meet docs its = D - {t})"

context doc_iterator
begin

lemma skip_cases:
  assumes "ok s" and "cur s < t" and "t < mx"
  obtains (End) s' where "it_skipTo ops t s = Some (mx, s')" "ok s'" "docs s' = {}" "{e \<in> docs s. t \<le> e} = {}"
    | (Doc) d s' where "it_skipTo ops t s = Some (d, s')" "ok s'" "it_doc ops s' = d" "cur s' = d" "docs s' = {e \<in> docs s. d < e}"
        "least_in {e \<in> docs s. t \<le> e} d" "t \<le> d" "d < mx"
proof (cases "{e \<in> docs s. t \<le> e} = {}")
  case True
  from skip_end [OF assms True] obtain s' where "it_skipTo ops t s = Some (mx, s')" "ok s'" "docs s' = {}" by blast
  then show ?thesis using True by (rule that(1))
next
  case False
  from least_in_exists [OF False] obtain d where d: "least_in {e \<in> docs s. t \<le> e} d" ..
  then have t: "t \<le> d" "d \<in> docs s" by (auto simp: least_in_def)
  from docs_range [OF assms(1) t(2)] have x: "d < mx" by blast
  from skip_doc [OF assms d] obtain s' where "it_skipTo ops t s = Some (d, s')" "ok s'" "it_doc ops s' = d" "cur s' = d"
    "docs s' = {e \<in> docs s. d < e}" by blast
  then show ?thesis using d t(1) x by (rule that(2))
qed

lemma common_on:
  assumes "least_in {e \<in> docs u. t \<le> e} t" and "docs u' = {e \<in> docs u. t < e}"
  shows "common docs t us (ms @ [u']) = common docs t (u # us) ms"
  using assms by (auto simp: common_def least_in_def)

lemma common_beyond:
  assumes "least_in {e \<in> docs u. t \<le> e} d" and "t < d" and "docs u' = {e \<in> docs u. d < e}"
  shows "common docs d (us @ ms) [u'] = common docs t (u # us) ms"
proof (intro set_eqI iffI)
  fix x
  assume x: "x \<in> common docs t (u # us) ms"
  then have "x \<in> {e \<in> docs u. t \<le> e}" by (auto simp: common_def)
  then have "d \<le> x" using assms(1) by (simp add: least_in_def)
  with x show "x \<in> common docs d (us @ ms) [u']" using assms by (auto simp: common_def)
next
  fix x
  assume "x \<in> common docs d (us @ ms) [u']"
  with assms show "x \<in> common docs t (u # us) ms" by (auto simp: common_def least_in_def)
qed

lemma common_all:
  assumes "ms \<noteq> []" and "\<forall>m \<in> set ms. ok m \<and> cur m = t"
  shows "least_in (common docs t [] ms) t" and "meet docs ms = common docs t [] ms - {t}"
proof -
  show "least_in (common docs t [] ms) t" by (auto simp: common_def least_in_def)
  have "t < d" if "d \<in> meet docs ms" for d
    using assms that docs_range [of "hd ms" d] by (auto simp: meet_def)
  then show "meet docs ms = common docs t [] ms - {t}" by (force simp: common_def meet_def)
qed

text \<open>Both loops in one: what happens at the front, and when all have matched.\<close>

lemma and_loop_found:
  assumes "length us + length ms = n" and "2 \<le> n" and "\<forall>u \<in> set us. ok u \<and> cur u < t" and "\<forall>m \<in> set ms. ok m \<and> cur m = t" and "t < mx"
  shows "\<exists>m t' its. and_loop ops mx n (length ms) t (us @ ms) = Some (m, t', its) \<and> and_found ok docs cur n (common docs t us ms) m t' its"
  using assms
proof (induction "(mx - t) * Suc n + length us" arbitrary: t us ms rule: less_induct)
  case less
  note prems = less.prems
  show ?case
  proof (cases us)
    case Nil
    then have "ms \<noteq> []" using prems by auto
    from common_all [OF this prems(4)] show ?thesis
      using prems Nil by (auto simp: and_loop.simps and_found_def least_in_def)
  next
    case (Cons u us')
    have u: "ok u" "cur u < t" using prems Cons by auto
    have lt: "length ms < n" using prems(1) Cons by simp
    from u prems(5) show ?thesis
    proof (cases rule: skip_cases)
      case (End u')
      have "common docs t us ms = {}" using End(4) by (auto simp: common_def Cons)
      moreover have "and_loop ops mx n (length ms) t (us @ ms) = Some (1, t, u' # us' @ ms)"
        using End(1) lt prems(5) by (simp add: and_loop.simps [of _ _ _ "length ms"] Cons)
      ultimately show ?thesis using End prems Cons by (auto simp: and_found_def)
    next
      case (Doc d u')
      show ?thesis
      proof (cases "d = t")
        case True
        have "and_loop ops mx n (length ms) t (us @ ms) = and_loop ops mx n (length (ms @ [u'])) t (us' @ ms @ [u'])"
          using Doc(1) lt True by (simp add: and_loop.simps [of _ _ _ "length ms"] Cons)
        moreover have "\<exists>m t' its. and_loop ops mx n (length (ms @ [u'])) t (us' @ ms @ [u']) = Some (m, t', its) \<and>
            and_found ok docs cur n (common docs t us' (ms @ [u'])) m t' its"
          using prems Cons Doc True by (intro less.hyps) auto
        ultimately show ?thesis using common_on [of u t u' us' ms] Doc True Cons by simp
      next
        case False
        then have d: "t < d" using Doc(7) by simp
        have "and_loop ops mx n (length ms) t (us @ ms) = and_loop ops mx n (length [u']) d ((us' @ ms) @ [u'])"
          using Doc(1,8) lt d by (simp add: and_loop.simps [of _ _ _ "length ms"] Cons)
        moreover have "(mx - d) * Suc n + length (us' @ ms) < (mx - t) * Suc n + length us"
        proof -
          have "Suc (mx - d) \<le> mx - t" using d Doc(8) by linarith
          from mult_le_mono1 [OF this, of "Suc n"] show ?thesis using prems(1) Cons by simp
        qed
        then have "\<exists>m t' its. and_loop ops mx n (length [u']) d ((us' @ ms) @ [u']) = Some (m, t', its) \<and>
            and_found ok docs cur n (common docs d (us' @ ms) [u']) m t' its"
          using prems Cons Doc d by (intro less.hyps) fastforce+
        ultimately show ?thesis using common_beyond [of u t d u' us' ms] Doc d Cons by simp
      qed
    qed
  qed
qed

lemma and_skip_loop_found:
  assumes "length us + length ms = n" and "1 \<le> n" and "\<forall>u \<in> set us. ok u \<and> cur u < t" and "\<forall>m \<in> set ms. ok m \<and> cur m = t" and "t < mx"
    and "ms = [] \<or> f0 = t"
  shows "\<exists>f m t' its. and_skip_loop ops mx n f0 (length ms) t (us @ ms) = Some (f, m, t', its) \<and>
    and_found ok docs cur n (common docs t us ms) m t' its \<and> (m = n \<longrightarrow> f = t')"
  using assms
proof (induction "(mx - t) * Suc n + length us" arbitrary: t us ms f0 rule: less_induct)
  case less
  note prems = less.prems
  show ?case
  proof (cases us)
    case Nil
    then have "ms \<noteq> []" using prems by auto
    from common_all [OF this prems(4)] show ?thesis
      using prems Nil by (auto simp: and_skip_loop.simps and_found_def least_in_def)
  next
    case (Cons u us')
    have u: "ok u" "cur u < t" using prems Cons by auto
    have lt: "length ms < n" using prems(1) Cons by simp
    from u prems(5) show ?thesis
    proof (cases rule: skip_cases)
      case (End u')
      have "common docs t us ms = {}" using End(4) by (auto simp: common_def Cons)
      moreover have "and_skip_loop ops mx n f0 (length ms) t (us @ ms) = Some (mx, length ms, t, u' # us' @ ms)"
        using End(1) lt by (simp add: and_skip_loop.simps [of _ _ _ _ "length ms"] Cons)
      ultimately show ?thesis using End prems Cons lt by (auto simp: and_found_def)
    next
      case (Doc d u')
      show ?thesis
      proof (cases "d = t")
        case True
        have "and_skip_loop ops mx n f0 (length ms) t (us @ ms) = and_skip_loop ops mx n t (length (ms @ [u'])) t (us' @ ms @ [u'])"
          using Doc(1) lt True prems(5) by (simp add: and_skip_loop.simps [of _ _ _ _ "length ms"] Cons)
        moreover have "\<exists>f m t' its. and_skip_loop ops mx n t (length (ms @ [u'])) t (us' @ ms @ [u']) = Some (f, m, t', its) \<and>
            and_found ok docs cur n (common docs t us' (ms @ [u'])) m t' its \<and> (m = n \<longrightarrow> f = t')"
          using prems Cons Doc True by (intro less.hyps) auto
        ultimately show ?thesis using common_on [of u t u' us' ms] Doc True Cons by simp
      next
        case False
        then have d: "t < d" using Doc(7) by simp
        have "and_skip_loop ops mx n f0 (length ms) t (us @ ms) = and_skip_loop ops mx n d (length [u']) d ((us' @ ms) @ [u'])"
          using Doc(1,8) lt d by (simp add: and_skip_loop.simps [of _ _ _ _ "length ms"] Cons)
        moreover have "(mx - d) * Suc n + length (us' @ ms) < (mx - t) * Suc n + length us"
        proof -
          have "Suc (mx - d) \<le> mx - t" using d Doc(8) by linarith
          from mult_le_mono1 [OF this, of "Suc n"] show ?thesis using prems(1) Cons by simp
        qed
        then have "\<exists>f m t' its. and_skip_loop ops mx n d (length [u']) d ((us' @ ms) @ [u']) = Some (f, m, t', its) \<and>
            and_found ok docs cur n (common docs d (us' @ ms) [u']) m t' its \<and> (m = n \<longrightarrow> f = t')"
          using prems Cons Doc d by (intro less.hyps) fastforce+
        ultimately show ?thesis using common_beyond [of u t d u' us' ms] Doc d Cons by simp
      qed
    qed
  qed
qed

end

text \<open>The invariant of an AND iterator, and what it makes of its children.\<close>

definition and_ok :: "('s \<Rightarrow> bool) \<Rightarrow> ('s \<Rightarrow> nat set) \<Rightarrow> ('s \<Rightarrow> nat) \<Rightarrow> ('s, 'n) and_iter \<Rightarrow> bool" where
  "and_ok ok docs cur a \<longleftrightarrow> nIteratorNum a = length (docIterList a) \<and> docIterList a \<noteq> [] \<and> (\<forall>it \<in> set (docIterList a). ok it) \<and>
     (docs (hd (docIterList a)) = {} \<or> (\<forall>it \<in> set (docIterList a). cur it = cur (hd (docIterList a))))"

definition and_cur :: "('s \<Rightarrow> nat) \<Rightarrow> ('s, 'n) and_iter \<Rightarrow> nat" where
  "and_cur cur a = Max (cur ` set (docIterList a))"

definition and_docs :: "('s \<Rightarrow> nat set) \<Rightarrow> ('s, 'n) and_iter \<Rightarrow> nat set" where
  "and_docs docs a = meet docs (docIterList a)"

lemma and_cur_less: "docIterList a \<noteq> [] \<Longrightarrow> and_cur cur a < t \<longleftrightarrow> (\<forall>it \<in> set (docIterList a). cur it < t)"
  by (simp add: and_cur_def)

lemma and_cur_same: "docIterList a \<noteq> [] \<Longrightarrow> \<forall>it \<in> set (docIterList a). cur it = t \<Longrightarrow> and_cur cur a = t"
proof -
  assume "docIterList a \<noteq> []" "\<forall>it \<in> set (docIterList a). cur it = t"
  then have "cur ` set (docIterList a) = {t}" by (auto simp: image_iff) (metis list.set_sel(1))
  then show ?thesis by (simp add: and_cur_def)
qed

lemma and_found_ok:
  assumes "and_found ok docs cur (length (docIterList a)) D m t its" and "docIterList a \<noteq> []" and "nIteratorNum a = length (docIterList a)"
    and "docIterList a' = its" and "nIteratorNum a' = nIteratorNum a"
  shows "and_ok ok docs cur a'" and "D = {} \<Longrightarrow> and_docs docs a' = {}" and "D \<noteq> {} \<Longrightarrow> and_cur cur a' = t \<and> and_docs docs a' = D - {t}"
proof -
  have n: "its \<noteq> []" "length its = length (docIterList a)" "\<forall>it \<in> set its. ok it" using assms(1,2) by (auto simp: and_found_def)
  show "and_ok ok docs cur a'" using assms n by (auto simp: and_ok_def and_found_def split: if_splits)
  show "and_docs docs a' = {}" if "D = {}" using assms(1,4) that n hd_in_set [OF n(1)] by (auto simp: and_docs_def meet_def and_found_def)
  show "and_cur cur a' = t \<and> and_docs docs a' = D - {t}" if "D \<noteq> {}"
    using assms(1,4) that n and_cur_same [of a' cur t] by (auto simp: and_found_def and_docs_def)
qed

context doc_iterator
begin

lemma and_docs_range:
  assumes "and_ok ok docs cur a" and "d \<in> and_docs docs a"
  shows "and_cur cur a < d \<and> d < mx"
proof -
  have n: "docIterList a \<noteq> []" "\<forall>it \<in> set (docIterList a). ok it \<and> d \<in> docs it"
    using assms by (auto simp: and_ok_def and_docs_def meet_def)
  then have "\<forall>it \<in> set (docIterList a). cur it < d \<and> d < mx" using docs_range by blast
  moreover from this have "d < mx" using hd_in_set [OF n(1)] by blast
  ultimately show ?thesis using n(1) by (simp add: and_cur_less)
qed

lemma and_do_next_spec:
  assumes "and_ok ok docs cur a"
  shows "\<exists>b a'. and_do_next ops mx a = Some (b, a') \<and> and_ok ok docs cur a' \<and>
    hasNot a' = hasNot a \<and> notIter a' = notIter a \<and> currDocOfNOTIter a' = currDocOfNOTIter a \<and> initNOTIterator a' = initNOTIterator a \<and>
    (if and_docs docs a = {} then \<not> b \<and> and_docs docs a' = {} \<and> and_currDoc a' = and_currDoc a
     else b \<and> least_in (and_docs docs a) (and_currDoc a') \<and> and_cur cur a' = and_currDoc a' \<and>
       and_docs docs a' = and_docs docs a - {and_currDoc a'})"
proof -
  obtain it rest where l: "docIterList a = it # rest" using assms by (cases "docIterList a") (auto simp: and_ok_def)
  have n: "nIteratorNum a = length (it # rest)" and ok: "ok it" "\<forall>i \<in> set rest. ok i" using assms l by (auto simp: and_ok_def)
  show ?thesis
  proof (cases "docs it = {}")
    case True
    from next_end [OF ok(1) True] obtain it' where 1: "it_next ops it = Some (False, it')" "ok it'" "docs it' = {}" by blast
    let ?a = "a\<lparr>docIterList := it' # rest\<rparr>"
    have "and_docs docs a = {}" "and_docs docs ?a = {}" using True 1 l by (auto simp: and_docs_def meet_def)
    moreover have "and_do_next ops mx a = Some (False, ?a)" using 1 l n by (simp add: and_do_next_def)
    moreover have "and_ok ok docs cur ?a" using 1 n ok l by (simp add: and_ok_def)
    ultimately show ?thesis by (intro exI [of _ False] exI [of _ ?a]) simp
  next
    case False
    from least_in_exists [OF False] obtain d where d: "least_in (docs it) d" ..
    from next_doc [OF ok(1) d] obtain it' where
      1: "it_next ops it = Some (True, it')" "ok it'" "it_doc ops it' = d" "cur it' = d" "docs it' = docs it - {d}" by blast
    have dm: "cur it < d" "d < mx" using docs_range [OF ok(1), of d] d by (auto simp: least_in_def)
    have before: "\<forall>u \<in> set rest. ok u \<and> cur u < d" using assms l False dm ok by (auto simp: and_ok_def)
    have eq: "common docs d rest [it'] = and_docs docs a"
      using d by (auto simp: common_def and_docs_def meet_def l 1(5) least_in_def)
    have "\<exists>m t its. and_found ok docs cur (length (it # rest)) (and_docs docs a) m t its \<and>
        and_do_next ops mx a = (if m = length (it # rest) then Some (True, a\<lparr>and_currDoc := t, docIterList := its\<rparr>)
                                else Some (False, a\<lparr>docIterList := its\<rparr>))"
    proof (cases "rest = []")
      case True
      have "and_found ok docs cur 1 (common docs d rest [it']) 1 d [it']"
        using common_all [of "[it']" d] 1 True by (auto simp: and_found_def least_in_def)
      then have "and_found ok docs cur (length (it # rest)) (and_docs docs a) 1 d [it']" using True eq by simp
      moreover have "and_do_next ops mx a = Some (True, a\<lparr>and_currDoc := d, docIterList := [it']\<rparr>)" using 1 n l True by (simp add: and_do_next_def)
      moreover have "1 = length (it # rest)" using True by simp
      ultimately show ?thesis by metis
    next
      case False
      have "\<exists>m t its. and_loop ops mx (length (it # rest)) (length [it']) d (rest @ [it']) = Some (m, t, its) \<and>
          and_found ok docs cur (length (it # rest)) (common docs d rest [it']) m t its"
        using 1 False before dm(2) by (intro and_loop_found) (simp_all add: Suc_le_eq)
      then obtain m t its where "and_loop ops mx (length (it # rest)) 1 d (rest @ [it']) = Some (m, t, its)"
        "and_found ok docs cur (length (it # rest)) (and_docs docs a) m t its" unfolding eq by auto
      then show ?thesis using 1 n l False by (intro exI [of _ m] exI [of _ t] exI [of _ its]) (simp add: and_do_next_def)
    qed
    then obtain m t its where f: "and_found ok docs cur (length (docIterList a)) (and_docs docs a) m t its"
      and r: "and_do_next ops mx a = (if m = length (it # rest) then Some (True, a\<lparr>and_currDoc := t, docIterList := its\<rparr>)
                                else Some (False, a\<lparr>docIterList := its\<rparr>))" unfolding l by blast
    have c: "docIterList a \<noteq> []" "nIteratorNum a = length (docIterList a)" using l n by simp_all
    show ?thesis
    proof (cases "and_docs docs a = {}")
      case True
      then have "m \<noteq> length (it # rest)" using f l by (auto simp: and_found_def)
      then show ?thesis using r and_found_ok(1,2) [OF f c, of "a\<lparr>docIterList := its\<rparr>"] True
        by (intro exI [of _ False] exI [of _ "a\<lparr>docIterList := its\<rparr>"]) simp
    next
      case False
      then have "m = length (it # rest)" "least_in (and_docs docs a) t" using f l by (auto simp: and_found_def)
      then show ?thesis using r and_found_ok(1,3) [OF f c, of "a\<lparr>and_currDoc := t, docIterList := its\<rparr>"] False
        by (intro exI [of _ True] exI [of _ "a\<lparr>and_currDoc := t, docIterList := its\<rparr>"]) simp
    qed
  qed
qed

lemma and_do_skipTo_spec:
  assumes "and_ok ok docs cur a" and "and_cur cur a < t" and "t < mx"
  shows "\<exists>f a'. and_do_skipTo ops mx t a = Some (f, a') \<and> and_ok ok docs cur a' \<and> hasNot a' = hasNot a \<and>
    (if {e \<in> and_docs docs a. t \<le> e} = {} then f = mx \<and> and_docs docs a' = {}
     else least_in {e \<in> and_docs docs a. t \<le> e} f \<and> and_currDoc a' = f \<and> and_cur cur a' = f \<and> and_docs docs a' = {e \<in> and_docs docs a. f < e})"
proof -
  let ?its = "docIterList a" and ?D = "{e \<in> and_docs docs a. t \<le> e}"
  have c: "?its \<noteq> []" "nIteratorNum a = length ?its" "\<forall>it \<in> set ?its. ok it \<and> cur it < t"
    using assms by (auto simp: and_ok_def and_cur_less)
  have eq: "common docs t ?its [] = ?D" by (auto simp: common_def and_docs_def meet_def)
  from and_skip_loop_found [of ?its "[]" "length ?its" t mx] c assms(3) obtain f m t' its where r: "and_skip_loop ops mx (length ?its) mx 0 t ?its = Some (f, m, t', its)"
    and f: "and_found ok docs cur (length ?its) ?D m t' its" "m = length ?its \<longrightarrow> f = t'" unfolding eq by (auto simp: Suc_le_eq)
  show ?thesis
  proof (cases "?D = {}")
    case True
    then have m: "m \<noteq> length ?its" using f(1) by (auto simp: and_found_def)
    let ?a = "a\<lparr>and_currDoc := mx, docIterList := its\<rparr>"
    have "and_do_skipTo ops mx t a = Some (mx, ?a)" using r m by (simp add: and_do_skipTo_def)
    then show ?thesis using and_found_ok(1,2) [OF f(1) c(1,2), of ?a] True by (intro exI [of _ mx] exI [of _ ?a]) simp
  next
    case False
    then have m: "m = length ?its" "least_in ?D t'" using f(1) by (auto simp: and_found_def)
    let ?a = "a\<lparr>and_currDoc := t', docIterList := its\<rparr>"
    have "and_do_skipTo ops mx t a = Some (t', ?a)" using r m f(2) by (simp add: and_do_skipTo_def)
    moreover have "?D - {t'} = {e \<in> and_docs docs a. t' < e}" using m(2) by (force simp: least_in_def)
    ultimately show ?thesis using and_found_ok(1,3) [OF f(1) c(1,2), of ?a] False m(2)
      unfolding if_not_P [OF False] by (intro exI [of _ t'] exI [of _ ?a]) simp
  qed
qed

text \<open>The intersection of iterators is an iterator.\<close>

lemma and_iterator:
  "doc_iterator (and_ops ops nops mx) mx (\<lambda>a. \<not> hasNot a \<and> and_ok ok docs cur a) (and_docs docs) (and_cur cur)"
proof unfold_locales
  fix a :: "('a, 'b) and_iter" and d t
  assume a: "\<not> hasNot a \<and> and_ok ok docs cur a"
  then have a': "and_ok ok docs cur a" "\<not> hasNot a" by simp_all
  show "and_cur cur a < d \<and> d < mx" if "d \<in> and_docs docs a" using and_docs_range [OF a'(1) that] .
  note nx = and_do_next_spec [OF a'(1)]
  show "\<exists>s'. it_next (and_ops ops nops mx) a = Some (False, s') \<and> (\<not> hasNot s' \<and> and_ok ok docs cur s') \<and> and_docs docs s' = {}"
    if "and_docs docs a = {}" using nx that a'(2) by (auto simp: and_ops_def and_next_def)
  show "\<exists>s'. it_next (and_ops ops nops mx) a = Some (True, s') \<and> (\<not> hasNot s' \<and> and_ok ok docs cur s') \<and>
      it_doc (and_ops ops nops mx) s' = d \<and> and_cur cur s' = d \<and> and_docs docs s' = and_docs docs a - {d}"
    if d: "least_in (and_docs docs a) d"
  proof -
    have "and_docs docs a \<noteq> {}" using d by (auto simp: least_in_def)
    then obtain b s' where "and_do_next ops mx a = Some (b, s')" "and_ok ok docs cur s'" "hasNot s' = hasNot a" b
      "least_in (and_docs docs a) (and_currDoc s')" "and_cur cur s' = and_currDoc s'" "and_docs docs s' = and_docs docs a - {and_currDoc s'}"
      using nx by auto
    then show ?thesis using a'(2) least_in_unique [OF d] by (intro exI [of _ s']) (simp add: and_ops_def and_next_def)
  qed
  assume t: "and_cur cur a < t" "t < mx"
  note sk = and_do_skipTo_spec [OF a'(1) t]
  show "\<exists>s'. it_skipTo (and_ops ops nops mx) t a = Some (mx, s') \<and> (\<not> hasNot s' \<and> and_ok ok docs cur s') \<and> and_docs docs s' = {}"
    if "{e \<in> and_docs docs a. t \<le> e} = {}" using sk that a'(2) by (auto simp: and_ops_def and_skipTo_def)
  show "\<exists>s'. it_skipTo (and_ops ops nops mx) t a = Some (d, s') \<and> (\<not> hasNot s' \<and> and_ok ok docs cur s') \<and>
      it_doc (and_ops ops nops mx) s' = d \<and> and_cur cur s' = d \<and> and_docs docs s' = {e \<in> and_docs docs a. d < e}"
    if d: "least_in {e \<in> and_docs docs a. t \<le> e} d"
  proof -
    have ne: "{e \<in> and_docs docs a. t \<le> e} \<noteq> {}" using d by (auto simp: least_in_def)
    obtain f s' where "and_do_skipTo ops mx t a = Some (f, s')" "and_ok ok docs cur s'" "hasNot s' = hasNot a"
      "least_in {e \<in> and_docs docs a. t \<le> e} f" "and_currDoc s' = f" "and_cur cur s' = f" "and_docs docs s' = {e \<in> and_docs docs a. f < e}"
      using sk unfolding if_not_P [OF ne] by blast
    then show ?thesis using a'(2) least_in_unique [OF d] by (intro exI [of _ s']) (simp add: and_ops_def and_skipTo_def)
  qed
qed

end

section \<open>The AND iterator with NOT\<close>

text \<open>
  The NOT iterator is on \<open>c\<close>, or at its end and \<open>c\<close> is \<open>MAX_DOC_ID\<close>; what it can still exclude.
\<close>

definition not_at :: "nat \<Rightarrow> ('n \<Rightarrow> nat set) \<Rightarrow> ('n \<Rightarrow> nat) \<Rightarrow> nat \<Rightarrow> 'n \<Rightarrow> bool" where
  "not_at mx ndocs ncur c n \<longleftrightarrow> (if c < mx then ncur n = c else c = mx \<and> ndocs n = {})"

definition excluded :: "nat \<Rightarrow> ('n \<Rightarrow> nat set) \<Rightarrow> nat \<Rightarrow> 'n \<Rightarrow> nat set" where
  "excluded mx ndocs c n = {x. x < mx \<and> (x = c \<or> x \<in> ndocs n)}"

definition andn_left :: "nat \<Rightarrow> ('n \<Rightarrow> nat set) \<Rightarrow> ('s, 'n) and_iter \<Rightarrow> nat set" where
  "andn_left mx ndocs a = (if initNOTIterator a then excluded mx ndocs (currDocOfNOTIter a) (notIter a) else ndocs (notIter a))"

definition andn_docs :: "nat \<Rightarrow> ('s \<Rightarrow> nat set) \<Rightarrow> ('n \<Rightarrow> nat set) \<Rightarrow> ('s, 'n) and_iter \<Rightarrow> nat set" where
  "andn_docs mx docs ndocs a = and_docs docs a - andn_left mx ndocs a"

definition andn_ok :: "nat \<Rightarrow> ('s \<Rightarrow> bool) \<Rightarrow> ('s \<Rightarrow> nat set) \<Rightarrow> ('s \<Rightarrow> nat) \<Rightarrow> ('n \<Rightarrow> bool) \<Rightarrow> ('n \<Rightarrow> nat set) \<Rightarrow> ('n \<Rightarrow> nat) \<Rightarrow> ('s, 'n) and_iter \<Rightarrow> bool" where
  "andn_ok mx ok docs cur nok ndocs ncur a \<longleftrightarrow> and_ok ok docs cur a \<and> hasNot a \<and> nok (notIter a) \<and> and_currDoc a < mx \<and>
     (initNOTIterator a \<longrightarrow> not_at mx ndocs ncur (currDocOfNOTIter a) (notIter a))"

locale and_not = pos: doc_iterator ops mx ok docs cur + neg: doc_iterator nops mx nok ndocs ncur
  for ops :: "'s iter_ops" and nops :: "'n iter_ops" and mx ok docs cur nok ndocs ncur
begin

lemma not_advance_spec:
  assumes "nok (notIter a)"
  shows "\<exists>c n. not_advance nops mx a = Some (a\<lparr>notIter := n, currDocOfNOTIter := c\<rparr>) \<and> nok n \<and> not_at mx ndocs ncur c n \<and>
    excluded mx ndocs c n = ndocs (notIter a) \<and> (\<forall>x \<in> ndocs (notIter a). c \<le> x)"
proof (cases "ndocs (notIter a) = {}")
  case True
  from neg.next_end [OF assms True] obtain n where "it_next nops (notIter a) = Some (False, n)" "nok n" "ndocs n = {}" by blast
  then show ?thesis using True by (intro exI [of _ mx] exI [of _ n]) (auto simp: not_advance_def not_at_def excluded_def)
next
  case False
  from least_in_exists [OF False] obtain d where d: "least_in (ndocs (notIter a)) d" ..
  from neg.next_doc [OF assms d] obtain n where n: "it_next nops (notIter a) = Some (True, n)" "nok n" "it_doc nops n = d" "ncur n = d"
    "ndocs n = ndocs (notIter a) - {d}" by blast
  have "x < mx" if "x \<in> ndocs (notIter a)" for x using neg.docs_range [OF assms that] by simp
  then show ?thesis using n d
    by (intro exI [of _ d] exI [of _ n]) (auto simp: not_advance_def not_at_def excluded_def least_in_def)
qed

lemma not_skip_spec:
  assumes "nok (notIter a)" and "ncur (notIter a) < t" and "t < mx"
  shows "\<exists>c n. not_skip nops t a = Some (a\<lparr>notIter := n, currDocOfNOTIter := c\<rparr>) \<and> nok n \<and> not_at mx ndocs ncur c n \<and> t \<le> c \<and>
    excluded mx ndocs c n = {x \<in> ndocs (notIter a). t \<le> x}"
  using assms
proof (cases rule: neg.skip_cases)
  case (End n)
  then show ?thesis using assms(3)
    by (intro exI [of _ mx] exI [of _ n]) (auto simp: not_skip_def not_at_def excluded_def)
next
  case (Doc d n)
  have "x < mx" if "x \<in> ndocs (notIter a)" for x using neg.docs_range [OF assms(1) that] by simp
  then show ?thesis using Doc
    by (intro exI [of _ d] exI [of _ n]) (auto simp: not_skip_def not_at_def excluded_def least_in_def)
qed

text \<open>The result of a step: \<open>D\<close> are the documents that were to come.\<close>

definition step_ok :: "nat set \<Rightarrow> bool \<Rightarrow> ('s, 'n) and_iter \<Rightarrow> bool" where
  "step_ok D b a \<longleftrightarrow> andn_ok mx ok docs cur nok ndocs ncur a \<and> initNOTIterator a \<and>
     (if D = {} then \<not> b \<and> andn_docs mx docs ndocs a = {}
      else b \<and> least_in D (and_currDoc a) \<and> and_cur cur a = and_currDoc a \<and> andn_docs mx docs ndocs a = D - {and_currDoc a})"

lemma step_end:
  assumes "and_ok ok docs cur a" and "hasNot a" and "initNOTIterator a" and "nok (notIter a)" and "and_currDoc a < mx"
    and "not_at mx ndocs ncur (currDocOfNOTIter a) (notIter a)" and "and_docs docs a = {}"
  shows "step_ok {} False a"
  using assms by (simp add: step_ok_def andn_ok_def andn_docs_def)

text \<open>A document that the NOT iterator has passed by, or is beyond, is the next one.\<close>

lemma step_found:
  assumes "and_ok ok docs cur a" and "hasNot a" and "initNOTIterator a" and "nok (notIter a)"
    and "not_at mx ndocs ncur (currDocOfNOTIter a) (notIter a)" and "and_currDoc a < currDocOfNOTIter a"
    and "least_in D0 (and_currDoc a)" and "and_cur cur a = and_currDoc a" and "and_docs docs a = D0 - {and_currDoc a}" and "and_currDoc a < mx"
    and "{x \<in> N. and_currDoc a \<le> x} = excluded mx ndocs (currDocOfNOTIter a) (notIter a)"
  shows "step_ok (D0 - N) True a"
proof -
  let ?d = "and_currDoc a" and ?X = "excluded mx ndocs (currDocOfNOTIter a) (notIter a)"
  have "?d < x" if "x \<in> ?X" for x
  proof (cases "x = currDocOfNOTIter a")
    case False
    then have x: "x \<in> ndocs (notIter a)" using that by (simp add: excluded_def)
    then have "ncur (notIter a) < x" "currDocOfNOTIter a < mx" using neg.docs_range [OF assms(4) x] assms(5) by (auto simp: not_at_def split: if_splits)
    then show ?thesis using assms(5,6) by (simp add: not_at_def)
  qed (use assms(6) in simp)
  then have "?d \<notin> N" using assms(11) by blast
  then have l: "least_in (D0 - N) ?d" using assms(7) by (auto simp: least_in_def)
  have "(D0 - {?d}) - ?X = (D0 - N) - {?d}" using assms(7) unfolding assms(11) [symmetric] by (auto simp: least_in_def)
  moreover have "D0 - N \<noteq> {}" using l by (auto simp: least_in_def)
  ultimately show ?thesis using assms l by (simp add: step_ok_def andn_ok_def andn_docs_def andn_left_def)
qed

text \<open>Comparing the document found with that of the NOT iterator; \<open>F\<close> moves both together.\<close>

lemma settle:
  assumes "and_ok ok docs cur a" and "hasNot a" and "initNOTIterator a" and "nok (notIter a)"
    and "not_at mx ndocs ncur (currDocOfNOTIter a) (notIter a)" and "excluded mx ndocs (currDocOfNOTIter a) (notIter a) = N"
    and "least_in D (and_currDoc a)" and "and_cur cur a = and_currDoc a" and "and_docs docs a = D - {and_currDoc a}" and "and_currDoc a < mx"
    and rec: "\<And>a3. and_ok ok docs cur a3 \<Longrightarrow> hasNot a3 \<Longrightarrow> initNOTIterator a3 \<Longrightarrow> nok (notIter a3) \<Longrightarrow>
      not_at mx ndocs ncur (currDocOfNOTIter a3) (notIter a3) \<Longrightarrow> and_currDoc a3 = and_currDoc a \<Longrightarrow>
      and_docs docs a3 = D - {and_currDoc a} \<Longrightarrow> and_docs docs a3 - ndocs (notIter a3) = D - N \<Longrightarrow>
      \<exists>b a'. F a3 = Some (b, a') \<and> step_ok (D - N) b a'"
  shows "\<exists>b a'. (if and_currDoc a < currDocOfNOTIter a then Some (True, a)
       else if and_currDoc a = currDocOfNOTIter a then F a
       else Option.bind (not_skip nops (and_currDoc a) a) (\<lambda>a3.
         if and_currDoc a3 = currDocOfNOTIter a3 then F a3 else Some (True, a3))) = Some (b, a') \<and> step_ok (D - N) b a'"
proof -
  let ?d = "and_currDoc a" and ?c = "currDocOfNOTIter a" and ?n = "notIter a"
  have fr: "{x \<in> N. ?d \<le> x} = N" if "?d \<le> ?c"
  proof -
    have "?c \<le> x" if "x \<in> N" for x
      using that neg.docs_range [OF assms(4), of x] assms(5) unfolding assms(6) [symmetric] by (auto simp: excluded_def not_at_def split: if_splits)
    then show ?thesis using that by force
  qed
  have minus: "D - {?d} - ndocs n = D - N" if "nok n" "not_at mx ndocs ncur c n" "c = ?d" "excluded mx ndocs c n = {x \<in> N. ?d \<le> x}" for c n
  proof -
    have "ndocs n = excluded mx ndocs c n - {c}" using neg.docs_range [OF that(1)] that(2,3) assms(10) by (auto simp: excluded_def not_at_def)
    then have "ndocs n = {x \<in> N. ?d \<le> x} - {?d}" unfolding that(4) using that(3) by simp
    moreover have "?d \<in> excluded mx ndocs c n" using that(3) assms(10) by (simp add: excluded_def)
    then have "?d \<in> N" unfolding that(4) by simp
    ultimately show ?thesis using assms(7) by (auto simp: least_in_def)
  qed
  consider "?d < ?c" | "?d = ?c" | "?c < ?d" by linarith
  then show ?thesis
  proof cases
    case 1
    have "step_ok (D - N) True a" using assms fr 1 by (intro step_found) simp_all
    then show ?thesis using 1 by auto
  next
    case 2
    have x: "excluded mx ndocs ?c ?n = {x \<in> N. ?d \<le> x}" using assms(6) fr 2 by simp
    have "and_docs docs a - ndocs ?n = D - N" unfolding assms(9) by (rule minus [OF assms(4,5) 2 [symmetric] x])
    from rec [OF assms(1-5) refl assms(9) this] show ?thesis using 2 by simp
  next
    case 3
    then have "ncur ?n < ?d" using assms(5,10) by (simp add: not_at_def split: if_splits)
    from not_skip_spec [OF assms(4) this assms(10)] obtain c3 n3 where
      s: "not_skip nops ?d a = Some (a\<lparr>notIter := n3, currDocOfNOTIter := c3\<rparr>)" "nok n3" "not_at mx ndocs ncur c3 n3" "?d \<le> c3"
        "excluded mx ndocs c3 n3 = {x \<in> ndocs ?n. ?d \<le> x}" by blast
    have e: "{x \<in> ndocs ?n. ?d \<le> x} = {x \<in> N. ?d \<le> x}"
      using 3 neg.docs_range [OF assms(4)] unfolding assms(6) [symmetric] by (auto simp: excluded_def)
    let ?a3 = "a\<lparr>notIter := n3, currDocOfNOTIter := c3\<rparr>"
    have k: "and_ok ok docs cur ?a3" "and_docs docs ?a3 = D - {?d}" "and_cur cur ?a3 = ?d"
      using assms(1,8,9) by (simp_all add: and_ok_def and_docs_def and_cur_def)
    have "\<exists>b a'. (if ?d = c3 then F ?a3 else Some (True, ?a3)) = Some (b, a') \<and> step_ok (D - N) b a'"
    proof (cases "?d = c3")
      case True
      have "and_docs docs ?a3 - ndocs n3 = D - N" unfolding k(2) by (rule minus [OF s(2,3) True [symmetric] trans [OF s(5) e]])
      then have "\<exists>b a'. F ?a3 = Some (b, a') \<and> step_ok (D - N) b a'"
        by (intro rec) (simp_all add: k assms(2,3) s(2,3))
      then show ?thesis using True by simp
    next
      case False
      have "step_ok (D - N) True ?a3" using k assms(2,3,7,10) s False e by (intro step_found) simp_all
      then show ?thesis using False by auto
    qed
    then show ?thesis using 3 s(1) by simp
  qed
qed

lemma card_and_docs:
  assumes "and_ok ok docs cur a" and "least_in (and_docs docs a) d"
  shows "card (and_docs docs a - {d}) < card (and_docs docs a)" and "d < mx"
proof -
  have "finite (and_docs docs a)" by (rule finite_subset [of _ "{..<mx}"]) (use pos.and_docs_range [OF assms(1)] in auto)
  then show "card (and_docs docs a - {d}) < card (and_docs docs a)" using assms(2) by (intro card_Diff1_less) (simp_all add: least_in_def)
  show "d < mx" using pos.and_docs_range [OF assms(1), of d] assms(2) by (simp add: least_in_def)
qed

lemma move_together_spec:
  assumes "and_ok ok docs cur a" and "hasNot a" and "initNOTIterator a" and "nok (notIter a)" and "and_currDoc a < mx"
    and "not_at mx ndocs ncur (currDocOfNOTIter a) (notIter a)"
  shows "\<exists>b a'. move_together_with_not ops nops mx a = Some (b, a') \<and> step_ok (and_docs docs a - ndocs (notIter a)) b a'"
  using assms
proof (induction "card (and_docs docs a)" arbitrary: a rule: less_induct)
  case less
  note prems = less.prems
  let ?D = "and_docs docs a" and ?N = "ndocs (notIter a)"
  from pos.and_do_next_spec [OF prems(1)] obtain b a1 where
    1: "and_do_next ops mx a = Some (b, a1)" "and_ok ok docs cur a1" "hasNot a1" "notIter a1 = notIter a"
      "currDocOfNOTIter a1 = currDocOfNOTIter a" "initNOTIterator a1" and
    n1: "if ?D = {} then \<not> b \<and> and_docs docs a1 = {} \<and> and_currDoc a1 = and_currDoc a
      else b \<and> least_in ?D (and_currDoc a1) \<and> and_cur cur a1 = and_currDoc a1 \<and> and_docs docs a1 = ?D - {and_currDoc a1}"
    using prems(2,3) by auto
  show ?case
  proof (cases "?D = {}")
    case True
    have "step_ok {} False a1" using 1 n1 True prems by (intro step_end) simp_all
    then show ?thesis using 1(1) n1 True by (auto simp: move_together_with_not.simps [of _ _ _ a])
  next
    case False
    then have d: b "least_in ?D (and_currDoc a1)" "and_cur cur a1 = and_currDoc a1" "and_docs docs a1 = ?D - {and_currDoc a1}"
      using n1 by simp_all
    from not_advance_spec [of a1] 1(4) prems(4) obtain c n where
      2: "not_advance nops mx a1 = Some (a1\<lparr>notIter := n, currDocOfNOTIter := c\<rparr>)" "nok n" "not_at mx ndocs ncur c n"
        "excluded mx ndocs c n = ?N" by auto
    let ?a2 = "a1\<lparr>notIter := n, currDocOfNOTIter := c\<rparr>"
    have k: "and_ok ok docs cur ?a2" "and_docs docs ?a2 = ?D - {and_currDoc a1}" "and_cur cur ?a2 = and_currDoc a1"
      using 1(2) d(3,4) by (simp_all add: and_ok_def and_docs_def and_cur_def)
    have eq: "move_together_with_not ops nops mx a =
        (if and_currDoc ?a2 < currDocOfNOTIter ?a2 then Some (True, ?a2)
         else if and_currDoc ?a2 = currDocOfNOTIter ?a2 then move_together_with_not ops nops mx ?a2
         else Option.bind (not_skip nops (and_currDoc ?a2) ?a2) (\<lambda>a3.
           if and_currDoc a3 = currDocOfNOTIter a3 then move_together_with_not ops nops mx a3 else Some (True, a3)))"
      using 1(1) 2(1) d(1) by (simp add: move_together_with_not.simps [of _ _ _ a])
    note c = card_and_docs [OF prems(1) d(2)]
    have rec: "\<exists>b a'. move_together_with_not ops nops mx a3 = Some (b, a') \<and> step_ok (?D - ?N) b a'"
      if "and_ok ok docs cur a3" "hasNot a3" "initNOTIterator a3" "nok (notIter a3)" "not_at mx ndocs ncur (currDocOfNOTIter a3) (notIter a3)"
        "and_currDoc a3 = and_currDoc ?a2" "and_docs docs a3 = ?D - {and_currDoc ?a2}" "and_docs docs a3 - ndocs (notIter a3) = ?D - ?N" for a3
      using less.hyps [of a3] that c by simp
    show ?thesis unfolding eq
      by (rule settle [where N = ?N and D = ?D, OF k(1) _ _ _ _ _ _ _ _ _ rec]) (use k 1 2 d c in simp_all)
  qed
qed

lemma first_not:
  assumes "andn_ok mx ok docs cur nok ndocs ncur a"
  obtains a0 where "(if initNOTIterator a then Some a else not_advance nops mx (a\<lparr>initNOTIterator := True\<rparr>)) = Some a0"
    "and_ok ok docs cur a0" "hasNot a0" "initNOTIterator a0" "nok (notIter a0)" "and_currDoc a0 < mx"
    "not_at mx ndocs ncur (currDocOfNOTIter a0) (notIter a0)" "and_docs docs a0 = and_docs docs a"
    "excluded mx ndocs (currDocOfNOTIter a0) (notIter a0) = andn_left mx ndocs a"
proof (cases "initNOTIterator a")
  case True
  then show ?thesis using assms that [of a] by (simp add: andn_ok_def andn_left_def)
next
  case False
  have a: "and_ok ok docs cur a" "hasNot a" "nok (notIter a)" "and_currDoc a < mx" using assms by (simp_all add: andn_ok_def)
  from not_advance_spec [of "a\<lparr>initNOTIterator := True\<rparr>"] a(3) obtain c n where
    "not_advance nops mx (a\<lparr>initNOTIterator := True\<rparr>) = Some (a\<lparr>initNOTIterator := True, notIter := n, currDocOfNOTIter := c\<rparr>)"
    "nok n" "not_at mx ndocs ncur c n" "excluded mx ndocs c n = ndocs (notIter a)" by auto
  then show ?thesis using False a that [of "a\<lparr>initNOTIterator := True, notIter := n, currDocOfNOTIter := c\<rparr>"]
    by (simp add: andn_left_def and_ok_def and_docs_def)
qed

text \<open>When the children are exhausted, nothing is found whatever the NOT iterator does.\<close>

lemma settle_end:
  assumes "and_ok ok docs cur a" and "hasNot a" and "initNOTIterator a" and "nok (notIter a)" and "and_currDoc a < mx"
    and "not_at mx ndocs ncur (currDocOfNOTIter a) (notIter a)" and "and_docs docs a = {}"
  shows "\<exists>b a'. (if and_currDoc a = currDocOfNOTIter a then move_together_with_not ops nops mx a
       else if and_currDoc a < currDocOfNOTIter a then Some (False, a)
       else Option.bind (not_skip nops (and_currDoc a) a) (\<lambda>a3.
         if and_currDoc a3 = currDocOfNOTIter a3 then move_together_with_not ops nops mx a3 else Some (False, a3))) = Some (b, a') \<and> step_ok {} b a'"
proof -
  have m: "\<exists>b a'. (if p then move_together_with_not ops nops mx a3 else Some (False, a3)) = Some (b, a') \<and> step_ok {} b a'"
    if a3: "and_ok ok docs cur a3" "hasNot a3" "initNOTIterator a3" "nok (notIter a3)" "and_currDoc a3 < mx"
      "not_at mx ndocs ncur (currDocOfNOTIter a3) (notIter a3)" "and_docs docs a3 = {}" for a3 p
    using move_together_spec [OF a3(1-6)] step_end [OF a3] a3(7) by (cases p) auto
  consider "and_currDoc a \<le> currDocOfNOTIter a" | "currDocOfNOTIter a < and_currDoc a" by linarith
  then show ?thesis
  proof cases
    case 1
    then show ?thesis using m [OF assms, of "and_currDoc a = currDocOfNOTIter a"] by (auto split: if_splits)
  next
    case 2
    then have "ncur (notIter a) < and_currDoc a" using assms(5,6) by (simp add: not_at_def split: if_splits)
    from not_skip_spec [OF assms(4) this assms(5)] obtain c n where
      s: "not_skip nops (and_currDoc a) a = Some (a\<lparr>notIter := n, currDocOfNOTIter := c\<rparr>)" "nok n" "not_at mx ndocs ncur c n" by blast
    have k: "and_ok ok docs cur (a\<lparr>notIter := n, currDocOfNOTIter := c\<rparr>)" "and_docs docs (a\<lparr>notIter := n, currDocOfNOTIter := c\<rparr>) = {}"
      using assms(1,7) by (simp_all add: and_ok_def and_docs_def)
    show ?thesis using 2 s(1) m [OF k(1) _ _ _ _ _ k(2), of "and_currDoc a = c"] s(2,3) assms(2,3,5) by simp
  qed
qed

lemma and_next_not:
  assumes "andn_ok mx ok docs cur nok ndocs ncur a"
  shows "\<exists>b a'. and_next ops nops mx a = Some (b, a') \<and> step_ok (andn_docs mx docs ndocs a) b a'"
proof -
  have a: "hasNot a" "docIterList a \<noteq> []" using assms by (simp_all add: andn_ok_def and_ok_def)
  from first_not [OF assms] obtain a0 where
    0: "(if initNOTIterator a then Some a else not_advance nops mx (a\<lparr>initNOTIterator := True\<rparr>)) = Some a0"
    and k0: "and_ok ok docs cur a0" "hasNot a0" "initNOTIterator a0" "nok (notIter a0)" "and_currDoc a0 < mx"
      "not_at mx ndocs ncur (currDocOfNOTIter a0) (notIter a0)" and D: "and_docs docs a0 = and_docs docs a"
    and N: "excluded mx ndocs (currDocOfNOTIter a0) (notIter a0) = andn_left mx ndocs a" by blast
  let ?D = "and_docs docs a" and ?N = "andn_left mx ndocs a" and ?F = "move_together_with_not ops nops mx"
  from pos.and_do_next_spec [OF k0(1)] obtain b a1 where
    1: "and_do_next ops mx a0 = Some (b, a1)" "and_ok ok docs cur a1" "hasNot a1" "notIter a1 = notIter a0"
      "currDocOfNOTIter a1 = currDocOfNOTIter a0" "initNOTIterator a1" and
    n1: "if ?D = {} then \<not> b \<and> and_docs docs a1 = {} \<and> and_currDoc a1 = and_currDoc a0
      else b \<and> least_in ?D (and_currDoc a1) \<and> and_cur cur a1 = and_currDoc a1 \<and> and_docs docs a1 = ?D - {and_currDoc a1}"
    using k0(2,3) unfolding D by auto
  have eq: "and_next ops nops mx a =
      (if and_currDoc a1 = currDocOfNOTIter a1 then ?F a1
       else if and_currDoc a1 < currDocOfNOTIter a1 then Some (b, a1)
       else Option.bind (not_skip nops (and_currDoc a1) a1) (\<lambda>a2.
         if and_currDoc a2 = currDocOfNOTIter a2 then ?F a2 else Some (b, a2)))"
    using a 0 1(1) by (simp add: and_next_def)
  show ?thesis
  proof (cases "?D = {}")
    case True
    then have e: "b = False" "and_docs docs a1 = {}" "and_currDoc a1 < mx" "andn_docs mx docs ndocs a = {}" using n1 k0(5) by (simp_all add: andn_docs_def)
    have "nok (notIter a1)" "not_at mx ndocs ncur (currDocOfNOTIter a1) (notIter a1)" using 1(4,5) k0(4,6) by simp_all
    from settle_end [OF 1(2,3,6) this(1) e(3) this(2) e(2)] show ?thesis unfolding eq e(1,4) .
  next
    case False
    then have d: b "least_in ?D (and_currDoc a1)" "and_cur cur a1 = and_currDoc a1" "and_docs docs a1 = ?D - {and_currDoc a1}" using n1 by simp_all
    have c: "and_currDoc a1 < mx" using card_and_docs(2) [OF k0(1)] d(2) D by simp
    have rec: "\<exists>b a'. ?F a3 = Some (b, a') \<and> step_ok (?D - ?N) b a'"
      if "and_ok ok docs cur a3" "hasNot a3" "initNOTIterator a3" "nok (notIter a3)" "not_at mx ndocs ncur (currDocOfNOTIter a3) (notIter a3)"
        "and_currDoc a3 = and_currDoc a1" "and_docs docs a3 = ?D - {and_currDoc a1}" "and_docs docs a3 - ndocs (notIter a3) = ?D - ?N" for a3
      using move_together_spec [of a3] that c by simp
    have "\<exists>b a'. (if and_currDoc a1 < currDocOfNOTIter a1 then Some (True, a1)
       else if and_currDoc a1 = currDocOfNOTIter a1 then ?F a1
       else Option.bind (not_skip nops (and_currDoc a1) a1) (\<lambda>a3.
         if and_currDoc a3 = currDocOfNOTIter a3 then ?F a3 else Some (True, a3))) = Some (b, a') \<and> step_ok (?D - ?N) b a'"
      by (rule settle [where N = ?N and D = ?D, OF 1(2,3,6) _ _ _ _ _ _ _ rec]) (use 1 k0 d c N in simp_all)
    moreover have "and_next ops nops mx a =
      (if and_currDoc a1 < currDocOfNOTIter a1 then Some (True, a1)
       else if and_currDoc a1 = currDocOfNOTIter a1 then ?F a1
       else Option.bind (not_skip nops (and_currDoc a1) a1) (\<lambda>a3.
         if and_currDoc a3 = currDocOfNOTIter a3 then ?F a3 else Some (True, a3)))"
      unfolding eq using d(1) by (simp cong: if_cong)
    ultimately show ?thesis by (simp only: andn_docs_def)
  qed
qed

text \<open>The difference of iterators can be iterated over.\<close>

lemma and_not_stream:
  "doc_stream (and_ops ops nops mx) mx (andn_ok mx ok docs cur nok ndocs ncur) (andn_docs mx docs ndocs) (and_cur cur)"
proof unfold_locales
  fix a :: "('s, 'n) and_iter" and d
  assume a: "andn_ok mx ok docs cur nok ndocs ncur a"
  note nx = and_next_not [OF a, unfolded step_ok_def]
  show "and_cur cur a < d \<and> d < mx" if "d \<in> andn_docs mx docs ndocs a"
    using pos.and_docs_range [of a d] a that by (simp add: andn_ok_def andn_docs_def)
  show "\<exists>s'. it_next (and_ops ops nops mx) a = Some (False, s') \<and> andn_ok mx ok docs cur nok ndocs ncur s' \<and> andn_docs mx docs ndocs s' = {}"
    if "andn_docs mx docs ndocs a = {}" using nx that by (auto simp: and_ops_def)
  show "\<exists>s'. it_next (and_ops ops nops mx) a = Some (True, s') \<and> andn_ok mx ok docs cur nok ndocs ncur s' \<and>
      it_doc (and_ops ops nops mx) s' = d \<and> and_cur cur s' = d \<and> andn_docs mx docs ndocs s' = andn_docs mx docs ndocs a - {d}"
    if d: "least_in (andn_docs mx docs ndocs a) d"
  proof -
    have ne: "andn_docs mx docs ndocs a \<noteq> {}" using d by (auto simp: least_in_def)
    from nx [unfolded if_not_P [OF ne]] obtain b s' where "and_next ops nops mx a = Some (b, s')" "andn_ok mx ok docs cur nok ndocs ncur s'" b
      "least_in (andn_docs mx docs ndocs a) (and_currDoc s')" "and_cur cur s' = and_currDoc s'"
      "andn_docs mx docs ndocs s' = andn_docs mx docs ndocs a - {and_currDoc s'}" by blast
    then show ?thesis using least_in_unique [OF d] by (intro exI [of _ s']) (simp add: and_ops_def)
  qed
qed

end

end
