(* ===== verification/OrIterator.thy ===== *)
theory OrIterator
  imports DocIterator HeapQueue
begin

text \<open>
  \<open>ORDocumentIterator\<close> and \<open>NOTDocumentIterator\<close> of \<^verbatim>\<open>src/source/core/search-manager\<close>: the union
  of iterators. The children stand in a vector (\<open>None\<close> for a deleted one), each with its flag
  \<open>current_\<close>; a priority queue holds pointers to those that are not exhausted, here their
  positions in the vector. So a child that is moved through the queue is moved in the vector
  as well, and the order of the queue, \<open>lessThan\<close>, reads the vector. The queue is a class of an
  external library: it is the record of operations \<open>queue_ops\<close>, and what is relied on is the
  locale \<open>iter_queue\<close>; the heap of \<open>HeapQueue\<close>, the repository's own copy of that class, is an
  instance. Under the contract of \<open>DocIterator\<close> for the children, the iterator delivers
  their union and keeps the contract itself.
\<close>

section \<open>The queue of children\<close>

record 'q queue_ops =
  q_new :: "nat \<Rightarrow> 'q"
  q_insert :: "(nat \<Rightarrow> nat \<Rightarrow> bool) \<Rightarrow> nat \<Rightarrow> 'q \<Rightarrow> 'q"
  q_top :: "'q \<Rightarrow> nat option"
  q_adjustTop :: "(nat \<Rightarrow> nat \<Rightarrow> bool) \<Rightarrow> 'q \<Rightarrow> 'q"
  q_pop :: "(nat \<Rightarrow> nat \<Rightarrow> bool) \<Rightarrow> 'q \<Rightarrow> 'q"
  q_list :: "'q \<Rightarrow> nat list"

text \<open>\<open>DocumentIteratorQueue::lessThan\<close>, for the documents \<open>doc\<close> that the elements are on.\<close>

definition docq_lessThan :: "('a \<Rightarrow> nat) \<Rightarrow> 'a \<Rightarrow> 'a \<Rightarrow> bool" where
  "docq_lessThan doc o1 o2 \<longleftrightarrow> doc o1 < doc o2"

interpretation docq: priority_order "docq_lessThan doc" for doc
  by unfold_locales (auto simp: docq_lessThan_def)

text \<open>
  The laws of the queue. The elements may change their keys between calls, but only the top
  element may do so before \<open>adjustTop\<close> or \<open>pop\<close>.
\<close>

locale iter_queue =
  fixes qops :: "'q queue_ops" and q_ok :: "(nat \<Rightarrow> nat) \<Rightarrow> 'q \<Rightarrow> bool" and q_cap :: "'q \<Rightarrow> nat"
  assumes new: "q_ok key (q_new qops n) \<and> q_list qops (q_new qops n) = [] \<and> q_cap (q_new qops n) = n"
    and insert: "q_ok key q \<Longrightarrow> length (q_list qops q) < q_cap q \<Longrightarrow>
      q_ok key (q_insert qops (docq_lessThan key) i q) \<and> q_cap (q_insert qops (docq_lessThan key) i q) = q_cap q \<and>
      mset (q_list qops (q_insert qops (docq_lessThan key) i q)) = add_mset i (mset (q_list qops q))"
    and top_none: "q_ok key q \<Longrightarrow> q_top qops q = None \<longleftrightarrow> q_list qops q = []"
    and top_least: "q_ok key q \<Longrightarrow> q_top qops q = Some i \<Longrightarrow>
      i \<in> set (q_list qops q) \<and> (\<forall>j \<in> set (q_list qops q). key i \<le> key j)"
    and adjust: "q_ok key q \<Longrightarrow> distinct (q_list qops q) \<Longrightarrow> q_top qops q = Some i \<Longrightarrow>
      \<forall>j \<in> set (q_list qops q). j \<noteq> i \<longrightarrow> key' j = key j \<Longrightarrow>
      q_ok key' (q_adjustTop qops (docq_lessThan key') q) \<and>
      mset (q_list qops (q_adjustTop qops (docq_lessThan key') q)) = mset (q_list qops q)"
    and pop: "q_ok key q \<Longrightarrow> distinct (q_list qops q) \<Longrightarrow> q_top qops q = Some i \<Longrightarrow>
      \<forall>j \<in> set (q_list qops q). j \<noteq> i \<longrightarrow> key' j = key j \<Longrightarrow>
      q_ok key' (q_pop qops (docq_lessThan key') q) \<and>
      mset (q_list qops (q_pop qops (docq_lessThan key') q)) = mset (q_list qops q) - {#i#}"
    and keys: "q_ok key q \<Longrightarrow> \<forall>j \<in> set (q_list qops q). key' j = key j \<Longrightarrow> q_ok key' q"

section \<open>The OR iterator\<close>

type_synonym 's or_children = "('s \<times> bool) option list"

record ('s, 'q, 'n) or_iter =
  or_list :: "'s or_children"
  or_queue :: "'q option"
  or_currDoc :: nat
  or_hasNot :: bool
  or_currDocOfNOTIter :: nat
  or_initNOTIterator :: bool
  or_notIter :: 'n

definition or_init :: "nat \<Rightarrow> nat \<Rightarrow> 'n \<Rightarrow> ('s, 'q, 'n) or_iter" where
  "or_init mx c n0 = \<lparr>or_list = [], or_queue = None, or_currDoc = c, or_hasNot = False, or_currDocOfNOTIter = mx,
     or_initNOTIterator = False, or_notIter = n0\<rparr>"

definition or_add :: "('s \<Rightarrow> bool) \<Rightarrow> ('s \<Rightarrow> 'n \<Rightarrow> 'n) \<Rightarrow> 's \<Rightarrow> ('s, 'q, 'n) or_iter \<Rightarrow> ('s, 'q, 'n) or_iter" where
  "or_add isNot not_add it a =
     (if isNot it then a\<lparr>or_hasNot := True, or_notIter := not_add it (or_notIter a)\<rparr>
      else a\<lparr>or_list := or_list a @ [Some (it, False)]\<rparr>)"

text \<open>The document a child is on (no element of the queue is deleted).\<close>

definition child_doc :: "'s iter_ops \<Rightarrow> 's or_children \<Rightarrow> nat \<Rightarrow> nat" where
  "child_doc ops l i = (case l ! i of Some (s, _) \<Rightarrow> it_doc ops s | None \<Rightarrow> 0)"

fun init_loop :: "'s iter_ops \<Rightarrow> 'q queue_ops \<Rightarrow> nat list \<Rightarrow> 's or_children \<Rightarrow> 'q \<Rightarrow> ('s or_children \<times> 'q) option" where
  "init_loop ops qops [] l q = Some (l, q)"
| "init_loop ops qops (i # is) l q =
     (case l ! i of
        None \<Rightarrow> init_loop ops qops is l q
      | Some (s, _) \<Rightarrow> Option.bind (it_next ops s) (\<lambda>(b, s').
          if b then let l' = l[i := Some (s', False)]
                    in init_loop ops qops is l' (q_insert qops (docq_lessThan (child_doc ops l')) i q)
          else init_loop ops qops is (l[i := None]) q))"

definition initDocIteratorQueue :: "'s iter_ops \<Rightarrow> 'q queue_ops \<Rightarrow> ('s, 'q, 'n) or_iter \<Rightarrow> ('s, 'q, 'n) or_iter option" where
  "initDocIteratorQueue ops qops a =
     (if length (or_list a) < 1 then Some a
      else map_option (\<lambda>(l, q). a\<lparr>or_list := l, or_queue := Some q\<rparr>)
        (init_loop ops qops [0..<length (or_list a)] (or_list a) (q_new qops (length (or_list a)))))"

text \<open>The flags \<open>current_\<close>: which children are on the document found.\<close>

definition mark_child :: "'s iter_ops \<Rightarrow> nat \<Rightarrow> ('s \<times> bool) option \<Rightarrow> ('s \<times> bool) option" where
  "mark_child ops d = map_option (\<lambda>(s, _). (s, d = it_doc ops s))"

definition mark_queue :: "'s iter_ops \<Rightarrow> nat \<Rightarrow> nat list \<Rightarrow> 's or_children \<Rightarrow> 's or_children" where
  "mark_queue ops d is l = fold (\<lambda>i l. l[i := mark_child ops d (l ! i)]) is l"

definition mark_list :: "'s iter_ops \<Rightarrow> nat \<Rightarrow> 's or_children \<Rightarrow> 's or_children" where
  "mark_list ops d l = map (mark_child ops d) l"

text \<open>The children on the current document are moved on; one that is exhausted leaves the queue.\<close>

partial_function (option) or_advance :: "'s iter_ops \<Rightarrow> 'q queue_ops \<Rightarrow> 's or_children \<Rightarrow> 'q \<Rightarrow> ('s or_children \<times> 'q) option" where
  "or_advance ops qops l q =
     (case q_top qops q of
        None \<Rightarrow> Some (l, q)
      | Some i \<Rightarrow>
          (case l ! i of
             None \<Rightarrow> None
           | Some (s, current) \<Rightarrow>
               if \<not> current then Some (l, q)
               else Option.bind (it_next ops s) (\<lambda>(b, s').
                 let l' = l[i := Some (s', False)]; lt = docq_lessThan (child_doc ops l')
                 in or_advance ops qops l' (if b then q_adjustTop qops lt q else q_pop qops lt q))))"

definition or_do_next :: "'s iter_ops \<Rightarrow> 'q queue_ops \<Rightarrow> ('s, 'q, 'n) or_iter \<Rightarrow> (bool \<times> ('s, 'q, 'n) or_iter) option" where
  "or_do_next ops qops a =
     (case or_queue a of
        None \<Rightarrow> Option.bind (initDocIteratorQueue ops qops a) (\<lambda>a1.
          case or_queue a1 of
            None \<Rightarrow> Some (False, a1)
          | Some q \<Rightarrow>
              (case q_top qops q of
                 None \<Rightarrow> Some (False, a1)
               | Some i \<Rightarrow> let d = child_doc ops (or_list a1) i
                   in Some (True, a1\<lparr>or_currDoc := d, or_list := mark_queue ops d (q_list qops q) (or_list a1)\<rparr>)))
      | Some q \<Rightarrow> Option.bind (or_advance ops qops (or_list a) q) (\<lambda>(l, q').
          case q_top qops q' of
            None \<Rightarrow> Some (False, a\<lparr>or_list := l, or_queue := Some q'\<rparr>)
          | Some i \<Rightarrow> let d = child_doc ops l i
              in Some (True, a\<lparr>or_list := mark_list ops d l, or_queue := Some q', or_currDoc := d\<rparr>)))"

text \<open>The loop of \<open>do_skipTo\<close>, with the final value of \<open>currDoc_\<close> second.\<close>

partial_function (option) or_skip_loop ::
  "'s iter_ops \<Rightarrow> 'q queue_ops \<Rightarrow> nat \<Rightarrow> nat \<Rightarrow> 's or_children \<Rightarrow> 'q \<Rightarrow> (nat \<times> nat \<times> 's or_children \<times> 'q) option" where
  "or_skip_loop ops qops mx target l q =
     (case q_top qops q of
        None \<Rightarrow> None
      | Some i \<Rightarrow>
          let d = child_doc ops l i; l1 = mark_list ops d l
          in if d \<ge> target then
               (if length (q_list qops q) < 1 then Some (mx, mx, l1, q) else Some (d, d, l1, q))
             else
               (case l1 ! i of
                  None \<Rightarrow> None
                | Some (s, c) \<Rightarrow> Option.bind (it_skipTo ops target s) (\<lambda>(found, s').
                    let l2 = l1[i := Some (s', c)]; lt = docq_lessThan (child_doc ops l2)
                    in if found = mx \<or> found < target then
                         (let q' = q_pop qops lt q
                          in if length (q_list qops q') < 1 then Some (mx, mx, l2, q')
                             else or_skip_loop ops qops mx target l2 q')
                       else or_skip_loop ops qops mx target l2 (q_adjustTop qops lt q))))"

definition or_do_skipTo :: "'s iter_ops \<Rightarrow> 'q queue_ops \<Rightarrow> nat \<Rightarrow> nat \<Rightarrow> ('s, 'q, 'n) or_iter \<Rightarrow> (nat \<times> ('s, 'q, 'n) or_iter) option" where
  "or_do_skipTo ops qops mx target a =
     Option.bind (if or_queue a = None then initDocIteratorQueue ops qops a else Some a) (\<lambda>a1.
       case or_queue a1 of
         None \<Rightarrow> Some (mx, a1\<lparr>or_currDoc := mx\<rparr>)
       | Some q \<Rightarrow>
           if length (q_list qops q) < 1 then Some (mx, a1\<lparr>or_currDoc := mx\<rparr>)
           else map_option (\<lambda>(found, c, l, q'). (found, a1\<lparr>or_currDoc := c, or_list := l, or_queue := Some q'\<rparr>))
             (or_skip_loop ops qops mx target (or_list a1) q))"

text \<open>With a NOT iterator.\<close>

definition or_not_advance :: "'n iter_ops \<Rightarrow> nat \<Rightarrow> ('s, 'q, 'n) or_iter \<Rightarrow> ('s, 'q, 'n) or_iter option" where
  "or_not_advance nops mx a =
     map_option (\<lambda>(b, n'). a\<lparr>or_notIter := n', or_currDocOfNOTIter := (if b then it_doc nops n' else mx)\<rparr>) (it_next nops (or_notIter a))"

definition or_not_skip :: "'n iter_ops \<Rightarrow> nat \<Rightarrow> ('s, 'q, 'n) or_iter \<Rightarrow> ('s, 'q, 'n) or_iter option" where
  "or_not_skip nops t a = map_option (\<lambda>(c, n'). a\<lparr>or_notIter := n', or_currDocOfNOTIter := c\<rparr>) (it_skipTo nops t (or_notIter a))"

partial_function (option) or_move_together_with_not ::
  "'s iter_ops \<Rightarrow> 'q queue_ops \<Rightarrow> 'n iter_ops \<Rightarrow> nat \<Rightarrow> ('s, 'q, 'n) or_iter \<Rightarrow> (bool \<times> ('s, 'q, 'n) or_iter) option" where
  "or_move_together_with_not ops qops nops mx a =
     Option.bind (or_do_next ops qops a) (\<lambda>(ret, a1).
     Option.bind (or_not_advance nops mx a1) (\<lambda>a2.
       if ret \<and> or_currDoc a2 = or_currDocOfNOTIter a2 then or_move_together_with_not ops qops nops mx a2
       else Some (ret, a2)))"

definition or_next :: "'s iter_ops \<Rightarrow> 'q queue_ops \<Rightarrow> 'n iter_ops \<Rightarrow> nat \<Rightarrow> ('s, 'q, 'n) or_iter \<Rightarrow> (bool \<times> ('s, 'q, 'n) or_iter) option" where
  "or_next ops qops nops mx a =
     (if \<not> or_hasNot a then or_do_next ops qops a
      else Option.bind (if or_initNOTIterator a then Some a else or_not_advance nops mx (a\<lparr>or_initNOTIterator := True\<rparr>)) (\<lambda>a0.
           Option.bind (or_do_next ops qops a0) (\<lambda>(ret, a1).
           Option.bind (if or_currDoc a1 > or_currDocOfNOTIter a1 then or_not_skip nops (or_currDoc a1) a1 else Some a1) (\<lambda>a2.
             if or_currDoc a2 = or_currDocOfNOTIter a2 then or_move_together_with_not ops qops nops mx a2 else Some (ret, a2)))))"

partial_function (option) or_skipTo_loop ::
  "'s iter_ops \<Rightarrow> 'q queue_ops \<Rightarrow> 'n iter_ops \<Rightarrow> nat \<Rightarrow> nat \<Rightarrow> ('s, 'q, 'n) or_iter \<Rightarrow> (nat \<times> ('s, 'q, 'n) or_iter) option" where
  "or_skipTo_loop ops qops nops mx current a =
     Option.bind (or_do_skipTo ops qops mx current a) (\<lambda>(found, a1).
     Option.bind (or_not_skip nops current a1) (\<lambda>a2.
       if found \<noteq> mx \<and> found = current \<and> or_currDocOfNOTIter a2 = current then Some (mx, a2)
       else if found \<noteq> mx \<and> found = or_currDocOfNOTIter a2 then or_skipTo_loop ops qops nops mx found a2
       else Some (found, a2)))"

definition or_skipTo :: "'s iter_ops \<Rightarrow> 'q queue_ops \<Rightarrow> 'n iter_ops \<Rightarrow> nat \<Rightarrow> nat \<Rightarrow> ('s, 'q, 'n) or_iter \<Rightarrow> (nat \<times> ('s, 'q, 'n) or_iter) option" where
  "or_skipTo ops qops nops mx target a =
     (if \<not> or_hasNot a then or_do_skipTo ops qops mx target a else or_skipTo_loop ops qops nops mx target a)"

definition or_ops :: "'s iter_ops \<Rightarrow> 'q queue_ops \<Rightarrow> 'n iter_ops \<Rightarrow> nat \<Rightarrow> ('s, 'q, 'n) or_iter iter_ops" where
  "or_ops ops qops nops mx = \<lparr>it_next = or_next ops qops nops mx, it_doc = or_currDoc, it_skipTo = or_skipTo ops qops nops mx\<rparr>"

text \<open>\<open>NOTDocumentIterator\<close>: an OR iterator that takes every child and has no NOT iterator itself.\<close>

type_synonym ('s, 'q) not_iter = "('s, 'q, unit) or_iter"

definition not_add :: "'s \<Rightarrow> ('s, 'q) not_iter \<Rightarrow> ('s, 'q) not_iter" where
  "not_add it a = a\<lparr>or_list := or_list a @ [Some (it, False)]\<rparr>"

definition not_ops :: "'s iter_ops \<Rightarrow> 'q queue_ops \<Rightarrow> nat \<Rightarrow> ('s, 'q) not_iter iter_ops" where
  "not_ops ops qops mx = \<lparr>it_next = or_do_next ops qops, it_doc = or_currDoc,
     it_skipTo = or_skipTo ops qops \<lparr>it_next = (\<lambda>_. None), it_doc = (\<lambda>_. 0), it_skipTo = (\<lambda>_ _. None)\<rparr> mx\<rparr>"

declare or_advance.simps [code] or_skip_loop.simps [code] or_move_together_with_not.simps [code] or_skipTo_loop.simps [code]

section \<open>The invariant\<close>

definition child_ok :: "'s iter_ops \<Rightarrow> nat \<Rightarrow> ('s \<Rightarrow> bool) \<Rightarrow> ('s \<Rightarrow> nat) \<Rightarrow> 's \<Rightarrow> bool" where
  "child_ok ops mx ok cur s \<longleftrightarrow> ok s \<and> it_doc ops s = cur s \<and> cur s < mx"

text \<open>What a child still has: with the document it is on, and without it if that was delivered.\<close>

definition head_docs :: "('s \<Rightarrow> nat set) \<Rightarrow> ('s \<Rightarrow> nat) \<Rightarrow> ('s \<times> bool) option \<Rightarrow> nat set" where
  "head_docs docs cur x = (case x of Some (s, c) \<Rightarrow> insert (cur s) (docs s) | None \<Rightarrow> {})"

definition pend_docs :: "('s \<Rightarrow> nat set) \<Rightarrow> ('s \<Rightarrow> nat) \<Rightarrow> ('s \<times> bool) option \<Rightarrow> nat set" where
  "pend_docs docs cur x = (case x of Some (s, c) \<Rightarrow> (if c then docs s else insert (cur s) (docs s)) | None \<Rightarrow> {})"

definition fresh_docs :: "('s \<Rightarrow> nat set) \<Rightarrow> ('s \<times> bool) option \<Rightarrow> nat set" where
  "fresh_docs docs x = (case x of Some (s, c) \<Rightarrow> docs s | None \<Rightarrow> {})"

lemma child_docs_simps [simp]:
  "head_docs docs cur None = {}" "head_docs docs cur (Some (s, c)) = insert (cur s) (docs s)"
  "pend_docs docs cur None = {}" "pend_docs docs cur (Some (s, c)) = (if c then docs s else insert (cur s) (docs s))"
  "fresh_docs docs None = {}" "fresh_docs docs (Some (s, c)) = docs s"
  by (simp_all add: head_docs_def pend_docs_def fresh_docs_def)

definition gather :: "(('s \<times> bool) option \<Rightarrow> nat set) \<Rightarrow> 's or_children \<Rightarrow> nat set \<Rightarrow> nat set" where
  "gather f l I = (\<Union>i \<in> I. f (l ! i))"

lemma gather_split: "i \<in> I \<Longrightarrow> gather f l I = f (l ! i) \<union> gather f l (I - {i})"
  by (auto simp: gather_def)

lemma gather_upd [simp]: "gather f (l[i := x]) (I - {i}) = gather f l (I - {i})"
  by (auto simp: gather_def)

lemma gather_upd_other: "i \<notin> I \<Longrightarrow> gather f (l[i := x]) I = gather f l I"
  unfolding gather_def by (intro SUP_cong refl arg_cong [where f = f]) (auto intro: nth_list_update_neq)

lemma gather_upd_in: "i \<in> I \<Longrightarrow> i < length l \<Longrightarrow> gather f (l[i := x]) I = f x \<union> gather f l (I - {i})"
  by (simp add: gather_split [of i I])

definition children_ok :: "('s \<Rightarrow> bool) \<Rightarrow> 's or_children \<Rightarrow> nat set \<Rightarrow> bool" where
  "children_ok P l I \<longleftrightarrow> (\<forall>i \<in> I. i < length l \<and> (\<exists>s c. l ! i = Some (s, c) \<and> P s))"

lemma children_ok_upd: "children_ok P l I \<Longrightarrow> P s \<Longrightarrow> children_ok P (l[i := Some (s, c)]) I"
  unfolding children_ok_def by (metis length_list_update nth_list_update_eq nth_list_update_neq)

definition flags_ok :: "('s \<Rightarrow> nat) \<Rightarrow> nat \<Rightarrow> 's or_children \<Rightarrow> nat set \<Rightarrow> bool" where
  "flags_ok cur d l I \<longleftrightarrow> (\<forall>i \<in> I. \<forall>s c. l ! i = Some (s, c) \<longrightarrow> (c \<longleftrightarrow> cur s = d) \<and> d \<le> cur s)"

definition queue_ok :: "'s iter_ops \<Rightarrow> nat \<Rightarrow> ('s \<Rightarrow> bool) \<Rightarrow> ('s \<Rightarrow> nat) \<Rightarrow> 'q queue_ops \<Rightarrow> ((nat \<Rightarrow> nat) \<Rightarrow> 'q \<Rightarrow> bool) \<Rightarrow>
    's or_children \<Rightarrow> 'q \<Rightarrow> bool" where
  "queue_ok ops mx ok cur qops q_ok l q \<longleftrightarrow> distinct (q_list qops q) \<and> q_ok (child_doc ops l) q \<and>
     children_ok (child_ok ops mx ok cur) l (set (q_list qops q))"

definition or_docs :: "'q queue_ops \<Rightarrow> ('s \<Rightarrow> nat set) \<Rightarrow> ('s \<Rightarrow> nat) \<Rightarrow> ('s, 'q, 'n) or_iter \<Rightarrow> nat set" where
  "or_docs qops docs cur a = (case or_queue a of
     None \<Rightarrow> gather (fresh_docs docs) (or_list a) {..<length (or_list a)}
   | Some q \<Rightarrow> gather (pend_docs docs cur) (or_list a) (set (q_list qops q)))"

definition or_cur :: "('s, 'q, 'n) or_iter \<Rightarrow> nat" where
  "or_cur a = (case or_queue a of None \<Rightarrow> 0 | Some q \<Rightarrow> or_currDoc a)"

definition or_ok :: "'s iter_ops \<Rightarrow> nat \<Rightarrow> ('s \<Rightarrow> bool) \<Rightarrow> ('s \<Rightarrow> nat) \<Rightarrow> 'q queue_ops \<Rightarrow> ((nat \<Rightarrow> nat) \<Rightarrow> 'q \<Rightarrow> bool) \<Rightarrow>
    ('s, 'q, 'n) or_iter \<Rightarrow> bool" where
  "or_ok ops mx ok cur qops q_ok a \<longleftrightarrow> (case or_queue a of
     None \<Rightarrow> (\<forall>s c. Some (s, c) \<in> set (or_list a) \<longrightarrow> ok s)
   | Some q \<Rightarrow> queue_ok ops mx ok cur qops q_ok (or_list a) q \<and> flags_ok cur (or_currDoc a) (or_list a) (set (q_list qops q)))"

lemma child_doc_upd: "j \<noteq> i \<Longrightarrow> child_doc ops (l[i := x]) j = child_doc ops l j"
  by (simp add: child_doc_def)

lemma child_doc_mark: "j < length l \<Longrightarrow> l' ! j = mark_child ops d (l ! j) \<Longrightarrow> child_doc ops l' j = child_doc ops l j"
  by (auto simp: child_doc_def mark_child_def split: option.splits)

lemma child_doc_cur: "l ! i = Some (s, c) \<Longrightarrow> child_ok ops mx ok cur s \<Longrightarrow> child_doc ops l i = cur s"
  by (simp add: child_doc_def child_ok_def)

lemma mark_idem: "mark_child ops d (mark_child ops d x) = mark_child ops d x"
  by (cases x) (auto simp: mark_child_def)

lemma mark_queue_length [simp]: "length (mark_queue ops d is l) = length l"
  unfolding mark_queue_def by (induction "is" arbitrary: l) simp_all

lemma mark_queue_nth:
  "\<forall>i \<in> set is. i < length l \<Longrightarrow> mark_queue ops d is l ! j = (if j \<in> set is then mark_child ops d (l ! j) else l ! j)"
  unfolding mark_queue_def
  by (induction "is" arbitrary: l) (auto simp: nth_list_update mark_idem)

locale or_union = doc_iterator ops mx ok docs cur + iter_queue qops q_ok q_cap
  for ops :: "'s iter_ops" and mx ok docs cur and qops :: "'q queue_ops" and q_ok q_cap
begin

lemma update_child:
  assumes "queue_ok ops mx ok cur qops q_ok l q" and "q_top qops q = Some i" and "child_ok ops mx ok cur s"
    and "l' = l[i := Some (s, c)]" and "q' = q_adjustTop qops (docq_lessThan (child_doc ops l')) q"
  shows "queue_ok ops mx ok cur qops q_ok l' q' \<and> set (q_list qops q') = set (q_list qops q)"
proof -
  have k: "\<forall>j \<in> set (q_list qops q). j \<noteq> i \<longrightarrow> child_doc ops l' j = child_doc ops l j" by (simp add: assms(4) child_doc_upd)
  from assms(1) have q: "q_ok (child_doc ops l) q" "distinct (q_list qops q)" and
    c: "children_ok (child_ok ops mx ok cur) l (set (q_list qops q))" by (simp_all add: queue_ok_def)
  from adjust [OF q assms(2) k] have a: "q_ok (child_doc ops l') q'" "mset (q_list qops q') = mset (q_list qops q)"
    by (simp_all add: assms(5))
  have "children_ok (child_ok ops mx ok cur) l' (set (q_list qops q))"
    unfolding assms(4) using c assms(3) by (rule children_ok_upd)
  then show ?thesis using a q(2) mset_eq_setD [OF a(2)] mset_eq_imp_distinct_iff [OF a(2)] by (simp add: queue_ok_def)
qed

lemma remove_child:
  assumes "queue_ok ops mx ok cur qops q_ok l q" and "q_top qops q = Some i"
    and "l' = l[i := x]" and "q' = q_pop qops (docq_lessThan (child_doc ops l')) q"
  shows "queue_ok ops mx ok cur qops q_ok l' q' \<and> set (q_list qops q') = set (q_list qops q) - {i}"
proof -
  have k: "\<forall>j \<in> set (q_list qops q). j \<noteq> i \<longrightarrow> child_doc ops l' j = child_doc ops l j" by (simp add: assms(3) child_doc_upd)
  from assms(1) have q: "q_ok (child_doc ops l) q" "distinct (q_list qops q)" and
    c: "children_ok (child_ok ops mx ok cur) l (set (q_list qops q))" by (simp_all add: queue_ok_def)
  from pop [OF q assms(2) k] have a: "q_ok (child_doc ops l') q'" "mset (q_list qops q') = mset (remove1 i (q_list qops q))"
    by (simp_all add: assms(4))
  have s: "set (q_list qops q') = set (q_list qops q) - {i}" using mset_eq_setD [OF a(2)] q(2) by simp
  have "children_ok (child_ok ops mx ok cur) l' (set (q_list qops q) - {i})"
    using c by (auto simp: children_ok_def assms(3))
  then show ?thesis using a(1) s q(2) mset_eq_imp_distinct_iff [OF a(2)] by (simp add: queue_ok_def)
qed

text \<open>The top of the queue is on the least document of all; it is then marked as delivered.\<close>

lemma top_child:
  assumes "queue_ok ops mx ok cur qops q_ok l q" and "q_top qops q = Some i"
  obtains s c where "i \<in> set (q_list qops q)" "i < length l" "l ! i = Some (s, c)" "child_ok ops mx ok cur s" "child_doc ops l i = cur s"
    "least_in (gather (head_docs docs cur) l (set (q_list qops q))) (cur s)"
proof -
  let ?I = "set (q_list qops q)"
  have q: "q_ok (child_doc ops l) q" and ch: "children_ok (child_ok ops mx ok cur) l ?I" using assms(1) by (simp_all add: queue_ok_def)
  have i: "i \<in> ?I" "\<forall>j \<in> ?I. child_doc ops l i \<le> child_doc ops l j" using top_least [OF q assms(2)] by simp_all
  obtain s c where s: "i < length l" "l ! i = Some (s, c)" "child_ok ops mx ok cur s" using ch i(1) by (auto simp: children_ok_def)
  note d = child_doc_cur [OF s(2,3)]
  have "cur s \<le> e" if e: "e \<in> gather (head_docs docs cur) l ?I" for e
  proof -
    from e obtain j where j: "j \<in> ?I" "e \<in> head_docs docs cur (l ! j)" by (auto simp: gather_def)
    obtain u b where u: "l ! j = Some (u, b)" "child_ok ops mx ok cur u" using ch j(1) by (auto simp: children_ok_def)
    have "cur s \<le> cur u" using i(2) j(1) child_doc_cur [OF u] d by auto
    moreover have "cur u \<le> e" using j(2) u docs_range [of u e] by (auto simp: child_ok_def)
    ultimately show ?thesis by simp
  qed
  then have "least_in (gather (head_docs docs cur) l ?I) (cur s)"
    using i(1) s(2) by (auto simp: least_in_def gather_def intro!: bexI [of _ i])
  then show ?thesis using that i(1) s d by blast
qed

lemma top_doc:
  assumes "queue_ok ops mx ok cur qops q_ok l q" and "q_top qops q = Some i"
  shows "i \<in> set (q_list qops q) \<and> least_in (gather (head_docs docs cur) l (set (q_list qops q))) (child_doc ops l i)"
  by (rule top_child [OF assms]) simp

lemma mark_found:
  assumes "queue_ok ops mx ok cur qops q_ok l q" and "q_top qops q = Some i" and "d = child_doc ops l i"
    and "\<forall>j \<in> set (q_list qops q). l' ! j = mark_child ops d (l ! j)" and "length l' = length l"
  shows "queue_ok ops mx ok cur qops q_ok l' q \<and> flags_ok cur d l' (set (q_list qops q)) \<and>
    gather (pend_docs docs cur) l' (set (q_list qops q)) = gather (head_docs docs cur) l (set (q_list qops q)) - {d}"
proof -
  let ?I = "set (q_list qops q)"
  have q: "q_ok (child_doc ops l) q" and ch: "children_ok (child_ok ops mx ok cur) l ?I" using assms(1) by (simp_all add: queue_ok_def)
  have "j < length l" if "j \<in> ?I" for j using ch that by (simp add: children_ok_def)
  then have "\<forall>j \<in> ?I. child_doc ops l' j = child_doc ops l j" using child_doc_mark assms(4) by blast
  then have 1: "q_ok (child_doc ops l') q" by (rule keys [OF q])
  have 2: "children_ok (child_ok ops mx ok cur) l' ?I"
    using ch assms(4,5) by (fastforce simp: children_ok_def mark_child_def)
  from top_child [OF assms(1,2)] obtain s c where s: "child_doc ops l i = cur s" "least_in (gather (head_docs docs cur) l ?I) (cur s)" by blast
  have le: "d \<le> cur u" if "j \<in> ?I" "l ! j = Some (u, b)" for j u b
    using s that unfolding assms(3) least_in_def gather_def by force
  have o: "\<exists>u b. l ! j = Some (u, b) \<and> child_ok ops mx ok cur u \<and> l' ! j = Some (u, d = cur u)" if "j \<in> ?I" for j
    using ch assms(4) that by (fastforce simp: children_ok_def mark_child_def child_ok_def)
  have 3: "flags_ok cur d l' ?I" unfolding flags_ok_def
  proof (intro ballI allI impI)
    fix j u b
    assume j: "j \<in> ?I" "l' ! j = Some (u, b)"
    with o [of j] obtain b' where "l ! j = Some (u, b')" "b = (d = cur u)" by auto
    then show "(b \<longleftrightarrow> cur u = d) \<and> d \<le> cur u" using le [OF j(1)] by auto
  qed
  have "pend_docs docs cur (l' ! j) = head_docs docs cur (l ! j) - {d}" if "j \<in> ?I" for j
  proof -
    from o [OF that] obtain u b where u: "l ! j = Some (u, b)" "child_ok ops mx ok cur u" "l' ! j = Some (u, d = cur u)" by blast
    then have "cur u \<notin> docs u" "d \<le> cur u" using docs_range [of u "cur u"] le [OF that u(1)] by (auto simp: child_ok_def)
    moreover have "d \<notin> docs u" using docs_range [of u d] u(2) \<open>d \<le> cur u\<close> by (auto simp: child_ok_def)
    ultimately show ?thesis using u by auto
  qed
  then have "gather (pend_docs docs cur) l' ?I = gather (head_docs docs cur) l ?I - {d}" unfolding gather_def by auto
  then show ?thesis using 1 2 3 assms(1) by (simp add: queue_ok_def)
qed

end

section \<open>The operations\<close>

context or_union
begin

lemma queue_ok_other:
  assumes "queue_ok ops mx ok cur qops q_ok l q" and "i \<notin> set (q_list qops q)"
  shows "queue_ok ops mx ok cur qops q_ok (l[i := x]) q"
proof -
  have "q_ok (child_doc ops l) q" and ch: "children_ok (child_ok ops mx ok cur) l (set (q_list qops q))"
    using assms(1) by (simp_all add: queue_ok_def)
  moreover have n: "j \<noteq> i" if "j \<in> set (q_list qops q)" for j using that assms(2) by blast
  ultimately have "q_ok (child_doc ops (l[i := x])) q" using keys [of "child_doc ops l" q] by (metis child_doc_upd)
  moreover have "children_ok (child_ok ops mx ok cur) (l[i := x]) (set (q_list qops q))"
    using ch n unfolding children_ok_def by (metis length_list_update nth_list_update_neq)
  ultimately show ?thesis using assms(1) by (simp add: queue_ok_def)
qed

text \<open>A child is inserted when its document is known.\<close>

lemma insert_child:
  assumes "queue_ok ops mx ok cur qops q_ok l q" and "i \<notin> set (q_list qops q)" and "i < length l" and "child_ok ops mx ok cur s"
    and "length (q_list qops q) < q_cap q"
    and "l' = l[i := Some (s, c)]" and "q' = q_insert qops (docq_lessThan (child_doc ops l')) i q"
  shows "queue_ok ops mx ok cur qops q_ok l' q' \<and> set (q_list qops q') = insert i (set (q_list qops q)) \<and>
    q_cap q' = q_cap q \<and> length (q_list qops q') = Suc (length (q_list qops q))"
proof -
  have l: "queue_ok ops mx ok cur qops q_ok l' q" unfolding assms(6) by (rule queue_ok_other [OF assms(1,2)])
  then have "q_ok (child_doc ops l') q" by (simp add: queue_ok_def)
  from insert [OF this assms(5), of i] have a: "q_ok (child_doc ops l') q'" "q_cap q' = q_cap q"
    "mset (q_list qops q') = mset (i # q_list qops q)" by (simp_all add: assms(7))
  have "l' ! i = Some (s, c)" "i < length l'" using assms(3,6) by simp_all
  then have "children_ok (child_ok ops mx ok cur) l' (insert i (set (q_list qops q)))"
    using l assms(4) by (simp add: queue_ok_def children_ok_def)
  then show ?thesis using a l assms(2) mset_eq_setD [OF a(3)] mset_eq_imp_distinct_iff [OF a(3)] mset_eq_length [OF a(3)]
    by (simp add: queue_ok_def)
qed

lemma init_loop_spec:
  assumes "queue_ok ops mx ok cur qops q_ok l q" and "distinct is" and "set is \<inter> set (q_list qops q) = {}"
    and "\<forall>i \<in> set is. i < length l \<and> (\<forall>s c. l ! i = Some (s, c) \<longrightarrow> ok s)" and "length (q_list qops q) + length is \<le> q_cap q"
  shows "\<exists>l' q'. init_loop ops qops is l q = Some (l', q') \<and> queue_ok ops mx ok cur qops q_ok l' q' \<and>
    gather (head_docs docs cur) l' (set (q_list qops q')) =
      gather (head_docs docs cur) l (set (q_list qops q)) \<union> gather (fresh_docs docs) l (set is)"
  using assms
proof (induction "is" arbitrary: l q)
  case Nil
  then show ?case by (simp add: gather_def)
next
  case (Cons i "is")
  note prems = Cons.prems
  let ?Q = "set (q_list qops q)" and ?h = "head_docs docs cur" and ?f = "fresh_docs docs"
  have i: "i \<notin> ?Q" "i \<notin> set is" "i < length l" "distinct is" "set is \<inter> ?Q = {}" using prems by auto
  have n: "\<forall>j \<in> set is. l[i := x] ! j = l ! j" for x using i(2) by (metis nth_list_update_neq)
  have f: "gather ?f (l[i := x]) (set is) = gather ?f l (set is)" for x by (rule gather_upd_other [OF i(2)])
  have s: "gather ?f l (set (i # is)) = ?f (l ! i) \<union> gather ?f l (set is)" by (simp add: gather_def)
  have r: "\<forall>j \<in> set is. j < length (l[i := x]) \<and> (\<forall>s c. l[i := x] ! j = Some (s, c) \<longrightarrow> ok s)" for x
    using prems(4) n [of x] by simp
  show ?case
  proof (cases "l ! i")
    case None
    then show ?thesis using Cons.IH [OF prems(1) i(4,5)] prems(4,5) s by simp
  next
    case (Some p)
    obtain u c where u: "l ! i = Some (u, c)" using Some by (cases p) auto
    have ok: "ok u" using prems(4) u by simp
    show ?thesis
    proof (cases "docs u = {}")
      case True
      from next_end [OF ok True] obtain u' where "it_next ops u = Some (False, u')" by blast
      moreover have "gather ?h (l[i := None]) ?Q = gather ?h l ?Q" by (rule gather_upd_other [OF i(1)])
      ultimately show ?thesis using Cons.IH [OF queue_ok_other [OF prems(1) i(1), of None] i(4,5) r] prems(5) True u s f [of None]
        by simp
    next
      case False
      from least_in_exists [OF this] obtain d where d: "least_in (docs u) d" ..
      from next_doc [OF ok d] obtain u' where
        1: "it_next ops u = Some (True, u')" "ok u'" "it_doc ops u' = d" "cur u' = d" "docs u' = docs u - {d}" by blast
      have dm: "d \<in> docs u" "d < mx" using docs_range [OF ok, of d] d by (auto simp: least_in_def)
      let ?l = "l[i := Some (u', False)]"
      let ?q = "q_insert qops (docq_lessThan (child_doc ops ?l)) i q"
      have "child_ok ops mx ok cur u'" using 1 dm by (simp add: child_ok_def)
      from insert_child [OF prems(1) i(1,3) this _ refl refl, of False] prems(5) have
        2: "queue_ok ops mx ok cur qops q_ok ?l ?q" "set (q_list qops ?q) = insert i ?Q" "q_cap ?q = q_cap q"
          "length (q_list qops ?q) = Suc (length (q_list qops q))" by simp_all
      have g: "gather ?h ?l (insert i ?Q) = docs u \<union> gather ?h l ?Q"
        using gather_upd_in [of i "insert i ?Q" l ?h] i 1(4,5) dm(1) by auto
      have "set is \<inter> set (q_list qops ?q) = {}" using 2(2) i(2,5) by simp
      from Cons.IH [OF 2(1) i(4) this r] 2(3,4) prems(5) obtain l' q' where
        3: "init_loop ops qops is ?l ?q = Some (l', q')" "queue_ok ops mx ok cur qops q_ok l' q'"
          "gather ?h l' (set (q_list qops q')) = gather ?h ?l (set (q_list qops ?q)) \<union> gather ?f ?l (set is)" by auto
      have "gather ?h l' (set (q_list qops q')) = gather ?h l ?Q \<union> gather ?f l (set (i # is))"
        unfolding 3(3) 2(2) g f s using u by auto
      then show ?thesis using 3(1,2) 1(1) u by (auto simp: Let_def)
    qed
  qed
qed

lemma initDocIteratorQueue_spec:
  assumes "or_ok ops mx ok cur qops q_ok a" and "or_queue a = None" and "or_list a \<noteq> []"
  shows "\<exists>l q. initDocIteratorQueue ops qops a = Some (a\<lparr>or_list := l, or_queue := Some q\<rparr>) \<and> queue_ok ops mx ok cur qops q_ok l q \<and>
    gather (head_docs docs cur) l (set (q_list qops q)) = or_docs qops docs cur a"
proof -
  let ?l = "or_list a"
  let ?q = "q_new qops (length ?l)"
  have n: "q_list qops ?q = []" "q_cap ?q = length ?l" "q_ok key ?q" for key using new by simp_all
  have "queue_ok ops mx ok cur qops q_ok ?l ?q" by (simp add: queue_ok_def children_ok_def n)
  moreover have "\<forall>i \<in> set [0..<length ?l]. i < length ?l \<and> (\<forall>s c. ?l ! i = Some (s, c) \<longrightarrow> ok s)"
    using assms(1,2) by (auto simp: or_ok_def) (metis nth_mem)
  ultimately obtain l q where
    "init_loop ops qops [0..<length ?l] ?l ?q = Some (l, q)" "queue_ok ops mx ok cur qops q_ok l q"
    "gather (head_docs docs cur) l (set (q_list qops q)) = gather (fresh_docs docs) ?l {..<length ?l}"
    using init_loop_spec [of ?l ?q "[0..<length ?l]"] n by (auto simp: gather_def atLeast0LessThan)
  then show ?thesis using assms(2,3) by (intro exI [of _ l] exI [of _ q]) (simp add: initDocIteratorQueue_def or_docs_def)
qed

end

context or_union
begin

lemma flags_range:
  assumes "queue_ok ops mx ok cur qops q_ok l q" and "flags_ok cur c l (set (q_list qops q))"
    and "d \<in> gather (pend_docs docs cur) l (set (q_list qops q))"
  shows "c < d \<and> d < mx"
proof -
  from assms(3) obtain i where i: "i \<in> set (q_list qops q)" "d \<in> pend_docs docs cur (l ! i)" by (auto simp: gather_def)
  then obtain s b where s: "l ! i = Some (s, b)" "child_ok ops mx ok cur s" using assms(1) by (auto simp: queue_ok_def children_ok_def)
  then have "b \<longleftrightarrow> cur s = c" "c \<le> cur s" using assms(2) i(1) by (auto simp: flags_ok_def)
  then show ?thesis using i(2) s docs_range [of s d] by (cases b) (auto simp: child_ok_def)
qed

definition n_current :: "'s or_children \<Rightarrow> 'q \<Rightarrow> nat" where
  "n_current l q = card {i \<in> set (q_list qops q). \<exists>s. l ! i = Some (s, True)}"

lemma n_current_less:
  assumes "i \<in> set (q_list qops q)" and "l ! i = Some (s, True)" and "set (q_list qops q') \<subseteq> set (q_list qops q)"
    and "i \<in> set (q_list qops q') \<Longrightarrow> i < length l"
  shows "n_current (l[i := Some (s', False)]) q' < n_current l q"
  unfolding n_current_def
proof (rule psubset_card_mono)
  let ?A = "{j \<in> set (q_list qops q'). \<exists>s. l[i := Some (s', False)] ! j = Some (s, True)}"
  have "i \<notin> ?A" using assms(4) by auto
  moreover have "?A \<subseteq> {j \<in> set (q_list qops q). \<exists>s. l ! j = Some (s, True)}"
    using assms(3) by (auto simp: nth_list_update split: if_splits)
      (metis Pair_inject nth_list_update_eq nth_list_update_neq option.inject linorder_not_less list_update_beyond)
  ultimately show "?A \<subset> {j \<in> set (q_list qops q). \<exists>s. l ! j = Some (s, True)}" using assms(1,2) by blast
qed simp

lemma or_advance_spec:
  assumes "queue_ok ops mx ok cur qops q_ok l q" and "flags_ok cur c l (set (q_list qops q))"
  shows "\<exists>l' q'. or_advance ops qops l q = Some (l', q') \<and> queue_ok ops mx ok cur qops q_ok l' q' \<and>
    gather (head_docs docs cur) l' (set (q_list qops q')) = gather (pend_docs docs cur) l (set (q_list qops q))"
  using assms
proof (induction "n_current l q" arbitrary: l q rule: less_induct)
  case less
  note prems = less.prems
  let ?Q = "set (q_list qops q)" and ?h = "head_docs docs cur" and ?p = "pend_docs docs cur"
  have q: "q_ok (child_doc ops l) q" using prems(1) by (simp add: queue_ok_def)
  show ?case
  proof (cases "q_top qops q")
    case None
    then have "?Q = {}" using top_none [OF q] by simp
    then show ?thesis using None prems(1) by (simp add: or_advance.simps [of _ _ l q] gather_def)
  next
    case (Some i)
    from top_child [OF prems(1) Some] obtain s b where
      i: "i \<in> ?Q" "i < length l" "l ! i = Some (s, b)" "child_ok ops mx ok cur s" "least_in (gather ?h l ?Q) (cur s)" by blast
    have b: "b \<longleftrightarrow> cur s = c" "c \<le> cur s" using prems(2) i(1,3) by (auto simp: flags_ok_def)
    show ?thesis
    proof (cases b)
      case False
      have "?h (l ! j) = ?p (l ! j)" if j: "j \<in> ?Q" for j
      proof -
        obtain u e where u: "l ! j = Some (u, e)" using prems(1) j by (auto simp: queue_ok_def children_ok_def)
        have "cur s \<le> cur u" using i(5) j u unfolding least_in_def gather_def by force
        then have "\<not> e" using prems(2) j u b False by (force simp: flags_ok_def)
        then show ?thesis using u by simp
      qed
      then have "gather ?h l ?Q = gather ?p l ?Q" unfolding gather_def by auto
      then show ?thesis using prems(1) Some i(3) False by (simp add: or_advance.simps [of _ _ l q])
    next
      case True
      have ok: "ok s" using i(4) by (simp add: child_ok_def)
      have split: "gather ?p l ?Q = docs s \<union> gather ?p l (?Q - {i})" using gather_split [OF i(1), of ?p l] i(3) True by simp
      have flags: "flags_ok cur c (l[i := Some (s', False)]) I" if "I \<subseteq> ?Q" "i \<in> I \<Longrightarrow> c < cur s'" for s' I
        using prems(2) that i(2) by (fastforce simp: flags_ok_def nth_list_update split: if_splits)
      show ?thesis
      proof (cases "docs s = {}")
        case e: True
        from next_end [OF ok e] obtain s' where n: "it_next ops s = Some (False, s')" by blast
        let ?l = "l[i := Some (s', False)]"
        let ?q = "q_pop qops (docq_lessThan (child_doc ops ?l)) q"
        from remove_child [OF prems(1) Some refl refl] have r: "queue_ok ops mx ok cur qops q_ok ?l ?q" "set (q_list qops ?q) = ?Q - {i}" by simp_all
        have eq: "or_advance ops qops l q = or_advance ops qops ?l ?q" using Some i(3) True n by (simp add: or_advance.simps [of _ _ l q] Let_def)
        have "n_current ?l ?q < n_current l q" using i(1,3) True r(2) by (intro n_current_less) auto
        moreover have "flags_ok cur c ?l (set (q_list qops ?q))" unfolding r(2) by (rule flags) auto
        ultimately show ?thesis using less.hyps [of ?l ?q] r split e unfolding eq by simp
      next
        case False
        from least_in_exists [OF this] obtain d where d: "least_in (docs s) d" ..
        from next_doc [OF ok d] obtain s' where
          n: "it_next ops s = Some (True, s')" "ok s'" "it_doc ops s' = d" "cur s' = d" "docs s' = docs s - {d}" by blast
        have dm: "d \<in> docs s" "cur s < d" "d < mx" using docs_range [OF ok, of d] d by (auto simp: least_in_def)
        let ?l = "l[i := Some (s', False)]"
        let ?q = "q_adjustTop qops (docq_lessThan (child_doc ops ?l)) q"
        have "child_ok ops mx ok cur s'" using n dm by (simp add: child_ok_def)
        from update_child [OF prems(1) Some this refl refl, of False] have
          r: "queue_ok ops mx ok cur qops q_ok ?l ?q" "set (q_list qops ?q) = ?Q" by simp_all
        have eq: "or_advance ops qops l q = or_advance ops qops ?l ?q" using Some i(3) True n(1) by (simp add: or_advance.simps [of _ _ l q] Let_def)
        have "n_current ?l ?q < n_current l q" using i(1-3) True r(2) by (intro n_current_less) auto
        moreover have "flags_ok cur c ?l (set (q_list qops ?q))" unfolding r(2) by (rule flags) (use b dm n(4) True in auto)
        moreover have "gather ?p ?l ?Q = gather ?p l ?Q"
          using gather_upd_in [OF i(1,2), of ?p] n(4,5) dm(1) split by auto
        ultimately show ?thesis using less.hyps [of ?l ?q] r unfolding eq by simp
      qed
    qed
  qed
qed

text \<open>\<open>next\<close> without NOT: the least of the documents to come.\<close>

lemma or_do_next_spec:
  assumes "or_ok ops mx ok cur qops q_ok a"
  shows "\<exists>b a'. or_do_next ops qops a = Some (b, a') \<and> or_ok ops mx ok cur qops q_ok a' \<and> or_hasNot a' = or_hasNot a \<and>
    (if or_docs qops docs cur a = {} then \<not> b \<and> or_docs qops docs cur a' = {}
     else b \<and> least_in (or_docs qops docs cur a) (or_currDoc a') \<and> or_cur a' = or_currDoc a' \<and>
       or_docs qops docs cur a' = or_docs qops docs cur a - {or_currDoc a'})"
proof -
  let ?D = "or_docs qops docs cur a"
  have main: "\<exists>b a'. X = Some (b, a') \<and> or_ok ops mx ok cur qops q_ok a' \<and> or_hasNot a' = or_hasNot a \<and>
      (if ?D = {} then \<not> b \<and> or_docs qops docs cur a' = {}
       else b \<and> least_in ?D (or_currDoc a') \<and> or_cur a' = or_currDoc a' \<and> or_docs qops docs cur a' = ?D - {or_currDoc a'})"
    if q: "queue_ok ops mx ok cur qops q_ok l q" "gather (head_docs docs cur) l (set (q_list qops q)) = ?D"
      and N: "q_top qops q = None \<Longrightarrow> X = Some (False, a\<lparr>or_list := l, or_queue := Some q\<rparr>)"
      and S: "\<And>i. q_top qops q = Some i \<Longrightarrow> \<exists>l'. X = Some (True, a\<lparr>or_list := l', or_queue := Some q, or_currDoc := child_doc ops l i\<rparr>) \<and>
        length l' = length l \<and> (\<forall>j \<in> set (q_list qops q). l' ! j = mark_child ops (child_doc ops l i) (l ! j))" for X l q
  proof (cases "q_top qops q")
    case None
    then have "q_list qops q = []" using top_none q(1) by (auto simp: queue_ok_def)
    then have "?D = {}" "or_ok ops mx ok cur qops q_ok (a\<lparr>or_list := l, or_queue := Some q\<rparr>)"
      "or_docs qops docs cur (a\<lparr>or_list := l, or_queue := Some q\<rparr>) = {}"
      using q by (auto simp: gather_def or_ok_def or_docs_def flags_ok_def)
    then show ?thesis using N [OF None] by (intro exI [of _ False] exI [of _ "a\<lparr>or_list := l, or_queue := Some q\<rparr>"]) simp
  next
    case (Some i)
    let ?d = "child_doc ops l i"
    from S [OF Some] obtain l' where X: "X = Some (True, a\<lparr>or_list := l', or_queue := Some q, or_currDoc := ?d\<rparr>)"
      and l': "\<forall>j \<in> set (q_list qops q). l' ! j = mark_child ops ?d (l ! j)" "length l' = length l" by blast
    have least: "least_in ?D ?d" using top_doc [OF q(1) Some] unfolding q(2) by blast
    then have ne: "?D \<noteq> {}" by (auto simp: least_in_def)
    note m = mark_found [OF q(1) Some refl l', unfolded q(2)]
    let ?a = "a\<lparr>or_list := l', or_queue := Some q, or_currDoc := ?d\<rparr>"
    have "or_ok ops mx ok cur qops q_ok ?a" "or_docs qops docs cur ?a = ?D - {?d}" "or_cur ?a = ?d"
      using m by (simp_all add: or_ok_def or_docs_def or_cur_def)
    then show ?thesis unfolding if_not_P [OF ne] using X least by (intro exI [of _ True] exI [of _ ?a]) simp
  qed
  show ?thesis
  proof (cases "or_queue a")
    case None
    show ?thesis
    proof (cases "or_list a = []")
      case True
      then have "?D = {}" "or_do_next ops qops a = Some (False, a)"
        using None by (simp_all add: or_docs_def gather_def or_do_next_def initDocIteratorQueue_def)
      then show ?thesis using assms by (intro exI [of _ False] exI [of _ a]) simp
    next
      case False
      from initDocIteratorQueue_spec [OF assms None False] obtain l q where
        1: "initDocIteratorQueue ops qops a = Some (a\<lparr>or_list := l, or_queue := Some q\<rparr>)"
          "queue_ok ops mx ok cur qops q_ok l q" "gather (head_docs docs cur) l (set (q_list qops q)) = ?D" by blast
      have "\<forall>i \<in> set (q_list qops q). i < length l" using 1(2) by (auto simp: queue_ok_def children_ok_def)
      then have m: "\<forall>j \<in> set (q_list qops q). mark_queue ops d (q_list qops q) l ! j = mark_child ops d (l ! j)" for d
        by (simp add: mark_queue_nth)
      show ?thesis
      proof (rule main [OF 1(2,3)])
        show "or_do_next ops qops a = Some (False, a\<lparr>or_list := l, or_queue := Some q\<rparr>)" if "q_top qops q = None"
          using None 1(1) that by (simp add: or_do_next_def)
        show "\<exists>l'. or_do_next ops qops a = Some (True, a\<lparr>or_list := l', or_queue := Some q, or_currDoc := child_doc ops l i\<rparr>) \<and>
            length l' = length l \<and> (\<forall>j \<in> set (q_list qops q). l' ! j = mark_child ops (child_doc ops l i) (l ! j))"
          if "q_top qops q = Some i" for i
          using None 1(1) that m by (intro exI [of _ "mark_queue ops (child_doc ops l i) (q_list qops q) l"]) (simp add: or_do_next_def Let_def)
      qed
    qed
  next
    case (Some q0)
    then have "queue_ok ops mx ok cur qops q_ok (or_list a) q0" "flags_ok cur (or_currDoc a) (or_list a) (set (q_list qops q0))"
      using assms by (simp_all add: or_ok_def)
    from or_advance_spec [OF this] Some obtain l q where
      1: "or_advance ops qops (or_list a) q0 = Some (l, q)" "queue_ok ops mx ok cur qops q_ok l q"
        "gather (head_docs docs cur) l (set (q_list qops q)) = ?D" by (auto simp: or_docs_def)
    have "\<forall>j \<in> set (q_list qops q). mark_list ops d l ! j = mark_child ops d (l ! j)" for d
      using 1(2) by (auto simp: queue_ok_def children_ok_def mark_list_def)
    moreover have "length (mark_list ops d l) = length l" for d by (simp add: mark_list_def)
    ultimately show ?thesis using Some 1(1) by (intro main [OF 1(2,3)]) (auto simp: or_do_next_def Let_def)
  qed
qed

end

context or_union
begin

definition n_before :: "nat \<Rightarrow> 's or_children \<Rightarrow> 'q \<Rightarrow> nat" where
  "n_before t l q = card {i \<in> set (q_list qops q). child_doc ops l i < t}"

lemma n_before_less:
  assumes "i \<in> set (q_list qops q)" and "child_doc ops l i < t" and "set (q_list qops q') \<subseteq> set (q_list qops q)"
    and "i \<in> set (q_list qops q') \<Longrightarrow> t \<le> child_doc ops l' i" and "\<And>j. j \<in> set (q_list qops q') \<Longrightarrow> j \<noteq> i \<Longrightarrow> child_doc ops l' j = child_doc ops l j"
  shows "n_before t l' q' < n_before t l q"
  unfolding n_before_def
proof (rule psubset_card_mono)
  let ?A = "{j \<in> set (q_list qops q'). child_doc ops l' j < t}"
  have "i \<notin> ?A" using assms(4) by auto
  moreover have "j \<in> {j \<in> set (q_list qops q). child_doc ops l j < t}" if "j \<in> ?A" for j
    using that assms(2,3,5) by (cases "j = i") auto
  ultimately show "?A \<subset> {j \<in> set (q_list qops q). child_doc ops l j < t}" using assms(1,2) by blast
qed simp

lemma mark_list_ok:
  assumes "queue_ok ops mx ok cur qops q_ok l q"
  shows "queue_ok ops mx ok cur qops q_ok (mark_list ops d l) q"
    and "gather (head_docs docs cur) (mark_list ops d l) (set (q_list qops q)) = gather (head_docs docs cur) l (set (q_list qops q))"
    and "i \<in> set (q_list qops q) \<Longrightarrow> child_doc ops (mark_list ops d l) i = child_doc ops l i"
proof -
  let ?Q = "set (q_list qops q)" and ?l = "mark_list ops d l"
  have q: "q_ok (child_doc ops l) q" and ch: "children_ok (child_ok ops mx ok cur) l ?Q" using assms by (simp_all add: queue_ok_def)
  then have n: "j < length l \<and> ?l ! j = mark_child ops d (l ! j)" if "j \<in> ?Q" for j
    using that by (simp add: children_ok_def mark_list_def)
  show k: "child_doc ops ?l i = child_doc ops l i" if "i \<in> ?Q" for i using n [OF that] child_doc_mark by blast
  then have "q_ok (child_doc ops ?l) q" using keys [OF q] by blast
  moreover have "children_ok (child_ok ops mx ok cur) ?l ?Q"
    using ch n by (fastforce simp: children_ok_def mark_child_def mark_list_def)
  ultimately show "queue_ok ops mx ok cur qops q_ok ?l q" using assms by (simp add: queue_ok_def)
  have "head_docs docs cur (?l ! j) = head_docs docs cur (l ! j)" if "j \<in> ?Q" for j
    using n [OF that] by (cases "l ! j") (auto simp: mark_child_def)
  then show "gather (head_docs docs cur) ?l ?Q = gather (head_docs docs cur) l ?Q" by (simp add: gather_def)
qed

text \<open>What the loop of \<open>skipTo\<close> finds among the documents \<open>H\<close>.\<close>

definition skip_found :: "nat set \<Rightarrow> nat \<Rightarrow> nat \<times> nat \<times> 's or_children \<times> 'q \<Rightarrow> bool" where
  "skip_found H t = (\<lambda>(f, c, l, q). queue_ok ops mx ok cur qops q_ok l q \<and> f = c \<and> flags_ok cur c l (set (q_list qops q)) \<and>
     (if {e \<in> H. t \<le> e} = {} then f = mx \<and> q_list qops q = []
      else least_in {e \<in> H. t \<le> e} f \<and> gather (pend_docs docs cur) l (set (q_list qops q)) = {e \<in> H. f < e}))"

lemma skip_found_cong: "{e \<in> H. t \<le> e} = {e \<in> H'. t \<le> e} \<Longrightarrow> skip_found H t r = skip_found H' t r"
proof -
  assume e: "{e \<in> H. t \<le> e} = {e \<in> H'. t \<le> e}"
  have "{e \<in> H. f < e} = {e \<in> H'. f < e}" if "least_in {e \<in> H'. t \<le> e} f" for f
  proof -
    have "t \<le> f" using that by (simp add: least_in_def)
    then have "{e \<in> G. f < e} = {e \<in> {e \<in> G. t \<le> e}. f < e}" for G by auto
    then show ?thesis using e by metis
  qed
  then show ?thesis unfolding skip_found_def e by (auto split: prod.splits)
qed

lemma after_target:
  fixes c t :: nat
  assumes "c < t" and "{e \<in> A. t \<le> e} = B"
  shows "{e \<in> insert c A \<union> G. t \<le> e} = {e \<in> B \<union> G. t \<le> e}"
  using assms(1) unfolding assms(2) [symmetric] by auto

lemma or_skip_loop_spec:
  assumes "queue_ok ops mx ok cur qops q_ok l q" and "q_list qops q \<noteq> []" and "t < mx"
  shows "\<exists>r. or_skip_loop ops qops mx t l q = Some r \<and> skip_found (gather (head_docs docs cur) l (set (q_list qops q))) t r"
  using assms
proof (induction "n_before t l q" arbitrary: l q rule: less_induct)
  case less
  note prems = less.prems
  let ?Q = "set (q_list qops q)" and ?h = "head_docs docs cur"
  let ?H = "gather ?h l ?Q"
  have "q_ok (child_doc ops l) q" using prems(1) by (simp add: queue_ok_def)
  then obtain i where i: "q_top qops q = Some i" using top_none prems(2) by (cases "q_top qops q") auto
  let ?d = "child_doc ops l i" and ?l = "mark_list ops (child_doc ops l i) l"
  have least: "least_in ?H ?d" and iQ: "i \<in> ?Q" using top_doc [OF prems(1) i] by blast+
  note m = mark_list_ok [OF prems(1), where d = ?d]
  show ?case
  proof (cases "?d \<ge> t")
    case True
    have "{e \<in> ?H. t \<le> e} = ?H" using least True by (force simp: least_in_def)
    moreover have "?H - {?d} = {e \<in> ?H. ?d < e}" using least by (force simp: least_in_def)
    moreover have "?H \<noteq> {}" using least by (auto simp: least_in_def)
    moreover have "\<forall>j \<in> ?Q. ?l ! j = mark_child ops ?d (l ! j)"
      using prems(1) by (auto simp: queue_ok_def children_ok_def mark_list_def)
    then have "queue_ok ops mx ok cur qops q_ok ?l q \<and> flags_ok cur ?d ?l ?Q \<and> gather (pend_docs docs cur) ?l ?Q = ?H - {?d}"
      by (intro mark_found [OF prems(1) i refl]) (simp_all add: mark_list_def)
    ultimately have "skip_found ?H t (?d, ?d, ?l, q)" using least by (simp add: skip_found_def)
    then show ?thesis using True i prems(2) by (simp add: or_skip_loop.simps [of _ _ _ _ l q] Let_def)
  next
    case False
    from top_child [OF m(1) i] obtain s c where
      s: "i < length ?l" "?l ! i = Some (s, c)" "child_ok ops mx ok cur s" "child_doc ops ?l i = cur s" by blast
    have cs: "cur s < t" "ok s" using False s(3,4) m(3) [OF iQ] by (simp_all add: child_ok_def)
    have split: "?H = insert (cur s) (docs s) \<union> gather ?h ?l (?Q - {i})" using gather_split [OF iQ, of ?h ?l] s(2) m(2) by simp
    from cs(2,1) prems(3) show ?thesis
    proof (cases rule: skip_cases)
      case (End s')
      let ?l2 = "?l[i := Some (s', c)]"
      let ?q = "q_pop qops (docq_lessThan (child_doc ops ?l2)) q"
      from remove_child [OF m(1) i refl refl] have r: "queue_ok ops mx ok cur qops q_ok ?l2 ?q" "set (q_list qops ?q) = ?Q - {i}" by simp_all
      have eq: "or_skip_loop ops qops mx t l q = (if q_list qops ?q = [] then Some (mx, mx, ?l2, ?q) else or_skip_loop ops qops mx t ?l2 ?q)"
        using False i s(2) End(1) by (simp add: or_skip_loop.simps [of _ _ _ _ l q] Let_def)
      have H: "{e \<in> ?H. t \<le> e} = {e \<in> gather ?h ?l2 (?Q - {i}). t \<le> e}" unfolding split using End(4) cs(1) by auto
      show ?thesis
      proof (cases "q_list qops ?q = []")
        case True
        then have "?Q - {i} = {}" using r(2) by (metis set_empty2)
        then have "{e \<in> ?H. t \<le> e} = {}" unfolding H by (simp only: gather_def) simp
        then have "skip_found ?H t (mx, mx, ?l2, ?q)" using True r(1) by (simp add: skip_found_def flags_ok_def)
        then show ?thesis unfolding eq using True by simp
      next
        case ne: False
        have "n_before t ?l2 ?q < n_before t l q"
          using iQ False r(2) m(3) by (intro n_before_less [of i]) (auto simp: child_doc_upd)
        from less.hyps [OF this r(1) ne prems(3)] show ?thesis unfolding eq r(2) skip_found_cong [OF H] using ne by simp
      qed
    next
      case (Doc d s')
      let ?l2 = "?l[i := Some (s', c)]"
      let ?q = "q_adjustTop qops (docq_lessThan (child_doc ops ?l2)) q"
      have "child_ok ops mx ok cur s'" using Doc by (simp add: child_ok_def)
      from update_child [OF m(1) i this refl refl, of c] have r: "queue_ok ops mx ok cur qops q_ok ?l2 ?q" "set (q_list qops ?q) = ?Q" by simp_all
      have eq: "or_skip_loop ops qops mx t l q = or_skip_loop ops qops mx t ?l2 ?q"
        using False i s(2) Doc(1,7,8) by (simp add: or_skip_loop.simps [of _ _ _ _ l q] Let_def)
      have ne: "q_list qops ?q \<noteq> []" using r(2) iQ by auto
      have g: "gather ?h ?l2 ?Q = insert d {e \<in> docs s. d < e} \<union> gather ?h ?l (?Q - {i})"
        using gather_upd_in [OF iQ s(1), of ?h] Doc(4,5) by simp
      have "{e \<in> docs s. t \<le> e} = insert d {e \<in> docs s. d < e}" using Doc(6,7) by (auto simp: least_in_def)
      from after_target [OF cs(1) this] have H: "{e \<in> ?H. t \<le> e} = {e \<in> gather ?h ?l2 ?Q. t \<le> e}" unfolding split g .
      have "child_doc ops ?l2 i = d" using s(1) Doc(3) by (simp add: child_doc_def)
      then have "n_before t ?l2 ?q < n_before t l q"
        using iQ False r(2) m(3) Doc(7) by (intro n_before_less [of i]) (auto simp: child_doc_upd)
      from less.hyps [OF this r(1) ne prems(3)] show ?thesis unfolding eq r(2) skip_found_cong [OF H] .
    qed
  qed
qed

end

context or_union
begin

lemma or_do_skipTo_spec:
  assumes "or_ok ops mx ok cur qops q_ok a" and "or_cur a < t" and "t < mx"
  shows "\<exists>f a'. or_do_skipTo ops qops mx t a = Some (f, a') \<and> or_ok ops mx ok cur qops q_ok a' \<and> or_hasNot a' = or_hasNot a \<and>
    (if {e \<in> or_docs qops docs cur a. t \<le> e} = {} then f = mx \<and> or_docs qops docs cur a' = {}
     else least_in {e \<in> or_docs qops docs cur a. t \<le> e} f \<and> or_currDoc a' = f \<and> or_cur a' = f \<and>
       or_docs qops docs cur a' = {e \<in> or_docs qops docs cur a. f < e})"
proof -
  let ?D = "or_docs qops docs cur a"
  have main: "\<exists>f a'. or_do_skipTo ops qops mx t a = Some (f, a') \<and> or_ok ops mx ok cur qops q_ok a' \<and> or_hasNot a' = or_hasNot a \<and>
      (if {e \<in> ?D. t \<le> e} = {} then f = mx \<and> or_docs qops docs cur a' = {}
       else least_in {e \<in> ?D. t \<le> e} f \<and> or_currDoc a' = f \<and> or_cur a' = f \<and> or_docs qops docs cur a' = {e \<in> ?D. f < e})"
    if q: "queue_ok ops mx ok cur qops q_ok l q" "{e \<in> gather (head_docs docs cur) l (set (q_list qops q)). t \<le> e} = {e \<in> ?D. t \<le> e}"
      and i: "(if or_queue a = None then initDocIteratorQueue ops qops a else Some a) = Some (a\<lparr>or_list := l, or_queue := Some q\<rparr>)" for l q
  proof (cases "q_list qops q = []")
    case True
    let ?a = "a\<lparr>or_currDoc := mx, or_list := l, or_queue := Some q\<rparr>"
    have "{e \<in> ?D. t \<le> e} = {}" unfolding q(2) [symmetric] using True by (simp add: gather_def)
    moreover have "or_ok ops mx ok cur qops q_ok ?a" "or_docs qops docs cur ?a = {}"
      using q(1) True by (simp_all add: or_ok_def or_docs_def gather_def flags_ok_def)
    moreover have "or_do_skipTo ops qops mx t a = Some (mx, ?a)" unfolding or_do_skipTo_def i using True by simp
    ultimately show ?thesis by (intro exI [of _ mx] exI [of _ ?a]) simp
  next
    case False
    from or_skip_loop_spec [OF q(1) False assms(3)] obtain f c l' q' where
      r: "or_skip_loop ops qops mx t l q = Some (f, c, l', q')" "skip_found ?D t (f, c, l', q')"
      unfolding skip_found_cong [OF q(2)] by (metis prod_cases4)
    let ?a = "a\<lparr>or_currDoc := c, or_list := l', or_queue := Some q'\<rparr>"
    have "or_do_skipTo ops qops mx t a = Some (f, ?a)" unfolding or_do_skipTo_def i using False r(1) by simp
    moreover have "or_ok ops mx ok cur qops q_ok ?a" using r(2) by (simp add: or_ok_def skip_found_def)
    moreover have da: "or_docs qops docs cur ?a = gather (pend_docs docs cur) l' (set (q_list qops q'))" "or_cur ?a = c"
      by (simp_all add: or_docs_def or_cur_def)
    moreover have "if {e \<in> ?D. t \<le> e} = {} then f = mx \<and> or_docs qops docs cur ?a = {}
        else least_in {e \<in> ?D. t \<le> e} f \<and> or_currDoc ?a = f \<and> or_cur ?a = f \<and> or_docs qops docs cur ?a = {e \<in> ?D. f < e}"
    proof (cases "{e \<in> ?D. t \<le> e} = {}")
      case True
      then have "f = mx" "q_list qops q' = []" using r(2) by (simp_all add: skip_found_def)
      then show ?thesis using True by (simp add: or_docs_def gather_def)
    next
      case ne: False
      from r(2) show ?thesis unfolding skip_found_def prod.case if_not_P [OF ne] da by auto
    qed
    ultimately show ?thesis by (intro exI [of _ f] exI [of _ ?a]) simp
  qed
  show ?thesis
  proof (cases "or_queue a")
    case None
    show ?thesis
    proof (cases "or_list a = []")
      case True
      let ?a = "a\<lparr>or_currDoc := mx\<rparr>"
      have "?D = {}" "or_docs qops docs cur ?a = {}" "or_ok ops mx ok cur qops q_ok ?a" "or_do_skipTo ops qops mx t a = Some (mx, ?a)"
        using None True by (simp_all add: or_docs_def or_ok_def gather_def or_do_skipTo_def initDocIteratorQueue_def)
      then show ?thesis by (intro exI [of _ mx] exI [of _ ?a]) simp
    next
      case False
      from initDocIteratorQueue_spec [OF assms(1) None False] obtain l q where
        1: "initDocIteratorQueue ops qops a = Some (a\<lparr>or_list := l, or_queue := Some q\<rparr>)"
          "queue_ok ops mx ok cur qops q_ok l q" "gather (head_docs docs cur) l (set (q_list qops q)) = ?D" by blast
      show ?thesis using None 1(1) by (intro main [OF 1(2)]) (simp_all add: 1(3))
    qed
  next
    case (Some q)
    then have q: "queue_ok ops mx ok cur qops q_ok (or_list a) q" "flags_ok cur (or_currDoc a) (or_list a) (set (q_list qops q))" "or_currDoc a < t"
      using assms(1,2) by (simp_all add: or_ok_def or_cur_def)
    have "{e \<in> head_docs docs cur (or_list a ! i). t \<le> e} = {e \<in> pend_docs docs cur (or_list a ! i). t \<le> e}" if "i \<in> set (q_list qops q)" for i
      using q(2,3) that unfolding flags_ok_def by (cases "or_list a ! i") force+
    then have e: "{e \<in> gather (head_docs docs cur) (or_list a) (set (q_list qops q)). t \<le> e} = {e \<in> ?D. t \<le> e}"
      using Some unfolding or_docs_def gather_def by auto
    have "a = a\<lparr>or_list := or_list a, or_queue := Some q\<rparr>" using Some by simp
    then show ?thesis using Some by (intro main [OF q(1) e]) simp
  qed
qed

text \<open>The union of iterators is an iterator, and so is \<open>NOTDocumentIterator\<close>.\<close>

lemma union_contract:
  fixes X :: "('s, 'q, 'n) or_iter iter_ops"
  assumes "it_doc X = or_currDoc" and "\<And>a. \<not> or_hasNot a \<Longrightarrow> it_next X a = or_do_next ops qops a"
    and "\<And>t a. \<not> or_hasNot a \<Longrightarrow> it_skipTo X t a = or_do_skipTo ops qops mx t a"
  shows "doc_iterator X mx (\<lambda>a. \<not> or_hasNot a \<and> or_ok ops mx ok cur qops q_ok a) (or_docs qops docs cur) or_cur"
proof unfold_locales
  fix a :: "('s, 'q, 'n) or_iter" and d t
  assume a: "\<not> or_hasNot a \<and> or_ok ops mx ok cur qops q_ok a"
  let ?D = "or_docs qops docs cur"
  have x: "\<not> or_hasNot a" "or_ok ops mx ok cur qops q_ok a" "it_next X a = or_do_next ops qops a" "it_skipTo X t a = or_do_skipTo ops qops mx t a"
    using a assms(2,3) by simp_all
  show "or_cur a < d \<and> d < mx" if d: "d \<in> ?D a"
  proof (cases "or_queue a")
    case None
    then obtain i s c where i: "i < length (or_list a)" "or_list a ! i = Some (s, c)" "d \<in> docs s" using d
      by (auto simp: or_docs_def gather_def fresh_docs_def split: option.splits)
    have "Some (s, c) \<in> set (or_list a)" unfolding i(2) [symmetric] by (rule nth_mem [OF i(1)])
    with i(3) show ?thesis using None x(2) docs_range [of s d] by (auto simp: or_ok_def or_cur_def)
  next
    case (Some q)
    then show ?thesis using flags_range [of "or_list a" q "or_currDoc a" d] d x(2) by (simp add: or_ok_def or_cur_def or_docs_def)
  qed
  note nx = or_do_next_spec [OF x(2)]
  show "\<exists>s'. it_next X a = Some (False, s') \<and> (\<not> or_hasNot s' \<and> or_ok ops mx ok cur qops q_ok s') \<and> ?D s' = {}"
    if e: "?D a = {}"
    using nx x(1) unfolding x(3) if_P [OF e] by metis
  show "\<exists>s'. it_next X a = Some (True, s') \<and> (\<not> or_hasNot s' \<and> or_ok ops mx ok cur qops q_ok s') \<and> it_doc X s' = d \<and> or_cur s' = d \<and> ?D s' = ?D a - {d}"
    if d: "least_in (?D a) d"
  proof -
    have ne: "?D a \<noteq> {}" using d by (auto simp: least_in_def)
    from nx [unfolded if_not_P [OF ne]] obtain s' where s': "or_do_next ops qops a = Some (True, s')" "or_ok ops mx ok cur qops q_ok s'"
      "or_hasNot s' = or_hasNot a" "least_in (?D a) (or_currDoc s')" "or_cur s' = or_currDoc s'" "?D s' = ?D a - {or_currDoc s'}" by auto
    show ?thesis unfolding x(3) using s' x(1) least_in_unique [OF d s'(4)] by (intro exI [of _ s']) (simp add: assms(1))
  qed
  assume t: "or_cur a < t" "t < mx"
  note sk = or_do_skipTo_spec [OF x(2) t]
  show "\<exists>s'. it_skipTo X t a = Some (mx, s') \<and> (\<not> or_hasNot s' \<and> or_ok ops mx ok cur qops q_ok s') \<and> ?D s' = {}"
    if e: "{e \<in> ?D a. t \<le> e} = {}" using sk x(1) unfolding x(4) if_P [OF e] by metis
  show "\<exists>s'. it_skipTo X t a = Some (d, s') \<and> (\<not> or_hasNot s' \<and> or_ok ops mx ok cur qops q_ok s') \<and> it_doc X s' = d \<and> or_cur s' = d \<and>
      ?D s' = {e \<in> ?D a. d < e}" if d: "least_in {e \<in> ?D a. t \<le> e} d"
  proof -
    have ne: "{e \<in> ?D a. t \<le> e} \<noteq> {}" using d by (auto simp: least_in_def)
    from sk [unfolded if_not_P [OF ne]] obtain f s' where s': "or_do_skipTo ops qops mx t a = Some (f, s')" "or_ok ops mx ok cur qops q_ok s'"
      "or_hasNot s' = or_hasNot a" "least_in {e \<in> ?D a. t \<le> e} f" "or_currDoc s' = f" "or_cur s' = f" "?D s' = {e \<in> ?D a. f < e}" by blast
    show ?thesis unfolding x(4) using s' x(1) least_in_unique [OF d s'(4)] by (intro exI [of _ s']) (simp add: assms(1))
  qed
qed

lemma or_iterator:
  "doc_iterator (or_ops ops qops nops mx) mx (\<lambda>a. \<not> or_hasNot a \<and> or_ok ops mx ok cur qops q_ok a) (or_docs qops docs cur) or_cur"
  by (rule union_contract) (simp_all add: or_ops_def or_next_def or_skipTo_def)

lemma not_iterator:
  "doc_iterator (not_ops ops qops mx) mx (\<lambda>a. \<not> or_hasNot a \<and> or_ok ops mx ok cur qops q_ok a) (or_docs qops docs cur) or_cur"
  by (rule union_contract) (simp_all add: not_ops_def or_skipTo_def)

end

section \<open>The heap as the queue\<close>

definition heap_queue :: "nat pqueue queue_ops" where
  "heap_queue = \<lparr>q_new = pq_initialize 0,
     q_insert = (\<lambda>lt i q. case pq_insert lt 0 i q of Some (_, q') \<Rightarrow> q' | None \<Rightarrow> q),
     q_top = (\<lambda>q. if pq_size q > 0 then Some (pq_top 0 q) else None),
     q_adjustTop = (\<lambda>lt q. case downHeap lt q of Some q' \<Rightarrow> q' | None \<Rightarrow> q),
     q_pop = (\<lambda>lt q. case pq_pop lt 0 q of Some (_, q') \<Rightarrow> q' | None \<Rightarrow> q),
     q_list = (\<lambda>q. take (pq_size q) (tl (heap q)))\<rparr>"

definition heap_queue_ok :: "(nat \<Rightarrow> nat) \<Rightarrow> nat pqueue \<Rightarrow> bool" where
  "heap_queue_ok key q \<longleftrightarrow> pq_ok (docq_lessThan key) q"

lemma heap_queue_elems: "mset (q_list heap_queue q) = pq_elems q" "set (q_list heap_queue q) = set_mset (pq_elems q)"
  by (simp_all add: heap_queue_def pq_elems_def)

lemma heap_queue_nth: "pq_wf q \<Longrightarrow> 1 \<le> k \<Longrightarrow> k \<le> pq_size q \<Longrightarrow> q_list heap_queue q ! (k - 1) = heap q ! k"
  by (cases k) (simp_all add: heap_queue_def pq_wf_def nth_tl)

lemma heap_queue_length: "pq_wf q \<Longrightarrow> length (q_list heap_queue q) = pq_size q"
  by (simp add: heap_queue_def pq_wf_def)

lemma heap_not_top:
  assumes "pq_wf q" and "distinct (q_list heap_queue q)" and "2 \<le> k" and "k \<le> pq_size q"
  shows "heap q ! k \<noteq> heap q ! 1"
  using nth_eq_iff_index_eq [OF assms(2), of "k - 1" 0] heap_queue_nth [OF assms(1), of k] heap_queue_nth [OF assms(1), of 1]
    heap_queue_length [OF assms(1)] assms(3,4) by simp

text \<open>Below the top the heap stays in order when only the key of the top changes.\<close>

lemma heap_below_top:
  assumes "heap_queue_ok key q" and "distinct (q_list heap_queue q)"
    and "\<forall>j \<in> set (q_list heap_queue q). j \<noteq> heap q ! 1 \<longrightarrow> key' j = key j" and "4 \<le> k" "k \<le> pq_size q"
  shows "\<not> docq_lessThan key' (heap q ! k) (heap q ! (k div 2))"
proof -
  have w: "pq_wf q" and h: "\<not> docq_lessThan key (heap q ! k) (heap q ! (k div 2))"
    using assms(1,4,5) by (simp_all add: heap_queue_ok_def pq_ok_def heap_ok_def)
  have "key' (heap q ! j) = key (heap q ! j)" if "2 \<le> j" "j \<le> pq_size q" for j
    using heap_not_top [OF w assms(2) that] elems_nth [OF w, of j] that assms(3) by (simp add: heap_queue_elems)
  then show ?thesis using h assms(4,5) by (simp add: docq_lessThan_def)
qed

interpretation hq: iter_queue heap_queue heap_queue_ok maxSize
proof unfold_locales
  fix key key' :: "nat \<Rightarrow> nat" and n i and q :: "nat pqueue"
  show "heap_queue_ok key (q_new heap_queue n) \<and> q_list heap_queue (q_new heap_queue n) = [] \<and> maxSize (q_new heap_queue n) = n"
    using docq.pq_ok_initialize [of key 0 n] by (simp add: heap_queue_ok_def heap_queue_def pq_initialize_def)
  assume ok: "heap_queue_ok key q"
  then have w: "pq_wf q" by (simp add: heap_queue_ok_def pq_ok_def)
  show "heap_queue_ok key (q_insert heap_queue (docq_lessThan key) i q) \<and> maxSize (q_insert heap_queue (docq_lessThan key) i q) = maxSize q \<and>
      mset (q_list heap_queue (q_insert heap_queue (docq_lessThan key) i q)) = add_mset i (mset (q_list heap_queue q))"
    if "length (q_list heap_queue q) < maxSize q"
  proof -
    from pq_insert_elems [OF w, of "docq_lessThan key" 0 i] that heap_queue_length [OF w] obtain b q' where
      q': "pq_insert (docq_lessThan key) 0 i q = Some (b, q')" "maxSize q' = maxSize q" "pq_elems q' = add_mset i (pq_elems q)" by auto
    have "q_insert heap_queue (docq_lessThan key) i q = q'" by (simp add: heap_queue_def q'(1))
    then show ?thesis using q' docq.pq_insert_ok [OF _ q'(1)] ok by (simp add: heap_queue_ok_def heap_queue_elems)
  qed
  show "(q_top heap_queue q = None) = (q_list heap_queue q = [])"
    using heap_queue_length [OF w] length_0_conv [of "q_list heap_queue q"] by (auto simp: heap_queue_def)
  have top: "heap q ! 1 = i \<and> 0 < pq_size q" if "q_top heap_queue q = Some i" for i
    using that by (simp add: heap_queue_def pq_top_def split: if_splits)
  show "i \<in> set (q_list heap_queue q) \<and> (\<forall>j \<in> set (q_list heap_queue q). key i \<le> key j)" if "q_top heap_queue q = Some i"
    using top [OF that] pq_top_elem(2) [OF w] docq.top_least [of key q] ok
    by (auto simp: heap_queue_elems heap_queue_ok_def docq_lessThan_def not_less)
  show "heap_queue_ok key' q" if k: "\<forall>j \<in> set (q_list heap_queue q). key' j = key j"
  proof -
    have e: "key' (heap q ! k) = key (heap q ! k)" if "1 \<le> k" "k \<le> pq_size q" for k
      using elems_nth [OF w that] k by (simp add: heap_queue_elems)
    have "\<not> docq_lessThan key' (heap q ! k) (heap q ! (k div 2))" if "2 \<le> k" "k \<le> pq_size q" for k
    proof -
      have "\<not> docq_lessThan key (heap q ! k) (heap q ! (k div 2))" using ok that by (simp add: heap_queue_ok_def pq_ok_def heap_ok_def)
      then show ?thesis using e [of k] e [of "k div 2"] that by (simp add: docq_lessThan_def)
    qed
    then show ?thesis using w by (simp add: heap_queue_ok_def pq_ok_def heap_ok_def)
  qed
  assume d: "distinct (q_list heap_queue q)" and t: "q_top heap_queue q = Some i"
    and k: "\<forall>j \<in> set (q_list heap_queue q). j \<noteq> i \<longrightarrow> key' j = key j"
  have i: "heap q ! 1 = i" "0 < pq_size q" using top [OF t] by simp_all
  have below: "\<forall>k. 4 \<le> k \<and> k \<le> pq_size q \<longrightarrow> \<not> docq_lessThan key' (heap q ! k) (heap q ! (k div 2))"
    using heap_below_top [OF ok d] k i(1) by blast
  have m: "0 < maxSize q" using i(2) w by (simp add: pq_wf_def)
  show "heap_queue_ok key' (q_adjustTop heap_queue (docq_lessThan key') q) \<and>
      mset (q_list heap_queue (q_adjustTop heap_queue (docq_lessThan key') q)) = mset (q_list heap_queue q)"
  proof -
    from downHeap_elems [OF w m, of "docq_lessThan key'"] obtain q' where
      q': "downHeap (docq_lessThan key') q = Some q'" "pq_wf q'" "pq_elems q' = pq_elems q" by blast
    have "q_adjustTop heap_queue (docq_lessThan key') q = q'" by (simp add: heap_queue_def q'(1))
    then show ?thesis using q' docq.downHeap_ok [OF q'(1) w below] by (simp add: heap_queue_ok_def pq_ok_def heap_queue_elems)
  qed
  show "heap_queue_ok key' (q_pop heap_queue (docq_lessThan key') q) \<and>
      mset (q_list heap_queue (q_pop heap_queue (docq_lessThan key') q)) = mset (q_list heap_queue q) - {#i#}"
  proof -
    from pq_pop_elems [OF w i(2), of "docq_lessThan key'" 0] obtain q' where
      q': "pq_pop (docq_lessThan key') 0 q = Some (i, q')" "pq_wf q'" "pq_elems q' = pq_elems q - {#i#}" unfolding i(1) by blast
    let ?q = "q\<lparr>heap := (heap q)[1 := heap q ! pq_size q, pq_size q := 0], pq_size := pq_size q - 1\<rparr>"
    have "downHeap (docq_lessThan key') ?q = Some q'" using q'(1) i(2) by (auto simp: pq_pop_def)
    moreover have "pq_wf ?q" using w by (auto simp: pq_wf_def)
    moreover have "\<forall>k. 4 \<le> k \<and> k \<le> pq_size ?q \<longrightarrow> \<not> docq_lessThan key' (heap ?q ! k) (heap ?q ! (k div 2))"
      using below i(2) by auto
    ultimately have "heap_ok (docq_lessThan key') (heap q') (pq_size q')" by (rule docq.downHeap_ok)
    moreover have "q_pop heap_queue (docq_lessThan key') q = q'" by (simp add: heap_queue_def q'(1))
    ultimately show ?thesis using q'(2,3) by (simp add: heap_queue_ok_def pq_ok_def heap_queue_elems)
  qed
qed

end
