(* ===== verification/AllIterator.thy ===== *)
theory AllIterator
  imports DocIterator
begin

text \<open>
  \<open>AllDocumentIterator\<close> of \<^verbatim>\<open>src/source/core/search-manager/AllDocumentIterator.h\<close>: all documents
  \<open>1 .. maxDoc_\<close> that are not deleted. The deleted ones come from a reader of the index library,
  \<open>None\<close> when there is none. \<open>next\<close> walks through exactly these documents; \<open>skipTo\<close> does not
  keep the contract of the other iterators, as it goes beyond its target.
\<close>

section \<open>The operations\<close>

record 'r all_iter =
  delTermDocFreqs :: "'r option"
  all_currDoc :: nat
  currDelDoc :: nat
  maxDoc :: nat

text \<open>Without deleted documents \<open>currDelDoc_\<close> is not initialised (\<open>c\<close>), and never read.\<close>

definition all_new :: "nat \<Rightarrow> nat \<Rightarrow> 'r all_iter" where
  "all_new c m = \<lparr>delTermDocFreqs = None, all_currDoc = 0, currDelDoc = c, maxDoc = m\<rparr>"

definition all_new_del :: "'r iter_ops \<Rightarrow> nat \<Rightarrow> 'r \<Rightarrow> nat \<Rightarrow> 'r all_iter option" where
  "all_new_del rops mx r m =
     map_option (\<lambda>(b, r'). \<lparr>delTermDocFreqs = Some r', all_currDoc = 0, currDelDoc = (if b then it_doc rops r' else mx), maxDoc = m\<rparr>)
       (it_next rops r)"

partial_function (option) move_with_del :: "'r iter_ops \<Rightarrow> nat \<Rightarrow> 'r \<Rightarrow> 'r all_iter \<Rightarrow> (bool \<times> 'r all_iter) option" where
  "move_with_del rops mx r a =
     Option.bind (it_next rops r) (\<lambda>(b, r').
       let a' = a\<lparr>all_currDoc := all_currDoc a + 1, delTermDocFreqs := Some r', currDelDoc := (if b then it_doc rops r' else mx)\<rparr>
       in if all_currDoc a' = currDelDoc a' \<and> all_currDoc a' \<le> maxDoc a' then move_with_del rops mx r' a'
          else Some (all_currDoc a' \<le> maxDoc a', a'))"

definition all_next :: "'r iter_ops \<Rightarrow> nat \<Rightarrow> 'r all_iter \<Rightarrow> (bool \<times> 'r all_iter) option" where
  "all_next rops mx a =
     (let a1 = a\<lparr>all_currDoc := all_currDoc a + 1\<rparr>
      in case delTermDocFreqs a1 of
           None \<Rightarrow> Some (all_currDoc a1 \<le> maxDoc a1, a1)
         | Some r \<Rightarrow>
             if all_currDoc a1 = currDelDoc a1 then move_with_del rops mx r a1
             else if all_currDoc a1 < currDelDoc a1 then Some (all_currDoc a1 \<le> maxDoc a1, a1)
             else Option.bind (it_skipTo rops (all_currDoc a1) r) (\<lambda>(c, r').
               let a2 = a1\<lparr>delTermDocFreqs := Some r', currDelDoc := c\<rparr>
               in if all_currDoc a2 = currDelDoc a2 then move_with_del rops mx r' a2
                  else Some (all_currDoc a2 \<le> maxDoc a2, a2)))"

text \<open>The result of a \<open>skipTo\<close>, and the step \<open>currDoc_ = currDoc_ > target ? currDoc_ : ++target\<close>.\<close>

definition all_found :: "nat \<Rightarrow> 'r all_iter \<Rightarrow> nat \<times> 'r all_iter" where
  "all_found mx a = (if all_currDoc a > maxDoc a then mx else all_currDoc a, a)"

definition all_step :: "nat \<Rightarrow> nat \<Rightarrow> nat" where
  "all_step c target = (if c > target then c else target + 1)"

definition all_do_skipTo :: "nat \<Rightarrow> nat \<Rightarrow> 'r all_iter \<Rightarrow> (nat \<times> 'r all_iter) option" where
  "all_do_skipTo mx target a = Some (all_found mx (a\<lparr>all_currDoc := all_step (all_currDoc a) target\<rparr>))"

partial_function (option) skip_with_del :: "'r iter_ops \<Rightarrow> nat \<Rightarrow> nat \<Rightarrow> 'r \<Rightarrow> 'r all_iter \<Rightarrow> (nat \<times> 'r all_iter) option" where
  "skip_with_del rops mx target r a =
     (let d = all_step (all_currDoc a) target; target' = (if all_currDoc a > target then target else target + 1)
      in Option.bind (it_skipTo rops d r) (\<lambda>(c, r').
           let a' = a\<lparr>all_currDoc := d, delTermDocFreqs := Some r', currDelDoc := c\<rparr>
           in if d = c \<and> d \<le> maxDoc a then skip_with_del rops mx target' r' a' else Some (all_found mx a')))"

partial_function (option) skip_over_del :: "'r iter_ops \<Rightarrow> nat \<Rightarrow> 'r \<Rightarrow> 'r all_iter \<Rightarrow> (nat \<times> 'r all_iter) option" where
  "skip_over_del rops mx r a =
     (if all_currDoc a = currDelDoc a \<and> currDelDoc a \<noteq> mx
      then Option.bind (it_skipTo rops (all_currDoc a) r) (\<lambda>(c, r').
             skip_over_del rops mx r' (a\<lparr>delTermDocFreqs := Some r', currDelDoc := c, all_currDoc := all_currDoc a + 1\<rparr>))
      else Some (all_found mx a))"

definition all_skipTo :: "'r iter_ops \<Rightarrow> nat \<Rightarrow> nat \<Rightarrow> 'r all_iter \<Rightarrow> (nat \<times> 'r all_iter) option" where
  "all_skipTo rops mx target a =
     (case delTermDocFreqs a of
        None \<Rightarrow> all_do_skipTo mx target a
      | Some r \<Rightarrow>
          if currDelDoc a \<le> target then skip_with_del rops mx target r a
          else skip_over_del rops mx r (a\<lparr>all_currDoc := all_step (all_currDoc a) target\<rparr>))"

definition all_ops :: "'r iter_ops \<Rightarrow> nat \<Rightarrow> 'r all_iter iter_ops" where
  "all_ops rops mx = \<lparr>it_next = all_next rops mx, it_doc = all_currDoc, it_skipTo = all_skipTo rops mx\<rparr>"

declare move_with_del.simps [code] skip_with_del.simps [code] skip_over_del.simps [code]

section \<open>Walking through all documents\<close>

definition all_docs :: "nat \<Rightarrow> ('r \<Rightarrow> nat set) \<Rightarrow> 'r all_iter \<Rightarrow> nat set" where
  "all_docs mx docs a = {all_currDoc a<..maxDoc a} -
     (case delTermDocFreqs a of None \<Rightarrow> {} | Some r \<Rightarrow> excluded mx docs (currDelDoc a) r)"

definition all_ok :: "nat \<Rightarrow> ('r \<Rightarrow> bool) \<Rightarrow> ('r \<Rightarrow> nat set) \<Rightarrow> ('r \<Rightarrow> nat) \<Rightarrow> 'r all_iter \<Rightarrow> bool" where
  "all_ok mx ok docs cur a \<longleftrightarrow> maxDoc a < mx \<and> (case delTermDocFreqs a of None \<Rightarrow> True
     | Some r \<Rightarrow> ok r \<and> not_at mx docs cur (currDelDoc a) r \<and> all_currDoc a < currDelDoc a)"

text \<open>What a step to the next document has to do; beyond the last one it only reports the end.\<close>

definition all_step_ok :: "nat \<Rightarrow> ('r \<Rightarrow> bool) \<Rightarrow> ('r \<Rightarrow> nat set) \<Rightarrow> ('r \<Rightarrow> nat) \<Rightarrow> nat set \<Rightarrow> bool \<Rightarrow> 'r all_iter \<Rightarrow> bool" where
  "all_step_ok mx ok docs cur D b a \<longleftrightarrow>
     (if D = {} then \<not> b else b \<and> all_ok mx ok docs cur a \<and> least_in D (all_currDoc a) \<and> all_docs mx docs a = D - {all_currDoc a})"

context doc_iterator
begin

lemma excluded_eq:
  assumes "ok r"
  shows "c < mx \<Longrightarrow> excluded mx docs c r = insert c (docs r)" and "excluded mx docs mx r = docs r"
  using docs_range [OF assms] by (auto simp: excluded_def)

lemma reader_next:
  assumes "ok r"
  shows "\<exists>b r'. it_next ops r = Some (b, r') \<and> ok r' \<and> not_at mx docs cur (if b then it_doc ops r' else mx) r' \<and>
    excluded mx docs (if b then it_doc ops r' else mx) r' = docs r"
proof (cases "docs r = {}")
  case True
  with next_end [OF assms] show ?thesis by (auto simp: not_at_def excluded_def)
next
  case False
  from least_in_exists [OF this] obtain d where d: "least_in (docs r) d" ..
  from next_doc [OF assms d] obtain r' where
    r': "it_next ops r = Some (True, r')" "ok r'" "it_doc ops r' = d" "cur r' = d" "docs r' = docs r - {d}" by blast
  have "d \<in> docs r" "d < mx" using d docs_range [OF assms, of d] by (simp_all add: least_in_def)
  then have "excluded mx docs d r' = docs r" "not_at mx docs cur d r'"
    using excluded_eq(1) [OF r'(2), of d] r'(4,5) by (auto simp: not_at_def)
  then show ?thesis using r' by (intro exI [of _ True] exI [of _ r']) simp
qed

lemma excluded_from:
  assumes "ok r" and "not_at mx docs cur c r" and "d \<in> excluded mx docs c r"
  shows "c \<le> d \<and> d < mx"
  using assms docs_range [OF assms(1), of d] by (auto simp: excluded_def not_at_def split: if_splits)

text \<open>A step onto a document that the reader has not reached.\<close>

lemma all_step_found:
  assumes "delTermDocFreqs a = Some r" and "ok r" and "not_at mx docs cur (currDelDoc a) r" and "all_currDoc a = Suc c"
    and "Suc c < currDelDoc a \<or> Suc c > maxDoc a" and "maxDoc a < mx" and "D = {c<..maxDoc a} - excluded mx docs (currDelDoc a) r"
  shows "all_step_ok mx ok docs cur D (Suc c \<le> maxDoc a) a"
proof (cases "Suc c \<le> maxDoc a")
  case True
  then have lt: "Suc c < currDelDoc a" using assms(5) by simp
  have "Suc c \<notin> excluded mx docs (currDelDoc a) r" using excluded_from [OF assms(2,3)] lt by force
  then have l: "least_in D (Suc c)" using True by (auto simp: least_in_def assms(7))
  then have "D \<noteq> {}" by (auto simp: least_in_def)
  moreover have "all_docs mx docs a = D - {Suc c}" using assms(1,4,7) by (auto simp: all_docs_def)
  ultimately show ?thesis using assms l lt True by (simp add: all_step_ok_def all_ok_def)
next
  case False
  then show ?thesis using assms(7) by (auto simp: all_step_ok_def)
qed

lemma move_with_del_spec:
  assumes "ok r" and "not_at mx docs cur (currDelDoc a) r" and "all_currDoc a = currDelDoc a" and "maxDoc a < mx"
  shows "\<exists>b a'. move_with_del ops mx r a = Some (b, a') \<and> maxDoc a' = maxDoc a \<and>
    all_step_ok mx ok docs cur ({all_currDoc a<..maxDoc a} - docs r) b a'"
  using assms
proof (induction "maxDoc a - all_currDoc a" arbitrary: a r rule: less_induct)
  case less
  note prems = less.prems
  from reader_next [OF prems(1)] obtain b r' where r': "it_next ops r = Some (b, r')" "ok r'"
    "not_at mx docs cur (if b then it_doc ops r' else mx) r'" "excluded mx docs (if b then it_doc ops r' else mx) r' = docs r" by blast
  define c where "c = (if b then it_doc ops r' else mx)"
  note r = r' [folded c_def]
  let ?a = "a\<lparr>all_currDoc := all_currDoc a + 1, delTermDocFreqs := Some r', currDelDoc := c\<rparr>"
  let ?D = "{all_currDoc a<..maxDoc a} - docs r"
  have eq: "move_with_del ops mx r a =
      (if all_currDoc ?a = currDelDoc ?a \<and> all_currDoc ?a \<le> maxDoc ?a then move_with_del ops mx r' ?a else Some (all_currDoc ?a \<le> maxDoc ?a, ?a))"
    using r(1) by (simp add: move_with_del.simps [of _ _ r a] Let_def c_def)
  have ge: "all_currDoc a < c \<or> mx \<le> all_currDoc a"
  proof (cases "c < mx")
    case True
    then have "c \<in> docs r" using r(4) by (auto simp: excluded_def split: if_splits)
    then have "cur r < c" "docs r \<noteq> {}" using docs_range [OF prems(1), of c] by auto
    then show ?thesis using prems(2,3) by (simp add: not_at_def split: if_splits)
  next
    case False
    then show ?thesis by linarith
  qed
  show ?case
  proof (cases "Suc (all_currDoc a) = c \<and> Suc (all_currDoc a) \<le> maxDoc a")
    case True
    then have m: "c < mx" "all_currDoc a < maxDoc a" using prems(4) by auto
    have d: "docs r = insert c (docs r')" unfolding r(4) [symmetric] by (rule excluded_eq(1) [OF r(2) m(1)])
    have D: "?D = {all_currDoc ?a<..maxDoc ?a} - docs r'" unfolding d conjunct1 [OF True, symmetric] by auto
    have "\<exists>b a'. move_with_del ops mx r' ?a = Some (b, a') \<and> maxDoc a' = maxDoc ?a \<and>
      all_step_ok mx ok docs cur ({all_currDoc ?a<..maxDoc ?a} - docs r') b a'"
      using r(2,3) True prems(4) m(2) by (intro less.hyps) simp_all
    then show ?thesis unfolding eq D using True by simp
  next
    case False
    have lt: "Suc (all_currDoc a) < c \<or> Suc (all_currDoc a) > maxDoc a" using False ge prems(4) by linarith
    have "all_step_ok mx ok docs cur ?D (Suc (all_currDoc a) \<le> maxDoc ?a) ?a"
      by (rule all_step_found [where r = r']) (use r(2,3,4) lt prems(4) in simp_all)
    then show ?thesis unfolding eq using False by auto
  qed
qed

lemma all_next_spec:
  assumes "all_ok mx ok docs cur a"
  shows "\<exists>b a'. all_next ops mx a = Some (b, a') \<and> all_step_ok mx ok docs cur (all_docs mx docs a) b a'"
proof (cases "delTermDocFreqs a")
  case None
  let ?a = "a\<lparr>all_currDoc := all_currDoc a + 1\<rparr>"
  have D: "all_docs mx docs a = {all_currDoc a<..maxDoc a}" using None by (simp add: all_docs_def)
  have "all_step_ok mx ok docs cur (all_docs mx docs a) (all_currDoc ?a \<le> maxDoc a) ?a"
  proof (cases "all_currDoc a < maxDoc a")
    case True
    then have l: "least_in (all_docs mx docs a) (all_currDoc ?a)" "all_docs mx docs a \<noteq> {}" unfolding D by (auto simp: least_in_def)
    have "all_docs mx docs ?a = all_docs mx docs a - {all_currDoc ?a}" unfolding D using None by (auto simp: all_docs_def)
    moreover have "all_ok mx ok docs cur ?a" using None assms by (simp add: all_ok_def)
    ultimately show ?thesis unfolding all_step_ok_def if_not_P [OF l(2)] using l(1) True by simp
  next
    case False
    then show ?thesis by (simp add: all_step_ok_def D)
  qed
  then show ?thesis using None by (simp add: all_next_def)
next
  case (Some r)
  have r: "ok r" "not_at mx docs cur (currDelDoc a) r" "all_currDoc a < currDelDoc a" "maxDoc a < mx"
    using assms Some by (simp_all add: all_ok_def)
  let ?a = "a\<lparr>all_currDoc := all_currDoc a + 1\<rparr>"
  let ?D = "all_docs mx docs a"
  have D: "?D = {all_currDoc a<..maxDoc a} - excluded mx docs (currDelDoc a) r" using Some by (simp add: all_docs_def)
  show ?thesis
  proof (cases "all_currDoc ?a = currDelDoc a")
    case True
    have "?D = {all_currDoc ?a<..maxDoc ?a} - docs r"
    proof (cases "currDelDoc a < mx")
      case lt: True
      then show ?thesis using True unfolding D excluded_eq(1) [OF r(1) lt] by auto
    next
      case False
      then have "{all_currDoc a<..maxDoc a} = {}" using True r(4) by auto
      then show ?thesis unfolding D using True by auto
    qed
    moreover have "\<exists>b a'. move_with_del ops mx r ?a = Some (b, a') \<and> maxDoc a' = maxDoc ?a \<and>
      all_step_ok mx ok docs cur ({all_currDoc ?a<..maxDoc ?a} - docs r) b a'"
      using r True by (intro move_with_del_spec) simp_all
    ultimately show ?thesis using True Some by (auto simp: all_next_def Let_def)
  next
    case False
    then have lt: "Suc (all_currDoc a) < currDelDoc a" using r(3) by simp
    have "all_step_ok mx ok docs cur ?D (Suc (all_currDoc a) \<le> maxDoc ?a) ?a"
      by (rule all_step_found [where r = r]) (use Some r lt D in simp_all)
    then show ?thesis using Some lt by (simp add: all_next_def Let_def)
  qed
qed

lemma all_iterate:
  assumes "all_ok mx ok docs cur a"
  shows "\<exists>a'. iterate (all_ops ops mx) (Suc (card (all_docs mx docs a))) a = Some (sorted_list_of_set (all_docs mx docs a), a')"
  using assms
proof (induction "card (all_docs mx docs a)" arbitrary: a)
  case 0
  have "finite (all_docs mx docs a)" by (simp add: all_docs_def)
  then have e: "all_docs mx docs a = {}" using 0(1) by simp
  from all_next_spec [OF 0(2)] obtain a' where "all_next ops mx a = Some (False, a')" unfolding e by (auto simp: all_step_ok_def)
  then show ?case unfolding e by (simp add: all_ops_def)
next
  case (Suc n)
  let ?D = "all_docs mx docs a"
  have f: "finite ?D" by (simp add: all_docs_def)
  have ne: "?D \<noteq> {}" using Suc(2) by auto
  from all_next_spec [OF Suc(3)] obtain a1 where
    1: "all_next ops mx a = Some (True, a1)" "all_ok mx ok docs cur a1" "least_in ?D (all_currDoc a1)" "all_docs mx docs a1 = ?D - {all_currDoc a1}"
    unfolding all_step_ok_def if_not_P [OF ne] by auto
  have n: "n = card (all_docs mx docs a1)" using Suc(2) 1(3) f by (simp add: 1(4) least_in_def)
  from Suc(1) [OF n 1(2)] obtain a' where
    i: "iterate (all_ops ops mx) (Suc n) a1 = Some (sorted_list_of_set (all_docs mx docs a1), a')" using n by auto
  have "all_currDoc a1 = Min ?D" using 1(3) f ne by (simp add: least_in_def eq_Min_iff)
  then have "sorted_list_of_set ?D = all_currDoc a1 # sorted_list_of_set (all_docs mx docs a1)"
    using sorted_list_of_set_nonempty [OF f ne] by (simp add: 1(4))
  then show ?case unfolding Suc(2) [symmetric] using i 1(1) by (simp add: all_ops_def)
qed

lemma all_new_del_ok:
  assumes "ok r" and "m < mx"
  shows "\<exists>a. all_new_del ops mx r m = Some a \<and> all_ok mx ok docs cur a \<and> all_docs mx docs a = {1..m} - docs r"
proof -
  from reader_next [OF assms(1)] obtain b r' where r': "it_next ops r = Some (b, r')" "ok r'"
    "not_at mx docs cur (if b then it_doc ops r' else mx) r'" "excluded mx docs (if b then it_doc ops r' else mx) r' = docs r" by blast
  define c where "c = (if b then it_doc ops r' else mx)"
  note r = r' [folded c_def]
  have c: "0 < c"
  proof (cases "c < mx")
    case True
    then have "c \<in> docs r" unfolding r(4) [symmetric] by (simp add: excluded_def)
    then show ?thesis using docs_range [OF assms(1), of c] by linarith
  qed (use assms(2) in linarith)
  let ?a = "\<lparr>delTermDocFreqs = Some r', all_currDoc = 0, currDelDoc = c, maxDoc = m\<rparr>"
  have "all_new_del ops mx r m = Some ?a" using r(1) by (simp add: all_new_del_def c_def)
  moreover have "all_ok mx ok docs cur ?a" using r(2,3) c assms(2) by (simp add: all_ok_def)
  moreover have "{0<..m} = {1..m}" by auto
  then have "all_docs mx docs ?a = {1..m} - docs r" by (simp add: all_docs_def r(4))
  ultimately show ?thesis by blast
qed

end

end
