(* ===== verification/WandIterator.thy ===== *)
theory WandIterator
  imports OrIterator
begin

text \<open>
  \<open>WANDDocumentIterator\<close> of \<^verbatim>\<open>src/source/core/search-manager\<close>: the documents whose children have
  upper bounds of their scores that add up to more than a threshold. As in \<open>OrIterator\<close> the
  children stand in a vector with their flags \<open>current_\<close>, and the sorter, a \<open>std::multimap\<close>
  from documents to pointers to the children, holds their positions; an element is inserted
  behind those with the same key. The upper bound of the child at a position is \<open>ub\<close>, a real
  number, constant while the documents are iterated. The loops are partial functions; that
  they end is proved.
\<close>

section \<open>The operations\<close>

type_synonym doc_sorter = "(nat \<times> nat) list"

record 's wand_iter =
  wand_list :: "'s or_children"
  docIteratorSorter :: doc_sorter
  wand_currDoc :: nat
  currThreshold :: real
  pivotDoc :: nat

definition wand_init :: "'s wand_iter" where
  "wand_init = \<lparr>wand_list = [], docIteratorSorter = [], wand_currDoc = 0, currThreshold = 0, pivotDoc = 0\<rparr>"

definition wand_add :: "'s \<Rightarrow> 's wand_iter \<Rightarrow> 's wand_iter" where
  "wand_add it a = a\<lparr>wand_list := wand_list a @ [Some (it, False)]\<rparr>"

definition wand_getUB :: "(nat \<Rightarrow> real) \<Rightarrow> real \<Rightarrow> 's wand_iter \<Rightarrow> real" where
  "wand_getUB ub missRate a = sum_list (map ub (filter (\<lambda>i. wand_list a ! i \<noteq> None) [0..<length (wand_list a)])) / (1 - missRate)"

text \<open>
  The children get the threshold first, by their own \<open>initThreshold\<close>, which \<open>child_init\<close> stands
  for; a child that has been deleted is dereferenced, which is \<open>None\<close>.
\<close>

definition wand_initThreshold ::
  "(real \<Rightarrow> 's \<Rightarrow> 's) \<Rightarrow> (nat \<Rightarrow> real) \<Rightarrow> real \<Rightarrow> real \<Rightarrow> 's wand_iter \<Rightarrow> 's wand_iter option" where
  "wand_initThreshold child_init ub missRate threshold a =
     (if None \<in> set (wand_list a) then None
      else let a' = a\<lparr>wand_list := map (map_option (\<lambda>(s, c). (child_init threshold s, c))) (wand_list a)\<rparr>
           in Some (a'\<lparr>currThreshold := wand_getUB ub missRate a' * (if threshold > 0 then threshold else 1 / 2)\<rparr>))"

definition setThreshold :: "real \<Rightarrow> 's wand_iter \<Rightarrow> 's wand_iter" where
  "setThreshold realThreshold a = a\<lparr>currThreshold := realThreshold\<rparr>"

definition sorter_insert :: "nat \<Rightarrow> nat \<Rightarrow> doc_sorter \<Rightarrow> doc_sorter" where
  "sorter_insert d i m = takeWhile (\<lambda>(k, _). k \<le> d) m @ (d, i) # dropWhile (\<lambda>(k, _). k \<le> d) m"

fun sorter_loop :: "'s iter_ops \<Rightarrow> nat list \<Rightarrow> 's or_children \<Rightarrow> doc_sorter \<Rightarrow> ('s or_children \<times> doc_sorter) option" where
  "sorter_loop ops [] l m = Some (l, m)"
| "sorter_loop ops (i # is) l m =
     (case l ! i of
        None \<Rightarrow> sorter_loop ops is l m
      | Some (s, _) \<Rightarrow> Option.bind (it_next ops s) (\<lambda>(b, s').
          if b then sorter_loop ops is (l[i := Some (s', False)]) (sorter_insert (it_doc ops s') i m)
          else sorter_loop ops is (l[i := None]) m))"

definition initDocIteratorSorter :: "'s iter_ops \<Rightarrow> 's wand_iter \<Rightarrow> 's wand_iter option" where
  "initDocIteratorSorter ops a =
     (if length (wand_list a) < 1 then Some a
      else map_option (\<lambda>(l, m). a\<lparr>wand_list := l, docIteratorSorter := m\<rparr>)
        (sorter_loop ops [0..<length (wand_list a)] (wand_list a) (docIteratorSorter a)))"

text \<open>The first document at which the upper bounds add up to more than the threshold.\<close>

fun findPivot :: "(nat \<Rightarrow> real) \<Rightarrow> real \<Rightarrow> real \<Rightarrow> doc_sorter \<Rightarrow> nat option" where
  "findPivot ub \<theta> sumUB [] = None"
| "findPivot ub \<theta> sumUB ((k, i) # m) = (if sumUB + ub i > \<theta> then Some k else findPivot ub \<theta> (sumUB + ub i) m)"

text \<open>All children before the target are moved to it; \<open>False\<close> if none is left.\<close>

partial_function (option) processPrePostings ::
  "'s iter_ops \<Rightarrow> nat \<Rightarrow> nat \<Rightarrow> 's or_children \<Rightarrow> doc_sorter \<Rightarrow> (bool \<times> 's or_children \<times> doc_sorter) option" where
  "processPrePostings ops mx target l m =
     (case m of
        [] \<Rightarrow> Some (False, l, m)
      | (k, i) # m' \<Rightarrow>
          (case l ! i of
             None \<Rightarrow> None
           | Some (s, c) \<Rightarrow>
               if it_doc ops s < target then
                 Option.bind (it_skipTo ops target s) (\<lambda>(found, s').
                   let l' = l[i := Some (s', c)]
                   in if found = mx \<or> found < target
                      then (if length m' = 0 then Some (False, l', m') else processPrePostings ops mx target l' m')
                      else processPrePostings ops mx target l' (sorter_insert (it_doc ops s') i m'))
               else Some (True, l, m)))"

text \<open>The children on the current document are moved on; \<open>False\<close> if none is left.\<close>

partial_function (option) wand_advance ::
  "'s iter_ops \<Rightarrow> 's or_children \<Rightarrow> doc_sorter \<Rightarrow> (bool \<times> 's or_children \<times> doc_sorter) option" where
  "wand_advance ops l m =
     (case m of
        [] \<Rightarrow> None
      | (k, i) # m' \<Rightarrow>
          (case l ! i of
             None \<Rightarrow> None
           | Some (s, c) \<Rightarrow>
               if \<not> c then Some (True, l, m)
               else Option.bind (it_next ops s) (\<lambda>(b, s').
                 let l' = l[i := Some (s', False)]
                 in if b then wand_advance ops l' (sorter_insert (it_doc ops s') i m')
                    else if length m' = 0 then Some (False, l', m') else wand_advance ops l' m')))"

partial_function (option) wand_do_next ::
  "'s iter_ops \<Rightarrow> (nat \<Rightarrow> real) \<Rightarrow> nat \<Rightarrow> 's wand_iter \<Rightarrow> (bool \<times> 's wand_iter) option" where
  "wand_do_next ops ub mx a =
     Option.bind (if length (docIteratorSorter a) = 0 then initDocIteratorSorter ops a else Some a) (\<lambda>a0.
       if length (docIteratorSorter a0) = 0 then Some (False, a0)
       else Option.bind (wand_advance ops (wand_list a0) (docIteratorSorter a0)) (\<lambda>(b, l, m).
         if \<not> b then Some (False, a0\<lparr>wand_list := l, docIteratorSorter := m\<rparr>)
         else case findPivot ub (currThreshold a0) 0 m of
           None \<Rightarrow> Some (False, a0\<lparr>wand_list := l, docIteratorSorter := m\<rparr>)
         | Some p \<Rightarrow>
             if p \<le> wand_currDoc a0 then
               Option.bind (processPrePostings ops mx (wand_currDoc a0 + 1) l m) (\<lambda>(b', l', m').
                 let a1 = a0\<lparr>wand_list := l', docIteratorSorter := m', pivotDoc := p\<rparr>
                 in if \<not> b' then Some (False, a1) else wand_do_next ops ub mx a1)
             else if child_doc ops l (snd (hd m)) = p then
               Option.bind (processPrePostings ops mx p l m) (\<lambda>(_, l', m').
                 Some (True, a0\<lparr>wand_list := mark_list ops p l', docIteratorSorter := m', pivotDoc := p, wand_currDoc := p\<rparr>))
             else
               Option.bind (processPrePostings ops mx p l m) (\<lambda>(b', l', m').
                 let a1 = a0\<lparr>wand_list := l', docIteratorSorter := m', pivotDoc := p\<rparr>
                 in if \<not> b' then Some (False, a1) else wand_do_next ops ub mx a1)))"

definition clear_flags :: "'s or_children \<Rightarrow> 's or_children" where
  "clear_flags l = map (map_option (\<lambda>(s, _). (s, False))) l"

definition wand_skipTo :: "'s iter_ops \<Rightarrow> (nat \<Rightarrow> real) \<Rightarrow> nat \<Rightarrow> nat \<Rightarrow> 's wand_iter \<Rightarrow> (nat \<times> 's wand_iter) option" where
  "wand_skipTo ops ub mx target a =
     Option.bind (if length (docIteratorSorter a) = 0 then initDocIteratorSorter ops a else Some a) (\<lambda>a0.
       if length (docIteratorSorter a0) = 0 then Some (mx, a0\<lparr>wand_currDoc := mx\<rparr>)
       else Option.bind (processPrePostings ops mx target (clear_flags (wand_list a0)) (docIteratorSorter a0)) (\<lambda>(b, l, m).
         let a1 = a0\<lparr>wand_list := l, docIteratorSorter := m\<rparr>
         in if \<not> b then Some (mx, a1)
            else map_option (\<lambda>(b', a2). if b' then (wand_currDoc a2, a2) else (mx, a2\<lparr>wand_currDoc := mx\<rparr>)) (wand_do_next ops ub mx a1)))"

definition wand_ops :: "'s iter_ops \<Rightarrow> (nat \<Rightarrow> real) \<Rightarrow> nat \<Rightarrow> 's wand_iter iter_ops" where
  "wand_ops ops ub mx = \<lparr>it_next = wand_do_next ops ub mx, it_doc = wand_currDoc, it_skipTo = wand_skipTo ops ub mx\<rparr>"

declare processPrePostings.simps [code] wand_advance.simps [code] wand_do_next.simps [code]

section \<open>The sorter\<close>

definition sorter_ok :: "'s iter_ops \<Rightarrow> nat \<Rightarrow> ('s \<Rightarrow> bool) \<Rightarrow> ('s \<Rightarrow> nat) \<Rightarrow> 's or_children \<Rightarrow> doc_sorter \<Rightarrow> bool" where
  "sorter_ok ops mx ok cur l m \<longleftrightarrow> sorted (map fst m) \<and> distinct (map snd m) \<and>
     (\<forall>p \<in> set m. snd p < length l \<and> (\<exists>s c. l ! snd p = Some (s, c) \<and> child_ok ops mx ok cur s \<and> cur s = fst p))"

text \<open>The children outside the sorter are exhausted.\<close>

definition rest_ok :: "('s \<Rightarrow> bool) \<Rightarrow> ('s \<Rightarrow> nat set) \<Rightarrow> 's or_children \<Rightarrow> nat set \<Rightarrow> bool" where
  "rest_ok ok docs l I \<longleftrightarrow> (\<forall>i < length l. i \<notin> I \<longrightarrow> (\<forall>s c. l ! i = Some (s, c) \<longrightarrow> ok s \<and> docs s = {}))"

lemma rest_ok_upd: "rest_ok ok docs l (insert i I) \<Longrightarrow> ok s \<Longrightarrow> docs s = {} \<Longrightarrow> rest_ok ok docs (l[i := Some (s, c)]) I"
proof -
  assume r: "rest_ok ok docs l (insert i I)" and s: "ok s" "docs s = {}"
  have "ok u \<and> docs u = {}" if j: "j < length l" "j \<notin> I" "l[i := Some (s, c)] ! j = Some (u, b)" for j u b
  proof (cases "j = i")
    case True
    then show ?thesis using j s by simp
  next
    case False
    then show ?thesis using r j by (auto simp: rest_ok_def)
  qed
  then show ?thesis by (simp add: rest_ok_def)
qed

text \<open>The sum of the upper bounds of the children in the sorter that have \<open>d\<close>, by \<open>g\<close>.\<close>

definition weight :: "(nat \<Rightarrow> real) \<Rightarrow> (('s \<times> bool) option \<Rightarrow> nat set) \<Rightarrow> 's or_children \<Rightarrow> doc_sorter \<Rightarrow> nat \<Rightarrow> real" where
  "weight ub g l m d = (\<Sum>p \<in># mset m. if d \<in> g (l ! snd p) then ub (snd p) else 0)"

lemma weight_Nil [simp]: "weight ub g l [] d = 0"
  by (simp add: weight_def)

lemma weight_Cons: "weight ub g l ((k, i) # m) d = (if d \<in> g (l ! i) then ub i else 0) + weight ub g l m d"
  by (simp add: weight_def)

lemma mset_sorter_insert [simp]: "mset (sorter_insert d i m) = add_mset (d, i) (mset m)"
proof -
  have "mset m = mset (takeWhile (\<lambda>(k, _). k \<le> d) m) + mset (dropWhile (\<lambda>(k, _). k \<le> d) m)"
    by (metis mset_append takeWhile_dropWhile_id)
  then show ?thesis by (simp add: sorter_insert_def)
qed

lemma set_sorter_insert [simp]: "set (sorter_insert d i m) = insert (d, i) (set m)"
  by (metis mset_sorter_insert set_mset_add_mset_insert set_mset_mset)

lemma sorter_insert_nonempty [simp]: "sorter_insert d i m \<noteq> []"
  by (simp add: sorter_insert_def)

lemma distinct_sorter_insert: "distinct (map snd (sorter_insert d i m)) \<longleftrightarrow> i \<notin> snd ` set m \<and> distinct (map snd m)"
proof -
  have "mset (map snd (sorter_insert d i m)) = mset (i # map snd m)" by simp
  from mset_eq_imp_distinct_iff [OF this] show ?thesis by simp
qed

lemma sorted_sorter_insert: "sorted (map fst m) \<Longrightarrow> sorted (map fst (sorter_insert d i m))"
proof (induction m)
  case (Cons p m)
  obtain k j where p: "p = (k, j)" by (cases p)
  show ?case
  proof (cases "k \<le> d")
    case True
    then have "sorter_insert d i (p # m) = p # sorter_insert d i m" by (simp add: p sorter_insert_def)
    then show ?thesis using Cons True by (auto simp: p)
  next
    case False
    then show ?thesis using Cons.prems by (auto simp: p sorter_insert_def)
  qed
qed (simp add: sorter_insert_def)

lemma weight_insert: "weight ub g l (sorter_insert d' i m) d = (if d \<in> g (l ! i) then ub i else 0) + weight ub g l m d"
  by (simp add: weight_def)

lemma weight_upd: "i \<notin> snd ` set m \<Longrightarrow> weight ub g (l[i := x]) m d = weight ub g l m d"
proof -
  assume i: "i \<notin> snd ` set m"
  have "l[i := x] ! snd p = l ! snd p" if "p \<in># mset m" for p
  proof -
    have "snd p \<noteq> i" using i that by force
    then show ?thesis by simp
  qed
  then show ?thesis unfolding weight_def by (intro arg_cong [where f = sum_mset] image_mset_cong) simp
qed

lemma weight_cong: "(\<And>p. p \<in> set m \<Longrightarrow> d \<in> g (l ! snd p) \<longleftrightarrow> d \<in> g' (l' ! snd p)) \<Longrightarrow> weight ub g l m d = weight ub g' l' m d"
  unfolding weight_def by (intro arg_cong [where f = sum_mset] image_mset_cong) simp

lemma weight_nonneg: "\<forall>i. 0 \<le> ub i \<Longrightarrow> 0 \<le> weight ub g l m d"
  unfolding weight_def by (induction m) auto

lemma weight_le: "\<forall>i. 0 \<le> ub i \<Longrightarrow> weight ub g l m d \<le> sum_list (map (ub \<circ> snd) m)"
  unfolding weight_def by (induction m) (auto intro: add_increasing)

lemma weight_pos: "\<forall>i. 0 \<le> ub i \<Longrightarrow> 0 < weight ub g l m d \<Longrightarrow> \<exists>p \<in> set m. d \<in> g (l ! snd p)"
proof (rule ccontr)
  assume w: "0 < weight ub g l m d" and "\<not> (\<exists>p \<in> set m. d \<in> g (l ! snd p))"
  then have "weight ub g l m d = 0" unfolding weight_def by (induction m) auto
  with w show False by simp
qed

lemma sorter_ok_ConsD:
  assumes "sorter_ok ops mx ok cur l ((k, i) # m)"
  obtains s c where "i < length l" "l ! i = Some (s, c)" "child_ok ops mx ok cur s" "cur s = k" "i \<notin> snd ` set m"
    "sorter_ok ops mx ok cur l m" "\<forall>q \<in> set m. k \<le> fst q"
  using assms by (auto simp: sorter_ok_def)

lemma sorter_ok_upd: "sorter_ok ops mx ok cur l m \<Longrightarrow> i \<notin> snd ` set m \<Longrightarrow> sorter_ok ops mx ok cur (l[i := x]) m"
proof -
  assume m: "sorter_ok ops mx ok cur l m" and i: "i \<notin> snd ` set m"
  have "l[i := x] ! snd p = l ! snd p" if "p \<in> set m" for p
  proof -
    have "snd p \<noteq> i" using i that by force
    then show ?thesis by simp
  qed
  then show ?thesis using m by (simp add: sorter_ok_def)
qed

lemma sorter_ok_insert:
  assumes "sorter_ok ops mx ok cur l m" and "i \<notin> snd ` set m" and "i < length l" and "child_ok ops mx ok cur s"
  shows "sorter_ok ops mx ok cur (l[i := Some (s, c)]) (sorter_insert (it_doc ops s) i m)"
proof -
  note u = sorter_ok_upd [OF assms(1,2), of "Some (s, c)"]
  have "it_doc ops s = cur s" using assms(4) by (simp add: child_ok_def)
  then show ?thesis using u assms(2-4)
    unfolding sorter_ok_def distinct_sorter_insert set_sorter_insert by (simp add: sorted_sorter_insert)
qed

text \<open>The pivot: what lies before it weighs too little, together with it the sorter weighs enough.\<close>

lemma findPivot_Some:
  "findPivot ub \<theta> w m = Some p \<Longrightarrow> w \<le> \<theta> \<Longrightarrow>
    \<exists>m1 i m2. m = m1 @ (p, i) # m2 \<and> w + sum_list (map (ub \<circ> snd) m1) \<le> \<theta> \<and> \<theta> < w + sum_list (map (ub \<circ> snd) (m1 @ [(p, i)]))"
proof (induction m arbitrary: w)
  case (Cons q m)
  obtain k i where q: "q = (k, i)" by (cases q)
  show ?case
  proof (cases "w + ub i > \<theta>")
    case True
    then have "q # m = [] @ (p, i) # m" using Cons.prems(1) by (simp add: q)
    moreover have "w + sum_list (map (ub \<circ> snd) []) \<le> \<theta>" "\<theta> < w + sum_list (map (ub \<circ> snd) ([] @ [(p, i)]))" using True Cons.prems(2) by simp_all
    ultimately show ?thesis by blast
  next
    case False
    then have "findPivot ub \<theta> (w + ub i) m = Some p" "w + ub i \<le> \<theta>" using Cons.prems(1) by (simp_all add: q)
    from Cons.IH [OF this] obtain m1 j m2 where m: "m = m1 @ (p, j) # m2" "w + ub i + sum_list (map (ub \<circ> snd) m1) \<le> \<theta>"
      "\<theta> < w + ub i + sum_list (map (ub \<circ> snd) (m1 @ [(p, j)]))" by blast
    then have "q # m = (q # m1) @ (p, j) # m2" "w + sum_list (map (ub \<circ> snd) (q # m1)) \<le> \<theta>"
      "\<theta> < w + sum_list (map (ub \<circ> snd) ((q # m1) @ [(p, j)]))" by (simp_all add: q o_def)
    then show ?thesis by blast
  qed
qed simp

lemma findPivot_None: "findPivot ub \<theta> w m = None \<Longrightarrow> w \<le> \<theta> \<Longrightarrow> w + sum_list (map (ub \<circ> snd) m) \<le> \<theta>"
proof (induction m arbitrary: w)
  case (Cons q m)
  obtain k i where q: "q = (k, i)" by (cases q)
  then have "\<not> w + ub i > \<theta>" "findPivot ub \<theta> (w + ub i) m = None" using Cons.prems(1) by (simp_all split: if_splits)
  with Cons.IH [of "w + ub i"] show ?case by (simp add: q add.assoc)
qed simp

definition no_flags :: "'s or_children \<Rightarrow> doc_sorter \<Rightarrow> bool" where
  "no_flags l m \<longleftrightarrow> (\<forall>p \<in> set m. \<forall>s c. l ! snd p = Some (s, c) \<longrightarrow> \<not> c)"

definition doc_count :: "('s \<Rightarrow> nat set) \<Rightarrow> ('s \<times> bool) option \<Rightarrow> nat" where
  "doc_count docs x = (case x of Some (s, _) \<Rightarrow> card (docs s) | None \<Rightarrow> 0)"

definition sorter_size :: "('s \<Rightarrow> nat set) \<Rightarrow> 's or_children \<Rightarrow> doc_sorter \<Rightarrow> nat" where
  "sorter_size docs l m = (\<Sum>p \<in># mset m. Suc (doc_count docs (l ! snd p)))"

lemma no_flags_upd: "i \<notin> snd ` set m \<Longrightarrow> no_flags (l[i := x]) m = no_flags l m"
proof -
  assume i: "i \<notin> snd ` set m"
  have "l[i := x] ! snd p = l ! snd p" if "p \<in> set m" for p
  proof -
    have "snd p \<noteq> i" using i that by force
    then show ?thesis by simp
  qed
  then show ?thesis by (simp add: no_flags_def)
qed

lemma sorter_size_upd: "i \<notin> snd ` set m \<Longrightarrow> sorter_size docs (l[i := x]) m = sorter_size docs l m"
proof -
  assume i: "i \<notin> snd ` set m"
  have "l[i := x] ! snd p = l ! snd p" if "p \<in># mset m" for p
  proof -
    have "snd p \<noteq> i" using i that by force
    then show ?thesis by simp
  qed
  then show ?thesis unfolding sorter_size_def by (intro arg_cong [where f = sum_mset] image_mset_cong) simp
qed

context doc_iterator
begin

definition wand_inv :: "'a or_children \<Rightarrow> doc_sorter \<Rightarrow> bool" where
  "wand_inv l m \<longleftrightarrow> sorter_ok ops mx ok cur l m \<and> rest_ok ok docs l (snd ` set m)"

lemma wand_front:
  assumes "wand_inv l ((k, i) # m)"
  obtains s c where "i < length l" "l ! i = Some (s, c)" "child_ok ops mx ok cur s" "ok s" "it_doc ops s = k" "cur s = k" "i \<notin> snd ` set m"
    "\<forall>q \<in> set m. k \<le> fst q"
proof -
  have "sorter_ok ops mx ok cur l ((k, i) # m)" using assms by (simp add: wand_inv_def)
  then show ?thesis by (rule sorter_ok_ConsD) (use that in \<open>auto simp: child_ok_def\<close>)
qed

lemma wand_keys: "wand_inv l m \<Longrightarrow> p \<in> set m \<Longrightarrow> \<exists>s c. snd p < length l \<and> l ! snd p = Some (s, c) \<and> child_ok ops mx ok cur s \<and> cur s = fst p"
  unfolding wand_inv_def sorter_ok_def by blast

text \<open>The front child moves to another document, or leaves the sorter.\<close>

lemma move_front:
  assumes "wand_inv l ((k, i) # m)" and "child_ok ops mx ok cur s" and "l' = l[i := Some (s, c)]" and "m' = sorter_insert (it_doc ops s) i m"
  shows "wand_inv l' m'" and "weight ub g l' m' d = (if d \<in> g (Some (s, c)) then ub i else 0) + weight ub g l m d"
    and "sorter_size docs l' m' = Suc (card (docs s)) + sorter_size docs l m"
    and "no_flags l' m' \<longleftrightarrow> \<not> c \<and> no_flags l m"
proof -
  from assms(1) have w: "sorter_ok ops mx ok cur l ((k, i) # m)" "rest_ok ok docs l (insert i (snd ` set m))" by (simp_all add: wand_inv_def)
  from sorter_ok_ConsD [OF w(1)] have i: "i < length l" "i \<notin> snd ` set m" "sorter_ok ops mx ok cur l m" by blast+
  have "rest_ok ok docs l' (snd ` set m')" using w(2) unfolding rest_ok_def assms(3,4) by (auto simp: nth_list_update)
  then show "wand_inv l' m'" using sorter_ok_insert [OF i(3,2,1) assms(2)] by (simp add: wand_inv_def assms(3,4))
  show "weight ub g l' m' d = (if d \<in> g (Some (s, c)) then ub i else 0) + weight ub g l m d"
    using i(1) weight_upd [OF i(2)] by (simp add: assms(3,4) weight_insert)
  show "sorter_size docs l' m' = Suc (card (docs s)) + sorter_size docs l m"
    using i(1) sorter_size_upd [OF i(2), of docs l "Some (s, c)"] by (simp add: sorter_size_def assms(3,4) doc_count_def)
  show "no_flags l' m' \<longleftrightarrow> \<not> c \<and> no_flags l m"
    using no_flags_upd [OF i(2), of l "Some (s, c)"] i(1) by (simp add: no_flags_def assms(3,4))
qed

lemma drop_front:
  assumes "wand_inv l ((k, i) # m)" and "ok s" and "docs s = {}" and "l' = l[i := Some (s, c)]"
  shows "wand_inv l' m" and "weight ub g l' m d = weight ub g l m d" and "sorter_size docs l' m = sorter_size docs l m" and "no_flags l' m = no_flags l m"
proof -
  from assms(1) have w: "sorter_ok ops mx ok cur l ((k, i) # m)" "rest_ok ok docs l (insert i (snd ` set m))" by (simp_all add: wand_inv_def)
  from sorter_ok_ConsD [OF w(1)] have i: "i < length l" "i \<notin> snd ` set m" "sorter_ok ops mx ok cur l m" by blast+
  have "rest_ok ok docs l' (snd ` set m)" unfolding assms(4) by (rule rest_ok_upd [OF w(2) assms(2,3)])
  then show "wand_inv l' m" using sorter_ok_upd [OF i(3,2)] by (simp add: wand_inv_def assms(4))
  show "weight ub g l' m d = weight ub g l m d" unfolding assms(4) by (rule weight_upd [OF i(2)])
  show "sorter_size docs l' m = sorter_size docs l m" unfolding assms(4) by (rule sorter_size_upd [OF i(2)])
  show "no_flags l' m = no_flags l m" unfolding assms(4) by (rule no_flags_upd [OF i(2)])
qed

lemma sorter_size_Cons: "l ! i = Some (s, c) \<Longrightarrow> sorter_size docs l ((k, i) # m) = Suc (card (docs s)) + sorter_size docs l m"
  by (simp add: sorter_size_def doc_count_def)

lemma prePostings_spec:
  assumes "wand_inv l m" and "m \<noteq> []" and "t < mx" and "no_flags l m"
  shows "\<exists>b l' m'. processPrePostings ops mx t l m = Some (b, l', m') \<and> wand_inv l' m' \<and> b = (m' \<noteq> []) \<and> length l' = length l \<and>
    (\<forall>p \<in> set m'. t \<le> fst p) \<and> no_flags l' m' \<and> (\<forall>d \<ge> t. weight ub (head_docs docs cur) l' m' d = weight ub (head_docs docs cur) l m d) \<and>
    (if fst (hd m) < t then sorter_size docs l' m' < sorter_size docs l m else l' = l \<and> m' = m)"
  using assms
proof (induction "sorter_size docs l m" arbitrary: l m rule: less_induct)
  case less
  note prems = less.prems
  let ?h = "head_docs docs cur"
  obtain k i m1 where m: "m = (k, i) # m1" using prems(2) by (cases m) auto
  from wand_front [OF prems(1) [unfolded m]] obtain s c where
    i: "i < length l" "l ! i = Some (s, c)" "child_ok ops mx ok cur s" "ok s" "it_doc ops s = k" "cur s = k" "i \<notin> snd ` set m1" "\<forall>q \<in> set m1. k \<le> fst q" .
  have c: "\<not> c" "no_flags l m1" using prems(4) i(2) by (auto simp: no_flags_def m)
  show ?case
  proof (cases "k < t")
    case False
    then have "\<forall>p \<in> set m. t \<le> fst p" using i(8) by (auto simp: m)
    moreover have "processPrePostings ops mx t l m = Some (True, l, m)" using False i(2,5) by (simp add: processPrePostings.simps [of _ _ _ l "(k, i) # m1"] m)
    ultimately show ?thesis using False prems by (intro exI [of _ True] exI [of _ l] exI [of _ m]) (simp add: m)
  next
    case True
    have size: "sorter_size docs l m = Suc (card (docs s)) + sorter_size docs l m1" unfolding m by (rule sorter_size_Cons [OF i(2)])
    have "cur s < t" using True i(6) by simp
    from i(4) this prems(3) show ?thesis
    proof (cases rule: skip_cases)
      case (End s')
      let ?l = "l[i := Some (s', c)]"
      note r = drop_front [OF prems(1) [unfolded m] End(2,3) refl, where c = c]
      have eq: "processPrePostings ops mx t l m = (if m1 = [] then Some (False, ?l, m1) else processPrePostings ops mx t ?l m1)"
        using True i(2,5) End(1) by (simp add: processPrePostings.simps [of _ _ _ l "(k, i) # m1"] m Let_def)
      have w: "weight ub ?h ?l m1 d = weight ub ?h l m d" if "t \<le> d" for d
        using that End(4) True i(2,6) r(2) [of ub ?h d] by (auto simp: m weight_Cons)
      show ?thesis
      proof (cases "m1 = []")
        case e: True
        then show ?thesis using r(1,3,4) w size c(2) True unfolding eq
          by (intro exI [of _ False] exI [of _ ?l] exI [of _ "[]"]) (simp add: m)
      next
        case ne: False
        have "sorter_size docs ?l m1 < sorter_size docs l m" using r(3) size by simp
        moreover have "no_flags ?l m1" using r(4) c(2) by simp
        ultimately obtain b l' m' where
          "processPrePostings ops mx t ?l m1 = Some (b, l', m')" "wand_inv l' m'" "b = (m' \<noteq> [])" "length l' = length ?l"
          "\<forall>p \<in> set m'. t \<le> fst p" "no_flags l' m'" "\<forall>d \<ge> t. weight ub ?h l' m' d = weight ub ?h ?l m1 d"
          "if fst (hd m1) < t then sorter_size docs l' m' < sorter_size docs ?l m1 else l' = ?l \<and> m' = m1"
          using less.hyps [of ?l m1] r(1) ne prems(3) by blast
        then show ?thesis unfolding eq using ne w r(3) size True
          by (intro exI [of _ b] exI [of _ l'] exI [of _ m']) (auto simp: m split: if_splits)
      qed
    next
      case (Doc d s')
      let ?l = "l[i := Some (s', c)]" and ?m = "sorter_insert (it_doc ops s') i m1"
      have co: "child_ok ops mx ok cur s'" using Doc by (simp add: child_ok_def)
      note r = move_front [OF prems(1) [unfolded m] co refl refl, where c = c]
      have eq: "processPrePostings ops mx t l m = processPrePostings ops mx t ?l ?m"
        using True i(2,5) Doc(1,7,8) by (simp add: processPrePostings.simps [of _ _ _ l "(k, i) # m1"] m Let_def)
      have d: "d \<in> docs s" "finite (docs s)" using Doc(6) finite_docs [OF i(4)] by (simp_all add: least_in_def)
      have "docs s' \<subset> docs s" using d(1) Doc(5) by auto
      then have sz: "sorter_size docs ?l ?m < sorter_size docs l m" using r(3) size psubset_card_mono [OF d(2)] by simp
      have w: "weight ub ?h ?l ?m e = weight ub ?h l m e" if "t \<le> e" for e
      proof -
        have "e \<in> ?h (Some (s', c)) \<longleftrightarrow> e \<in> ?h (l ! i)" using that Doc(4-7) i(2,6) True by (auto simp: least_in_def le_less)
        then show ?thesis using r(2) [of ub ?h e] by (simp add: m weight_Cons)
      qed
      have "no_flags ?l ?m" using r(4) c by simp
      from less.hyps [OF sz r(1) _ prems(3) this] obtain b l' m' where
        "processPrePostings ops mx t ?l ?m = Some (b, l', m')" "wand_inv l' m'" "b = (m' \<noteq> [])" "length l' = length ?l"
        "\<forall>p \<in> set m'. t \<le> fst p" "no_flags l' m'" "\<forall>d \<ge> t. weight ub ?h l' m' d = weight ub ?h ?l ?m d"
        "if fst (hd ?m) < t then sorter_size docs l' m' < sorter_size docs ?l ?m else l' = ?l \<and> m' = ?m" by auto
      then show ?thesis unfolding eq using w sz True
        by (intro exI [of _ b] exI [of _ l'] exI [of _ m']) (auto simp: m split: if_splits)
    qed
  qed
qed

end

section \<open>Delivering documents\<close>

lemma flags_ok_upd: "i \<notin> I \<Longrightarrow> flags_ok cur c (l[i := x]) I = flags_ok cur c l I"
proof -
  assume i: "i \<notin> I"
  have "l[i := x] ! j = l ! j" if "j \<in> I" for j
  proof -
    have "j \<noteq> i" using i that by blast
    then show ?thesis by simp
  qed
  then show ?thesis by (simp add: flags_ok_def)
qed

lemma weight_append: "weight ub g l (m1 @ m2) d = weight ub g l m1 d + weight ub g l m2 d"
  by (simp add: weight_def)

lemma weight_all: "\<forall>p \<in> set m. d \<in> g (l ! snd p) \<Longrightarrow> weight ub g l m d = sum_list (map (ub \<circ> snd) m)"
  by (induction m) (auto simp: weight_def)

lemma weight_none: "\<forall>p \<in> set m. d \<notin> g (l ! snd p) \<Longrightarrow> weight ub g l m d = 0"
  by (induction m) (auto simp: weight_def)

context doc_iterator
begin

lemma head_from:
  assumes "wand_inv l m" and "p \<in> set m" and "d \<in> head_docs docs cur (l ! snd p)"
  shows "fst p \<le> d \<and> d < mx"
proof -
  from wand_keys [OF assms(1,2)] obtain s c where s: "l ! snd p = Some (s, c)" "child_ok ops mx ok cur s" "cur s = fst p" by blast
  then show ?thesis using assms(3) docs_range [of s d] by (auto simp: child_ok_def)
qed

lemma key_in_head: "wand_inv l m \<Longrightarrow> p \<in> set m \<Longrightarrow> fst p \<in> head_docs docs cur (l ! snd p)"
  using wand_keys [of l m p] by auto

lemma flags_unset: "wand_inv l m \<Longrightarrow> no_flags l m \<Longrightarrow> \<forall>p \<in> set m. c < fst p \<Longrightarrow> flags_ok cur c l (snd ` set m)"
  unfolding flags_ok_def no_flags_def using wand_keys by fastforce

lemma unset_pend: "wand_inv l m \<Longrightarrow> no_flags l m \<Longrightarrow> weight ub (pend_docs docs cur) l m d = weight ub (head_docs docs cur) l m d"
proof (rule weight_cong)
  fix p
  assume "wand_inv l m" "no_flags l m" "p \<in> set m"
  then obtain s where "l ! snd p = Some (s, False)" using wand_keys [of l m p] by (auto simp: no_flags_def)
  then show "d \<in> pend_docs docs cur (l ! snd p) \<longleftrightarrow> d \<in> head_docs docs cur (l ! snd p)" by simp
qed

lemma wand_advance_spec:
  assumes "wand_inv l m" and "m \<noteq> []" and "flags_ok cur c l (snd ` set m)"
  shows "\<exists>b l' m'. wand_advance ops l m = Some (b, l', m') \<and> wand_inv l' m' \<and> b = (m' \<noteq> []) \<and> length l' = length l \<and>
    (\<forall>p \<in> set m'. c < fst p) \<and> no_flags l' m' \<and> (\<forall>d. weight ub (head_docs docs cur) l' m' d = weight ub (pend_docs docs cur) l m d) \<and>
    sorter_size docs l' m' \<le> sorter_size docs l m"
  using assms
proof (induction "sorter_size docs l m" arbitrary: l m rule: less_induct)
  case less
  note prems = less.prems
  let ?h = "head_docs docs cur" and ?p = "pend_docs docs cur"
  obtain k i m1 where m: "m = (k, i) # m1" using prems(2) by (cases m) auto
  from wand_front [OF prems(1) [unfolded m]] obtain s b where
    i: "i < length l" "l ! i = Some (s, b)" "child_ok ops mx ok cur s" "ok s" "it_doc ops s = k" "cur s = k" "i \<notin> snd ` set m1" "\<forall>q \<in> set m1. k \<le> fst q" .
  have b: "b \<longleftrightarrow> k = c" "c \<le> k" using prems(3) i(2,6) by (auto simp: flags_ok_def m)
  have f1: "flags_ok cur c l (snd ` set m1)" using prems(3) by (simp add: flags_ok_def m)
  show ?case
  proof (cases b)
    case False
    then have k: "\<forall>p \<in> set m. c < fst p" using b i(8) by (auto simp: m)
    have nf: "no_flags l m"
      unfolding no_flags_def using k prems(3) wand_keys [OF prems(1)] by (fastforce simp: flags_ok_def)
    have "wand_advance ops l m = Some (True, l, m)" using False i(2) by (simp add: wand_advance.simps [of _ l "(k, i) # m1"] m)
    then show ?thesis using prems(1,2) k nf unset_pend [OF prems(1) nf] by (intro exI [of _ True] exI [of _ l] exI [of _ m]) simp
  next
    case True
    have size: "sorter_size docs l m = Suc (card (docs s)) + sorter_size docs l m1" unfolding m by (rule sorter_size_Cons [OF i(2)])
    have w: "weight ub ?p l m d = (if d \<in> docs s then ub i else 0) + weight ub ?p l m1 d" for d
      using True i(2) by (simp add: m weight_Cons)
    show ?thesis
    proof (cases "docs s = {}")
      case e: True
      from next_end [OF i(4) e] obtain s' where n: "it_next ops s = Some (False, s')" "ok s'" "docs s' = {}" by blast
      let ?l = "l[i := Some (s', False)]"
      note r = drop_front [OF prems(1) [unfolded m] n(2,3) refl, where c = False]
      have eq: "wand_advance ops l m = (if m1 = [] then Some (False, ?l, m1) else wand_advance ops ?l m1)"
        using True i(2) n(1) by (simp add: wand_advance.simps [of _ l "(k, i) # m1"] m Let_def)
      show ?thesis
      proof (cases "m1 = []")
        case n1: True
        have "wand_inv ?l []" using r(1) n1 by simp
        moreover have "weight ub ?p l m d = 0" for d using w e n1 by simp
        ultimately show ?thesis unfolding eq using n1
          by (intro exI [of _ False] exI [of _ ?l] exI [of _ "[]"]) (simp add: no_flags_def sorter_size_def)
      next
        case ne: False
        have "flags_ok cur c ?l (snd ` set m1)" unfolding flags_ok_upd [OF i(7)] by (rule f1)
        moreover have "sorter_size docs ?l m1 < sorter_size docs l m" using r(3) size by simp
        ultimately obtain b' l' m' where
          "wand_advance ops ?l m1 = Some (b', l', m')" "wand_inv l' m'" "b' = (m' \<noteq> [])" "length l' = length ?l" "\<forall>p \<in> set m'. c < fst p"
          "no_flags l' m'" "\<forall>d. weight ub ?h l' m' d = weight ub ?p ?l m1 d" "sorter_size docs l' m' \<le> sorter_size docs ?l m1"
          using less.hyps [of ?l m1] r(1) ne by blast
        then show ?thesis unfolding eq using ne r(2,3) w size e by (intro exI [of _ b'] exI [of _ l'] exI [of _ m']) simp
      qed
    next
      case False
      from least_in_exists [OF this] obtain d where d: "least_in (docs s) d" ..
      from next_doc [OF i(4) d] obtain s' where
        n: "it_next ops s = Some (True, s')" "ok s'" "it_doc ops s' = d" "cur s' = d" "docs s' = docs s - {d}" by blast
      have dm: "d \<in> docs s" "k < d" "d < mx" using docs_range [OF i(4), of d] d i(6) by (auto simp: least_in_def)
      let ?l = "l[i := Some (s', False)]" and ?m = "sorter_insert (it_doc ops s') i m1"
      have co: "child_ok ops mx ok cur s'" using n dm by (simp add: child_ok_def)
      note r = move_front [OF prems(1) [unfolded m] co refl refl, where c = False]
      have eq: "wand_advance ops l m = wand_advance ops ?l ?m"
        using True i(2) n(1) by (simp add: wand_advance.simps [of _ l "(k, i) # m1"] m Let_def)
      have "flags_ok cur c ?l (snd ` set ?m)"
        using f1 flags_ok_upd [OF i(7), of cur c l "Some (s', False)"] b True dm(2) n(4) i(1) by (simp add: flags_ok_def)
      moreover have sz: "sorter_size docs ?l ?m < sorter_size docs l m"
        using r(3) size card_Diff1_less [OF finite_docs [OF i(4)] dm(1)] n(5) by simp
      ultimately obtain b' l' m' where
        "wand_advance ops ?l ?m = Some (b', l', m')" "wand_inv l' m'" "b' = (m' \<noteq> [])" "length l' = length ?l" "\<forall>p \<in> set m'. c < fst p"
        "no_flags l' m'" "\<forall>d. weight ub ?h l' m' d = weight ub ?p ?l ?m d" "sorter_size docs l' m' \<le> sorter_size docs ?l ?m"
        using less.hyps [of ?l ?m] r(1) by auto
      moreover have "e \<in> ?p (Some (s', False)) \<longleftrightarrow> e \<in> docs s" for e using n(4,5) dm(1) by auto
      then have "weight ub ?p ?l ?m e = weight ub ?p l m e" for e unfolding r(2) w by presburger
      ultimately show ?thesis unfolding eq using sz by (intro exI [of _ b'] exI [of _ l'] exI [of _ m']) simp
    qed
  qed
qed

end

text \<open>The invariant of the iterator for the upper bounds \<open>ub\<close>, and what it still delivers.\<close>

definition wand_weight :: "(nat \<Rightarrow> real) \<Rightarrow> ('s \<Rightarrow> nat set) \<Rightarrow> ('s \<Rightarrow> nat) \<Rightarrow> 's wand_iter \<Rightarrow> nat \<Rightarrow> real" where
  "wand_weight ub docs cur a d =
     (if docIteratorSorter a = [] then weight ub (fresh_docs docs) (wand_list a) (map (Pair 0) [0..<length (wand_list a)]) d
      else weight ub (pend_docs docs cur) (wand_list a) (docIteratorSorter a) d)"

definition wand_docs :: "(nat \<Rightarrow> real) \<Rightarrow> ('s \<Rightarrow> nat set) \<Rightarrow> ('s \<Rightarrow> nat) \<Rightarrow> 's wand_iter \<Rightarrow> nat set" where
  "wand_docs ub docs cur a = {d. currThreshold a < wand_weight ub docs cur a d}"

context doc_iterator
begin

definition wand_dead :: "(nat \<Rightarrow> real) \<Rightarrow> 'a wand_iter \<Rightarrow> bool" where
  "wand_dead ub a \<longleftrightarrow> wand_inv (wand_list a) (docIteratorSorter a) \<and> no_flags (wand_list a) (docIteratorSorter a) \<and>
     sum_list (map (ub \<circ> snd) (docIteratorSorter a)) \<le> currThreshold a"

definition wand_fresh :: "'a wand_iter \<Rightarrow> bool" where
  "wand_fresh a \<longleftrightarrow> docIteratorSorter a = [] \<and>
     (\<forall>i < length (wand_list a). \<forall>s c. wand_list a ! i = Some (s, c) \<longrightarrow> ok s \<and> (\<forall>d \<in> docs s. wand_currDoc a < d))"

definition wand_live :: "'a wand_iter \<Rightarrow> bool" where
  "wand_live a \<longleftrightarrow> docIteratorSorter a \<noteq> [] \<and> wand_inv (wand_list a) (docIteratorSorter a) \<and>
     flags_ok cur (wand_currDoc a) (wand_list a) (snd ` set (docIteratorSorter a))"

definition wand_ok :: "(nat \<Rightarrow> real) \<Rightarrow> 'a wand_iter \<Rightarrow> bool" where
  "wand_ok ub a \<longleftrightarrow> 0 \<le> currThreshold a \<and> (wand_dead ub a \<or> wand_fresh a \<or> wand_live a)"

text \<open>A step that finds the least document of \<open>D\<close>, or the end if there is none.\<close>

definition wand_step :: "(nat \<Rightarrow> real) \<Rightarrow> nat set \<Rightarrow> bool \<Rightarrow> 'a wand_iter \<Rightarrow> bool" where
  "wand_step ub D b a \<longleftrightarrow>
     (if D = {} then \<not> b \<and> wand_dead ub a
      else b \<and> wand_live a \<and> least_in D (wand_currDoc a) \<and> wand_docs ub docs cur a = D - {wand_currDoc a})"

lemma exhausted:
  assumes "wand_inv (wand_list a) []" and "docIteratorSorter a = []" and "0 \<le> currThreshold a"
  shows "wand_step ub {} False a"
  using assms by (simp add: wand_step_def wand_dead_def no_flags_def)

lemma dead_docs:
  assumes "wand_dead ub a" and "0 \<le> currThreshold a" and "\<forall>i. 0 \<le> ub i"
  shows "wand_docs ub docs cur a = {}"
proof (cases "docIteratorSorter a = []")
  case True
  then have "wand_inv (wand_list a) []" using assms(1) by (simp add: wand_dead_def)
  then have r: "ok s \<and> docs s = {}" if "i < length (wand_list a)" "wand_list a ! i = Some (s, c)" for i s c
    using that by (simp add: wand_inv_def rest_ok_def)
  have "fresh_docs docs (wand_list a ! i) = {}" if "i < length (wand_list a)" for i
    using r [OF that] by (cases "wand_list a ! i") auto
  then have "weight ub (fresh_docs docs) (wand_list a) (map (Pair 0) [0..<length (wand_list a)]) d = 0" for d
    by (intro weight_none) auto
  then show ?thesis using True assms(2) by (simp add: wand_docs_def wand_weight_def)
next
  case False
  have "weight ub (pend_docs docs cur) (wand_list a) (docIteratorSorter a) d \<le> currThreshold a" for d
    using weight_le [OF assms(3), of "pend_docs docs cur" "wand_list a" "docIteratorSorter a" d] assms(1) by (simp add: wand_dead_def)
  then show ?thesis using False by (auto simp: wand_docs_def wand_weight_def not_less)
qed

text \<open>Nothing before the pivot is heavy enough; the pivot itself is, if the front child is on it.\<close>

lemma pivot_bounds:
  assumes "wand_inv l m" and "findPivot ub \<theta> 0 m = Some p" and "\<forall>i. 0 \<le> ub i" and "0 \<le> \<theta>"
  shows "\<theta> < weight ub (head_docs docs cur) l m d \<Longrightarrow> p \<le> d" and "fst (hd m) = p \<Longrightarrow> \<theta> < weight ub (head_docs docs cur) l m p"
    and "p \<in> fst ` set m"
proof -
  let ?h = "head_docs docs cur"
  from findPivot_Some [OF assms(2,4)] obtain m1 i m2 where
    m: "m = m1 @ (p, i) # m2" and le: "sum_list (map (ub \<circ> snd) m1) \<le> \<theta>" and gt: "\<theta> < sum_list (map (ub \<circ> snd) (m1 @ [(p, i)]))" by auto
  have srt: "\<forall>q \<in> set m1. fst q \<le> p" "\<forall>q \<in> set m2. p \<le> fst q"
    using assms(1) by (auto simp: wand_inv_def sorter_ok_def m sorted_append)
  show "p \<in> fst ` set m" by (simp add: m)
  show "p \<le> d" if w: "\<theta> < weight ub ?h l m d"
  proof (rule ccontr)
    assume "\<not> p \<le> d"
    have "d \<notin> ?h (l ! snd q)" if q: "q \<in> set ((p, i) # m2)" for q
    proof
      assume "d \<in> ?h (l ! snd q)"
      moreover have "q \<in> set m" "p \<le> fst q" using q srt(2) by (auto simp: m)
      ultimately show False using head_from [OF assms(1)] \<open>\<not> p \<le> d\<close> by (meson order_trans)
    qed
    then have "weight ub ?h l ((p, i) # m2) d = 0" by (intro weight_none) blast
    then have "weight ub ?h l m d = weight ub ?h l m1 d" unfolding m weight_append by simp
    also have "\<dots> \<le> \<theta>" using weight_le [OF assms(3), of ?h l m1 d] le by simp
    finally show False using w by simp
  qed
  show "\<theta> < weight ub ?h l m p" if h: "fst (hd m) = p"
  proof -
    have "p \<le> fst q" if "q \<in> set m1" for q
    proof -
      have "fst (hd m) \<le> fst q" using assms(1) that by (cases m1) (auto simp: wand_inv_def sorter_ok_def m)
      then show ?thesis using h by simp
    qed
    then have "fst q = p" if "q \<in> set (m1 @ [(p, i)])" for q using that srt(1) by fastforce
    then have "\<forall>q \<in> set (m1 @ [(p, i)]). p \<in> ?h (l ! snd q)" using key_in_head [OF assms(1)] by (fastforce simp: m)
    from weight_all [OF this] have "\<theta> < weight ub ?h l (m1 @ [(p, i)]) p" using gt by simp
    moreover have "weight ub ?h l m p = weight ub ?h l (m1 @ [(p, i)]) p + weight ub ?h l m2 p" by (simp add: m weight_append weight_Cons)
    ultimately show ?thesis using weight_nonneg [OF assms(3), of ?h l m2 p] by linarith
  qed
qed

lemma mark_wand:
  assumes "wand_inv l m" and "\<forall>q \<in> set m. p \<le> fst q"
  shows "wand_inv (mark_list ops p l) m" and "flags_ok cur p (mark_list ops p l) (snd ` set m)"
    and "weight ub (pend_docs docs cur) (mark_list ops p l) m d = (if d = p then 0 else weight ub (head_docs docs cur) l m d)"
proof -
  let ?l = "mark_list ops p l"
  have e: "\<exists>s c. snd q < length l \<and> l ! snd q = Some (s, c) \<and> ?l ! snd q = Some (s, p = cur s) \<and> child_ok ops mx ok cur s \<and> cur s = fst q"
    if "q \<in> set m" for q
  proof -
    from wand_keys [OF assms(1) that] obtain s c where s: "snd q < length l" "l ! snd q = Some (s, c)" "child_ok ops mx ok cur s" "cur s = fst q" by blast
    then have "?l ! snd q = Some (s, p = cur s)" by (simp add: mark_list_def mark_child_def child_ok_def)
    then show ?thesis using s by blast
  qed
  have len: "length ?l = length l" by (simp add: mark_list_def)
  have r: "rest_ok ok docs ?l (snd ` set m)"
    unfolding rest_ok_def len
  proof (intro allI impI)
    fix i s c
    assume i: "i < length l" "i \<notin> snd ` set m" "?l ! i = Some (s, c)"
    then obtain c' where "l ! i = Some (s, c')" by (auto simp: mark_list_def mark_child_def)
    then show "ok s \<and> docs s = {}" using assms(1) i(1,2) by (auto simp: wand_inv_def rest_ok_def)
  qed
  have "\<forall>q \<in> set m. snd q < length ?l \<and> (\<exists>s c. ?l ! snd q = Some (s, c) \<and> child_ok ops mx ok cur s \<and> cur s = fst q)"
    using e len by metis
  then show "wand_inv ?l m" using assms(1) r by (simp add: wand_inv_def sorter_ok_def)
  show "flags_ok cur p ?l (snd ` set m)" unfolding flags_ok_def
  proof (intro ballI allI impI)
    fix i s c
    assume "i \<in> snd ` set m" and s: "?l ! i = Some (s, c)"
    then obtain q where q: "q \<in> set m" "i = snd q" by blast
    from e [OF q(1)] s q(2) have "c = (p = cur s)" "cur s = fst q" by auto
    then show "(c \<longleftrightarrow> cur s = p) \<and> p \<le> cur s" using assms(2) q(1) by auto
  qed
  have x: "d \<in> pend_docs docs cur (?l ! snd q) \<longleftrightarrow> d \<noteq> p \<and> d \<in> head_docs docs cur (l ! snd q)" if "q \<in> set m" for q
  proof -
    from e [OF that] obtain s c where s: "l ! snd q = Some (s, c)" "?l ! snd q = Some (s, p = cur s)" "child_ok ops mx ok cur s" "cur s = fst q" by blast
    have "p \<le> cur s" using assms(2) that s(4) by simp
    moreover have "p \<notin> docs s" "cur s \<notin> docs s" using docs_range [of s] s(3) calculation by (force simp: child_ok_def)+
    ultimately show ?thesis using s(1,2) by auto
  qed
  show "weight ub (pend_docs docs cur) ?l m d = (if d = p then 0 else weight ub (head_docs docs cur) l m d)"
  proof (cases "d = p")
    case True
    then show ?thesis using x by (simp add: weight_none)
  next
    case False
    then show ?thesis using x by (simp add: weight_cong [of m d "pend_docs docs cur" ?l "head_docs docs cur" l])
  qed
qed

end

context doc_iterator
begin

lemma wand_found:
  assumes "wand_inv l m" and "m \<noteq> []" and "fst (hd m) = p" and "0 \<le> currThreshold a"
    and "least_in D p" and "D = {d. currThreshold a < weight ub (head_docs docs cur) l m d}"
  shows "wand_step ub D True (a\<lparr>wand_list := mark_list ops p l, docIteratorSorter := m, pivotDoc := p, wand_currDoc := p\<rparr>)"
proof -
  let ?l = "mark_list ops p l"
  let ?a = "a\<lparr>wand_list := ?l, docIteratorSorter := m, pivotDoc := p, wand_currDoc := p\<rparr>"
  have "\<forall>q \<in> set m. p \<le> fst q" using assms(1-3) by (cases m) (auto simp: wand_inv_def sorter_ok_def)
  note k = mark_wand [OF assms(1) this]
  have "wand_docs ub docs cur ?a = {d. currThreshold a < (if d = p then 0 else weight ub (head_docs docs cur) l m d)}"
    using k(3) assms(2) by (simp add: wand_docs_def wand_weight_def)
  also have "\<dots> = D - {p}" using assms(4,6) by auto
  finally have "wand_docs ub docs cur ?a = D - {p}" .
  moreover have "wand_live ?a" using k(1,2) assms(2) by (simp add: wand_live_def)
  moreover have "D \<noteq> {}" using assms(5) by (auto simp: least_in_def)
  ultimately show ?thesis using assms(5) by (simp add: wand_step_def)
qed

lemma wand_loop_spec:
  assumes "wand_inv (wand_list a) (docIteratorSorter a)" and "docIteratorSorter a \<noteq> []" and "\<forall>i. 0 \<le> ub i" and "0 \<le> currThreshold a"
    and "flags_ok cur (wand_currDoc a) (wand_list a) (snd ` set (docIteratorSorter a))"
  shows "\<exists>b a'. wand_do_next ops ub mx a = Some (b, a') \<and> currThreshold a' = currThreshold a \<and> wand_step ub (wand_docs ub docs cur a) b a'"
  using assms(1,2,4,5)
proof (induction "sorter_size docs (wand_list a) (docIteratorSorter a)" arbitrary: a rule: less_induct)
  case less
  note prems = less.prems
  let ?h = "head_docs docs cur" and ?c = "wand_currDoc a" and ?\<theta> = "currThreshold a" and ?D = "wand_docs ub docs cur a"
  from wand_advance_spec [OF prems(1,2,4), of ub] obtain b l m where
    1: "wand_advance ops (wand_list a) (docIteratorSorter a) = Some (b, l, m)" "wand_inv l m" "b = (m \<noteq> [])" "\<forall>p \<in> set m. ?c < fst p" "no_flags l m"
      "\<forall>d. weight ub ?h l m d = weight ub (pend_docs docs cur) (wand_list a) (docIteratorSorter a) d"
      "sorter_size docs l m \<le> sorter_size docs (wand_list a) (docIteratorSorter a)" by blast
  have D: "?D = {d. ?\<theta> < weight ub ?h l m d}" using prems(2) 1(6) by (simp add: wand_docs_def wand_weight_def)
  let ?a0 = "a\<lparr>wand_list := l, docIteratorSorter := m\<rparr>"
  show ?case
  proof (cases "m = []")
    case True
    then have "wand_do_next ops ub mx a = Some (False, ?a0)" using prems(2) 1(1,3) by (simp add: wand_do_next.simps [of _ _ _ a])
    moreover have "?D = {}" using True prems(3) unfolding D by simp
    moreover have "wand_step ub {} False ?a0" using 1(2) True prems(3) by (intro exhausted) simp_all
    ultimately show ?thesis by (intro exI [of _ False] exI [of _ ?a0]) simp
  next
    case ne: False
    show ?thesis
    proof (cases "findPivot ub ?\<theta> 0 m")
      case None
      then have s: "sum_list (map (ub \<circ> snd) m) \<le> ?\<theta>" using findPivot_None [OF None prems(3)] by simp
      have "?D = {}" unfolding D using weight_le [OF assms(3), of ?h l m] s by (auto simp: not_less intro: order_trans)
      moreover have "wand_do_next ops ub mx a = Some (False, ?a0)" using prems(2) 1(1,3) ne None by (simp add: wand_do_next.simps [of _ _ _ a])
      moreover have "wand_step ub {} False ?a0" using 1(2,5) s by (simp add: wand_step_def wand_dead_def)
      ultimately show ?thesis by (intro exI [of _ False] exI [of _ ?a0]) simp
    next
      case (Some p)
      note pb = pivot_bounds [OF 1(2) Some assms(3) prems(3)]
      from pb(3) obtain q where q: "q \<in> set m" "fst q = p" by blast
      have p: "?c < p" "p < mx" using 1(4) q wand_keys [OF 1(2) q(1)] by (auto simp: child_ok_def)
      from wand_keys [OF 1(2), of "hd m"] ne have front: "child_doc ops l (snd (hd m)) = fst (hd m)"
        by (auto simp: child_doc_def child_ok_def)
      from prePostings_spec [OF 1(2) ne p(2) 1(5), of ub] obtain b' l' m' where
        2: "processPrePostings ops mx p l m = Some (b', l', m')" "wand_inv l' m'" "b' = (m' \<noteq> [])" "\<forall>q \<in> set m'. p \<le> fst q" "no_flags l' m'"
          "\<forall>d \<ge> p. weight ub ?h l' m' d = weight ub ?h l m d"
          "if fst (hd m) < p then sorter_size docs l' m' < sorter_size docs l m else l' = l \<and> m' = m" by blast
      let ?a1 = "a\<lparr>wand_list := l', docIteratorSorter := m', pivotDoc := p\<rparr>"
      show ?thesis
      proof (cases "fst (hd m) = p")
        case True
        then have e: "l' = l" "m' = m" using 2(7) by simp_all
        have "least_in ?D p" unfolding least_in_def D using pb(1) pb(2) [OF True] by blast
        from wand_found [OF 1(2) ne True prems(3) this D]
        have "wand_step ub ?D True (a\<lparr>wand_list := mark_list ops p l, docIteratorSorter := m, pivotDoc := p, wand_currDoc := p\<rparr>)" .
        moreover have "wand_do_next ops ub mx a = Some (True, a\<lparr>wand_list := mark_list ops p l, docIteratorSorter := m, pivotDoc := p, wand_currDoc := p\<rparr>)"
          using prems(2) 1(1,3) ne Some p(1) front True 2(1) by (simp add: wand_do_next.simps [of _ _ _ a] e)
        ultimately show ?thesis by (intro exI [of _ True]) simp
      next
        case False
        have "fst (hd m) \<le> p" using 1(2) ne q by (cases m) (auto simp: wand_inv_def sorter_ok_def)
        then have sz: "sorter_size docs l' m' < sorter_size docs l m" using 2(7) False by simp
        have eq: "wand_do_next ops ub mx a = (if m' = [] then Some (False, ?a1) else wand_do_next ops ub mx ?a1)"
          using prems(2) 1(1,3) ne Some p(1) front False 2(1,3) by (simp add: wand_do_next.simps [of _ _ _ a] Let_def)
        have w: "?\<theta> < weight ub ?h l m d \<longleftrightarrow> ?\<theta> < weight ub ?h l' m' d" for d
        proof (cases "p \<le> d")
          case True
          then show ?thesis using 2(6) by simp
        next
          case lt: False
          then have "\<forall>q \<in> set m'. d \<notin> ?h (l' ! snd q)" using head_from [OF 2(2)] 2(4) by (meson order_trans)
          then have "weight ub ?h l' m' d = 0" by (rule weight_none)
          then show ?thesis using pb(1) lt prems(3) by auto
        qed
        show ?thesis
        proof (cases "m' = []")
          case True
          then have "?D = {}" using w prems(3) unfolding D by simp
          moreover have "wand_step ub {} False ?a1" using 2(2) True prems(3) by (intro exhausted) simp_all
          ultimately show ?thesis unfolding eq using True by (intro exI [of _ False] exI [of _ ?a1]) simp
        next
          case n: False
          have D': "wand_docs ub docs cur ?a1 = ?D"
            unfolding D using n w unset_pend [OF 2(2,5)] by (simp add: wand_docs_def wand_weight_def)
          have "flags_ok cur ?c l' (snd ` set m')" using flags_unset [OF 2(2,5)] 2(4) p(1) by force
          then have "\<exists>b a'. wand_do_next ops ub mx ?a1 = Some (b, a') \<and> currThreshold a' = currThreshold ?a1 \<and> wand_step ub (wand_docs ub docs cur ?a1) b a'"
            using less.hyps [of ?a1] 2(2) n prems(3) sz 1(7) by simp
          then show ?thesis unfolding eq D' using n by simp
        qed
      qed
    qed
  qed
qed

end

lemma rest_ok_none: "rest_ok ok docs l (insert i I) \<Longrightarrow> rest_ok ok docs (l[i := None]) I"
proof -
  assume r: "rest_ok ok docs l (insert i I)"
  have "ok u \<and> docs u = {}" if j: "j < length l" "j \<notin> I" "l[i := None] ! j = Some (u, b)" for j u b
  proof (cases "j = i")
    case True
    then show ?thesis using j by simp
  next
    case False
    then show ?thesis using r j by (auto simp: rest_ok_def)
  qed
  then show ?thesis by (simp add: rest_ok_def)
qed

lemma rest_ok_cong: "(\<And>j. j \<notin> I \<Longrightarrow> l' ! j = l ! j) \<Longrightarrow> length l' = length l \<Longrightarrow> rest_ok ok docs l I \<Longrightarrow> rest_ok ok docs l' I"
  by (simp add: rest_ok_def)

lemma findPivot_light: "\<forall>i. 0 \<le> ub i \<Longrightarrow> w + sum_list (map (ub \<circ> snd) m) \<le> \<theta> \<Longrightarrow> findPivot ub \<theta> w m = None"
proof (induction m arbitrary: w)
  case (Cons q m)
  obtain k i where q: "q = (k, i)" by (cases q)
  have "0 \<le> sum_list (map (ub \<circ> snd) m)" using Cons.prems(1) by (intro sum_list_nonneg) auto
  then have "\<not> \<theta> < w + ub i" using Cons.prems(2) by (simp add: q o_def)
  moreover have "findPivot ub \<theta> (w + ub i) m = None" using Cons by (simp add: q add.assoc)
  ultimately show ?case by (simp add: q)
qed simp

context doc_iterator
begin

lemma sorter_loop_spec:
  assumes "sorter_ok ops mx ok cur l m" and "rest_ok ok docs l (snd ` set m \<union> set is)" and "set is \<inter> snd ` set m = {}" and "distinct is"
    and "\<forall>i \<in> set is. i < length l \<and> (\<forall>s c. l ! i = Some (s, c) \<longrightarrow> ok s \<and> (\<forall>d \<in> docs s. c0 < d))"
    and "no_flags l m" and "\<forall>p \<in> set m. c0 < fst p"
  shows "\<exists>l' m'. sorter_loop ops is l m = Some (l', m') \<and> wand_inv l' m' \<and> no_flags l' m' \<and> (\<forall>p \<in> set m'. c0 < fst p) \<and> length l' = length l \<and>
    (\<forall>d. weight ub (head_docs docs cur) l' m' d = weight ub (head_docs docs cur) l m d + weight ub (fresh_docs docs) l (map (Pair 0) is) d)"
  using assms
proof (induction "is" arbitrary: l m)
  case Nil
  then show ?case by (simp add: wand_inv_def)
next
  case (Cons i "is")
  note prems = Cons.prems
  let ?h = "head_docs docs cur" and ?f = "fresh_docs docs" and ?is = "map (Pair 0) is"
  have i: "i \<notin> snd ` set m" "i \<notin> set is" "i < length l" "distinct is" "set is \<inter> snd ` set m = {}" using prems by auto
  have fi: "i \<notin> snd ` set ?is" using i(2) by force
  have rest: "rest_ok ok docs l (insert i (snd ` set m \<union> set is))" using prems(2) by (simp add: insert_commute)
  have later: "\<forall>j \<in> set is. j < length (l[i := x]) \<and> (\<forall>s c. l[i := x] ! j = Some (s, c) \<longrightarrow> ok s \<and> (\<forall>d \<in> docs s. c0 < d))" for x
  proof
    fix j
    assume j: "j \<in> set is"
    then have "j \<noteq> i" using i(2) by blast
    then show "j < length (l[i := x]) \<and> (\<forall>s c. l[i := x] ! j = Some (s, c) \<longrightarrow> ok s \<and> (\<forall>d \<in> docs s. c0 < d))" using prems(5) j by simp
  qed
  have wf: "weight ub ?f l (map (Pair 0) (i # is)) d = (if d \<in> ?f (l ! i) then ub i else 0) + weight ub ?f l ?is d" for d
    by (simp add: weight_Cons)
  show ?case
  proof (cases "l ! i")
    case None
    have "rest_ok ok docs l (snd ` set m \<union> set is)" using rest None unfolding rest_ok_def by (metis insertE option.distinct(1))
    then show ?thesis using Cons.IH [OF prems(1) _ i(5,4) _ prems(6,7)] prems(5) None wf by simp
  next
    case (Some q)
    obtain u c where u: "l ! i = Some (u, c)" using Some by (cases q) auto
    have ok: "ok u" "\<forall>d \<in> docs u. c0 < d" using prems(5) u by simp_all
    show ?thesis
    proof (cases "docs u = {}")
      case True
      let ?l = "l[i := None]"
      from next_end [OF ok(1) True] obtain u' where n: "it_next ops u = Some (False, u')" by blast
      have "sorter_ok ops mx ok cur ?l m" by (rule sorter_ok_upd [OF prems(1) i(1)])
      moreover have "no_flags ?l m" using prems(6) no_flags_upd [OF i(1), of l None] by simp
      ultimately have "\<exists>l' m'. sorter_loop ops is ?l m = Some (l', m') \<and> wand_inv l' m' \<and> no_flags l' m' \<and> (\<forall>p \<in> set m'. c0 < fst p) \<and> length l' = length ?l \<and>
          (\<forall>d. weight ub ?h l' m' d = weight ub ?h ?l m d + weight ub ?f ?l ?is d)"
        by (intro Cons.IH [OF _ rest_ok_none [OF rest] i(5,4) later _ prems(7)])
      then show ?thesis using n u wf True weight_upd [OF i(1), of ub ?h l None] weight_upd [OF fi, of ub ?f l None] by simp
    next
      case False
      from least_in_exists [OF this] obtain d where d: "least_in (docs u) d" ..
      from next_doc [OF ok(1) d] obtain u' where
        n: "it_next ops u = Some (True, u')" "ok u'" "it_doc ops u' = d" "cur u' = d" "docs u' = docs u - {d}" by blast
      have dm: "d \<in> docs u" "c0 < d" "d < mx" using docs_range [OF ok(1), of d] d ok(2) by (auto simp: least_in_def)
      let ?l = "l[i := Some (u', False)]" and ?m = "sorter_insert (it_doc ops u') i m"
      have co: "child_ok ops mx ok cur u'" using n dm by (simp add: child_ok_def)
      have "sorter_ok ops mx ok cur ?l ?m" by (rule sorter_ok_insert [OF prems(1) i(1,3) co])
      moreover have "rest_ok ok docs ?l (snd ` set ?m \<union> set is)"
        using rest_ok_cong [of "insert i (snd ` set m \<union> set is)" ?l l] rest by simp
      moreover have "set is \<inter> snd ` set ?m = {}" using i(2,5) by simp
      moreover have "no_flags ?l ?m" using prems(6) no_flags_upd [OF i(1), of l "Some (u', False)"] i(3) by (simp add: no_flags_def)
      moreover have "\<forall>p \<in> set ?m. c0 < fst p" using prems(7) dm(2) n(3) by simp
      ultimately have "\<exists>l' m'. sorter_loop ops is ?l ?m = Some (l', m') \<and> wand_inv l' m' \<and> no_flags l' m' \<and> (\<forall>p \<in> set m'. c0 < fst p) \<and> length l' = length ?l \<and>
          (\<forall>d. weight ub ?h l' m' d = weight ub ?h ?l ?m d + weight ub ?f ?l ?is d)"
        by (intro Cons.IH [OF _ _ _ i(4) later])
      moreover have "e \<in> ?h (?l ! i) \<longleftrightarrow> e \<in> ?f (l ! i)" for e using n(4,5) dm(1) i(3) u by auto
      then have "weight ub ?h ?l ?m e = (if e \<in> ?f (l ! i) then ub i else 0) + weight ub ?h l m e" for e
        unfolding weight_insert weight_upd [OF i(1)] by presburger
      ultimately show ?thesis using n(1) u wf weight_upd [OF fi, of ub ?f l "Some (u', False)"] by (simp add: algebra_simps)
    qed
  qed
qed

lemma initDocIteratorSorter_spec:
  assumes "wand_fresh a"
  shows "\<exists>l m. initDocIteratorSorter ops a = Some (a\<lparr>wand_list := l, docIteratorSorter := m\<rparr>) \<and> wand_inv l m \<and> no_flags l m \<and>
    (\<forall>p \<in> set m. wand_currDoc a < fst p) \<and> (\<forall>d. weight ub (head_docs docs cur) l m d = wand_weight ub docs cur a d)"
proof (cases "wand_list a = []")
  case True
  then have "initDocIteratorSorter ops a = Some (a\<lparr>wand_list := [], docIteratorSorter := []\<rparr>)"
    using assms by (simp add: initDocIteratorSorter_def wand_fresh_def)
  then show ?thesis using True assms
    by (intro exI [of _ "[]"]) (simp add: wand_inv_def sorter_ok_def rest_ok_def no_flags_def wand_weight_def wand_fresh_def)
next
  case False
  have e: "docIteratorSorter a = []" using assms by (simp add: wand_fresh_def)
  have "sorter_ok ops mx ok cur (wand_list a) []" "rest_ok ok docs (wand_list a) (snd ` set [] \<union> set [0..<length (wand_list a)])" "no_flags (wand_list a) []"
    by (simp_all add: sorter_ok_def rest_ok_def no_flags_def)
  then obtain l m where "sorter_loop ops [0..<length (wand_list a)] (wand_list a) [] = Some (l, m)" "wand_inv l m" "no_flags l m"
    "\<forall>p \<in> set m. wand_currDoc a < fst p"
    "\<forall>d. weight ub (head_docs docs cur) l m d = weight ub (head_docs docs cur) (wand_list a) [] d +
      weight ub (fresh_docs docs) (wand_list a) (map (Pair 0) [0..<length (wand_list a)]) d"
    using sorter_loop_spec [of "wand_list a" "[]" "[0..<length (wand_list a)]" "wand_currDoc a" ub] assms by (auto simp: wand_fresh_def)
  then show ?thesis using False e
    by (intro exI [of _ l] exI [of _ m]) (simp add: initDocIteratorSorter_def wand_weight_def)
qed

end

context doc_iterator
begin

lemma wand_do_next_started:
  assumes "docIteratorSorter a = []" and "initDocIteratorSorter ops a = Some a0" and "docIteratorSorter a0 \<noteq> []"
  shows "wand_do_next ops ub mx a = wand_do_next ops ub mx a0"
  unfolding wand_do_next.simps [of _ _ _ a] wand_do_next.simps [of _ _ _ a0] using assms by (simp only: list.size if_True bind.bind_lunit) simp

lemma wand_next_started:
  assumes "wand_inv l m" and "no_flags l m" and "\<forall>p \<in> set m. wand_currDoc a < fst p" and "\<forall>i. 0 \<le> ub i" and "0 \<le> currThreshold a" and "m \<noteq> []"
    and "a' = a\<lparr>wand_list := l, docIteratorSorter := m\<rparr>" and "D = {d. currThreshold a < weight ub (head_docs docs cur) l m d}"
  shows "\<exists>b a2. wand_do_next ops ub mx a' = Some (b, a2) \<and> currThreshold a2 = currThreshold a \<and> wand_step ub D b a2"
proof -
  have D: "wand_docs ub docs cur a' = D" using assms(6,7,8) unset_pend [OF assms(1,2)] by (simp add: wand_docs_def wand_weight_def)
  have "flags_ok cur (wand_currDoc a') (wand_list a') (snd ` set (docIteratorSorter a'))"
    using flags_unset [OF assms(1-3)] by (simp add: assms(7))
  with wand_loop_spec [of a' ub] assms show ?thesis unfolding D by simp
qed

lemma wand_next_spec:
  assumes "wand_ok ub a" and "\<forall>i. 0 \<le> ub i"
  shows "\<exists>b a'. wand_do_next ops ub mx a = Some (b, a') \<and> currThreshold a' = currThreshold a \<and> wand_step ub (wand_docs ub docs cur a) b a'"
proof -
  have \<theta>: "0 \<le> currThreshold a" using assms(1) by (simp add: wand_ok_def)
  have "wand_fresh a" if "wand_dead ub a" "docIteratorSorter a = []"
    using that by (simp add: wand_dead_def wand_fresh_def wand_inv_def rest_ok_def)
  then consider "wand_live a" | "wand_fresh a" | "wand_dead ub a" "docIteratorSorter a \<noteq> []"
    using assms(1) unfolding wand_ok_def by blast
  then show ?thesis
  proof cases
    case 1
    then show ?thesis using wand_loop_spec [OF _ _ assms(2) \<theta>] by (simp add: wand_live_def)
  next
    case 2
    from initDocIteratorSorter_spec [OF 2, of ub] obtain l m where
      i: "initDocIteratorSorter ops a = Some (a\<lparr>wand_list := l, docIteratorSorter := m\<rparr>)" "wand_inv l m" "no_flags l m"
        "\<forall>p \<in> set m. wand_currDoc a < fst p" "\<forall>d. weight ub (head_docs docs cur) l m d = wand_weight ub docs cur a d" by blast
    let ?a = "a\<lparr>wand_list := l, docIteratorSorter := m\<rparr>"
    have e: "docIteratorSorter a = []" using 2 by (simp add: wand_fresh_def)
    have D: "wand_docs ub docs cur a = {d. currThreshold a < weight ub (head_docs docs cur) l m d}" using i(5) by (simp add: wand_docs_def)
    show ?thesis
    proof (cases "m = []")
      case True
      have "wand_do_next ops ub mx a = Some (False, ?a)" using e i(1) True by (simp add: wand_do_next.simps [of _ _ _ a])
      moreover have "wand_docs ub docs cur a = {}" unfolding D using True \<theta> by simp
      moreover have "wand_step ub {} False ?a" using i(2) True \<theta> by (intro exhausted) simp_all
      ultimately show ?thesis by (intro exI [of _ False] exI [of _ ?a]) simp
    next
      case False
      have "wand_do_next ops ub mx a = wand_do_next ops ub mx ?a"
        by (rule wand_do_next_started [OF e i(1)]) (simp add: False)
      with wand_next_started [OF i(2-4) assms(2) \<theta> False refl D] show ?thesis by simp
    qed
  next
    case 3
    then have w: "wand_inv (wand_list a) (docIteratorSorter a)" "no_flags (wand_list a) (docIteratorSorter a)"
      "sum_list (map (ub \<circ> snd) (docIteratorSorter a)) \<le> currThreshold a" by (simp_all add: wand_dead_def)
    obtain k i m where m: "docIteratorSorter a = (k, i) # m" using 3(2) by (cases "docIteratorSorter a") auto
    from wand_keys [OF w(1), of "(k, i)"] m obtain s c where s: "wand_list a ! i = Some (s, c)" by auto
    then have "\<not> c" using w(2) by (simp add: no_flags_def m)
    then have "wand_advance ops (wand_list a) (docIteratorSorter a) = Some (True, wand_list a, docIteratorSorter a)"
      using s by (simp add: wand_advance.simps [of _ "wand_list a" "(k, i) # m"] m)
    moreover have "findPivot ub (currThreshold a) 0 (docIteratorSorter a) = None" by (rule findPivot_light [OF assms(2)]) (simp add: w(3))
    ultimately have "wand_do_next ops ub mx a = Some (False, a)" using 3(2) by (simp add: wand_do_next.simps [of _ _ _ a])
    then show ?thesis using 3(1) dead_docs [OF 3(1) \<theta> assms(2)] by (intro exI [of _ False] exI [of _ a]) (simp add: wand_step_def)
  qed
qed

end

context doc_iterator
begin

lemma clear_wand:
  assumes "wand_inv l m"
  shows "wand_inv (clear_flags l) m" and "no_flags (clear_flags l) m"
    and "weight ub (head_docs docs cur) (clear_flags l) m d = weight ub (head_docs docs cur) l m d"
proof -
  let ?l = "clear_flags l"
  have len: "length ?l = length l" by (simp add: clear_flags_def)
  have e: "\<exists>s c. snd q < length ?l \<and> l ! snd q = Some (s, c) \<and> ?l ! snd q = Some (s, False) \<and> child_ok ops mx ok cur s \<and> cur s = fst q"
    if "q \<in> set m" for q
    using wand_keys [OF assms that] by (auto simp: clear_flags_def)
  have r: "rest_ok ok docs ?l (snd ` set m)" unfolding rest_ok_def len
  proof (intro allI impI)
    fix i s c
    assume i: "i < length l" "i \<notin> snd ` set m" "?l ! i = Some (s, c)"
    then obtain c' where "l ! i = Some (s, c')" by (auto simp: clear_flags_def)
    then show "ok s \<and> docs s = {}" using assms i(1,2) by (auto simp: wand_inv_def rest_ok_def)
  qed
  have "\<forall>q \<in> set m. snd q < length ?l \<and> (\<exists>s c. ?l ! snd q = Some (s, c) \<and> child_ok ops mx ok cur s \<and> cur s = fst q)" using e by metis
  then show "wand_inv ?l m" using assms r by (simp add: wand_inv_def sorter_ok_def)
  show "no_flags ?l m" unfolding no_flags_def using e by fastforce
  show "weight ub (head_docs docs cur) ?l m d = weight ub (head_docs docs cur) l m d"
    by (rule weight_cong) (use e in fastforce)
qed

text \<open>\<open>skipTo\<close> once the sorter is filled; \<open>D\<close> are the documents to come.\<close>

definition wand_skipped :: "(nat \<Rightarrow> real) \<Rightarrow> nat set \<Rightarrow> nat \<Rightarrow> nat \<Rightarrow> 'a wand_iter \<Rightarrow> bool" where
  "wand_skipped ub D t f a \<longleftrightarrow> wand_ok ub a \<and>
     (if {e \<in> D. t \<le> e} = {} then f = mx \<and> wand_docs ub docs cur a = {}
      else least_in {e \<in> D. t \<le> e} f \<and> wand_currDoc a = f \<and> wand_docs ub docs cur a = {e \<in> D. f < e})"

lemma skipped_end:
  assumes "wand_dead ub a" and "0 \<le> currThreshold a" and "\<forall>i. 0 \<le> ub i" and "{e \<in> D. t \<le> e} = {}"
  shows "wand_skipped ub D t mx (a\<lparr>wand_currDoc := c\<rparr>)"
proof -
  have d: "wand_dead ub (a\<lparr>wand_currDoc := c\<rparr>)" "0 \<le> currThreshold (a\<lparr>wand_currDoc := c\<rparr>)" using assms(1,2) by (simp_all add: wand_dead_def)
  then show ?thesis using dead_docs [OF d assms(3)] unfolding wand_skipped_def if_P [OF assms(4)] by (simp add: wand_ok_def)
qed

lemma skip_filled:
  assumes "wand_inv l m" and "\<forall>i. 0 \<le> ub i" and "0 \<le> currThreshold a" and "wand_currDoc a < t" and "t < mx" and "m \<noteq> []"
    and "\<And>d. t \<le> d \<Longrightarrow> d \<in> D \<longleftrightarrow> currThreshold a < weight ub (head_docs docs cur) l m d"
    and "a0 = a\<lparr>wand_list := l, docIteratorSorter := m\<rparr>" and "docIteratorSorter a \<noteq> [] \<Longrightarrow> a0 = a"
    and "docIteratorSorter a = [] \<Longrightarrow> initDocIteratorSorter ops a = Some a0"
  shows "\<exists>f a'. wand_skipTo ops ub mx t a = Some (f, a') \<and> wand_skipped ub D t f a'"
proof -
  let ?h = "head_docs docs cur" and ?\<theta> = "currThreshold a"
  note c = clear_wand [OF assms(1)]
  from prePostings_spec [OF c(1) assms(6,5) c(2), of ub] obtain b l1 m1 where
    1: "processPrePostings ops mx t (clear_flags l) m = Some (b, l1, m1)" "wand_inv l1 m1" "b = (m1 \<noteq> [])" "\<forall>p \<in> set m1. t \<le> fst p" "no_flags l1 m1"
      "\<forall>d \<ge> t. weight ub ?h l1 m1 d = weight ub ?h (clear_flags l) m d" by blast
  let ?a = "a0\<lparr>wand_list := l1, docIteratorSorter := m1\<rparr>"
  have st: "(if length (docIteratorSorter a) = 0 then initDocIteratorSorter ops a else Some a) = Some a0" using assms(9,10) by auto
  have a0: "wand_list a0 = l" "docIteratorSorter a0 = m" "currThreshold a0 = ?\<theta>" "wand_currDoc a0 = wand_currDoc a" by (simp_all add: assms(8))
  have eq: "wand_skipTo ops ub mx t a = (if m1 = [] then Some (mx, ?a) else
      map_option (\<lambda>(b', a2). if b' then (wand_currDoc a2, a2) else (mx, a2\<lparr>wand_currDoc := mx\<rparr>)) (wand_do_next ops ub mx ?a))"
    unfolding wand_skipTo_def st using assms(6) a0 1(1,3) by simp
  define D1 where "D1 = {d. ?\<theta> < weight ub ?h l1 m1 d}"
  have D: "{e \<in> D. t \<le> e} = D1"
  proof (rule set_eqI)
    fix d
    show "d \<in> {e \<in> D. t \<le> e} \<longleftrightarrow> d \<in> D1"
    proof (cases "t \<le> d")
      case True
      then show ?thesis using assms(7) [OF True] 1(6) c(3) by (simp add: D1_def)
    next
      case False
      then have "\<forall>q \<in> set m1. d \<notin> ?h (l1 ! snd q)" using head_from [OF 1(2)] 1(4) by (meson order_trans)
      then have "weight ub ?h l1 m1 d = 0" by (rule weight_none)
      then show ?thesis using False assms(3) by (simp add: D1_def)
    qed
  qed
  have up: "D1 - {f} = {e \<in> D. f < e}" if "least_in D1 f" for f
    using that unfolding D [symmetric] by (force simp: least_in_def)
  show ?thesis
  proof (cases "m1 = []")
    case True
    then have "wand_dead ub ?a" "{e \<in> D. t \<le> e} = {}" using 1(2) assms(3) a0(3) unfolding D by (simp_all add: wand_dead_def no_flags_def D1_def)
    from skipped_end [OF this(1) _ assms(2) this(2), of "wand_currDoc ?a"] show ?thesis
      unfolding eq using True assms(3) a0(3) by (intro exI [of _ mx] exI [of _ ?a]) simp
  next
    case False
    have "\<forall>p \<in> set m1. wand_currDoc a0 < fst p" using 1(4) assms(4) a0(4) by force
    from wand_next_started [OF 1(2,5) this assms(2) _ False refl, of D1] assms(3) a0(3) obtain b2 a2 where
      2: "wand_do_next ops ub mx ?a = Some (b2, a2)" "currThreshold a2 = ?\<theta>" "wand_step ub D1 b2 a2" by (auto simp: D1_def)
    show ?thesis
    proof (cases "D1 = {}")
      case True
      then have "\<not> b2" "wand_dead ub a2" using 2(3) by (simp_all add: wand_step_def)
      then have "wand_skipped ub D t mx (a2\<lparr>wand_currDoc := mx\<rparr>)" using assms(2,3) 2(2) D True by (intro skipped_end) simp_all
      then show ?thesis unfolding eq using 2(1) False \<open>\<not> b2\<close> by simp
    next
      case ne: False
      then have s: b2 "wand_live a2" "least_in D1 (wand_currDoc a2)" "wand_docs ub docs cur a2 = D1 - {wand_currDoc a2}"
        using 2(3) by (simp_all add: wand_step_def)
      have "wand_skipped ub D t (wand_currDoc a2) a2" unfolding wand_skipped_def D if_not_P [OF ne]
        using s 2(2) assms(3) up [OF s(3)] by (simp add: wand_ok_def)
      then show ?thesis unfolding eq using 2(1) False s(1) by simp
    qed
  qed
qed

end

context doc_iterator
begin

lemma live_weight:
  assumes "wand_live a" and "wand_currDoc a < d"
  shows "weight ub (pend_docs docs cur) (wand_list a) (docIteratorSorter a) d = weight ub (head_docs docs cur) (wand_list a) (docIteratorSorter a) d"
proof (rule weight_cong)
  fix p
  assume p: "p \<in> set (docIteratorSorter a)"
  have w: "wand_inv (wand_list a) (docIteratorSorter a)" using assms(1) by (simp add: wand_live_def)
  from wand_keys [OF w p] obtain s c where s: "wand_list a ! snd p = Some (s, c)" by blast
  have "c \<longleftrightarrow> cur s = wand_currDoc a" using assms(1) p s by (auto simp: wand_live_def flags_ok_def)
  then show "d \<in> pend_docs docs cur (wand_list a ! snd p) \<longleftrightarrow> d \<in> head_docs docs cur (wand_list a ! snd p)" using s assms(2) by auto
qed

lemma wand_skipTo_spec:
  assumes "wand_ok ub a" and "\<forall>i. 0 \<le> ub i" and "wand_currDoc a < t" and "t < mx"
  shows "\<exists>f a'. wand_skipTo ops ub mx t a = Some (f, a') \<and> wand_skipped ub (wand_docs ub docs cur a) t f a'"
proof -
  let ?D = "wand_docs ub docs cur a" and ?h = "head_docs docs cur"
  have \<theta>: "0 \<le> currThreshold a" using assms(1) by (simp add: wand_ok_def)
  have same: "a\<lparr>wand_list := wand_list a, docIteratorSorter := docIteratorSorter a\<rparr> = a" by simp
  have "wand_fresh a" if "wand_dead ub a" "docIteratorSorter a = []"
    using that by (simp add: wand_dead_def wand_fresh_def wand_inv_def rest_ok_def)
  then consider "wand_live a" | "wand_fresh a" | "wand_dead ub a" "docIteratorSorter a \<noteq> []"
    using assms(1) unfolding wand_ok_def by blast
  then show ?thesis
  proof cases
    case 1
    then have w: "wand_inv (wand_list a) (docIteratorSorter a)" "docIteratorSorter a \<noteq> []" by (simp_all add: wand_live_def)
    have "d \<in> ?D \<longleftrightarrow> currThreshold a < weight ub ?h (wand_list a) (docIteratorSorter a) d" if "t \<le> d" for d
      using live_weight [OF 1, of d ub] that assms(3) w(2) by (simp add: wand_docs_def wand_weight_def)
    then show ?thesis using w(2) by (intro skip_filled [OF w(1) assms(2) \<theta> assms(3,4) w(2) _ same [symmetric]]) simp_all
  next
    case 2
    from initDocIteratorSorter_spec [OF 2, of ub] obtain l m where
      i: "initDocIteratorSorter ops a = Some (a\<lparr>wand_list := l, docIteratorSorter := m\<rparr>)" "wand_inv l m" "no_flags l m"
        "\<forall>d. weight ub ?h l m d = wand_weight ub docs cur a d" by blast
    let ?a = "a\<lparr>wand_list := l, docIteratorSorter := m\<rparr>"
    have e: "docIteratorSorter a = []" using 2 by (simp add: wand_fresh_def)
    have D: "d \<in> ?D \<longleftrightarrow> currThreshold a < weight ub ?h l m d" for d using i(4) by (simp add: wand_docs_def)
    show ?thesis
    proof (cases "m = []")
      case True
      have "wand_dead ub ?a" "{x \<in> ?D. t \<le> x} = {}" using i(2) True \<theta> D by (simp_all add: wand_dead_def no_flags_def)
      from skipped_end [OF this(1) _ assms(2) this(2), of mx] \<theta> have "wand_skipped ub ?D t mx (?a\<lparr>wand_currDoc := mx\<rparr>)" by simp
      moreover have "wand_skipTo ops ub mx t a = Some (mx, ?a\<lparr>wand_currDoc := mx\<rparr>)" using e i(1) True by (simp add: wand_skipTo_def)
      ultimately show ?thesis by blast
    next
      case False
      show ?thesis by (rule skip_filled [OF i(2) assms(2) \<theta> assms(3,4) False D refl]) (use e i(1) in simp_all)
    qed
  next
    case 3
    then have w: "wand_inv (wand_list a) (docIteratorSorter a)" "sum_list (map (ub \<circ> snd) (docIteratorSorter a)) \<le> currThreshold a"
      by (simp_all add: wand_dead_def)
    have "weight ub ?h (wand_list a) (docIteratorSorter a) d \<le> currThreshold a" for d
      using weight_le [OF assms(2), of ?h "wand_list a" "docIteratorSorter a" d] w(2) by linarith
    then have "d \<in> ?D \<longleftrightarrow> currThreshold a < weight ub ?h (wand_list a) (docIteratorSorter a) d" for d
      using dead_docs [OF 3(1) \<theta> assms(2)] by (simp add: not_less)
    then show ?thesis using 3(2) by (intro skip_filled [OF w(1) assms(2) \<theta> assms(3,4) 3(2) _ same [symmetric]]) simp_all
  qed
qed

lemma wand_range:
  assumes "wand_ok ub a" and "\<forall>i. 0 \<le> ub i" and "d \<in> wand_docs ub docs cur a"
  shows "wand_currDoc a < d \<and> d < mx"
proof -
  have \<theta>: "0 \<le> currThreshold a" using assms(1) by (simp add: wand_ok_def)
  have "0 < wand_weight ub docs cur a d" using assms(3) \<theta> by (simp add: wand_docs_def)
  note w = this [unfolded wand_weight_def]
  have "\<not> wand_dead ub a" using dead_docs [OF _ \<theta> assms(2)] assms(3) by blast
  then consider "wand_live a" | "wand_fresh a" using assms(1) by (auto simp: wand_ok_def)
  then show ?thesis
  proof cases
    case 1
    then have v: "wand_inv (wand_list a) (docIteratorSorter a)" "docIteratorSorter a \<noteq> []" by (simp_all add: wand_live_def)
    have "0 < weight ub (pend_docs docs cur) (wand_list a) (docIteratorSorter a) d" using w v(2) by simp
    from weight_pos [OF assms(2) this] obtain p where p: "p \<in> set (docIteratorSorter a)" "d \<in> pend_docs docs cur (wand_list a ! snd p)" by blast
    from wand_keys [OF v(1) p(1)] obtain s c where s: "wand_list a ! snd p = Some (s, c)" "child_ok ops mx ok cur s" by blast
    have "c \<longleftrightarrow> cur s = wand_currDoc a" "wand_currDoc a \<le> cur s" using 1 p(1) s(1) by (auto simp: wand_live_def flags_ok_def)
    then show ?thesis using p(2) s docs_range [of s d] by (auto simp: child_ok_def split: if_splits)
  next
    case 2
    then have "0 < weight ub (fresh_docs docs) (wand_list a) (map (Pair 0) [0..<length (wand_list a)]) d" using w by (simp add: wand_fresh_def)
    from weight_pos [OF assms(2) this] obtain i where i: "i < length (wand_list a)" "d \<in> fresh_docs docs (wand_list a ! i)" by auto
    then obtain s c where s: "wand_list a ! i = Some (s, c)" "d \<in> docs s" by (cases "wand_list a ! i") auto
    then show ?thesis using 2 i(1) docs_range [of s d] by (simp add: wand_fresh_def)
  qed
qed

text \<open>The iterator keeps the contract, for the documents that are heavy enough.\<close>

lemma wand_iterator:
  assumes ub: "\<forall>i. 0 \<le> ub i"
  shows "doc_iterator (wand_ops ops ub mx) mx (wand_ok ub) (wand_docs ub docs cur) wand_currDoc"
proof unfold_locales
  fix a :: "'a wand_iter" and d t
  assume a: "wand_ok ub a"
  have \<theta>: "0 \<le> currThreshold a" using a by (simp add: wand_ok_def)
  let ?D = "wand_docs ub docs cur"
  show "wand_currDoc a < d \<and> d < mx" if "d \<in> ?D a" by (rule wand_range [OF a ub that])
  from wand_next_spec [OF a ub] obtain b a' where
    n: "wand_do_next ops ub mx a = Some (b, a')" "currThreshold a' = currThreshold a" "wand_step ub (?D a) b a'" by blast
  show "\<exists>s'. it_next (wand_ops ops ub mx) a = Some (False, s') \<and> wand_ok ub s' \<and> ?D s' = {}" if e: "?D a = {}"
  proof -
    have "\<not> b" "wand_dead ub a'" using n(3) unfolding wand_step_def if_P [OF e] by simp_all
    then show ?thesis using n(1,2) \<theta> dead_docs [of ub a'] ub by (intro exI [of _ a']) (simp add: wand_ops_def wand_ok_def)
  qed
  show "\<exists>s'. it_next (wand_ops ops ub mx) a = Some (True, s') \<and> wand_ok ub s' \<and> it_doc (wand_ops ops ub mx) s' = d \<and> wand_currDoc s' = d \<and> ?D s' = ?D a - {d}"
    if d: "least_in (?D a) d"
  proof -
    have ne: "?D a \<noteq> {}" using d by (auto simp: least_in_def)
    have s: b "wand_live a'" "least_in (?D a) (wand_currDoc a')" "?D a' = ?D a - {wand_currDoc a'}"
      using n(3) unfolding wand_step_def if_not_P [OF ne] by simp_all
    then show ?thesis using n(1,2) \<theta> least_in_unique [OF d s(3)] by (intro exI [of _ a']) (simp add: wand_ops_def wand_ok_def)
  qed
  assume t: "wand_currDoc a < t" "t < mx"
  from wand_skipTo_spec [OF a ub t] obtain f a2 where s: "wand_skipTo ops ub mx t a = Some (f, a2)" "wand_skipped ub (?D a) t f a2" by blast
  show "\<exists>s'. it_skipTo (wand_ops ops ub mx) t a = Some (mx, s') \<and> wand_ok ub s' \<and> ?D s' = {}" if e: "{x \<in> ?D a. t \<le> x} = {}"
    using s unfolding wand_skipped_def if_P [OF e] by (simp add: wand_ops_def)
  show "\<exists>s'. it_skipTo (wand_ops ops ub mx) t a = Some (d, s') \<and> wand_ok ub s' \<and> it_doc (wand_ops ops ub mx) s' = d \<and> wand_currDoc s' = d \<and>
      ?D s' = {x \<in> ?D a. d < x}" if d: "least_in {x \<in> ?D a. t \<le> x} d"
  proof -
    have ne: "{x \<in> ?D a. t \<le> x} \<noteq> {}" using d by (auto simp: least_in_def)
    have r: "wand_ok ub a2" "least_in {x \<in> ?D a. t \<le> x} f" "wand_currDoc a2 = f" "?D a2 = {x \<in> ?D a. f < x}"
      using s(2) unfolding wand_skipped_def if_not_P [OF ne] by simp_all
    have "f = d" by (rule least_in_unique [OF r(2) d])
    then show ?thesis using s(1) r by (intro exI [of _ a2]) (simp add: wand_ops_def)
  qed
qed

end

end
