(* ===== verification/BoolQuery.thy ===== *)
theory BoolQuery
  imports OrIterator AllIterator WandIterator
begin

text \<open>
  The leaves of a boolean query, \<open>TermDocumentIterator\<close>, \<open>FilterDocumentIterator\<close> and
  \<open>AllDocumentIterator\<close> of \<^verbatim>\<open>src/source/core/search-manager\<close>, and what whole queries deliver. The
  reader of a posting list (\<open>TermDocFreqs\<close>) belongs to the index library: it is a record of
  operations under the contract of \<open>DocIterator\<close>, with a list of documents as instance.
\<close>

section \<open>Terms and filters\<close>

text \<open>A term that is not in the index has no reader; \<open>skipTo\<close> does not expect that.\<close>

definition term_next :: "'r iter_ops \<Rightarrow> 'r option \<Rightarrow> (bool \<times> 'r option) option" where
  "term_next rops s = (case s of Some r \<Rightarrow> map_option (map_prod id Some) (it_next rops r) | None \<Rightarrow> Some (False, None))"

definition term_doc :: "'r iter_ops \<Rightarrow> 'r option \<Rightarrow> nat" where
  "term_doc rops s = it_doc rops (the s)"

definition term_skipTo :: "'r iter_ops \<Rightarrow> nat \<Rightarrow> 'r option \<Rightarrow> (nat \<times> 'r option) option" where
  "term_skipTo rops target s = Option.bind s (\<lambda>r. map_option (map_prod id Some) (it_skipTo rops target r))"

definition term_ops :: "'r iter_ops \<Rightarrow> 'r option iter_ops" where
  "term_ops rops = \<lparr>it_next = term_next rops, it_doc = term_doc rops, it_skipTo = term_skipTo rops\<rparr>"

definition filter_ops :: "'r iter_ops \<Rightarrow> 'r iter_ops" where
  "filter_ops rops = \<lparr>it_next = (\<lambda>s. it_next rops s), it_doc = (\<lambda>s. it_doc rops s), it_skipTo = (\<lambda>target s. it_skipTo rops target s)\<rparr>"

definition term_ok :: "('r \<Rightarrow> bool) \<Rightarrow> 'r option \<Rightarrow> bool" where
  "term_ok ok s = (case s of Some r \<Rightarrow> ok r | None \<Rightarrow> True)"

definition term_docs :: "('r \<Rightarrow> nat set) \<Rightarrow> 'r option \<Rightarrow> nat set" where
  "term_docs docs s = (case s of Some r \<Rightarrow> docs r | None \<Rightarrow> {})"

definition term_cur :: "('r \<Rightarrow> nat) \<Rightarrow> 'r option \<Rightarrow> nat" where
  "term_cur cur s = (case s of Some r \<Rightarrow> cur r | None \<Rightarrow> 0)"

lemmas term_defs = term_ops_def term_next_def term_doc_def term_skipTo_def term_ok_def term_docs_def term_cur_def

context doc_iterator
begin

lemma term_next_doc:
  assumes "ok r" and "least_in (docs r) d"
  shows "\<exists>r'. it_next (term_ops ops) (Some r) = Some (True, Some r') \<and> ok r' \<and> it_doc ops r' = d \<and> cur r' = d \<and> docs r' = docs r - {d}"
  using next_doc [OF assms] by (auto simp: term_ops_def term_next_def)

lemma term_next_end:
  assumes "ok r" and "docs r = {}"
  shows "\<exists>r'. it_next (term_ops ops) (Some r) = Some (False, Some r') \<and> ok r' \<and> docs r' = {}"
  using next_end [OF assms] by (auto simp: term_ops_def term_next_def)

text \<open>Without a reader there is nothing to deliver; \<open>skipTo\<close> is covered only with one.\<close>

lemma term_stream: "doc_stream (term_ops ops) mx (term_ok ok) (term_docs docs) (term_cur cur)"
proof unfold_locales
  fix s d
  assume s: "term_ok ok s"
  show "term_cur cur s < d \<and> d < mx" if "d \<in> term_docs docs s"
    using s that docs_range by (cases s) (auto simp: term_defs)
  show "\<exists>s'. it_next (term_ops ops) s = Some (False, s') \<and> term_ok ok s' \<and> term_docs docs s' = {}" if "term_docs docs s = {}"
  proof (cases s)
    case None
    then show ?thesis by (simp add: term_defs)
  next
    case (Some r)
    with s that term_next_end [of r] show ?thesis by (auto simp: term_ok_def term_docs_def)
  qed
  show "\<exists>s'. it_next (term_ops ops) s = Some (True, s') \<and> term_ok ok s' \<and> it_doc (term_ops ops) s' = d \<and> term_cur cur s' = d \<and>
      term_docs docs s' = term_docs docs s - {d}" if d: "least_in (term_docs docs s) d"
  proof (cases s)
    case None
    then show ?thesis using d by (simp add: term_docs_def least_in_def)
  next
    case (Some r)
    then have "ok r" "least_in (docs r) d" using s d by (simp_all add: term_ok_def term_docs_def)
    from term_next_doc [OF this] obtain r' where "it_next (term_ops ops) (Some r) = Some (True, Some r')" "ok r'" "it_doc ops r' = d"
      "cur r' = d" "docs r' = docs r - {d}" by blast
    then show ?thesis by (intro exI [of _ "Some r'"]) (simp add: Some term_ok_def term_docs_def term_cur_def term_ops_def term_doc_def)
  qed
qed

lemma term_iterator: "doc_iterator (term_ops ops) mx (\<lambda>s. s \<noteq> None \<and> term_ok ok s) (term_docs docs) (term_cur cur)"
proof unfold_locales
  fix s d t
  assume s: "s \<noteq> None \<and> term_ok ok s"
  then obtain r where r: "s = Some r" "ok r" by (auto simp: term_ok_def)
  show "term_cur cur s < d \<and> d < mx" if "d \<in> term_docs docs s"
    using docs_range [OF r(2)] that by (simp add: r(1) term_docs_def term_cur_def)
  show "\<exists>s'. it_next (term_ops ops) s = Some (False, s') \<and> (s' \<noteq> None \<and> term_ok ok s') \<and> term_docs docs s' = {}" if "term_docs docs s = {}"
    using term_next_end [OF r(2)] that by (auto simp: r(1) term_ok_def term_docs_def)
  show "\<exists>s'. it_next (term_ops ops) s = Some (True, s') \<and> (s' \<noteq> None \<and> term_ok ok s') \<and> it_doc (term_ops ops) s' = d \<and>
      term_cur cur s' = d \<and> term_docs docs s' = term_docs docs s - {d}" if "least_in (term_docs docs s) d"
  proof -
    from term_next_doc [OF r(2)] that obtain r' where "it_next (term_ops ops) s = Some (True, Some r')" "ok r'" "it_doc ops r' = d"
      "cur r' = d" "docs r' = docs r - {d}" by (auto simp: r(1) term_docs_def)
    then show ?thesis by (intro exI [of _ "Some r'"]) (simp add: r(1) term_ok_def term_docs_def term_cur_def term_ops_def term_doc_def)
  qed
  assume t: "term_cur cur s < t" "t < mx"
  then have t': "cur r < t" by (simp add: r(1) term_cur_def)
  show "\<exists>s'. it_skipTo (term_ops ops) t s = Some (mx, s') \<and> (s' \<noteq> None \<and> term_ok ok s') \<and> term_docs docs s' = {}"
    if "{e \<in> term_docs docs s. t \<le> e} = {}"
    using skip_end [OF r(2) t' t(2)] that by (auto simp: r(1) term_ops_def term_skipTo_def term_ok_def term_docs_def)
  show "\<exists>s'. it_skipTo (term_ops ops) t s = Some (d, s') \<and> (s' \<noteq> None \<and> term_ok ok s') \<and> it_doc (term_ops ops) s' = d \<and> term_cur cur s' = d \<and>
      term_docs docs s' = {e \<in> term_docs docs s. d < e}" if "least_in {e \<in> term_docs docs s. t \<le> e} d"
  proof -
    have "least_in {e \<in> docs r. t \<le> e} d" using that by (simp add: r(1) term_docs_def)
    from skip_doc [OF r(2) t' t(2) this] obtain r' where "it_skipTo ops t r = Some (d, r')" "ok r'" "it_doc ops r' = d" "cur r' = d"
      "docs r' = {e \<in> docs r. d < e}" by blast
    then show ?thesis
      by (intro exI [of _ "Some r'"]) (simp add: r(1) term_ops_def term_skipTo_def term_doc_def term_ok_def term_docs_def term_cur_def)
  qed
qed

lemma filter_iterator: "doc_iterator (filter_ops ops) mx ok docs cur"
  using docs_range next_end next_doc skip_end skip_doc by unfold_locales (auto simp: filter_ops_def)

end

section \<open>A posting list as the reader\<close>

definition posting_ops :: "nat \<Rightarrow> (nat \<times> nat list) iter_ops" where
  "posting_ops mx = \<lparr>
     it_next = (\<lambda>(c, ds). Some (case ds of [] \<Rightarrow> (False, (c, [])) | d # r \<Rightarrow> (True, (d, r)))),
     it_doc = fst,
     it_skipTo = (\<lambda>t (c, ds). Some (case dropWhile (\<lambda>d. d < t) ds of [] \<Rightarrow> (mx, (c, [])) | d # r \<Rightarrow> (d, (d, r))))\<rparr>"

definition posting_ok :: "nat \<Rightarrow> nat \<times> nat list \<Rightarrow> bool" where
  "posting_ok mx = (\<lambda>(c, ds). sorted_wrt (<) (c # ds) \<and> (\<forall>d \<in> set ds. d < mx))"

definition posting_docs :: "nat \<times> nat list \<Rightarrow> nat set" where
  "posting_docs = (\<lambda>(c, ds). set ds)"

lemma least_in_sorted: "sorted_wrt (<) (d # r) \<Longrightarrow> least_in (set (d # r)) e \<Longrightarrow> e = d"
  by (force simp: least_in_def)

lemma dropWhile_sorted: "sorted_wrt (<) ds \<Longrightarrow> set (dropWhile (\<lambda>d. d < t) ds) = {e \<in> set ds. t \<le> e}" for ds :: "nat list"
  by (induction ds) (auto simp: not_less)

interpretation posting: doc_iterator "posting_ops mx" mx "posting_ok mx" posting_docs fst for mx
proof unfold_locales
  fix s :: "nat \<times> nat list" and d t
  assume ok: "posting_ok mx s"
  obtain c ds where s: "s = (c, ds)" by (cases s)
  have ds: "sorted_wrt (<) (c # ds)" "\<forall>d \<in> set ds. d < mx" using ok by (simp_all add: posting_ok_def s)
  show "fst s < d \<and> d < mx" if "d \<in> posting_docs s" using ds that by (auto simp: posting_docs_def s)
  show "\<exists>s'. it_next (posting_ops mx) s = Some (False, s') \<and> posting_ok mx s' \<and> posting_docs s' = {}" if "posting_docs s = {}"
    using that by (simp add: posting_ops_def posting_docs_def posting_ok_def s)
  show "\<exists>s'. it_next (posting_ops mx) s = Some (True, s') \<and> posting_ok mx s' \<and> it_doc (posting_ops mx) s' = d \<and> fst s' = d \<and>
      posting_docs s' = posting_docs s - {d}" if "least_in (posting_docs s) d"
  proof (cases ds)
    case Nil
    then show ?thesis using that by (simp add: posting_docs_def s least_in_def)
  next
    case (Cons e r)
    then have "d = e" using least_in_sorted [of e r d] that ds by (simp add: posting_docs_def s)
    then show ?thesis using ds Cons by (auto simp: posting_ops_def posting_docs_def posting_ok_def s)
  qed
  let ?r = "dropWhile (\<lambda>d. d < t) ds"
  have r: "set ?r = {e \<in> posting_docs s. t \<le> e}" using dropWhile_sorted [of ds t] ds by (simp add: posting_docs_def s)
  have sr: "sorted_wrt (<) ?r" using ds sorted_wrt_dropWhile by auto
  show "\<exists>s'. it_skipTo (posting_ops mx) t s = Some (mx, s') \<and> posting_ok mx s' \<and> posting_docs s' = {}"
    if "{e \<in> posting_docs s. t \<le> e} = {}"
  proof -
    have "?r = []" using that r by (metis set_empty)
    then show ?thesis by (simp add: posting_ops_def posting_docs_def posting_ok_def s del: dropWhile_eq_Nil_conv)
  qed
  show "\<exists>s'. it_skipTo (posting_ops mx) t s = Some (d, s') \<and> posting_ok mx s' \<and> it_doc (posting_ops mx) s' = d \<and> fst s' = d \<and>
      posting_docs s' = {e \<in> posting_docs s. d < e}" if d: "least_in {e \<in> posting_docs s. t \<le> e} d"
  proof (cases ?r)
    case Nil
    have "d \<in> set ?r" unfolding r using d by (simp only: least_in_def)
    then show ?thesis unfolding Nil by simp
  next
    case (Cons e u)
    then have e: "d = e" using least_in_sorted [of e u d] d sr r by simp
    have "set u = {x \<in> posting_docs s. d < x}"
    proof -
      have "t \<le> d" using d by (simp add: least_in_def)
      then have "{x \<in> posting_docs s. d < x} = {x \<in> {e \<in> posting_docs s. t \<le> e}. d < x}" by auto
      also have "\<dots> = {x \<in> set (e # u). d < x}" unfolding r [symmetric] Cons ..
      also have "\<dots> = set u" using sr Cons e by auto
      finally show ?thesis by simp
    qed
    moreover have "\<forall>x \<in> set ?r. x < mx" unfolding r using ds(2) by (auto simp: posting_docs_def s)
    ultimately show ?thesis using Cons e sr by (simp add: posting_ops_def posting_docs_def posting_ok_def s)
  qed
qed

section \<open>Children of different classes\<close>

text \<open>A list of children may mix classes; a call goes to the class of the child.\<close>

definition dispatch_ops :: "'s iter_ops \<Rightarrow> 't iter_ops \<Rightarrow> ('s + 't) iter_ops" where
  "dispatch_ops o1 o2 = \<lparr>
     it_next = case_sum (\<lambda>s. map_option (map_prod id Inl) (it_next o1 s)) (\<lambda>t. map_option (map_prod id Inr) (it_next o2 t)),
     it_doc = case_sum (it_doc o1) (it_doc o2),
     it_skipTo = (\<lambda>d. case_sum (\<lambda>s. map_option (map_prod id Inl) (it_skipTo o1 d s)) (\<lambda>t. map_option (map_prod id Inr) (it_skipTo o2 d t)))\<rparr>"

lemma dispatch_iterator:
  assumes "doc_iterator o1 mx ok1 docs1 cur1" and "doc_iterator o2 mx ok2 docs2 cur2"
  shows "doc_iterator (dispatch_ops o1 o2) mx (case_sum ok1 ok2) (case_sum docs1 docs2) (case_sum cur1 cur2)"
proof unfold_locales
  fix s :: "'a + 'b" and d t
  assume ok: "case_sum ok1 ok2 s"
  note d1 = doc_stream.docs_range [OF doc_iterator.axioms(1) [OF assms(1)]] doc_stream.next_end [OF doc_iterator.axioms(1) [OF assms(1)]]
    doc_stream.next_doc [OF doc_iterator.axioms(1) [OF assms(1)]] doc_iterator.skip_end [OF assms(1)] doc_iterator.skip_doc [OF assms(1)]
  note d2 = doc_stream.docs_range [OF doc_iterator.axioms(1) [OF assms(2)]] doc_stream.next_end [OF doc_iterator.axioms(1) [OF assms(2)]]
    doc_stream.next_doc [OF doc_iterator.axioms(1) [OF assms(2)]] doc_iterator.skip_end [OF assms(2)] doc_iterator.skip_doc [OF assms(2)]
  show "case_sum cur1 cur2 s < d \<and> d < mx" if "d \<in> case_sum docs1 docs2 s"
    using ok that d1(1) d2(1) by (cases s) simp_all
  show "\<exists>s'. it_next (dispatch_ops o1 o2) s = Some (False, s') \<and> case_sum ok1 ok2 s' \<and> case_sum docs1 docs2 s' = {}"
    if "case_sum docs1 docs2 s = {}"
  proof (cases s)
    case (Inl x)
    then show ?thesis using d1(2) [of x] ok that by (auto simp: dispatch_ops_def)
  next
    case (Inr x)
    then show ?thesis using d2(2) [of x] ok that by (auto simp: dispatch_ops_def)
  qed
  show "\<exists>s'. it_next (dispatch_ops o1 o2) s = Some (True, s') \<and> case_sum ok1 ok2 s' \<and> it_doc (dispatch_ops o1 o2) s' = d \<and>
      case_sum cur1 cur2 s' = d \<and> case_sum docs1 docs2 s' = case_sum docs1 docs2 s - {d}" if "least_in (case_sum docs1 docs2 s) d"
  proof (cases s)
    case (Inl x)
    then show ?thesis using d1(3) [of x d] ok that by (auto simp: dispatch_ops_def)
  next
    case (Inr x)
    then show ?thesis using d2(3) [of x d] ok that by (auto simp: dispatch_ops_def)
  qed
  assume t: "case_sum cur1 cur2 s < t" "t < mx"
  show "\<exists>s'. it_skipTo (dispatch_ops o1 o2) t s = Some (mx, s') \<and> case_sum ok1 ok2 s' \<and> case_sum docs1 docs2 s' = {}"
    if "{e \<in> case_sum docs1 docs2 s. t \<le> e} = {}"
  proof (cases s)
    case (Inl x)
    then show ?thesis using d1(4) [of x t] ok that t by (auto simp: dispatch_ops_def)
  next
    case (Inr x)
    then show ?thesis using d2(4) [of x t] ok that t by (auto simp: dispatch_ops_def)
  qed
  show "\<exists>s'. it_skipTo (dispatch_ops o1 o2) t s = Some (d, s') \<and> case_sum ok1 ok2 s' \<and> it_doc (dispatch_ops o1 o2) s' = d \<and>
      case_sum cur1 cur2 s' = d \<and> case_sum docs1 docs2 s' = {e \<in> case_sum docs1 docs2 s. d < e}"
    if "least_in {e \<in> case_sum docs1 docs2 s. t \<le> e} d"
  proof (cases s)
    case (Inl x)
    then show ?thesis using d1(5) [of x t d] ok that t by (auto simp: dispatch_ops_def)
  next
    case (Inr x)
    then show ?thesis using d2(5) [of x t d] ok that t by (auto simp: dispatch_ops_def)
  qed
qed

section \<open>Queries built by \<open>add\<close>\<close>

lemma fold_and_add:
  "fold (and_add isNot nadd) its a = a\<lparr>hasNot := hasNot a \<or> (\<exists>it \<in> set its. isNot it), notIter := fold nadd (filter isNot its) (notIter a),
     docIterList := docIterList a @ filter (Not \<circ> isNot) its, nIteratorNum := nIteratorNum a + length (filter (Not \<circ> isNot) its)\<rparr>"
  by (induction its arbitrary: a) (auto simp: and_add_def)

lemma fold_or_add:
  "\<forall>it \<in> set its. \<not> isNot it \<Longrightarrow> fold (or_add isNot nadd) its a = a\<lparr>or_list := or_list a @ map (\<lambda>it. Some (it, False)) its\<rparr>"
  by (induction its arbitrary: a) (auto simp: or_add_def)

lemma fold_not_add: "fold not_add its a = a\<lparr>or_list := or_list a @ map (\<lambda>it. Some (it, False)) its\<rparr>"
  by (induction its arbitrary: a) (auto simp: not_add_def)

lemma gather_all: "gather f l {..<length l} = (\<Union>x \<in> set l. f x)"
proof -
  have "set l = (!) l ` {..<length l}" by (auto simp: set_conv_nth)
  then show ?thesis unfolding gather_def by simp
qed

lemma fresh_or:
  assumes "\<forall>it \<in> set its. ok it"
  shows "or_ok ops mx ok cur qops q_ok (or_init mx c n\<lparr>or_list := map (\<lambda>it. Some (it, False)) its\<rparr>)"
    and "or_docs qops docs cur (or_init mx c n\<lparr>or_list := map (\<lambda>it. Some (it, False)) its\<rparr>) = (\<Union>it \<in> set its. docs it)"
proof -
  show "or_ok ops mx ok cur qops q_ok (or_init mx c n\<lparr>or_list := map (\<lambda>it. Some (it, False)) its\<rparr>)"
    using assms by (auto simp: or_ok_def or_init_def)
  have "or_docs qops docs cur (or_init mx c n\<lparr>or_list := map (\<lambda>it. Some (it, False)) its\<rparr>) =
      (\<Union>x \<in> set (map (\<lambda>it. Some (it, False)) its). fresh_docs docs x)"
    unfolding gather_all [symmetric] by (simp add: or_docs_def or_init_def)
  then show "or_docs qops docs cur (or_init mx c n\<lparr>or_list := map (\<lambda>it. Some (it, False)) its\<rparr>) = (\<Union>it \<in> set its. docs it)" by simp
qed

lemma fresh_and:
  assumes "\<forall>it \<in> set its. ok it \<and> cur it = 0" and "its \<noteq> []"
    and "docIterList a = its" and "nIteratorNum a = length its"
  shows "and_ok ok docs cur a" and "and_docs docs a = (\<Inter>it \<in> set its. docs it)"
  using assms by (auto simp: and_ok_def and_docs_def meet_def)

lemma stream_all: "doc_stream ops mx ok docs cur \<Longrightarrow> ok s \<Longrightarrow> docs s = D \<Longrightarrow>
    \<exists>s'. iterate ops (Suc (card D)) s = Some (sorted_list_of_set D, s')"
  using doc_stream.iterate_all [of ops mx ok docs cur s] by auto

section \<open>What queries deliver\<close>

text \<open>The classes over posting lists, with the heap as the queue.\<close>

interpretation por: or_union "posting_ops mx" mx "posting_ok mx" posting_docs fst heap_queue heap_queue_ok maxSize for mx
  by unfold_locales

interpretation pnot: and_not "posting_ops mx" "not_ops (posting_ops mx) heap_queue mx" mx "posting_ok mx" posting_docs fst
    "\<lambda>a. \<not> or_hasNot a \<and> or_ok (posting_ops mx) mx (posting_ok mx) fst heap_queue heap_queue_ok a" "or_docs heap_queue posting_docs fst" or_cur for mx
  by (rule and_not.intro [OF posting.doc_iterator_axioms por.not_iterator])

text \<open>
  C7. Boolean queries. Take children that keep the contract of an iterator and have not been
  moved, add them one by one to a new AND iterator, at least one of them not negated, and call
  \<open>next\<close> until it fails. Every call returns, and the documents read are those that all of the
  other children have and none of the negated ones has, each once and in ascending order.
  (The member \<open>currDoc_\<close>, which the constructor leaves uninitialised, must not happen to be
  \<open>MAX_DOC_ID\<close>.)
\<close>

theorem and_not_delivers_difference:
  assumes "doc_iterator ops MAX_DOC_ID ok docs cur" and "iter_queue qops q_ok q_cap" and "c < MAX_DOC_ID"
    and "\<forall>it \<in> set its. ok it \<and> cur it = 0" and "\<exists>it \<in> set its. \<not> isNot it"
    and "D = (\<Inter>it \<in> set (filter (Not \<circ> isNot) its). docs it) - (\<Union>it \<in> set (filter isNot its). docs it)"
  shows "\<exists>a. iterate (and_ops ops (not_ops ops qops MAX_DOC_ID) MAX_DOC_ID) (Suc (card D))
      (fold (and_add isNot not_add) its (and_init MAX_DOC_ID c (or_init MAX_DOC_ID c' ()))) = Some (sorted_list_of_set D, a)"
proof -
  let ?mx = MAX_DOC_ID and ?ps = "filter (Not \<circ> isNot) its" and ?ns = "filter isNot its"
  let ?n = "or_init ?mx c' ()\<lparr>or_list := map (\<lambda>it. Some (it, False)) ?ns\<rparr>"
  let ?a = "fold (and_add isNot not_add) its (and_init ?mx c (or_init ?mx c' ()))"
  have u: "or_union ops ?mx ok docs cur qops q_ok q_cap" by (rule or_union.intro [OF assms(1,2)])
  have a: "docIterList ?a = ?ps" "nIteratorNum ?a = length ?ps" "hasNot ?a = (?ns \<noteq> [])" "notIter ?a = ?n"
    "and_currDoc ?a = c" "\<not> initNOTIterator ?a"
    unfolding fold_and_add fold_not_add by (auto simp: and_init_def or_init_def filter_empty_conv)
  have "\<forall>it \<in> set ?ps. ok it \<and> cur it = 0" "?ps \<noteq> []" using assms(4,5) by (auto simp: filter_empty_conv)
  note p = fresh_and [where docs = docs, OF this a(1,2)]
  show ?thesis
  proof (cases "?ns = []")
    case True
    then have "\<not> hasNot ?a \<and> and_ok ok docs cur ?a" "and_docs docs ?a = D" using a(3) p assms(6) by simp_all
    then show ?thesis
      by (rule stream_all [OF doc_iterator.axioms(1) [OF doc_iterator.and_iterator [OF assms(1)]]])
  next
    case False
    have ok: "\<forall>it \<in> set ?ns. ok it" using assms(4) by simp
    have n: "or_ok ops ?mx ok cur qops q_ok ?n" "or_docs qops docs cur ?n = (\<Union>it \<in> set ?ns. docs it)"
      by (rule fresh_or(1) [OF ok], rule fresh_or(2) [OF ok])
    have "\<not> or_hasNot ?n" by (simp add: or_init_def)
    then have "andn_ok ?mx ok docs cur (\<lambda>a. \<not> or_hasNot a \<and> or_ok ops ?mx ok cur qops q_ok a) (or_docs qops docs cur) or_cur ?a"
      unfolding andn_ok_def a(3-5) using a(6) False p(1) n(1) assms(3) by blast
    moreover have "andn_docs ?mx docs (or_docs qops docs cur) ?a = D"
      unfolding andn_docs_def andn_left_def if_not_P [OF a(6)] a(4) p(2) n(2) assms(6) ..
    ultimately show ?thesis
      by (rule stream_all [OF and_not.and_not_stream [OF and_not.intro [OF assms(1) or_union.not_iterator [OF u]]]])
  qed
qed

theorem and_not_delivers_difference_witness:
  "\<exists>a. iterate (and_ops (posting_ops MAX_DOC_ID) (not_ops (posting_ops MAX_DOC_ID) heap_queue MAX_DOC_ID) MAX_DOC_ID) 3
     (fold (and_add (\<lambda>p. p = (0, [3, 9])) not_add) [(0, [1, 3, 5, 7]), (0, [3, 9]), (0, [3, 5, 6, 7])]
       (and_init MAX_DOC_ID 0 (or_init MAX_DOC_ID 0 ()))) = Some ([5, 7], a)"
proof -
  let ?its = "[(0, [1, 3, 5, 7]), (0, [3, 9]), (0, [3, 5, 6, 7])] :: (nat \<times> nat list) list"
  have ok: "\<forall>it \<in> set ?its. posting_ok MAX_DOC_ID it \<and> fst it = 0" by (simp add: posting_ok_def MAX_DOC_ID_def)
  have D: "{5, 7} = (\<Inter>it \<in> set (filter (Not \<circ> (\<lambda>p. p = (0, [3, 9]))) ?its). posting_docs it) -
      (\<Union>it \<in> set (filter (\<lambda>p. p = (0, [3, 9])) ?its). posting_docs it)" by (auto simp: posting_docs_def)
  have "\<exists>it \<in> set ?its. \<not> (\<lambda>p. p = (0, [3, 9])) it" by simp
  from and_not_delivers_difference [OF posting.doc_iterator_axioms hq.iter_queue_axioms _ ok this D, of 0 0] show ?thesis
    by (simp add: MAX_DOC_ID_def numeral_3_eq_3)
qed

text \<open>
  C8. Disjunctions. New children that keep the contract, added to a new OR iterator: calling
  \<open>next\<close> until it fails, every call returns, and the documents read are those of all children,
  each once and in ascending order, although a document of several children is met several
  times in the queue.
\<close>

theorem or_delivers_union:
  assumes "doc_iterator ops MAX_DOC_ID ok docs cur" and "iter_queue qops q_ok q_cap"
    and "\<forall>it \<in> set its. ok it \<and> \<not> isNot it" and "D = (\<Union>it \<in> set its. docs it)"
  shows "\<exists>a. iterate (or_ops ops qops nops MAX_DOC_ID) (Suc (card D))
      (fold (or_add isNot nadd) its (or_init MAX_DOC_ID c n0)) = Some (sorted_list_of_set D, a)"
proof -
  let ?a = "or_init MAX_DOC_ID c n0\<lparr>or_list := map (\<lambda>it. Some (it, False)) its\<rparr>"
  have a: "fold (or_add isNot nadd) its (or_init MAX_DOC_ID c n0) = ?a"
    using assms(3) by (subst fold_or_add) (simp_all add: or_init_def)
  have ok: "\<forall>it \<in> set its. ok it" using assms(3) by simp
  have "\<not> or_hasNot ?a" by (simp add: or_init_def)
  moreover have "or_ok ops MAX_DOC_ID ok cur qops q_ok ?a" by (rule fresh_or(1) [OF ok])
  moreover have "or_docs qops docs cur ?a = D" unfolding assms(4) by (rule fresh_or(2) [OF ok])
  ultimately show ?thesis unfolding a
    by (intro stream_all [OF doc_iterator.axioms(1) [OF or_union.or_iterator [OF or_union.intro [OF assms(1,2)]]]]) simp_all
qed

theorem or_delivers_union_witness:
  "\<exists>a. iterate (or_ops (posting_ops MAX_DOC_ID) heap_queue (not_ops (posting_ops MAX_DOC_ID) heap_queue MAX_DOC_ID) MAX_DOC_ID) 5
     (fold (or_add (\<lambda>_. False) not_add) [(0, [2, 5]), (0, [1, 5, 8])] (or_init MAX_DOC_ID 0 (or_init MAX_DOC_ID 0 ()))) = Some ([1, 2, 5, 8], a)"
proof -
  let ?its = "[(0, [2, 5]), (0, [1, 5, 8])] :: (nat \<times> nat list) list"
  have ok: "\<forall>it \<in> set ?its. posting_ok MAX_DOC_ID it \<and> \<not> False" by (simp add: posting_ok_def MAX_DOC_ID_def)
  have D: "{1, 2, 5, 8} = (\<Union>it \<in> set ?its. posting_docs it)" by (auto simp: posting_docs_def)
  have "card {1, 2, 5, 8 :: nat} = 4" "sorted_list_of_set {1, 2, 5, 8 :: nat} = [1, 2, 5, 8]" by simp_all
  with or_delivers_union [OF posting.doc_iterator_axioms hq.iter_queue_axioms ok D,
      of "not_ops (posting_ops MAX_DOC_ID) heap_queue MAX_DOC_ID" not_add 0 "or_init MAX_DOC_ID 0 ()"] show ?thesis by (simp only: eval_nat_numeral)
qed

text \<open>
  C9. Iterators compose. Whatever two classes of children keep the contract of an iterator
  (deliver the least document to come, skip to the least one from a target on, report the
  end by \<open>MAX_DOC_ID\<close>), an AND iterator and an OR iterator over any mixture of them, without
  negated children, keep it too, for the intersection and the union. So queries can be nested.
\<close>

theorem boolean_iterators_compose:
  assumes "doc_iterator o1 MAX_DOC_ID ok1 docs1 cur1" and "doc_iterator o2 MAX_DOC_ID ok2 docs2 cur2" and "iter_queue qops q_ok q_cap"
  shows "doc_iterator (and_ops (dispatch_ops o1 o2) nops MAX_DOC_ID) MAX_DOC_ID
      (\<lambda>a. \<not> hasNot a \<and> and_ok (case_sum ok1 ok2) (case_sum docs1 docs2) (case_sum cur1 cur2) a)
      (and_docs (case_sum docs1 docs2)) (and_cur (case_sum cur1 cur2)) \<and>
    doc_iterator (or_ops (dispatch_ops o1 o2) qops nops' MAX_DOC_ID) MAX_DOC_ID
      (\<lambda>a. \<not> or_hasNot a \<and> or_ok (dispatch_ops o1 o2) MAX_DOC_ID (case_sum ok1 ok2) (case_sum cur1 cur2) qops q_ok a)
      (or_docs qops (case_sum docs1 docs2) (case_sum cur1 cur2)) or_cur"
  using doc_iterator.and_iterator [OF dispatch_iterator [OF assms(1,2)]]
    or_union.or_iterator [OF or_union.intro [OF dispatch_iterator [OF assms(1,2)] assms(3)]] by blast

theorem boolean_iterators_compose_witness:
  "doc_iterator (and_ops (dispatch_ops (posting_ops MAX_DOC_ID) (filter_ops (posting_ops MAX_DOC_ID))) (posting_ops MAX_DOC_ID) MAX_DOC_ID) MAX_DOC_ID
     (\<lambda>a. \<not> hasNot a \<and> and_ok (case_sum (posting_ok MAX_DOC_ID) (posting_ok MAX_DOC_ID)) (case_sum posting_docs posting_docs) (case_sum fst fst) a)
     (and_docs (case_sum posting_docs posting_docs)) (and_cur (case_sum fst fst))"
  using boolean_iterators_compose [OF posting.doc_iterator_axioms posting.filter_iterator hq.iter_queue_axioms] by blast

lemma and_do_skipTo_not: "and_do_skipTo ops mx t a = Some (f, a') \<Longrightarrow> notIter a' = notIter a"
  by (auto simp: and_do_skipTo_def split: if_splits)

context and_not
begin

lemma skip_excluded:
  assumes "and_ok ok docs cur a" and "hasNot a" and "nok (notIter a)" and "and_cur cur a < t" and "ncur (notIter a) < t"
    and "t \<in> and_docs docs a" and "t \<in> ndocs (notIter a)"
  shows "\<exists>a'. and_skipTo ops nops mx t a = Some (mx, a')"
proof -
  have t: "t < mx" using neg.docs_range [OF assms(3,7)] by simp
  have l: "least_in {e \<in> and_docs docs a. t \<le> e} t" using assms(6) by (simp add: least_in_def)
  then have ne: "{e \<in> and_docs docs a. t \<le> e} \<noteq> {}" by (auto simp: least_in_def)
  from pos.and_do_skipTo_spec [OF assms(1,4) t, unfolded if_not_P [OF ne]] obtain f a1 where
    1: "and_do_skipTo ops mx t a = Some (f, a1)" "notIter a1 = notIter a" "least_in {e \<in> and_docs docs a. t \<le> e} f"
    using and_do_skipTo_not by blast
  have f: "f = t" by (rule least_in_unique [OF 1(3) l])
  have "nok (notIter a1)" "ncur (notIter a1) < t" using 1(2) assms(3,5) by simp_all
  from not_skip_spec [OF this t] obtain c n where
    2: "not_skip nops t a1 = Some (a1\<lparr>notIter := n, currDocOfNOTIter := c\<rparr>)" "nok n" "not_at mx ndocs ncur c n" "t \<le> c"
      "excluded mx ndocs c n = {x \<in> ndocs (notIter a1). t \<le> x}" by blast
  have "t \<in> excluded mx ndocs c n" using 2(5) 1(2) assms(7) by simp
  then have "c = t" using 2(2,3,4) neg.docs_range [of n t] by (auto simp: excluded_def not_at_def split: if_splits)
  then show ?thesis using assms(2) 1(1) 2(1) f t by (simp add: and_skipTo_def and_skipTo_loop.simps [of _ _ _ t])
qed

end

text \<open>
  C39. \<open>skipTo\<close> of an AND iterator with a negated child gives up when it meets a negated document:
  if the target itself is a document of all the other children and of the negated ones, it
  reports the end of the documents, whatever documents come after the target. (A caller that
  takes this as the end, such as an enclosing AND iterator, loses all of them.)
\<close>

theorem skipTo_negated_target_ends:
  assumes "doc_iterator ops MAX_DOC_ID ok docs cur" and "doc_iterator nops MAX_DOC_ID nok ndocs ncur"
    and "and_ok ok docs cur a" and "hasNot a" and "nok (notIter a)" and "and_cur cur a < t" and "ncur (notIter a) < t"
    and "t \<in> and_docs docs a" and "t \<in> ndocs (notIter a)"
  shows "\<exists>a'. and_skipTo ops nops MAX_DOC_ID t a = Some (MAX_DOC_ID, a')"
  by (rule and_not.skip_excluded [OF and_not.intro [OF assms(1,2)] assms(3-)])

theorem skipTo_negated_target_ends_witness:
  "\<exists>a a'. and_skipTo (posting_ops MAX_DOC_ID) (posting_ops MAX_DOC_ID) MAX_DOC_ID 2 a = Some (MAX_DOC_ID, a') \<and>
     3 \<in> andn_docs MAX_DOC_ID posting_docs posting_docs a"
proof -
  let ?a = "(and_init MAX_DOC_ID 0 (0, [2]) :: (nat \<times> nat list, nat \<times> nat list) and_iter)\<lparr>hasNot := True, docIterList := [(0, [2, 3])], nIteratorNum := 1\<rparr>"
  have "and_ok (posting_ok MAX_DOC_ID) posting_docs fst ?a" "hasNot ?a" "posting_ok MAX_DOC_ID (notIter ?a)" "and_cur fst ?a < 2"
    "fst (notIter ?a) < 2" "2 \<in> and_docs posting_docs ?a" "2 \<in> posting_docs (notIter ?a)"
    by (simp_all add: and_init_def and_ok_def posting_ok_def MAX_DOC_ID_def and_cur_def and_docs_def meet_def posting_docs_def)
  from skipTo_negated_target_ends [OF posting.doc_iterator_axioms posting.doc_iterator_axioms this]
  obtain a' where "and_skipTo (posting_ops MAX_DOC_ID) (posting_ops MAX_DOC_ID) MAX_DOC_ID 2 ?a = Some (MAX_DOC_ID, a')" by blast
  moreover have "3 \<in> andn_docs MAX_DOC_ID posting_docs posting_docs ?a"
    by (simp add: and_init_def andn_docs_def andn_left_def and_docs_def meet_def posting_docs_def)
  ultimately show ?thesis by blast
qed

text \<open>
  All documents. An \<open>AllDocumentIterator\<close> made with a reader of the deleted documents walks,
  by \<open>next\<close>, through the documents from 1 to \<open>maxDoc_\<close> that are not deleted, each once and in
  ascending order, and then reports the end.
\<close>

lemma all_documents_but_deleted:
  assumes "doc_iterator rops MAX_DOC_ID ok docs cur" and "ok r" and "m < MAX_DOC_ID"
  shows "\<exists>a a'. all_new_del rops MAX_DOC_ID r m = Some a \<and>
    iterate (all_ops rops MAX_DOC_ID) (Suc (card ({1..m} - docs r))) a = Some (sorted_list_of_set ({1..m} - docs r), a')"
proof -
  from doc_iterator.all_new_del_ok [OF assms] obtain a where
    a: "all_new_del rops MAX_DOC_ID r m = Some a" "all_ok MAX_DOC_ID ok docs cur a" "all_docs MAX_DOC_ID docs a = {1..m} - docs r" by blast
  from doc_iterator.all_iterate [OF assms(1) a(2)] show ?thesis using a(1) unfolding a(3) by blast
qed

text \<open>
  \<open>skipTo\<close> of \<open>AllDocumentIterator\<close> oversteps: from a document before the target it goes to the
  document after the target, although the target is to come and should be found.
\<close>

lemma all_skipTo_oversteps:
  assumes "delTermDocFreqs a = None" and "all_currDoc a < t" and "t < maxDoc a"
  shows "all_skipTo rops MAX_DOC_ID t a = Some (t + 1, a\<lparr>all_currDoc := t + 1\<rparr>) \<and> t \<in> all_docs MAX_DOC_ID docs a"
  using assms by (simp add: all_skipTo_def all_do_skipTo_def all_found_def all_step_def all_docs_def)

section \<open>\<open>DocumentIteratorContainer\<close>\<close>

record 's iter_container =
  docIters :: "'s list"
  hasNullDocIterator :: bool

definition container_add :: "'s option \<Rightarrow> 's iter_container \<Rightarrow> 's iter_container" where
  "container_add it k = (case it of None \<Rightarrow> k\<lparr>hasNullDocIterator := True\<rparr> | Some s \<Rightarrow> k\<lparr>docIters := docIters k @ [s]\<rparr>)"

definition container_combine :: "('s \<Rightarrow> bool) \<Rightarrow> ('s \<Rightarrow> 'n \<Rightarrow> 'n) \<Rightarrow> nat \<Rightarrow> nat \<Rightarrow> 'n \<Rightarrow> 's iter_container \<Rightarrow>
    ('s + ('s, 'n) and_iter) option \<times> 's iter_container" where
  "container_combine isNot nadd mx c n0 k =
     (if docIters k = [] \<or> hasNullDocIterator k then (None, k)
      else (Some (if length (docIters k) = 1 then Inl (docIters k ! 0)
                  else Inr (fold (and_add isNot nadd) (docIters k) (and_init mx c n0))), k\<lparr>docIters := []\<rparr>))"

text \<open>One part of the query missing, nothing is searched; otherwise the parts are intersected.\<close>

lemma combine_delivers:
  assumes "doc_iterator ops mx ok docs cur" and "\<forall>it \<in> set its. ok it \<and> cur it = 0 \<and> \<not> isNot it" and "its \<noteq> []"
    and "k = fold container_add (map Some its) \<lparr>docIters = [], hasNullDocIterator = False\<rparr>" and "D = (\<Inter>it \<in> set its. docs it)"
  shows "\<exists>s s'. fst (container_combine isNot nadd mx c n0 k) = Some s \<and>
    iterate (dispatch_ops ops (and_ops ops nops mx)) (Suc (card D)) s = Some (sorted_list_of_set D, s')"
proof -
  have "docIters (fold container_add (map Some its) k) = docIters k @ its" "hasNullDocIterator (fold container_add (map Some its) k) = hasNullDocIterator k" for k
    by (induction its arbitrary: k) (simp_all add: container_add_def)
  then have k: "docIters k = its" "\<not> hasNullDocIterator k" by (simp_all add: assms(4))
  let ?a = "fold (and_add isNot nadd) its (and_init mx c n0)"
  let ?ok = "case_sum ok (\<lambda>a. \<not> hasNot a \<and> and_ok ok docs cur a)" and ?docs = "case_sum docs (and_docs docs)"
  have f: "filter (Not \<circ> isNot) its = its" "\<not> (\<exists>it \<in> set its. isNot it)" using assms(2) by (simp_all add: filter_id_conv)
  have a: "docIterList ?a = its" "nIteratorNum ?a = length its" "\<not> hasNot ?a" using f by (simp_all add: fold_and_add and_init_def)
  have "\<forall>it \<in> set its. ok it \<and> cur it = 0" using assms(2) by simp
  note p = fresh_and [where docs = docs, OF this assms(3) a(1,2)]
  have st: "doc_stream (dispatch_ops ops (and_ops ops nops mx)) mx ?ok ?docs (case_sum cur (and_cur cur))"
    by (rule doc_iterator.axioms(1) [OF dispatch_iterator [OF assms(1) doc_iterator.and_iterator [OF assms(1)]]])
  show ?thesis
  proof (cases "length its = 1")
    case True
    then obtain it where it: "its = [it]" by (cases its) auto
    have "\<exists>s'. iterate (dispatch_ops ops (and_ops ops nops mx)) (Suc (card D)) (Inl it) = Some (sorted_list_of_set D, s')"
      by (rule stream_all [OF st]) (use it assms(2,5) in simp_all)
    then show ?thesis using it k by (simp add: container_combine_def)
  next
    case False
    have "\<exists>s'. iterate (dispatch_ops ops (and_ops ops nops mx)) (Suc (card D)) (Inr ?a) = Some (sorted_list_of_set D, s')"
      by (rule stream_all [OF st]) (use p a(3) assms(5) in simp_all)
    then show ?thesis using False k assms(3) by (simp add: container_combine_def)
  qed
qed

text \<open>
  An OR iterator with negated children may deliver a negated document: when the document
  found is negated, both sides move on by one document, and a document that the negated
  children have not reached yet is delivered unchecked. Documents 1 and 5, without 1, 3 and
  5, give 5. (The end of the documents is 9 here, which takes no part.)
\<close>

lemma or_not_delivers_negated:
  "map_option fst (iterate (or_ops (posting_ops 9) heap_queue (not_ops (posting_ops 9) heap_queue 9) 9) 3
     (fold (or_add (\<lambda>p. p = (0, [1, 3, 5])) not_add) [(0, [1, 5]), (0, [1, 3, 5])] (or_init 9 0 (or_init 9 0 ())))) = Some [5]"
  by code_simp

section \<open>Weak conjunctions\<close>

lemma weight_index: "weight ub g l (map (Pair 0) [0..<n]) d = (\<Sum>i < n. if d \<in> g (l ! i) then ub i else 0)"
  by (induction n) (simp_all add: weight_append weight_Cons)

lemma fold_wand_add: "fold wand_add its a = a\<lparr>wand_list := wand_list a @ map (\<lambda>it. Some (it, False)) its\<rparr>"
  by (induction its arbitrary: a) (simp_all add: wand_add_def)

text \<open>
  C10. Weak conjunctions. New children that keep the contract, added to a new WAND iterator with
  upper bounds and a threshold that are not negative: calling \<open>next\<close> until it fails, every call
  returns, and the documents read are exactly those for which the upper bounds of the children
  that have them add up to more than the threshold, each once and in ascending order. So
  skipping to the pivot loses no document that could score above the threshold.
\<close>

theorem wand_delivers_heavy:
  assumes "doc_iterator ops MAX_DOC_ID ok docs cur" and "\<forall>i. 0 \<le> ub i" and "0 \<le> \<theta>" and "\<forall>it \<in> set its. ok it"
    and "D = {d. \<theta> < (\<Sum>i < length its. if d \<in> docs (its ! i) then ub i else 0)}"
  shows "\<exists>a. iterate (wand_ops ops ub MAX_DOC_ID) (Suc (card D)) (setThreshold \<theta> (fold wand_add its wand_init)) = Some (sorted_list_of_set D, a)"
proof -
  let ?a = "setThreshold \<theta> (fold wand_add its wand_init)"
  have a: "wand_list ?a = map (\<lambda>it. Some (it, False)) its" "docIteratorSorter ?a = []" "wand_currDoc ?a = 0" "currThreshold ?a = \<theta>"
    by (simp_all add: fold_wand_add wand_init_def setThreshold_def)
  have r: "0 < d" if "it \<in> set its" "d \<in> docs it" for it d
    using doc_stream.docs_range [OF doc_iterator.axioms(1) [OF assms(1)], of it d] assms(4) that by fastforce
  have r': "0 < d" if "i < length its" "d \<in> docs (its ! i)" for i d
    using r [OF nth_mem [OF that(1)] that(2)] .
  have "doc_iterator.wand_fresh ok docs ?a"
    unfolding doc_iterator.wand_fresh_def [OF assms(1)] using a assms(4) r' by auto
  then have "doc_iterator.wand_ok ops MAX_DOC_ID ok docs cur ub ?a"
    unfolding doc_iterator.wand_ok_def [OF assms(1)] using a(4) assms(3) by simp
  moreover have "(\<Sum>i < length its. if d \<in> fresh_docs docs (map (\<lambda>it. Some (it, False)) its ! i) then ub i else 0) =
      (\<Sum>i < length its. if d \<in> docs (its ! i) then ub i else 0)" for d
    by (rule sum.cong) (simp_all add: fresh_docs_def)
  then have "wand_docs ub docs cur ?a = D"
    unfolding assms(5) using a by (simp add: wand_docs_def wand_weight_def weight_index)
  ultimately show ?thesis by (rule stream_all [OF doc_iterator.axioms(1) [OF doc_iterator.wand_iterator [OF assms(1,2)]]])
qed

theorem wand_delivers_heavy_witness:
  "\<exists>a. iterate (wand_ops (posting_ops MAX_DOC_ID) (\<lambda>_. 1) MAX_DOC_ID) 3
     (setThreshold 1 (fold wand_add [(0, [1, 4, 6]), (0, [4, 5]), (0, [6, 7])] wand_init)) = Some ([4, 6], a)"
proof -
  let ?its = "[(0, [1, 4, 6]), (0, [4, 5]), (0, [6, 7])] :: (nat \<times> nat list) list"
  have ok: "\<forall>it \<in> set ?its. posting_ok MAX_DOC_ID it" by (simp add: posting_ok_def MAX_DOC_ID_def)
  have D: "{4, 6} = {d. (1 :: real) < (\<Sum>i < length ?its. if d \<in> posting_docs (?its ! i) then (\<lambda>_. 1) i else 0)}"
    by (auto simp: posting_docs_def numeral_3_eq_3 split: if_splits)
  have c: "Suc (card {4, 6 :: nat}) = 3" "sorted_list_of_set {4, 6 :: nat} = [4, 6]" by simp_all
  from wand_delivers_heavy [OF posting.doc_iterator_axioms _ _ ok D] show ?thesis unfolding c by simp
qed

end
