(* ===== verification/GroupRep.thy ===== *)
theory GroupRep
  imports Prelude
begin

text \<open>
  \<open>GroupRep\<close> of \<^verbatim>\<open>src/source/core/mining-manager/group-manager\<close>: the answer to a faceted search,
  the number of documents of every group. Groups of strings and dates form a forest, listed in
  preorder with the level of each node; groups of numbers are lists of numbers and counts;
  groups of ranges are the cells of a segment tree. Every worker counts its own documents and
  the answers are merged. The iterators of the merging loops are lists: what has been passed or
  inserted, and what is still ahead. A \<open>UString\<close> is a string, compared lexicographically.
\<close>

section \<open>The operations\<close>

record ontology_item =
  item_level :: nat
  item_text :: string
  item_id :: nat
  item_count :: nat
  item_score :: real

record group_rep =
  stringGroupRep :: "ontology_item list"
  numericGroupRep :: "(string \<times> (real \<times> nat) list) list"
  numericRangeGroupRep :: "(string \<times> nat list) list"

definition new_item :: "nat \<Rightarrow> string \<Rightarrow> nat \<Rightarrow> nat \<Rightarrow> ontology_item" where
  "new_item level s i n = \<lparr>item_level = level, item_text = s, item_id = i, item_count = n, item_score = 0\<rparr>"

definition group_rep0 :: group_rep where
  "group_rep0 = \<lparr>stringGroupRep = [], numericGroupRep = [], numericRangeGroupRep = []\<rparr>"

definition group_empty :: "group_rep \<Rightarrow> bool" where
  "group_empty r \<longleftrightarrow> stringGroupRep r = [] \<and> numericGroupRep r = [] \<and> numericRangeGroupRep r = []"

definition group_clear :: "group_rep \<Rightarrow> group_rep" where
  "group_clear r = r\<lparr>stringGroupRep := [], numericGroupRep := [], numericRangeGroupRep := []\<rparr>"

subsection \<open>Merging groups of strings\<close>

text \<open>What follows the loop of \<open>recurseStringGroup\<close>: one of the two lists is passed to its end.\<close>

definition rest_of_level :: "nat \<Rightarrow> ontology_item list \<Rightarrow> ontology_item list \<Rightarrow> ontology_item list \<times> ontology_item list \<times> ontology_item list" where
  "rest_of_level level it oit =
     (let inside = (\<lambda>x. level \<le> item_level x)
      in if it \<noteq> [] \<and> inside (hd it) then (takeWhile inside it, dropWhile inside it, oit)
         else (takeWhile inside oit, it, dropWhile inside oit))"

text \<open>The result: the items passed and inserted, and what is left of the two lists.\<close>

partial_function (option) recurseStringGroup ::
  "nat \<Rightarrow> ontology_item list \<Rightarrow> ontology_item list \<Rightarrow> (ontology_item list \<times> ontology_item list \<times> ontology_item list) option" where
  "recurseStringGroup level it oit =
     (case (it, oit) of
        (x # xs, y # ys) \<Rightarrow>
          if level \<le> item_level x \<and> level \<le> item_level y then
            (let deeper = (\<lambda>z. level < item_level z)
             in if item_text x < item_text y then
                  Option.bind (recurseStringGroup level (dropWhile deeper xs) oit)
                    (\<lambda>(out, r). Some (x # takeWhile deeper xs @ out, r))
                else if item_text x > item_text y then
                  Option.bind (recurseStringGroup level it (dropWhile deeper ys))
                    (\<lambda>(out, r). Some (y # takeWhile deeper ys @ out, r))
                else
                  Option.bind (recurseStringGroup (level + 1) xs ys) (\<lambda>(out1, xs', ys').
                    Option.bind (recurseStringGroup level xs' ys') (\<lambda>(out2, r).
                      Some (x\<lparr>item_count := item_count x + item_count y\<rparr> # out1 @ out2, r))))
          else Some (rest_of_level level it oit)
      | _ \<Rightarrow> Some (rest_of_level level it oit))"

declare recurseStringGroup.simps [code]

text \<open>Both lists, as \<open>swap\<close> takes the items away from the other representation.\<close>

definition mergeStringGroup :: "ontology_item list \<Rightarrow> ontology_item list \<Rightarrow> (ontology_item list \<times> ontology_item list) option" where
  "mergeStringGroup it oit =
     (if oit = [] then Some (it, oit)
      else if it = [] then Some (oit, it)
      else map_option (\<lambda>(out, rest, _). (out @ rest, oit)) (recurseStringGroup 0 it oit))"

subsection \<open>Merging groups of numbers\<close>

fun equal_run :: "(real \<times> nat) list \<Rightarrow> (real \<times> nat) list \<Rightarrow> (real \<times> nat) list \<times> (real \<times> nat) list \<times> (real \<times> nat) list" where
  "equal_run ((v, n) # l) ((w, m) # ol) =
     (if v = w then let (out, r) = equal_run l ol in ((v, n + m) # out, r) else ([], (v, n) # l, (w, m) # ol))"
| "equal_run l ol = ([], l, ol)"

partial_function (option) merge_numbers :: "(real \<times> nat) list \<Rightarrow> (real \<times> nat) list \<Rightarrow> (real \<times> nat) list option" where
  "merge_numbers l ol =
     (case ol of
        [] \<Rightarrow> Some l
      | y # _ \<Rightarrow>
          let below = takeWhile (\<lambda>x. fst x < fst y) l; l1 = dropWhile (\<lambda>x. fst x < fst y) l
          in case l1 of
               [] \<Rightarrow> Some (below @ ol)
             | x # _ \<Rightarrow>
                 let ins = takeWhile (\<lambda>z. fst x > fst z) ol; ol1 = dropWhile (\<lambda>z. fst x > fst z) ol;
                     (eq, l2, ol2) = equal_run l1 ol1
                 in Option.bind (merge_numbers l2 ol2) (\<lambda>out. Some (below @ ins @ eq @ out)))"

declare merge_numbers.simps [code]

text \<open>The properties are paired by position; \<open>None\<close> when the other list is shorter.\<close>

fun merge_number_lists ::
  "(string \<times> (real \<times> nat) list) list \<Rightarrow> (string \<times> (real \<times> nat) list) list \<Rightarrow> (string \<times> (real \<times> nat) list) list option" where
  "merge_number_lists [] os = Some []"
| "merge_number_lists ((p, l) # ls) [] = None"
| "merge_number_lists ((p, l) # ls) ((_, ol) # os) =
     Option.bind (merge_numbers l ol) (\<lambda>l'. map_option ((#) (p, l')) (merge_number_lists ls os))"

definition mergeNumericGroup ::
  "(string \<times> (real \<times> nat) list) list \<Rightarrow> (string \<times> (real \<times> nat) list) list \<Rightarrow>
     ((string \<times> (real \<times> nat) list) list \<times> (string \<times> (real \<times> nat) list) list) option" where
  "mergeNumericGroup ls os =
     (if os = [] then Some (ls, os)
      else if ls = [] then Some (os, ls)
      else map_option (\<lambda>l. (l, os)) (merge_number_lists ls os))"

subsection \<open>Merging groups of ranges\<close>

definition LEVEL_1_OF_SEGMENT_TREE :: nat where "LEVEL_1_OF_SEGMENT_TREE = 7"

definition TREE_SIZE :: nat where "TREE_SIZE = 111 * LEVEL_1_OF_SEGMENT_TREE + 1"

definition add_cell :: "nat list \<Rightarrow> nat \<Rightarrow> nat list \<Rightarrow> nat list" where
  "add_cell w k v = v[k := v ! k + w ! k]"

text \<open>
  All iterators advance alike in every branch, so that in the rounds \<open>i\<close>, \<open>j\<close>, \<open>k\<close> they stand at
  the positions written here. The vectors have the size of the tree; a shorter one is \<open>None\<close>.
\<close>

definition merge_block :: "nat list \<Rightarrow> nat \<Rightarrow> nat \<Rightarrow> nat list \<Rightarrow> nat list" where
  "merge_block w i j v =
     (let level2 = 100 * LEVEL_1_OF_SEGMENT_TREE + 10 * i + j
      in if w ! level2 \<noteq> 0
         then add_cell w level2 (fold (\<lambda>k. add_cell w (100 * i + 10 * j + k)) [0..<10] v) else v)"

definition merge_top :: "nat list \<Rightarrow> nat \<Rightarrow> nat list \<Rightarrow> nat list" where
  "merge_top w i v =
     (let level1 = 110 * LEVEL_1_OF_SEGMENT_TREE + i
      in if w ! level1 \<noteq> 0 then add_cell w level1 (fold (merge_block w i) [0..<10] v) else v)"

definition merge_tree :: "nat list \<Rightarrow> nat list \<Rightarrow> nat list option" where
  "merge_tree v w =
     (if length v < TREE_SIZE \<or> length w < TREE_SIZE then None
      else if last w = 0 then Some v
      else Some (fold (merge_top w) [0..<LEVEL_1_OF_SEGMENT_TREE] (v[length v - 1 := last v + last w])))"

fun merge_range_lists :: "(string \<times> nat list) list \<Rightarrow> (string \<times> nat list) list \<Rightarrow> (string \<times> nat list) list option" where
  "merge_range_lists [] os = Some []"
| "merge_range_lists ((p, v) # vs) [] = None"
| "merge_range_lists ((p, v) # vs) ((_, w) # os) =
     Option.bind (merge_tree v w) (\<lambda>v'. map_option ((#) (p, v')) (merge_range_lists vs os))"

definition mergeNumericRangeGroup ::
  "(string \<times> nat list) list \<Rightarrow> (string \<times> nat list) list \<Rightarrow> ((string \<times> nat list) list \<times> (string \<times> nat list) list) option" where
  "mergeNumericRangeGroup vs os =
     (if os = [] then Some (vs, os)
      else if vs = [] then Some (os, vs)
      else map_option (\<lambda>l. (l, os)) (merge_range_lists vs os))"

definition group_merge :: "group_rep \<Rightarrow> group_rep \<Rightarrow> (group_rep \<times> group_rep) option" where
  "group_merge r other =
     Option.bind (mergeStringGroup (stringGroupRep r) (stringGroupRep other)) (\<lambda>(s, s').
     Option.bind (mergeNumericGroup (numericGroupRep r) (numericGroupRep other)) (\<lambda>(n, n').
     Option.bind (mergeNumericRangeGroup (numericRangeGroupRep r) (numericRangeGroupRep other)) (\<lambda>(g, g').
       Some (r\<lparr>stringGroupRep := s, numericGroupRep := n, numericRangeGroupRep := g\<rparr>,
             other\<lparr>stringGroupRep := s', numericGroupRep := n', numericRangeGroupRep := g'\<rparr>))))"

subsection \<open>The largest groups\<close>

text \<open>
  \<open>ResizeTo\<close>. For every property a queue of the largest counts, smallest first; \<open>top()\<close> of an
  empty queue is \<open>None\<close>. It is also read, for a message, when the next property begins. A
  negative number of groups is a huge one as \<open>size_t\<close>.
\<close>

definition push_count :: "int \<Rightarrow> nat \<Rightarrow> nat list \<Rightarrow> nat list" where
  "push_count grouptop n q = (let q' = insort n q in if 0 \<le> grouptop \<and> grouptop < int (length q') then tl q' else q')"

fun topk_loop :: "(string \<Rightarrow> int option) \<Rightarrow> nat \<Rightarrow> int \<Rightarrow> ontology_item list \<Rightarrow> nat list list \<Rightarrow> nat list list option" where
  "topk_loop tops n grouptop [] qs = Some qs"
| "topk_loop tops n grouptop (x # xs) qs =
     (if item_level x = 0 then
        if qs \<noteq> [] \<and> last qs = [] then None
        else topk_loop tops n (case tops (item_text x) of Some k \<Rightarrow> k | None \<Rightarrow> int n) xs (qs @ [[]])
      else if qs = [] then None
      else if item_level x = 1 then topk_loop tops n grouptop xs (butlast qs @ [push_count grouptop (item_count x) (last qs)])
      else topk_loop tops n grouptop xs qs)"

text \<open>
  The second loop: \<open>p\<close> properties have begun, and \<open>removing\<close> is set below a group that is
  removed, whose erasing the code puts off to the next group.
\<close>

fun erase_loop :: "nat list list \<Rightarrow> nat \<Rightarrow> bool \<Rightarrow> ontology_item list \<Rightarrow> ontology_item list option" where
  "erase_loop qs p removing [] = Some []"
| "erase_loop qs p removing (x # xs) =
     (if item_level x = 0 then map_option ((#) x) (erase_loop qs (p + 1) False xs)
      else if item_level x = 1 then
        if p = 0 \<or> length qs < p \<or> qs ! (p - 1) = [] then None
        else if item_count x < hd (qs ! (p - 1)) then erase_loop qs p True xs
        else map_option ((#) x) (erase_loop qs p False xs)
      else if removing then erase_loop qs p True xs
      else map_option ((#) x) (erase_loop qs p False xs))"

definition resize_items :: "(string \<Rightarrow> int option) \<Rightarrow> ontology_item list \<Rightarrow> ontology_item list option" where
  "resize_items tops xs =
     Option.bind (topk_loop tops (length xs) (int (length xs)) xs []) (\<lambda>qs. erase_loop qs 0 False xs)"

section \<open>Forests\<close>

text \<open>What a preorder list with levels stands for.\<close>

datatype group_tree = Group (grp_text: string) (grp_id: nat) (grp_count: nat) (grp_score: real) (grp_children: "group_tree list")

fun flat_tree :: "nat \<Rightarrow> group_tree \<Rightarrow> ontology_item list" where
  "flat_tree lv (Group s i n c ts) =
     \<lparr>item_level = lv, item_text = s, item_id = i, item_count = n, item_score = c\<rparr> # concat (map (flat_tree (lv + 1)) ts)"

abbreviation flat :: "nat \<Rightarrow> group_tree list \<Rightarrow> ontology_item list" where
  "flat lv ts \<equiv> concat (map (flat_tree lv) ts)"

fun tree_ok :: "group_tree \<Rightarrow> bool" where
  "tree_ok (Group s i n c ts) \<longleftrightarrow> sorted_wrt (<) (map grp_text ts) \<and> (\<forall>t \<in> set ts. tree_ok t)"

text \<open>The number of documents counted at a path, from the root down.\<close>

primrec count_at :: "string list \<Rightarrow> group_tree list \<Rightarrow> nat" where
  "count_at [] F = 0"
| "count_at (s # p) F = (\<Sum>t\<leftarrow>F. if grp_text t = s then (if p = [] then grp_count t else count_at p (grp_children t)) else 0)"

text \<open>Merging two forests whose siblings are ordered.\<close>

fun merge_forest :: "group_tree list \<Rightarrow> group_tree list \<Rightarrow> group_tree list" where
  "merge_forest [] gs = gs"
| "merge_forest fs [] = fs"
| "merge_forest (Group s i n c ts # fs) (Group s' i' n' c' ts' # gs) =
     (if s < s' then Group s i n c ts # merge_forest fs (Group s' i' n' c' ts' # gs)
      else if s > s' then Group s' i' n' c' ts' # merge_forest (Group s i n c ts # fs) gs
      else Group s i (n + n') c (merge_forest ts ts') # merge_forest fs gs)"

subsection \<open>Flat lists\<close>

definition below_level :: "nat \<Rightarrow> ontology_item list \<Rightarrow> bool" where
  "below_level lv xs \<longleftrightarrow> xs = [] \<or> item_level (hd xs) < lv"

lemma below_level_Nil [simp]: "below_level lv []"
  by (simp add: below_level_def)

lemma flat_tree_levels: "x \<in> set (flat_tree lv t) \<Longrightarrow> lv \<le> item_level x"
proof (induction t arbitrary: lv)
  case (Group s i n c ts)
  show ?case
  proof (cases "x \<in> set (flat (lv + 1) ts)")
    case True
    then obtain t where "t \<in> set ts" "x \<in> set (flat_tree (lv + 1) t)" by auto
    from Group.IH [OF this] show ?thesis by simp
  next
    case False
    then show ?thesis using Group.prems by simp
  qed
qed

lemma flat_levels: "x \<in> set (flat lv ts) \<Longrightarrow> lv \<le> item_level x"
  using flat_tree_levels by auto

lemma take_flat: "below_level lv r \<Longrightarrow> takeWhile (\<lambda>x. lv \<le> item_level x) (flat lv ts @ r) = flat lv ts"
proof -
  assume "below_level lv r"
  then have "takeWhile (\<lambda>x. lv \<le> item_level x) r = []" by (cases r) (auto simp: below_level_def)
  then show ?thesis using flat_levels by (subst takeWhile_append2) auto
qed

lemma drop_flat: "below_level lv r \<Longrightarrow> dropWhile (\<lambda>x. lv \<le> item_level x) (flat lv ts @ r) = r"
proof -
  assume "below_level lv r"
  then have "dropWhile (\<lambda>x. lv \<le> item_level x) r = r" by (cases r) (auto simp: below_level_def)
  then show ?thesis using flat_levels by (subst dropWhile_append2) auto
qed

lemma below_flat: "below_level lv r \<Longrightarrow> below_level (lv + 1) (flat lv ts @ r)"
proof (cases ts)
  case Nil
  assume "below_level lv r"
  then show ?thesis by (auto simp: below_level_def Nil)
next
  case (Cons t ts')
  then show ?thesis by (cases t) (simp add: below_level_def)
qed

lemmas skip_flat = take_flat [OF below_flat, simplified Suc_eq_plus1 [symmetric] Suc_le_eq]
  drop_flat [OF below_flat, simplified Suc_eq_plus1 [symmetric] Suc_le_eq]

text \<open>The merging of the lists is the merging of the forests.\<close>

lemma rest_of_level_left: "below_level lv r \<Longrightarrow> rest_of_level lv (flat lv (t # ts) @ r) o' = (flat lv (t # ts), r, o')"
proof -
  assume r: "below_level lv r"
  have "flat lv (t # ts) @ r \<noteq> [] \<and> lv \<le> item_level (hd (flat lv (t # ts) @ r))" by (cases t) simp
  then show ?thesis using take_flat [OF r, of "t # ts"] drop_flat [OF r, of "t # ts"] by (simp add: rest_of_level_def)
qed

lemma rest_of_level_right: "below_level lv l \<Longrightarrow> below_level lv r \<Longrightarrow> rest_of_level lv l (flat lv ts @ r) = (flat lv ts, l, r)"
proof -
  assume l: "below_level lv l" and r: "below_level lv r"
  from l have "(l \<noteq> [] \<and> lv \<le> item_level (hd l)) = False" by (auto simp: below_level_def)
  then show ?thesis unfolding rest_of_level_def Let_def by (simp only: if_False take_flat [OF r] drop_flat [OF r])
qed

lemma recurse_below: "below_level lv l \<or> below_level lv r \<Longrightarrow> recurseStringGroup lv l r = Some (rest_of_level lv l r)"
  by (subst recurseStringGroup.simps) (auto simp: below_level_def split: list.splits)

lemma recurse_flat:
  "below_level lv l \<Longrightarrow> below_level lv r \<Longrightarrow>
    recurseStringGroup lv (flat lv F @ l) (flat lv G @ r) = Some (flat lv (merge_forest F G), l, r)"
proof (induction F G arbitrary: lv l r rule: merge_forest.induct)
  case (1 gs)
  then show ?case using recurse_below [of lv l "flat lv gs @ r"] rest_of_level_right by simp
next
  case (2 f fs)
  then show ?case using recurse_below [of lv "flat lv (f # fs) @ l" r] rest_of_level_left [of lv l f fs r] by simp
next
  case (3 s i n c ts fs s' i' n' c' ts' gs)
  note sk = skip_flat [of lv l] skip_flat [of lv r]
  have b: "below_level (lv + 1) (flat lv fs @ l)" "below_level (lv + 1) (flat lv gs @ r)"
    using 3(5,6) below_flat by blast+
  consider "s < s'" | "s' < s" | "s = s'" by force
  then show ?case
  proof cases
    case 1
    with 3(1) [OF 1 3(5,6)] sk(1,2) [OF 3(5)] show ?thesis by (subst recurseStringGroup.simps) simp
  next
    case 2
    with 3(2) [OF _ 2 3(5,6)] sk(3,4) [OF 3(6)] show ?thesis by (subst recurseStringGroup.simps) auto
  next
    case 3
    with "3.IH"(3) [OF _ _ b] "3.IH"(4) [OF _ _ "3.prems"] show ?thesis by (subst recurseStringGroup.simps) simp
  qed
qed

lemma flat_eq_Nil [simp]: "flat lv ts = [] \<longleftrightarrow> ts = []"
proof (cases ts)
  case (Cons t ts')
  then show ?thesis by (cases t) simp
qed simp

lemma mergeStringGroup_flat:
  "\<exists>r. mergeStringGroup (flat 0 F) (flat 0 G) = Some (flat 0 (merge_forest F G), r)"
proof -
  have "merge_forest F [] = F" by (cases F) simp_all
  then show ?thesis unfolding mergeStringGroup_def flat_eq_Nil using recurse_flat [of 0 "[]" "[]" F G] by simp
qed

lemma count_at_Cons: "count_at (s # p) (t # F) = count_at (s # p) [t] + count_at (s # p) F"
  by simp

lemma count_at_merge: "count_at p (merge_forest F G) = count_at p F + count_at p G"
proof (induction F G arbitrary: p rule: merge_forest.induct)
  case (3 s i n c ts fs s' i' n' c' ts' gs)
  show ?case
  proof (cases p)
    case (Cons x q)
    consider "s < s'" | "s' < s" | "s = s'" by force
    then show ?thesis
    proof cases
      case 1
      with "3.IH"(1) [OF 1, of p] show ?thesis by (simp add: Cons)
    next
      case 2
      then have "\<not> s < s'" by simp
      with "3.IH"(2) [OF this 2, of p] show ?thesis using 2 by (simp add: Cons)
    next
      case 3
      with "3.IH"(3) [of q] "3.IH"(4) [of p] show ?thesis by (simp add: Cons)
    qed
  qed simp
next
  case (2 f fs)
  then show ?case by (cases p) simp_all
next
  case (1 gs)
  then show ?case by (cases p) simp_all
qed

text \<open>Ordered siblings stay ordered, and equal roots stay.\<close>

lemma merge_texts: "set (map grp_text (merge_forest F G)) = set (map grp_text F) \<union> set (map grp_text G)"
  by (induction F G rule: merge_forest.induct) auto

lemma merge_sorted:
  "sorted_wrt (<) (map grp_text F) \<Longrightarrow> sorted_wrt (<) (map grp_text G) \<Longrightarrow> sorted_wrt (<) (map grp_text (merge_forest F G))"
proof (induction F G rule: merge_forest.induct)
  case (3 s i n c ts fs s' i' n' c' ts' gs)
  note m = merge_texts [unfolded set_map]
  consider "s < s'" | "s' < s" | "s = s'" by force
  then show ?case
  proof cases
    case 1
    have "sorted_wrt (<) (map grp_text (merge_forest fs (Group s' i' n' c' ts' # gs)))" using "3.IH"(1) [OF 1] "3.prems" by simp
    moreover have "\<forall>x \<in> grp_text ` set (merge_forest fs (Group s' i' n' c' ts' # gs)). s < x"
      using "3.prems" 1 unfolding m by (auto intro: less_trans)
    ultimately show ?thesis using 1 by simp
  next
    case 2
    then have n: "\<not> s < s'" by simp
    have "sorted_wrt (<) (map grp_text (merge_forest (Group s i n c ts # fs) gs))" using "3.IH"(2) [OF n 2] "3.prems" by simp
    moreover have "\<forall>x \<in> grp_text ` set (merge_forest (Group s i n c ts # fs) gs). s' < x"
      using "3.prems" 2 unfolding m by (auto intro: less_trans)
    ultimately show ?thesis using 2 n by simp
  next
    case 3
    have "sorted_wrt (<) (map grp_text (merge_forest fs gs))" using "3.IH"(4) 3 "3.prems" by simp
    moreover have "\<forall>x \<in> grp_text ` set (merge_forest fs gs). s < x" using "3.prems" 3 unfolding m by auto
    ultimately show ?thesis using 3 by simp
  qed
qed simp_all

lemma merge_tree_ok: "\<forall>t \<in> set F \<union> set G. tree_ok t \<Longrightarrow> \<forall>t \<in> set (merge_forest F G). tree_ok t"
proof (induction F G rule: merge_forest.induct)
  case (3 s i n c ts fs s' i' n' c' ts' gs)
  consider "s < s'" | "s' < s" | "s = s'" by force
  then show ?case
  proof cases
    case 1
    have "\<forall>t \<in> set (merge_forest fs (Group s' i' n' c' ts' # gs)). tree_ok t" using "3.IH"(1) [OF 1] "3.prems" by (simp del: tree_ok.simps)
    then show ?thesis using "3.prems" 1 by (simp del: tree_ok.simps)
  next
    case 2
    then have n: "\<not> s < s'" by simp
    have "\<forall>t \<in> set (merge_forest (Group s i n c ts # fs) gs). tree_ok t" using "3.IH"(2) [OF n 2] "3.prems" by (simp del: tree_ok.simps)
    then show ?thesis using "3.prems" 2 n by (simp del: tree_ok.simps)
  next
    case 3
    have c: "\<forall>t \<in> set ts \<union> set ts'. tree_ok t" using "3.prems" by auto
    have "\<forall>t \<in> set (merge_forest ts ts'). tree_ok t" using "3.IH"(3) [OF _ _ c] 3 by simp
    moreover have "\<forall>t \<in> set (merge_forest fs gs). tree_ok t" using "3.IH"(4) 3 "3.prems" by simp
    ultimately have "\<forall>t \<in> set (merge_forest ts ts'). tree_ok t" "\<forall>t \<in> set (merge_forest fs gs). tree_ok t" by blast+
    then show ?thesis using 3 "3.prems" merge_sorted [of ts ts'] by simp
  qed
qed simp_all

lemma merge_same_roots: "map grp_text F = map grp_text G \<Longrightarrow> map grp_text (merge_forest F G) = map grp_text F"
  by (induction F G rule: merge_forest.induct) auto

section \<open>Numbers\<close>

fun merge_pairs :: "(real \<times> nat) list \<Rightarrow> (real \<times> nat) list \<Rightarrow> (real \<times> nat) list" where
  "merge_pairs [] ol = ol"
| "merge_pairs l [] = l"
| "merge_pairs ((v, n) # l) ((w, m) # ol) =
     (if v < w then (v, n) # merge_pairs l ((w, m) # ol)
      else if w < v then (w, m) # merge_pairs ((v, n) # l) ol
      else (v, n + m) # merge_pairs l ol)"

definition number_count :: "real \<Rightarrow> (real \<times> nat) list \<Rightarrow> nat" where
  "number_count v l = (\<Sum>(w, n)\<leftarrow>l. if w = v then n else 0)"

lemma merge_pairs_Nil [simp]: "merge_pairs l [] = l"
  by (cases l) simp_all

lemma merge_pairs_below: "\<forall>x \<in> set xs. fst x < fst y \<Longrightarrow> merge_pairs (xs @ l) (y # ol) = xs @ merge_pairs l (y # ol)"
proof (induction xs)
  case (Cons x xs)
  then show ?case by (cases x; cases y) simp
qed simp

lemma merge_pairs_above: "\<forall>z \<in> set zs. fst z < fst x \<Longrightarrow> merge_pairs (x # l) (zs @ ol) = zs @ merge_pairs (x # l) ol"
proof (induction zs)
  case (Cons z zs)
  then show ?case by (cases x; cases z) simp
qed simp

lemma equal_run_merge:
  "equal_run l ol = (eq, l2, ol2) \<Longrightarrow> merge_pairs l ol = eq @ merge_pairs l2 ol2 \<and> length l2 + length ol2 \<le> length l + length ol \<and>
    (eq = [] \<longrightarrow> l2 = l \<and> ol2 = ol) \<and> (eq \<noteq> [] \<longrightarrow> length l2 + length ol2 < length l + length ol)"
proof (induction l ol arbitrary: eq l2 ol2 rule: equal_run.induct)
  case (1 v n l w m ol)
  show ?case
  proof (cases "v = w")
    case True
    obtain out l' ol' where e: "equal_run l ol = (out, l', ol')" by (cases "equal_run l ol") auto
    from "1.IH" [OF True e] "1.prems" e True show ?thesis by auto
  next
    case False
    then show ?thesis using "1.prems" by auto
  qed
qed auto

lemma takeWhile_below: "\<forall>x \<in> set (takeWhile (\<lambda>x. fst x < (a :: real)) l). fst x < a"
  by (auto dest: set_takeWhileD)

lemma merge_numbers_eq: "merge_numbers l ol = Some (merge_pairs l ol)"
proof (induction "length l + length ol" arbitrary: l ol rule: less_induct)
  case less
  show ?case
  proof (cases ol)
    case Nil
    then show ?thesis by (subst merge_numbers.simps) simp
  next
    case (Cons y ol')
    let ?below = "takeWhile (\<lambda>x. fst x < fst y) l" and ?l1 = "dropWhile (\<lambda>x. fst x < fst y) l"
    have l: "merge_pairs l ol = ?below @ merge_pairs ?l1 ol"
      using merge_pairs_below [OF takeWhile_below, of y l ?l1 ol'] by (simp add: Cons)
    show ?thesis
    proof (cases ?l1)
      case Nil
      then show ?thesis unfolding l by (subst merge_numbers.simps) (use Cons Nil in \<open>simp add: Let_def del: dropWhile_eq_Nil_conv\<close>)
    next
      case L: (Cons x l1)
      let ?ins = "takeWhile (\<lambda>z. fst x > fst z) ol" and ?ol1 = "dropWhile (\<lambda>z. fst x > fst z) ol"
      have xy: "\<not> fst x < fst y" using L by (simp add: dropWhile_eq_Cons_conv)
      have i: "merge_pairs ?l1 ol = ?ins @ merge_pairs ?l1 ?ol1"
        using merge_pairs_above [OF takeWhile_below, of x l1 ol ?ol1] by (simp add: L)
      obtain eq l2 ol2 where e: "equal_run ?l1 ?ol1 = (eq, l2, ol2)" by (cases "equal_run ?l1 ?ol1") auto
      note r = equal_run_merge [OF e]
      have len: "length ?l1 \<le> length l" "length ?ol1 \<le> length ol" by (simp_all add: length_dropWhile_le)
      have "length l2 + length ol2 < length l + length ol"
      proof (cases "eq = []")
        case True
        have "fst x \<noteq> fst y"
        proof
          assume "fst x = fst y"
          then have "?ol1 = ol" using Cons by simp
          then show False using e True L Cons \<open>fst x = fst y\<close> by (cases x; cases y) (auto split: prod.splits)
        qed
        then have "length ?ol1 < length ol" using xy Cons by (auto intro: le_less_trans [OF length_dropWhile_le])
        then show ?thesis using r True len by auto
      next
        case False
        then show ?thesis using r len by auto
      qed
      from less.hyps [OF this] have m: "merge_numbers l2 ol2 = Some (merge_pairs l2 ol2)" .
      have "merge_numbers l ol = Some (?below @ ?ins @ eq @ merge_pairs l2 ol2)"
        by (subst merge_numbers.simps) (use Cons L e m in \<open>simp add: Let_def\<close>)
      then show ?thesis using l i r by simp
    qed
  qed
qed

lemma number_count_merge: "number_count v (merge_pairs l ol) = number_count v l + number_count v ol"
  by (induction l ol rule: merge_pairs.induct) (auto simp: number_count_def)

lemma merge_pairs_keys: "fst ` set (merge_pairs l ol) = fst ` set l \<union> fst ` set ol"
  by (induction l ol rule: merge_pairs.induct) auto

lemma merge_pairs_sorted:
  "sorted_wrt (<) (map fst l) \<Longrightarrow> sorted_wrt (<) (map fst ol) \<Longrightarrow> sorted_wrt (<) (map fst (merge_pairs l ol))"
proof (induction l ol rule: merge_pairs.induct)
  case (3 v n l w m ol)
  consider "v < w" | "w < v" | "v = w" by linarith
  then show ?case
  proof cases
    case 1
    have "\<forall>x \<in> fst ` set (merge_pairs l ((w, m) # ol)). v < x" using 3 1 unfolding merge_pairs_keys by auto
    then show ?thesis using 3 1 by simp
  next
    case 2
    have "\<forall>x \<in> fst ` set (merge_pairs ((v, n) # l) ol). w < x" using 3 2 unfolding merge_pairs_keys by auto
    then show ?thesis using 3 2 by simp
  next
    case eq: 3
    have "\<forall>x \<in> fst ` set (merge_pairs l ol). v < x" using 3 eq unfolding merge_pairs_keys by auto
    then show ?thesis using 3 eq by simp
  qed
qed simp_all

lemma merge_number_lists_eq:
  "length ls = length os \<Longrightarrow> merge_number_lists ls os = Some (map2 (\<lambda>(p, l) (_, ol). (p, merge_pairs l ol)) ls os)"
  by (induction ls os rule: merge_number_lists.induct) (auto simp: merge_numbers_eq)

section \<open>Ranges\<close>

text \<open>A tree of counts: every cell of the upper levels is the sum of its cells below.\<close>

definition segment_ok :: "nat list \<Rightarrow> bool" where
  "segment_ok v \<longleftrightarrow> length v = TREE_SIZE \<and> (\<forall>m < 70. v ! (700 + m) = (\<Sum>k < 10. v ! (10 * m + k))) \<and>
     (\<forall>i < 7. v ! (770 + i) = (\<Sum>j < 10. v ! (700 + 10 * i + j))) \<and> v ! 777 = (\<Sum>i < 7. v ! (770 + i))"

text \<open>\<open>r\<close> is \<open>v\<close> with the cells of \<open>w\<close> in \<open>S\<close> added.\<close>

definition cells_added :: "nat list \<Rightarrow> nat set \<Rightarrow> nat list \<Rightarrow> nat list \<Rightarrow> bool" where
  "cells_added w S v r \<longleftrightarrow> length r = length v \<and> (\<forall>n < length v. r ! n = v ! n + (if n \<in> S then w ! n else 0))"

lemma cells_added_refl [simp]: "cells_added w {} v v"
  by (simp add: cells_added_def)

lemma cells_added_trans: "cells_added w S v r \<Longrightarrow> cells_added w T r u \<Longrightarrow> S \<inter> T = {} \<Longrightarrow> cells_added w (S \<union> T) v u"
  by (auto simp: cells_added_def disjoint_iff)

lemma cells_added_cell: "cells_added w {k} v (add_cell w k v)"
  by (auto simp: cells_added_def add_cell_def nth_list_update)

lemma cells_added_fold:
  assumes "\<And>i v. i < n \<Longrightarrow> cells_added w (S i) v (f i v)" and "\<And>i j. i < j \<Longrightarrow> j < n \<Longrightarrow> S i \<inter> S j = {}"
  shows "cells_added w (\<Union>i < n. S i) v (fold f [0..<n] v)"
  using assms
proof (induction n)
  case (Suc n)
  have "cells_added w (\<Union>i < n. S i) v (fold f [0..<n] v)" using Suc by simp
  moreover have "cells_added w (S n) (fold f [0..<n] v) (fold f [0..<Suc n] v)" using Suc.prems(1) by simp
  moreover have "(\<Union>i < n. S i) \<inter> S n = {}" using Suc.prems(2) by blast
  ultimately have "cells_added w ((\<Union>i < n. S i) \<union> S n) v (fold f [0..<Suc n] v)" by (rule cells_added_trans)
  then show ?case by (simp add: lessThan_Suc Un_commute)
qed simp

definition block_cells :: "nat list \<Rightarrow> nat \<Rightarrow> nat \<Rightarrow> nat set" where
  "block_cells w i j = (if w ! (700 + 10 * i + j) \<noteq> 0 then (\<Union>k < 10. {100 * i + 10 * j + k}) \<union> {700 + 10 * i + j} else {})"

definition top_cells :: "nat list \<Rightarrow> nat \<Rightarrow> nat set" where
  "top_cells w i = (if w ! (770 + i) \<noteq> 0 then (\<Union>j < 10. block_cells w i j) \<union> {770 + i} else {})"

lemma block_bounds: "n \<in> block_cells w i j \<Longrightarrow> (100 * i + 10 * j \<le> n \<and> n < 100 * i + 10 * j + 10) \<or> n = 700 + 10 * i + j"
  by (auto simp: block_cells_def split: if_splits)

lemma merge_block_cells: "i < 7 \<Longrightarrow> j < 10 \<Longrightarrow> cells_added w (block_cells w i j) v (merge_block w i j v)"
proof (cases "w ! (700 + 10 * i + j) \<noteq> 0")
  case True
  assume i: "i < 7" and j: "j < 10"
  have "cells_added w (\<Union>k < 10. {100 * i + 10 * j + k}) v (fold (\<lambda>k. add_cell w (100 * i + 10 * j + k)) [0..<10] v)"
    by (rule cells_added_fold) (auto simp: cells_added_cell)
  moreover have "(\<Union>k < 10. {100 * i + 10 * j + k}) \<inter> {700 + 10 * i + j} = {}" using i j by auto
  ultimately show ?thesis using True cells_added_trans [OF _ cells_added_cell]
    by (simp add: merge_block_def block_cells_def LEVEL_1_OF_SEGMENT_TREE_def)
qed (simp add: merge_block_def block_cells_def LEVEL_1_OF_SEGMENT_TREE_def)

lemma merge_top_cells: "i < 7 \<Longrightarrow> cells_added w (top_cells w i) v (merge_top w i v)"
proof (cases "w ! (770 + i) \<noteq> 0")
  case True
  assume i: "i < 7"
  have d: "block_cells w i j \<inter> block_cells w i j' = {}" if "j < j'" "j' < 10" for j j'
  proof (rule equals0I)
    fix n assume "n \<in> block_cells w i j \<inter> block_cells w i j'"
    then show False using block_bounds [of n w i j] block_bounds [of n w i j'] that i by auto
  qed
  have "cells_added w (\<Union>j < 10. block_cells w i j) v (fold (merge_block w i) [0..<10] v)"
    by (rule cells_added_fold [OF merge_block_cells [OF i] d])
  moreover have "(\<Union>j < 10. block_cells w i j) \<inter> {770 + i} = {}"
  proof (rule equals0I)
    fix n assume "n \<in> (\<Union>j < 10. block_cells w i j) \<inter> {770 + i}"
    then obtain j where "j < 10" "n \<in> block_cells w i j" "n = 770 + i" by auto
    then show False using block_bounds [of n w i j] i by auto
  qed
  ultimately show ?thesis using True cells_added_trans [OF _ cells_added_cell]
    by (simp add: merge_top_def top_cells_def LEVEL_1_OF_SEGMENT_TREE_def)
qed (simp add: merge_top_def top_cells_def LEVEL_1_OF_SEGMENT_TREE_def)

lemma top_bounds:
  assumes "n \<in> top_cells w i" and "i < 7"
  shows "(100 * i \<le> n \<and> n < 100 * i + 100) \<or> (700 + 10 * i \<le> n \<and> n < 710 + 10 * i) \<or> n = 770 + i"
proof -
  from assms(1) consider j where "j < 10" "n \<in> block_cells w i j" | "n = 770 + i"
    by (auto simp: top_cells_def split: if_splits)
  then show ?thesis
  proof cases
    case (1 j)
    from block_bounds [OF 1(2)] show ?thesis using 1(1) by auto
  qed simp
qed

text \<open>Outside of the cells that are added the other tree has only zeros.\<close>

lemma zero_cells:
  assumes "segment_ok w" and "n < 777" and "n \<notin> (\<Union>i < 7. top_cells w i)"
  shows "w ! n = 0"
proof -
  have up: "w ! (700 + 10 * i + j) \<noteq> 0 \<Longrightarrow> w ! (770 + i) \<noteq> 0" if "i < 7" "j < 10" for i j
    using assms(1) that by (auto simp: segment_ok_def)
  have low: "w ! (10 * m + k) \<noteq> 0 \<Longrightarrow> w ! (700 + m) \<noteq> 0" if "m < 70" "k < 10" for m k
    using assms(1) that by (auto simp: segment_ok_def)
  have b: "n \<notin> block_cells w i j" if "i < 7" "j < 10" "w ! (770 + i) \<noteq> 0" for i j
    using assms(3) that by (auto simp: top_cells_def)
  consider (l3) "n < 700" | (l2) "700 \<le> n" "n < 770" | (l1) "770 \<le> n" using assms(2) by linarith
  then show ?thesis
  proof cases
    case l3
    define m k where "m = n div 10" and "k = n mod 10"
    define i j where "i = m div 10" and "j = m mod 10"
    have m: "n = 10 * m + k" "m = 10 * i + j" by (simp_all add: m_def k_def i_def j_def)
    have jk: "j < 10" "k < 10" by (simp_all add: k_def j_def)
    have ij: "i < 7" "10 * i + j < 70" using m jk l3 by linarith+
    have n: "n = 100 * i + 10 * j + k" "n = 10 * (10 * i + j) + k" using m by simp_all
    show ?thesis
    proof (rule ccontr)
      assume "w ! n \<noteq> 0"
      then have "w ! (700 + (10 * i + j)) \<noteq> 0" using low [OF ij(2) jk(2)] n(2) by metis
      then have w2: "w ! (700 + 10 * i + j) \<noteq> 0" by (simp only: add.assoc simp_thms)
      from b [OF ij(1) jk(1) up [OF ij(1) jk(1) w2]] have "n \<notin> (\<Union>k < 10. {100 * i + 10 * j + k})"
        unfolding block_cells_def if_P [OF w2] by blast
      then show False using jk(2) n(1) by blast
    qed
  next
    case l2
    let ?i = "(n - 700) div 10" and ?j = "(n - 700) mod 10"
    have m: "n - 700 = 10 * ?i + ?j" by simp
    have ij: "?j < 10" by simp
    then have ij: "?i < 7" "?j < 10" "n = 700 + 10 * ?i + ?j" using l2 m by linarith+
    show ?thesis
    proof (rule ccontr)
      assume "w ! n \<noteq> 0"
      then have w2: "w ! (700 + 10 * ?i + ?j) \<noteq> 0" using ij(3) by metis
      from b [OF ij(1,2) up [OF ij(1,2) w2]] have "n \<noteq> 700 + 10 * ?i + ?j" unfolding block_cells_def if_P [OF w2] by blast
      then show False using ij(3) by blast
    qed
  next
    case l1
    define i where "i = n - 770"
    have i: "n = 770 + i" "i < 7" using assms(2) l1 by (simp_all add: i_def)
    then show ?thesis using assms(3) by (auto simp: top_cells_def split: if_splits)
  qed
qed

lemma segment_length: "segment_ok v \<Longrightarrow> length v = TREE_SIZE"
  by (simp add: segment_ok_def)

lemma last_cell: "length v = 778 \<Longrightarrow> last v = v ! 777"
  by (subst last_conv_nth) auto

lemma merge_tree_added:
  assumes "segment_ok w" and "length v = TREE_SIZE"
  shows "merge_tree v w = Some (map2 (+) v w)"
proof (cases "last w = 0")
  case True
  have n: "length v = 778" "length w = 778" using assms by (simp_all add: segment_ok_def TREE_SIZE_def LEVEL_1_OF_SEGMENT_TREE_def)
  have top: "w ! 777 = 0" using True n by (simp add: last_cell)
  then have "w ! (770 + i) = 0" if "i < 7" for i using assms(1) that by (auto simp: segment_ok_def)
  then have "(\<Union>i < 7. top_cells w i) = {}" by (auto simp: top_cells_def)
  then have "w ! m = 0" if "m < 778" for m using zero_cells [OF assms(1), of m] top that by (cases "m = 777") auto
  then have "map2 (+) v w = v" using n by (intro nth_equalityI) auto
  then show ?thesis using True n by (simp add: merge_tree_def TREE_SIZE_def LEVEL_1_OF_SEGMENT_TREE_def)
next
  case False
  let ?v = "v[777 := last v + last w]" and ?S = "\<Union>i < 7. top_cells w i"
  have n: "length v = 778" "length w = 778" using assms by (simp_all add: segment_ok_def TREE_SIZE_def LEVEL_1_OF_SEGMENT_TREE_def)
  have d: "top_cells w i \<inter> top_cells w j = {}" if "i < j" "j < 7" for i j
  proof (rule equals0I)
    fix m assume "m \<in> top_cells w i \<inter> top_cells w j"
    then show False using top_bounds [of m w i] top_bounds [of m w j] that by auto
  qed
  have "777 \<notin> ?S"
  proof
    assume "777 \<in> ?S"
    then obtain i where "i < 7" "777 \<in> top_cells w i" by auto
    then show False using top_bounds [of 777 w i] by auto
  qed
  moreover have c: "cells_added w ?S ?v (fold (merge_top w) [0..<7] ?v)" by (rule cells_added_fold [OF merge_top_cells d])
  ultimately have "fold (merge_top w) [0..<7] ?v = map2 (+) v w"
    using n zero_cells [OF assms(1)] by (intro nth_equalityI) (auto simp: cells_added_def nth_list_update last_cell)
  then show ?thesis using False n by (simp add: merge_tree_def TREE_SIZE_def LEVEL_1_OF_SEGMENT_TREE_def)
qed

lemma segment_ok_add: "segment_ok v \<Longrightarrow> segment_ok w \<Longrightarrow> segment_ok (map2 (+) v w)"
  unfolding segment_ok_def TREE_SIZE_def LEVEL_1_OF_SEGMENT_TREE_def by (simp add: sum.distrib)

lemma merge_range_lists_eq:
  "length vs = length os \<Longrightarrow> \<forall>p \<in> set vs. length (snd p) = TREE_SIZE \<Longrightarrow> \<forall>p \<in> set os. segment_ok (snd p) \<Longrightarrow>
    merge_range_lists vs os = Some (map2 (\<lambda>(p, v) (_, w). (p, map2 (+) v w)) vs os)"
  by (induction vs os rule: merge_range_lists.induct) (auto simp: merge_tree_added)

section \<open>Merging whole representations\<close>

text \<open>A well-formed representation: an ordered forest, ordered numbers, trees of counts.\<close>

definition rep_ok :: "group_rep \<Rightarrow> group_tree list \<Rightarrow> bool" where
  "rep_ok r F \<longleftrightarrow> stringGroupRep r = flat 0 F \<and> (\<forall>t \<in> set F. tree_ok t) \<and>
     (\<forall>(p, l) \<in> set (numericGroupRep r). sorted_wrt (<) (map fst l)) \<and> (\<forall>(p, v) \<in> set (numericRangeGroupRep r). segment_ok v)"

text \<open>Two answers to the same query: the same properties in the same order.\<close>

definition same_props :: "group_rep \<Rightarrow> group_tree list \<Rightarrow> group_rep \<Rightarrow> group_tree list \<Rightarrow> bool" where
  "same_props r F r' G \<longleftrightarrow> map grp_text F = map grp_text G \<and> map fst (numericGroupRep r) = map fst (numericGroupRep r') \<and>
     map fst (numericRangeGroupRep r) = map fst (numericRangeGroupRep r')"

lemma map_fst_map2: "length ls = length os \<Longrightarrow> map fst (map2 (\<lambda>(p, x) (_, y). (p, f x y)) ls os) = map fst ls"
  by (induction ls os rule: list_induct2) auto

lemma mergeNumericGroup_eq:
  "length ls = length os \<Longrightarrow> \<exists>r. mergeNumericGroup ls os = Some (map2 (\<lambda>(p, l) (_, ol). (p, merge_pairs l ol)) ls os, r)"
  by (auto simp: mergeNumericGroup_def merge_number_lists_eq)

lemma mergeNumericRangeGroup_eq:
  "length vs = length os \<Longrightarrow> \<forall>p \<in> set vs. length (snd p) = TREE_SIZE \<Longrightarrow> \<forall>p \<in> set os. segment_ok (snd p) \<Longrightarrow>
    \<exists>r. mergeNumericRangeGroup vs os = Some (map2 (\<lambda>(p, v) (_, w). (p, map2 (+) v w)) vs os, r)"
  by (auto simp: mergeNumericRangeGroup_def merge_range_lists_eq)

text \<open>
  C12. Merging the group counts of two workers. For well-formed answers to the same query
  \<open>merge\<close> returns a well-formed answer with the same properties, in which every path of the
  string groups, every number and every cell of a range tree has the sum of the two counts.
\<close>

theorem merge_adds_counts:
  assumes "rep_ok r F" and "rep_ok r' G" and "same_props r F r' G"
  shows "\<exists>m M r''. group_merge r r' = Some (m, r'') \<and> rep_ok m M \<and> same_props m M r F \<and>
    (\<forall>p. count_at p M = count_at p F + count_at p G) \<and>
    (\<forall>i < length (numericGroupRep r). \<forall>v. number_count v (snd (numericGroupRep m ! i)) =
       number_count v (snd (numericGroupRep r ! i)) + number_count v (snd (numericGroupRep r' ! i))) \<and>
    (\<forall>i < length (numericRangeGroupRep r). \<forall>k < TREE_SIZE. snd (numericRangeGroupRep m ! i) ! k =
       snd (numericRangeGroupRep r ! i) ! k + snd (numericRangeGroupRep r' ! i) ! k)"
proof -
  let ?n = "map2 (\<lambda>(p, l) (_, ol). (p, merge_pairs l ol)) (numericGroupRep r) (numericGroupRep r')"
  let ?g = "map2 (\<lambda>(p, v) (_, w). (p, map2 (+) v w)) (numericRangeGroupRep r) (numericRangeGroupRep r')"
  let ?M = "merge_forest F G" and ?m = "r\<lparr>stringGroupRep := flat 0 (merge_forest F G), numericGroupRep := ?n, numericRangeGroupRep := ?g\<rparr>"
  have s: "stringGroupRep r = flat 0 F" "stringGroupRep r' = flat 0 G" using assms(1,2) by (simp_all add: rep_ok_def)
  have t: "\<forall>t \<in> set F \<union> set G. tree_ok t" using assms(1,2) by (auto simp: rep_ok_def)
  have num: "sorted_wrt (<) (map fst l)" if "(p, l) \<in> set (numericGroupRep r) \<union> set (numericGroupRep r')" for p l
    using assms(1,2) that by (auto simp: rep_ok_def)
  have seg: "segment_ok v" if "(p, v) \<in> set (numericRangeGroupRep r) \<union> set (numericRangeGroupRep r')" for p v
    using assms(1,2) that by (auto simp: rep_ok_def)
  have l: "length (numericGroupRep r) = length (numericGroupRep r')" "length (numericRangeGroupRep r) = length (numericRangeGroupRep r')"
    using assms(3) by (auto simp: same_props_def dest: map_eq_imp_length_eq)
  have v: "\<forall>p \<in> set (numericRangeGroupRep r). length (snd p) = TREE_SIZE" "\<forall>p \<in> set (numericRangeGroupRep r'). segment_ok (snd p)"
    by (metis UnI1 UnI2 prod.collapse seg segment_length)+
  from mergeStringGroup_flat [of F G] mergeNumericGroup_eq [OF l(1)] mergeNumericRangeGroup_eq [OF l(2) v]
  obtain r'' where m: "group_merge r r' = Some (?m, r'')" by (auto simp: group_merge_def s)
  have "\<forall>(p, l) \<in> set ?n. sorted_wrt (<) (map fst l)"
    using num by (auto simp: set_zip intro!: merge_pairs_sorted) (metis nth_mem l(1))+
  moreover have "\<forall>(p, v) \<in> set ?g. segment_ok v"
    using seg by (auto simp: set_zip intro!: segment_ok_add) (metis nth_mem l(2))+
  ultimately have "rep_ok ?m ?M" using merge_tree_ok [OF t] by (simp add: rep_ok_def)
  moreover have "same_props ?m ?M r F"
    using assms(3) merge_same_roots [of F G] map_fst_map2 [OF l(1), of merge_pairs] map_fst_map2 [OF l(2), of "map2 (+)"] by (simp add: same_props_def)
  moreover have "\<forall>i < length (numericGroupRep r). \<forall>v. number_count v (snd (?n ! i)) =
       number_count v (snd (numericGroupRep r ! i)) + number_count v (snd (numericGroupRep r' ! i))"
    using l(1) by (simp add: number_count_merge split: prod.splits)
  moreover have "\<forall>i < length (numericRangeGroupRep r). \<forall>k < TREE_SIZE. snd (?g ! i) ! k =
       snd (numericRangeGroupRep r ! i) ! k + snd (numericRangeGroupRep r' ! i) ! k"
  proof (intro allI impI)
    fix i k assume i: "i < length (numericRangeGroupRep r)" and k: "k < TREE_SIZE"
    then have "length (snd (numericRangeGroupRep r ! i)) = TREE_SIZE" "length (snd (numericRangeGroupRep r' ! i)) = TREE_SIZE"
      using v l(2) by (simp_all add: segment_ok_def)
    then show "snd (?g ! i) ! k = snd (numericRangeGroupRep r ! i) ! k + snd (numericRangeGroupRep r' ! i) ! k"
      using i k l(2) by (cases "numericRangeGroupRep r ! i"; cases "numericRangeGroupRep r' ! i") simp
  qed
  ultimately show ?thesis
    by (intro exI [of _ ?m] exI [of _ ?M] exI [of _ r'']) (simp add: m count_at_merge)
qed

theorem merge_adds_counts_witness:
  "\<exists>m M r''. group_merge
      \<lparr>stringGroupRep = flat 0 [Group ''City'' 0 2 0 [Group ''a'' 0 2 0 []]], numericGroupRep = [(''Year'', [(1, 2)])],
       numericRangeGroupRep = [(''Price'', replicate TREE_SIZE 0)]\<rparr>
      \<lparr>stringGroupRep = flat 0 [Group ''City'' 0 4 0 [Group ''a'' 0 3 0 [], Group ''b'' 0 1 0 []]], numericGroupRep = [(''Year'', [(1, 3), (2, 1)])],
       numericRangeGroupRep = [(''Price'', replicate TREE_SIZE 0)]\<rparr> = Some (m, r'') \<and>
    rep_ok m M \<and> count_at [''City''] M = 6 \<and> count_at [''City'', ''a''] M = 5 \<and> count_at [''City'', ''b''] M = 1 \<and>
    number_count 1 (snd (numericGroupRep m ! 0)) = 5"
proof -
  let ?F = "[Group ''City'' 0 2 0 [Group ''a'' 0 2 0 []]]" and ?G = "[Group ''City'' 0 4 0 [Group ''a'' 0 3 0 [], Group ''b'' 0 1 0 []]]"
  let ?r = "\<lparr>stringGroupRep = flat 0 ?F, numericGroupRep = [(''Year'', [(1, 2)])], numericRangeGroupRep = [(''Price'', replicate TREE_SIZE 0)]\<rparr>"
  let ?r' = "\<lparr>stringGroupRep = flat 0 ?G, numericGroupRep = [(''Year'', [(1, 3), (2, 1)])], numericRangeGroupRep = [(''Price'', replicate TREE_SIZE 0)]\<rparr>"
  have z: "segment_ok (replicate TREE_SIZE 0)" by (simp add: segment_ok_def TREE_SIZE_def LEVEL_1_OF_SEGMENT_TREE_def)
  have "rep_ok ?r ?F" "rep_ok ?r' ?G" "same_props ?r ?F ?r' ?G" using z by (simp_all add: rep_ok_def same_props_def)
  from merge_adds_counts [OF this] obtain m M r'' where m: "group_merge ?r ?r' = Some (m, r'')" "rep_ok m M"
    "\<forall>p. count_at p M = count_at p ?F + count_at p ?G" "\<forall>i < 1. \<forall>v. number_count v (snd (numericGroupRep m ! i)) =
       number_count v (snd (numericGroupRep ?r ! i)) + number_count v (snd (numericGroupRep ?r' ! i))" by auto
  from m(3) have "count_at [''City''] M = 6" "count_at [''City'', ''a''] M = 5" "count_at [''City'', ''b''] M = 1" by simp_all
  moreover from m(4) have "number_count 1 (snd (numericGroupRep m ! 0)) = 5" by (simp add: number_count_def)
  ultimately show ?thesis using m(1,2) by blast
qed

text \<open>
  The children of a number come in the order of the numbers, but are merged in the order of
  their texts: merging 9 and 10 with 10 lists 10 twice.
\<close>

lemma numbers_as_texts_not_merged:
  "map_option fst (mergeStringGroup (flat 0 [Group ''P'' 0 2 0 [Group ''9.00'' 0 1 0 [], Group ''10.00'' 0 1 0 []]])
     (flat 0 [Group ''P'' 0 1 0 [Group ''10.00'' 0 1 0 []]])) =
   Some (flat 0 [Group ''P'' 0 3 0 [Group ''10.00'' 0 1 0 [], Group ''9.00'' 0 1 0 [], Group ''10.00'' 0 1 0 []]])"
  by code_simp

section \<open>The largest groups of every property\<close>

text \<open>A group is kept if fewer than \<open>k\<close> groups of the property are larger.\<close>

definition top_groups :: "nat \<Rightarrow> group_tree list \<Rightarrow> group_tree list" where
  "top_groups k ts = filter (\<lambda>t. length (filter (\<lambda>u. grp_count t < grp_count u) ts) < k) ts"

definition count_queue :: "int \<Rightarrow> group_tree list \<Rightarrow> nat list" where
  "count_queue k ts = fold (push_count k) (map grp_count ts) []"

lemma topk_skip: "qs \<noteq> [] \<Longrightarrow> \<forall>x \<in> set xs. 2 \<le> item_level x \<Longrightarrow> topk_loop tops n g (xs @ ys) qs = topk_loop tops n g ys qs"
  by (induction xs) auto

lemma topk_children:
  "topk_loop tops n g (flat 1 ts @ ys) (qs @ [q]) = topk_loop tops n g ys (qs @ [fold (push_count g) (map grp_count ts) q])"
proof (induction ts arbitrary: q)
  case (Cons t ts)
  obtain s i c x us where t: "t = Group s i c x us" by (cases t)
  have "\<forall>y \<in> set (flat 2 us). 2 \<le> item_level y" using flat_levels [of _ 2 us] by blast
  from topk_skip [OF _ this, of "qs @ [push_count g c q]" tops n g "flat 1 ts @ ys"] Cons [of "push_count g c q"]
  show ?case by (simp add: t numeral_2_eq_2)
qed simp

abbreviation group_limit :: "(string \<Rightarrow> int option) \<Rightarrow> nat \<Rightarrow> group_tree \<Rightarrow> int" where
  "group_limit tops n t \<equiv> case tops (grp_text t) of Some k \<Rightarrow> k | None \<Rightarrow> int n"

lemma topk_roots:
  "topk_loop tops n g (flat 0 F) qs =
    (if (F \<noteq> [] \<and> qs \<noteq> [] \<and> last qs = []) \<or> (\<exists>t \<in> set (butlast F). count_queue (group_limit tops n t) (grp_children t) = []) then None
     else Some (qs @ map (\<lambda>t. count_queue (group_limit tops n t) (grp_children t)) F))"
proof (induction F arbitrary: g qs)
  case (Cons t F)
  obtain s i c x us where t: "t = Group s i c x us" by (cases t)
  have "topk_loop tops n g (flat 0 (t # F)) qs = (if qs \<noteq> [] \<and> last qs = [] then None
      else topk_loop tops n (group_limit tops n t) (flat 0 F) (qs @ [count_queue (group_limit tops n t) us]))"
    using topk_children [of tops n "group_limit tops n t" us "flat 0 F" qs "[]"] by (cases qs) (simp_all add: t count_queue_def)
  then show ?case using Cons by (simp add: t)
qed simp

lemma erase_skip:
  "\<forall>x \<in> set xs. 2 \<le> item_level x \<Longrightarrow> erase_loop qs p b (xs @ ys) = map_option ((@) (if b then [] else xs)) (erase_loop qs p b ys)"
proof (induction xs)
  case (Cons x xs)
  then show ?case by (cases "erase_loop qs p b ys") auto
next
  case Nil
  then show ?case by (cases "erase_loop qs p b ys") auto
qed

lemma erase_children:
  assumes "0 < p" and "p \<le> length qs" and "ts = [] \<or> qs ! (p - 1) \<noteq> []" and "\<And>b. erase_loop qs p b ys = Some zs"
  shows "erase_loop qs p b (flat 1 ts @ ys) = Some (flat 1 (filter (\<lambda>t. hd (qs ! (p - 1)) \<le> grp_count t) ts) @ zs)"
  using assms(3)
proof (induction ts arbitrary: b)
  case (Cons t ts)
  obtain s i c x us where t: "t = Group s i c x us" by (cases t)
  have l: "\<forall>y \<in> set (flat 2 us). 2 \<le> item_level y" using flat_levels [of _ 2 us] by blast
  have q: "qs ! (p - 1) \<noteq> []" using Cons.prems by simp
  have ih: "erase_loop qs p b' (flat 1 ts @ ys) = Some (flat 1 (filter (\<lambda>t. hd (qs ! (p - 1)) \<le> grp_count t) ts) @ zs)" for b'
    using Cons.IH q by simp
  have f: "flat 1 (t # ts) @ ys = \<lparr>item_level = 1, item_text = s, item_id = i, item_count = c, item_score = x\<rparr> # flat 2 us @ flat 1 ts @ ys"
    by (simp add: t numeral_2_eq_2)
  show ?case unfolding f using assms(1,2) q erase_skip [OF l, of qs p _ "flat 1 ts @ ys"] by (auto simp: ih [unfolded One_nat_def] t numeral_2_eq_2)
qed (use assms(4) in simp)

lemma erase_roots:
  assumes "qs = map (\<lambda>t. q t) (E @ F)" and "\<forall>t \<in> set F. grp_children t \<noteq> [] \<longrightarrow> q t \<noteq> []"
  shows "erase_loop qs (length E) b (flat 0 F) =
    Some (flat 0 (map (\<lambda>t. Group (grp_text t) (grp_id t) (grp_count t) (grp_score t) (filter (\<lambda>u. hd (q t) \<le> grp_count u) (grp_children t))) F))"
  using assms
proof (induction F arbitrary: E b)
  case (Cons t F)
  obtain s i c x us where t: "t = Group s i c x us" by (cases t)
  let ?h = "\<lambda>t. Group (grp_text t) (grp_id t) (grp_count t) (grp_score t) (filter (\<lambda>u. hd (q t) \<le> grp_count u) (grp_children t))"
  have n: "qs ! length E = q t" "Suc (length E) \<le> length qs" using Cons.prems(1) by (simp_all add: nth_append)
  have ih: "erase_loop qs (Suc (length E)) b (flat 0 F) = Some (flat 0 (map ?h F))" for b
    using Cons.IH [of "E @ [t]" b] Cons.prems by simp
  have "us = [] \<or> qs ! (Suc (length E) - 1) \<noteq> []" using Cons.prems(2) n by (auto simp: t)
  from erase_children [OF _ n(2) this ih] show ?case using n by (simp add: t)
qed simp

text \<open>The queue holds the largest counts.\<close>

lemma tl_insort: "d \<le> length xs \<Longrightarrow> sorted xs \<Longrightarrow> tl (insort x (drop d xs)) = drop (Suc d) (insort x xs)" for xs :: "nat list"
proof (induction xs arbitrary: d)
  case (Cons y ys)
  show ?case
  proof (cases d)
    case 0
    then show ?thesis by (simp add: drop_Suc)
  next
    case (Suc e)
    have "insort x ys = x # ys" if "x \<le> y" using Cons.prems that by (intro insort_is_Cons) auto
    then show ?thesis using Cons Suc by simp
  qed
qed simp

lemma insort_sort: "insort x (sort ns) = sort (ns @ [x])" for x :: nat
  by (rule properties_for_sort [symmetric]) (simp_all add: sorted_insort)

lemma fold_push:
  "fold (push_count k) ns [] = (if 0 \<le> k then drop (length ns - nat k) (sort ns) else sort ns)"
proof (induction ns rule: rev_induct)
  case (snoc x ns)
  let ?q = "drop (length ns - nat k) (sort ns)"
  show ?case
  proof (cases "0 \<le> k")
    case True
    have l: "length (insort x ?q) = Suc (min (nat k) (length ns))" by (simp add: length_insort)
    have st: "fold (push_count k) (ns @ [x]) [] = push_count k x ?q" using snoc True by simp
    show ?thesis
    proof (cases "nat k \<le> length ns")
      case le: True
      have "k < int (length (insort x ?q))" using l le True by simp
      then have "fold (push_count k) (ns @ [x]) [] = tl (insort x ?q)" using st True by (simp add: push_count_def)
      also have "\<dots> = drop (Suc (length ns - nat k)) (sort (ns @ [x]))"
        using tl_insort [of "length ns - nat k" "sort ns" x] by (simp add: insort_sort)
      finally show ?thesis using le True by (simp add: Suc_diff_le)
    next
      case False
      have c: "(0 \<le> k \<and> k < int (length (insort x ?q))) = False" using l False True by simp
      have "fold (push_count k) (ns @ [x]) [] = insort x ?q" unfolding st push_count_def Let_def c by simp
      then show ?thesis using False True by (simp add: insort_sort)
    qed
  next
    case False
    then show ?thesis using snoc by (simp add: push_count_def insort_sort)
  qed
qed simp

lemma length_filter_sort: "length (filter P (sort ns)) = length (filter P ns)" for ns :: "nat list"
  by (metis mset_filter mset_sort size_mset)

lemma kth_largest:
  fixes ns :: "nat list"
  assumes "0 < k" and "c \<in> set ns"
  shows "hd (drop (length ns - k) (sort ns)) \<le> c \<longleftrightarrow> length (filter ((<) c) ns) < k"
proof -
  let ?s = "sort ns" and ?d = "length ns - k"
  have d: "?d < length ?s" using assms by (cases ns) auto
  have split: "length (filter P ns) = length (filter P (take ?d ?s)) + length (filter P (drop ?d ?s))" for P
    by (metis append_take_drop_id filter_append length_append length_filter_sort)
  have so: "\<forall>x \<in> set (take ?d ?s). x \<le> ?s ! ?d" "\<forall>x \<in> set (drop ?d ?s). ?s ! ?d \<le> x"
    using d by (auto simp: in_set_conv_nth sorted_nth_mono)
  have h: "hd (drop ?d ?s) = ?s ! ?d" using d by (rule hd_drop_conv_nth)
  show ?thesis
  proof
    assume le: "hd (drop ?d ?s) \<le> c"
    have "filter ((<) c) (take ?d ?s) = []" using so(1) le h by (auto simp: filter_empty_conv)
    moreover have "drop ?d ?s = ?s ! ?d # drop (Suc ?d) ?s" using d by (simp add: Cons_nth_drop_Suc)
    then have "length (filter ((<) c) (drop ?d ?s)) \<le> length (drop (Suc ?d) ?s)" using le h by (simp del: length_drop)
    ultimately show "length (filter ((<) c) ns) < k" using split [of "(<) c"] d assms(1) by simp
  next
    assume lt: "length (filter ((<) c) ns) < k"
    show "hd (drop ?d ?s) \<le> c"
    proof (rule ccontr)
      assume "\<not> hd (drop ?d ?s) \<le> c"
      then have f: "filter ((<) c) (drop ?d ?s) = drop ?d ?s" using so(2) h by (auto simp: filter_id_conv)
      show False
      proof (cases "k \<le> length ns")
        case True
        then show ?thesis using split [of "(<) c"] f lt by simp
      next
        case False
        then have "filter ((<) c) ns = ns" using f by (metis diff_is_0_eq drop0 filter_id_conv nat_le_linear set_sort)
        then have "c < c" using assms(2) by (metis filter_id_conv)
        then show ?thesis by simp
      qed
    qed
  qed
qed

definition limit_groups :: "(string \<Rightarrow> int option) \<Rightarrow> group_tree \<Rightarrow> group_tree" where
  "limit_groups tops t = Group (grp_text t) (grp_id t) (grp_count t) (grp_score t)
     (case tops (grp_text t) of Some k \<Rightarrow> if k < 0 then grp_children t else top_groups (nat k) (grp_children t) | None \<Rightarrow> grp_children t)"

lemma queue_filter:
  assumes "ts \<noteq> []" and "0 < k \<or> k < 0"
  shows "filter (\<lambda>u. hd (count_queue k ts) \<le> grp_count u) ts = (if k < 0 then ts else top_groups (nat k) ts)"
proof -
  let ?ns = "map grp_count ts"
  have "hd (count_queue k ts) \<le> grp_count u \<longleftrightarrow> k < 0 \<or> length (filter (\<lambda>v. grp_count u < grp_count v) ts) < nat k" if u: "u \<in> set ts" for u
  proof (cases "k < 0")
    case True
    have "sort ?ns = hd (sort ?ns) # tl (sort ?ns)" using assms(1) by (metis hd_Cons_tl list.map_disc_iff mset.simps(1) mset_sort mset_zero_iff)
    then have "\<forall>x \<in> set (sort ?ns). hd (sort ?ns) \<le> x" by (metis order_refl set_ConsD sorted_simps(2) sorted_sort)
    then show ?thesis using True u by (simp add: count_queue_def fold_push)
  next
    case False
    then have "0 < nat k" using assms(2) by simp
    from kth_largest [OF this, of "grp_count u" ?ns] u show ?thesis using False
      by (simp add: count_queue_def fold_push filter_map o_def)
  qed
  then show ?thesis by (auto simp: top_groups_def intro!: filter_cong trans [OF filter_cong filter_True])
qed

lemma top_groups_all: "length ts \<le> k \<Longrightarrow> top_groups k ts = ts"
proof -
  assume k: "length ts \<le> k"
  have "length (filter (\<lambda>u. grp_count t < grp_count u) ts) < k" if "t \<in> set ts" for t
  proof -
    have "length (filter (\<lambda>u. grp_count t < grp_count u) ts) < length ts" using that by (intro length_filter_less [of t]) auto
    then show ?thesis using k by simp
  qed
  then show ?thesis by (simp add: top_groups_def filter_id_conv)
qed

lemma count_queue_Nil: "count_queue k ts = [] \<longleftrightarrow> ts = [] \<or> k = 0"
proof (cases "0 \<le> k")
  case True
  then show ?thesis unfolding count_queue_def fold_push by (cases ts) auto
next
  case False
  have "length (sort (map grp_count ts)) = length ts" by simp
  then show ?thesis using False unfolding count_queue_def fold_push by (metis length_0_conv order_refl)
qed

lemma flat_length: "t \<in> set F \<Longrightarrow> length (grp_children t) < length (flat 0 F)"
proof -
  assume t: "t \<in> set F"
  have l: "length ts \<le> length (flat lv ts)" for lv ts
  proof (induction ts)
    case (Cons u us)
    then show ?case by (cases u) simp
  qed simp
  have "length (grp_children t) < length (flat_tree 0 t)" using l [of "grp_children t" 1] by (cases t) simp
  also have "\<dots> \<le> length (flat 0 F)" using t by (simp add: length_concat member_le_sum_list)
  finally show ?thesis .
qed

text \<open>
  C30. Limiting the groups. On the preorder list of a forest, in which every property but the
  last has groups and no property with groups is limited to 0, the two loops of \<open>ResizeTo\<close>
  return the list in which every property with a limit \<open>k\<close> keeps, with all below them, the
  groups that fewer than \<open>k\<close> groups exceed in documents; properties without a limit, or with a
  negative one, keep all.
\<close>

theorem resize_keeps_largest:
  assumes "\<forall>t \<in> set (butlast F). grp_children t \<noteq> []" and "\<forall>t \<in> set F. grp_children t \<noteq> [] \<longrightarrow> tops (grp_text t) \<noteq> Some 0"
  shows "resize_items tops (flat 0 F) = Some (flat 0 (map (limit_groups tops) F))"
proof -
  define n where "n = length (flat 0 F)"
  have len: "length (grp_children t) < n" if "t \<in> set F" for t unfolding n_def by (rule flat_length [OF that])
  let ?q = "\<lambda>t. count_queue (group_limit tops n t) (grp_children t)"
  have z: "group_limit tops n t \<noteq> 0" if "t \<in> set F" "grp_children t \<noteq> []" for t
    using assms(2) that len [OF that(1)] by (auto split: option.splits)
  have "\<forall>t \<in> set (butlast F). ?q t \<noteq> []" using assms(1) z by (auto simp: count_queue_Nil dest: in_set_butlastD)
  then have t: "topk_loop tops n (int n) (flat 0 F) [] = Some (map ?q F)" unfolding topk_roots by auto
  have "erase_loop (map ?q F) (length ([] :: group_tree list)) False (flat 0 F) = Some (flat 0 (map (\<lambda>t. Group (grp_text t) (grp_id t) (grp_count t) (grp_score t)
      (filter (\<lambda>u. hd (?q t) \<le> grp_count u) (grp_children t))) F))"
    by (rule erase_roots [where q = ?q]) (use z in \<open>auto simp: count_queue_Nil\<close>)
  moreover have "filter (\<lambda>u. hd (?q t) \<le> grp_count u) (grp_children t) = grp_children (limit_groups tops t)" if t: "t \<in> set F" for t
  proof (cases "grp_children t = []")
    case True
    then show ?thesis by (simp add: limit_groups_def top_groups_def split: option.splits)
  next
    case False
    have "group_limit tops n t < 0 \<or> 0 < group_limit tops n t" using z [OF t False] by linarith
    from queue_filter [OF False, of "group_limit tops n t"] this show ?thesis using len [OF t]
      by (auto simp: limit_groups_def top_groups_all split: option.splits)
  qed
  then have "map (\<lambda>t. Group (grp_text t) (grp_id t) (grp_count t) (grp_score t) (filter (\<lambda>u. hd (?q t) \<le> grp_count u) (grp_children t))) F =
      map (limit_groups tops) F" by (intro map_cong) (simp_all add: limit_groups_def)
  ultimately show ?thesis using t by (simp add: resize_items_def n_def [symmetric])
qed

theorem resize_keeps_largest_witness:
  "resize_items [''A'' \<mapsto> 1] (flat 0 [Group ''A'' 0 6 0 [Group ''x'' 0 1 0 [Group ''z'' 0 1 0 []], Group ''y'' 0 5 0 []], Group ''B'' 0 0 0 []]) =
    Some (flat 0 [Group ''A'' 0 6 0 [Group ''y'' 0 5 0 []], Group ''B'' 0 0 0 []])"
  by (subst resize_keeps_largest) (simp_all add: limit_groups_def top_groups_def)

text \<open>
  C40. An empty property. When a property without groups is followed by another one, \<open>ResizeTo\<close>
  takes the top of an empty queue, which is undefined: the message that reports the limit of
  the property is not guarded.
\<close>

theorem resize_empty_property:
  assumes "grp_children t = []"
  shows "resize_items tops (flat 0 (F @ t # u # G)) = None"
  unfolding resize_items_def topk_roots using assms by (simp add: butlast_append count_queue_Nil)

theorem resize_empty_property_witness:
  "resize_items [''B'' \<mapsto> 3] (flat 0 ([] @ Group ''A'' 0 0 0 [] # Group ''B'' 0 1 0 [Group ''x'' 0 1 0 []] # [])) = None"
  by (rule resize_empty_property) simp

end
