(* ===== verification/RangeGroup.thy ===== *)
theory RangeGroup
  imports GroupRep
begin

text \<open>
  \<open>NumericRangeGroupCounter\<close> of \<^verbatim>\<open>src/source/core/mining-manager/group-manager\<close>: documents are counted
  by number in the cells of a segment tree, 100 cells for each of seven orders of magnitude,
  and the tree is cut into at most \<open>MAX_RANGE_NUMBER\<close> ranges with about equally many documents.
  The tree is a vector: the cells, then the sums of ten cells, the sums of a hundred and the
  total. The pointer \<open>vit\<close> always stands at the cell \<open>stop\<close>. Counts are unbounded numbers.
\<close>

section \<open>The operations\<close>

definition MAX_RANGE_NUMBER :: nat where "MAX_RANGE_NUMBER = 7"

definition bound :: "nat list" where
  "bound = [0, 1000, 10000, 100000, 1000000, 10000000, 100000000, 1000000000]"

definition range_counter0 :: "nat list" where
  "range_counter0 = replicate TREE_SIZE 0"

text \<open>The loop \<open>for (exponent = 1; value >= bound_[exponent]; ++exponent)\<close>, and the cell of a value.\<close>

definition find_exponent :: "nat \<Rightarrow> nat" where
  "find_exponent x = Suc (length (takeWhile (\<lambda>b. b \<le> x) (tl bound)))"

definition cell_index :: "nat \<Rightarrow> nat" where
  "cell_index x = (let e = find_exponent x in 100 * (e - 1) + x div (bound ! e div 100))"

text \<open>\<open>addDoc\<close> with the value of the document, \<open>None\<close> if it has none.\<close>

definition range_addDoc :: "int option \<Rightarrow> nat list \<Rightarrow> nat list" where
  "range_addDoc value v =
     (case value of
        Some x \<Rightarrow>
          if x > 0
          then (let k = cell_index (nat (min x (int (bound ! LEVEL_1_OF_SEGMENT_TREE) - 1))) in v[k := v ! k + 1]) else v
      | None \<Rightarrow> v)"

definition sum_row :: "nat \<Rightarrow> nat list \<Rightarrow> nat list" where
  "sum_row i v = (let k = 100 * LEVEL_1_OF_SEGMENT_TREE + i in v[k := v ! k + sum_list (take 10 (drop (10 * i) v))])"

definition range_sums :: "nat list \<Rightarrow> nat list" where
  "range_sums v =
     (let v1 = fold sum_row [0..<11 * LEVEL_1_OF_SEGMENT_TREE] v; k = 111 * LEVEL_1_OF_SEGMENT_TREE
      in v1[k := v1 ! k + sum_list (take LEVEL_1_OF_SEGMENT_TREE (drop (110 * LEVEL_1_OF_SEGMENT_TREE) v1))])"

text \<open>\<open>getGroupRep\<close>: the tree goes into the representation, the counter is left with an empty vector.\<close>

definition range_getGroupRep :: "string \<Rightarrow> nat list \<Rightarrow> group_rep \<Rightarrow> nat list \<times> group_rep" where
  "range_getGroupRep property v r = ([], r\<lparr>numericRangeGroupRep := numericRangeGroupRep r @ [(property, range_sums v)]\<rparr>)"

subsection \<open>How many ranges\<close>

text \<open>The order of magnitude whose further splitting reduces the variance most.\<close>

definition best_split :: "nat list \<Rightarrow> nat list \<Rightarrow> nat option" where
  "best_split level1 split =
     map_option fst (fold (\<lambda>i best.
       if level1 ! i \<le> split ! i then best
       else let reduce = real (level1 ! i) * real (level1 ! i) / real (split ! i) / real (split ! i + 1)
            in case best of
                 None \<Rightarrow> Some (i, reduce)
               | Some (_, r) \<Rightarrow> if reduce > r then Some (i, reduce) else best)
       [0..<LEVEL_1_OF_SEGMENT_TREE] (None :: (nat \<times> real) option))"

fun split_loop :: "nat list \<Rightarrow> nat \<Rightarrow> nat list \<Rightarrow> nat list" where
  "split_loop level1 0 split = split"
| "split_loop level1 (Suc rangeNumber) split =
     (case best_split level1 split of
        None \<Rightarrow> split
      | Some best \<Rightarrow> split_loop level1 rangeNumber (split[best := split ! best + 1]))"

definition range_splits :: "nat list \<Rightarrow> nat list" where
  "range_splits level1 =
     (let split = map (\<lambda>c. if c \<noteq> 0 then 1 else 0) level1
      in split_loop level1 (MAX_RANGE_NUMBER - sum_list split) split)"

subsection \<open>Where the ranges end\<close>

fun scan_up :: "nat list \<Rightarrow> nat \<Rightarrow> nat option" where
  "scan_up [] k = None"
| "scan_up (c # cs) k = (if c \<noteq> 0 then Some k else scan_up cs (k + 1))"

fun scan_down :: "nat list \<Rightarrow> nat \<Rightarrow> nat \<Rightarrow> nat option" where
  "scan_down v base 0 = (if v ! base \<noteq> 0 then Some 0 else None)"
| "scan_down v base (Suc k) = (if v ! (base + Suc k) \<noteq> 0 then Some (Suc k) else scan_down v base k)"

definition level3 :: "nat \<Rightarrow> nat" where "level3 i = 100 * i"
definition level2 :: "nat \<Rightarrow> nat" where "level2 i = 100 * LEVEL_1_OF_SEGMENT_TREE + 10 * i"
definition level1 :: "nat \<Rightarrow> nat" where "level1 i = 110 * LEVEL_1_OF_SEGMENT_TREE + i"

text \<open>
  The first row from \<open>a\<close> on that is not empty, and its first cell; reading runs on in the
  vector, and past its end is \<open>None\<close>.
\<close>

definition first_cell :: "nat list \<Rightarrow> nat \<Rightarrow> nat \<Rightarrow> (nat \<times> nat) option" where
  "first_cell v i a =
     Option.bind (scan_up (drop (level2 i + a) v) a) (\<lambda>a'.
       map_option (Pair a') (scan_up (drop (level3 i + 10 * a') v) 0))"

definition last_cell_of :: "nat list \<Rightarrow> nat \<Rightarrow> (nat \<times> nat) option" where
  "last_cell_of v i =
     Option.bind (scan_down v (level2 i) 9) (\<lambda>a. map_option (Pair a) (scan_down v (level3 i + 10 * a) 9))"

definition next_cell :: "nat list \<Rightarrow> nat \<Rightarrow> nat \<times> nat \<Rightarrow> (nat \<times> nat) option" where
  "next_cell v i stop =
     (let (a, b) = stop
      in case scan_up (take (9 - b) (drop (level3 i + 10 * a + b + 1) v)) (b + 1) of
           Some b' \<Rightarrow> Some (a, b')
         | None \<Rightarrow> first_cell v i (a + 1))"

text \<open>
  The inner loop: cells are taken while this brings the count nearer to its target, from which
  it differs by \<open>difference\<close>. It returns the count, the next cell and the last cell taken.
\<close>

partial_function (option) take_cells ::
  "nat list \<Rightarrow> nat \<Rightarrow> nat \<Rightarrow> int \<Rightarrow> nat \<times> nat \<Rightarrow> nat \<times> nat \<Rightarrow> (nat \<times> (nat \<times> nat) \<times> (nat \<times> nat)) option" where
  "take_cells v i tempCount difference stop tempStop =
     (let x = v ! (level3 i + 10 * fst stop + snd stop); newDifference = difference + int x
      in if newDifference + difference \<ge> 0 then Some (tempCount, stop, tempStop)
         else let (tempCount', tempStop') = (if newDifference \<noteq> difference then (tempCount + x, stop) else (tempCount, tempStop))
              in if tempCount' = v ! level1 i then Some (tempCount', stop, tempStop')
                 else Option.bind (next_cell v i stop) (\<lambda>stop'. take_cells v i tempCount' newDifference stop' tempStop'))"

declare take_cells.simps [code]

text \<open>The ranges of one order of magnitude: first and last cell, and the number of documents.\<close>

fun cut_ranges ::
  "nat list \<Rightarrow> nat \<Rightarrow> nat \<Rightarrow> nat list \<Rightarrow> nat \<Rightarrow> nat \<Rightarrow> nat \<times> nat \<Rightarrow>
     (((nat \<times> nat) \<times> (nat \<times> nat) \<times> nat) list \<times> nat \<times> (nat \<times> nat)) option" where
  "cut_ranges v i split [] tempCount oldCount stop = Some ([], tempCount, stop)"
| "cut_ranges v i split (j # js) tempCount oldCount stop =
     (let difference = int tempCount - int (((j + 1) * v ! level1 i - 1) div split) - 1
      in Option.bind (take_cells v i tempCount difference stop (0, 0)) (\<lambda>(tempCount', stop', tempStop).
           if oldCount \<noteq> tempCount' then
             let r = (stop, tempStop, tempCount' - oldCount)
             in if tempCount' = v ! level1 i then Some ([r], tempCount', stop')
                else map_option (\<lambda>(rs, t). (r # rs, t)) (cut_ranges v i split js tempCount' tempCount' stop')
           else cut_ranges v i split js tempCount' oldCount stop'))"

definition level_ranges :: "nat list \<Rightarrow> nat \<Rightarrow> nat \<Rightarrow> ((nat \<times> nat) \<times> (nat \<times> nat) \<times> nat) list option" where
  "level_ranges v i split =
     (if split = 0 then Some []
      else Option.bind (last_cell_of v i) (\<lambda>end.
           Option.bind (first_cell v i 0) (\<lambda>stop.
           Option.bind (cut_ranges v i split [0..<split - 1] 0 0 stop) (\<lambda>(rs, tempCount, stop').
             Some (rs @ (if tempCount \<noteq> v ! level1 i then [(stop', end, v ! level1 i - tempCount)] else []))))))"

text \<open>The bounds of a range and its text.\<close>

definition range_bounds :: "nat \<Rightarrow> (nat \<times> nat) \<times> (nat \<times> nat) \<times> nat \<Rightarrow> nat \<times> nat \<times> nat" where
  "range_bounds i r =
     (let (first, last, n) = r; atom = bound ! (i + 1) div 100
      in (atom * (10 * fst first + snd first), atom * (10 * fst last + snd last + 1) - 1, n))"

definition tree_ranges :: "nat list \<Rightarrow> (nat \<times> nat \<times> nat) list option" where
  "tree_ranges v =
     (let split = range_splits (take LEVEL_1_OF_SEGMENT_TREE (drop (level1 0) v))
      in map_option concat (those (map (\<lambda>i. map_option (map (range_bounds i)) (level_ranges v i (split ! i))) [0..<LEVEL_1_OF_SEGMENT_TREE])))"

definition range_item :: "nat \<times> nat \<times> nat \<Rightarrow> ontology_item" where
  "range_item r = (let (lo, hi, n) = r in new_item 1 (dec lo @ ''-'' @ dec hi) 0 n)"

definition range_items :: "(string \<times> nat list) list \<Rightarrow> ontology_item list option" where
  "range_items rs =
     map_option concat (those (map (\<lambda>(property, v). map_option (\<lambda>ts. new_item 0 property 0 (last v) # map range_item ts) (tree_ranges v)) rs))"

subsection \<open>The list of all groups\<close>

text \<open>A number with two decimals, rounded to the nearest, ties to even.\<close>

definition round_even :: "real \<Rightarrow> nat" where
  "round_even y = (let n = nat \<lfloor>y\<rfloor>; r = y - real n
     in if r < 1 / 2 then n else if r > 1 / 2 then n + 1 else if even n then n else n + 1)"

definition formatNumericToUStr :: "real \<Rightarrow> string" where
  "formatNumericToUStr x =
     (let n = round_even (100 * \<bar>x\<bar>)
      in (if x < 0 then ''-'' else []) @ dec (n div 100) @ ''.'' @ [digit (n div 10 mod 10), digit (n mod 10)])"

definition number_items :: "string \<times> (real \<times> nat) list \<Rightarrow> ontology_item list" where
  "number_items pl = (let (property, l) = pl
     in new_item 0 property 0 (sum_list (map snd l)) # map (\<lambda>(x, n). new_item 1 (formatNumericToUStr x) 0 n) l)"

definition toOntologyRepItemList :: "group_rep \<Rightarrow> group_rep option" where
  "toOntologyRepItemList r =
     map_option (\<lambda>items. r\<lparr>stringGroupRep := stringGroupRep r @ concat (map number_items (numericGroupRep r)) @ items,
         numericGroupRep := [], numericRangeGroupRep := []\<rparr>)
       (range_items (numericRangeGroupRep r))"

definition ResizeTo :: "(string \<Rightarrow> int option) \<Rightarrow> group_rep \<Rightarrow> group_rep option" where
  "ResizeTo tops r =
     Option.bind (toOntologyRepItemList r) (\<lambda>r'.
       map_option (\<lambda>xs. r'\<lparr>stringGroupRep := xs\<rparr>) (resize_items tops (stringGroupRep r')))"

section \<open>Cells of one order of magnitude\<close>

definition pre :: "nat list \<Rightarrow> nat \<Rightarrow> nat \<Rightarrow> nat" where
  "pre v i p = (\<Sum>q < p. v ! (level3 i + q))"

abbreviation pos :: "nat \<times> nat \<Rightarrow> nat" where "pos s \<equiv> 10 * fst s + snd s"

definition at_cell :: "nat list \<Rightarrow> nat \<Rightarrow> nat \<times> nat \<Rightarrow> bool" where
  "at_cell v i s \<longleftrightarrow> fst s < 10 \<and> snd s < 10 \<and> v ! (level3 i + pos s) \<noteq> 0"

lemma pre_Suc: "pre v i (Suc p) = pre v i p + v ! (level3 i + p)"
  by (simp add: pre_def)

lemma pre_mono: "p \<le> q \<Longrightarrow> pre v i p \<le> pre v i q"
  unfolding pre_def by (rule sum_mono2) auto

lemma pre_add: "pre v i (p + n) = pre v i p + (\<Sum>b < n. v ! (level3 i + p + b))"
  by (induction n) (simp_all add: pre_Suc add.assoc)

lemma at_cell_less: "at_cell v i s \<Longrightarrow> pre v i (pos s) < pre v i (pos s + 1)"
  by (simp add: at_cell_def pre_Suc)

lemma pos_less: "at_cell v i s \<Longrightarrow> pos s < 100"
  by (simp add: at_cell_def)

lemma first_nonzero: "\<exists>n < N. f n \<noteq> (0 :: nat) \<Longrightarrow> \<exists>n < N. f n \<noteq> 0 \<and> (\<forall>m < n. f m = 0)" for f :: "nat \<Rightarrow> nat"
proof -
  assume "\<exists>n < N. f n \<noteq> 0"
  then obtain n where n: "n < N" "f n \<noteq> 0" by blast
  from n(2) obtain m where m: "f m \<noteq> 0" "\<forall>k < m. \<not> f k \<noteq> 0" using exists_least_iff [of "\<lambda>n. f n \<noteq> 0"] by blast
  have "m \<le> n"
  proof (rule ccontr)
    assume "\<not> m \<le> n"
    then show False using m(2) n(2) by simp
  qed
  then show ?thesis using m n(1) by (intro exI [of _ m]) simp
qed

lemma scan_up_at: "n < length cs \<Longrightarrow> cs ! n \<noteq> 0 \<Longrightarrow> \<forall>m < n. cs ! m = 0 \<Longrightarrow> scan_up cs k = Some (k + n)"
proof (induction cs arbitrary: k n)
  case (Cons c cs)
  show ?case
  proof (cases n)
    case 0
    then show ?thesis using Cons.prems by simp
  next
    case (Suc m)
    have "c = 0" using Cons.prems(3) Suc by (metis nth_Cons_0 zero_less_Suc)
    moreover have "\<forall>j < m. cs ! j = 0" using Cons.prems(3) Suc by (metis Suc_mono nth_Cons_Suc)
    ultimately show ?thesis using Cons.IH [of m "k + 1"] Cons.prems Suc by simp
  qed
qed simp

lemma scan_up_None: "scan_up cs k = None \<longleftrightarrow> (\<forall>c \<in> set cs. c = 0)"
  by (induction cs arbitrary: k) auto

lemma scan_up_drop:
  assumes "\<exists>n < N. v ! (s + n) \<noteq> 0" and "s + N \<le> length v"
  shows "\<exists>n < N. scan_up (drop s v) k = Some (k + n) \<and> v ! (s + n) \<noteq> 0 \<and> (\<forall>m < n. v ! (s + m) = 0)"
proof -
  from first_nonzero [OF assms(1)] obtain n where n: "n < N" "v ! (s + n) \<noteq> 0" "\<forall>m < n. v ! (s + m) = 0" by blast
  have "scan_up (drop s v) k = Some (k + n)" using n assms(2) by (intro scan_up_at) auto
  then show ?thesis using n by blast
qed

lemma scan_down_at: "\<exists>n \<le> k. v ! (s + n) \<noteq> 0 \<Longrightarrow> \<exists>n \<le> k. scan_down v s k = Some n \<and> v ! (s + n) \<noteq> 0 \<and> (\<forall>m. n < m \<and> m \<le> k \<longrightarrow> v ! (s + m) = 0)"
proof (induction k)
  case (Suc k)
  show ?case
  proof (cases "v ! (s + Suc k) \<noteq> 0")
    case True
    then show ?thesis by (intro exI [of _ "Suc k"]) simp
  next
    case False
    then have "\<exists>n \<le> k. v ! (s + n) \<noteq> 0" using Suc.prems by (metis le_Suc_eq)
    from Suc.IH [OF this] obtain n where n: "n \<le> k" "scan_down v s k = Some n" "v ! (s + n) \<noteq> 0" "\<forall>m. n < m \<and> m \<le> k \<longrightarrow> v ! (s + m) = 0" by blast
    then show ?thesis using False by (intro exI [of _ n]) (auto simp: le_Suc_eq)
  qed
qed auto

lemma tree_length: "segment_ok v \<Longrightarrow> length v = 778"
  by (simp add: segment_ok_def TREE_SIZE_def LEVEL_1_OF_SEGMENT_TREE_def)

lemma row_sum: "segment_ok v \<Longrightarrow> i < 7 \<Longrightarrow> a < 10 \<Longrightarrow> v ! (level2 i + a) = (\<Sum>b < 10. v ! (level3 i + 10 * a + b))"
proof -
  assume "segment_ok v" "i < 7" "a < 10"
  then have "v ! (700 + (10 * i + a)) = (\<Sum>b < 10. v ! (10 * (10 * i + a) + b))" unfolding segment_ok_def by simp
  then show ?thesis by (simp add: level2_def level3_def LEVEL_1_OF_SEGMENT_TREE_def add.assoc distrib_left)
qed

lemma pre_row: "segment_ok v \<Longrightarrow> i < 7 \<Longrightarrow> a < 10 \<Longrightarrow> pre v i (10 * a + 10) = pre v i (10 * a) + v ! (level2 i + a)"
  using pre_add [of v i "10 * a" 10] by (simp add: row_sum)

lemma pre_rows: "segment_ok v \<Longrightarrow> i < 7 \<Longrightarrow> a + n \<le> 10 \<Longrightarrow> pre v i (10 * (a + n)) = pre v i (10 * a) + (\<Sum>m < n. v ! (level2 i + (a + m)))"
proof (induction n)
  case (Suc n)
  then have "pre v i (10 * (a + n) + 10) = pre v i (10 * (a + n)) + v ! (level2 i + (a + n))" by (intro pre_row) auto
  moreover have "10 * (a + Suc n) = 10 * (a + n) + 10" by simp
  ultimately show ?case using Suc by (simp only: sum.lessThan_Suc)
qed simp

lemma level1_sum: "segment_ok v \<Longrightarrow> i < 7 \<Longrightarrow> v ! level1 i = pre v i 100"
proof -
  assume v: "segment_ok v" and i: "i < 7"
  have "pre v i (10 * (0 + 10)) = pre v i (10 * 0) + (\<Sum>m < 10. v ! (level2 i + (0 + m)))" using v i by (rule pre_rows) simp
  then have "pre v i 100 = (\<Sum>m < 10. v ! (700 + 10 * i + m))" by (simp add: level2_def LEVEL_1_OF_SEGMENT_TREE_def pre_def)
  then show ?thesis using v i by (simp add: segment_ok_def level1_def LEVEL_1_OF_SEGMENT_TREE_def)
qed

lemma row_bounds: "segment_ok v \<Longrightarrow> i < 7 \<Longrightarrow> level2 i + 10 \<le> length v" "segment_ok v \<Longrightarrow> i < 7 \<Longrightarrow> a < 10 \<Longrightarrow> level3 i + 10 * a + 10 \<le> length v"
  by (simp_all add: tree_length level2_def level3_def LEVEL_1_OF_SEGMENT_TREE_def)

lemma first_cell_at:
  assumes "segment_ok v" and "i < 7" and "a < 10" and "pre v i (10 * a) < pre v i 100"
  shows "\<exists>s. first_cell v i a = Some s \<and> at_cell v i s \<and> a \<le> fst s \<and> pre v i (pos s) = pre v i (10 * a)"
proof -
  let ?N = "10 - a"
  have r: "pre v i 100 = pre v i (10 * a) + (\<Sum>m < ?N. v ! (level2 i + (a + m)))"
    using pre_rows [OF assms(1,2), of a ?N] assms(3) by simp
  have "\<exists>m < ?N. v ! (level2 i + a + m) \<noteq> 0"
  proof (rule ccontr)
    assume "\<not> (\<exists>m < ?N. v ! (level2 i + a + m) \<noteq> 0)"
    then have "(\<Sum>m < ?N. v ! (level2 i + (a + m))) = 0" by (simp add: add.assoc)
    then show False using r assms(4) by simp
  qed
  moreover have "level2 i + a + ?N \<le> length v" using row_bounds(1) [OF assms(1,2)] assms(3) by simp
  ultimately obtain m where m: "m < ?N" "scan_up (drop (level2 i + a) v) a = Some (a + m)" "v ! (level2 i + a + m) \<noteq> 0"
    "\<forall>k < m. v ! (level2 i + a + k) = 0" using scan_up_drop [of ?N v "level2 i + a" a] by blast
  have a': "a + m < 10" using m(1) by simp
  have "pre v i (10 * (a + m)) = pre v i (10 * a) + (\<Sum>k < m. v ! (level2 i + (a + k)))" using assms(1,2) a' by (intro pre_rows) simp_all
  also have "(\<Sum>k < m. v ! (level2 i + (a + k))) = 0" using m(4) by (simp add: add.assoc)
  finally have p: "pre v i (10 * (a + m)) = pre v i (10 * a)" by simp
  have "(\<Sum>b < 10. v ! (level3 i + 10 * (a + m) + b)) \<noteq> 0" using row_sum [OF assms(1,2) a'] m(3) by (simp add: add.assoc)
  then have "\<exists>b < 10. v ! (level3 i + 10 * (a + m) + b) \<noteq> 0" by (metis (no_types, lifting) lessThan_iff sum.neutral)
  from scan_up_drop [OF this row_bounds(2) [OF assms(1,2) a'], of 0] obtain b where
    b: "b < 10" "scan_up (drop (level3 i + 10 * (a + m)) v) 0 = Some b" "v ! (level3 i + 10 * (a + m) + b) \<noteq> 0"
      "\<forall>k < b. v ! (level3 i + 10 * (a + m) + k) = 0" by auto
  have "pre v i (10 * (a + m) + b) = pre v i (10 * (a + m))" using pre_add [of v i "10 * (a + m)" b] b(4) by simp
  then show ?thesis using m(2) b p a' by (intro exI [of _ "(a + m, b)"]) (simp add: first_cell_def at_cell_def add.assoc)
qed

lemma next_cell_at:
  assumes "segment_ok v" and "i < 7" and "at_cell v i s" and "pre v i (pos s + 1) < pre v i 100"
  shows "\<exists>s'. next_cell v i s = Some s' \<and> at_cell v i s' \<and> pos s < pos s' \<and> pre v i (pos s') = pre v i (pos s + 1)"
proof -
  obtain a b where s: "s = (a, b)" by (cases s)
  have ab: "a < 10" "b < 10" using assms(3) by (simp_all add: s at_cell_def)
  let ?base = "level3 i + 10 * a + b + 1" and ?N = "9 - b"
  let ?row = "take ?N (drop ?base v)"
  have bl: "?base + ?N \<le> length v" using row_bounds(2) [OF assms(1,2) ab(1)] ab(2) by simp
  have row: "length ?row = ?N" "\<And>m. m < ?N \<Longrightarrow> ?row ! m = v ! (?base + m)" using bl by simp_all
  show ?thesis
  proof (cases "\<exists>m < ?N. v ! (?base + m) \<noteq> 0")
    case True
    from first_nonzero [OF this] obtain m where m: "m < ?N" "v ! (?base + m) \<noteq> 0" "\<forall>k < m. v ! (?base + k) = 0" by blast
    have "scan_up ?row (b + 1) = Some (b + 1 + m)" using m row by (intro scan_up_at) simp_all
    then have n: "next_cell v i s = Some (a, b + 1 + m)" by (simp add: next_cell_def s)
    have "pre v i (10 * a + b + 1 + m) = pre v i (10 * a + b + 1) + (\<Sum>k < m. v ! (level3 i + (10 * a + b + 1) + k))" by (rule pre_add)
    also have "(\<Sum>k < m. v ! (level3 i + (10 * a + b + 1) + k)) = 0" using m(3) by (simp add: add.assoc)
    finally have "pre v i (pos (a, b + 1 + m)) = pre v i (pos s + 1)" by (simp add: s add.assoc)
    moreover have "at_cell v i (a, b + 1 + m)" using m ab by (simp add: at_cell_def add.assoc)
    ultimately show ?thesis using n by (intro exI [of _ "(a, b + 1 + m)"]) (simp add: s)
  next
    case False
    have "scan_up ?row (b + 1) = None" unfolding scan_up_None using False row by (metis in_set_conv_nth)
    then have n: "next_cell v i s = first_cell v i (a + 1)" by (simp add: next_cell_def s)
    have "pre v i (10 * a + b + 1 + ?N) = pre v i (10 * a + b + 1) + (\<Sum>k < ?N. v ! (level3 i + (10 * a + b + 1) + k))" by (rule pre_add)
    also have "(\<Sum>k < ?N. v ! (level3 i + (10 * a + b + 1) + k)) = 0" using False by (simp add: add.assoc)
    finally have p: "pre v i (10 * (a + 1)) = pre v i (pos s + 1)" using ab(2) by (simp add: s add.assoc)
    then have lt: "pre v i (10 * (a + 1)) < pre v i 100" using assms(4) by simp
    have "a + 1 < 10"
    proof (rule ccontr)
      assume "\<not> a + 1 < 10"
      then have "10 * (a + 1) = 100" using ab(1) by simp
      then show False using lt by simp
    qed
    from first_cell_at [OF assms(1,2) this lt] obtain s' where s': "first_cell v i (a + 1) = Some s'" "at_cell v i s'" "a + 1 \<le> fst s'"
      "pre v i (pos s') = pre v i (10 * (a + 1))" by blast
    have "pos s < pos s'" using s'(3) ab(2) by (simp add: s)
    then show ?thesis using n s' p by (intro exI [of _ s']) simp
  qed
qed

lemma last_cell_at:
  assumes "segment_ok v" and "i < 7" and "0 < pre v i 100"
  shows "\<exists>s. last_cell_of v i = Some s \<and> at_cell v i s \<and> pre v i (pos s + 1) = pre v i 100"
proof -
  have r: "pre v i 100 = (\<Sum>m < 10. v ! (level2 i + m))" using pre_rows [OF assms(1,2), of 0 10] by (simp add: pre_def)
  have "\<exists>m \<le> 9. v ! (level2 i + m) \<noteq> 0"
  proof (rule ccontr)
    assume "\<not> (\<exists>m \<le> 9. v ! (level2 i + m) \<noteq> 0)"
    then have "\<forall>m < 10. v ! (level2 i + m) = 0" by simp
    then have "pre v i 100 = 0" unfolding r by simp
    then show False using assms(3) by simp
  qed
  from scan_down_at [OF this] obtain a where a: "a \<le> 9" "scan_down v (level2 i) 9 = Some a" "v ! (level2 i + a) \<noteq> 0"
    "\<forall>m. a < m \<and> m \<le> 9 \<longrightarrow> v ! (level2 i + m) = 0" by blast
  have a': "a < 10" using a(1) by simp
  have "pre v i (10 * (a + 1 + (9 - a))) = pre v i (10 * (a + 1)) + (\<Sum>m < 9 - a. v ! (level2 i + (a + 1 + m)))"
    using assms(1,2) a(1) by (intro pre_rows) simp_all
  also have "(\<Sum>m < 9 - a. v ! (level2 i + (a + 1 + m))) = 0"
  proof (rule sum.neutral, intro ballI)
    fix m assume "m \<in> {..<9 - a}"
    then have "a < a + 1 + m \<and> a + 1 + m \<le> 9" by auto
    then show "v ! (level2 i + (a + 1 + m)) = 0" using a(4) by blast
  qed
  finally have p: "pre v i (10 * (a + 1)) = pre v i 100" using a(1) by simp
  have "(\<Sum>b < 10. v ! (level3 i + 10 * a + b)) \<noteq> 0" using row_sum [OF assms(1,2) a'] a(3) by simp
  then have "\<exists>b < 10. v ! (level3 i + 10 * a + b) \<noteq> 0" by (metis (no_types, lifting) lessThan_iff sum.neutral)
  then obtain b0 where "b0 < 10" "v ! (level3 i + 10 * a + b0) \<noteq> 0" by blast
  then have "\<exists>b \<le> 9. v ! (level3 i + 10 * a + b) \<noteq> 0" by (intro exI [of _ b0]) simp
  from scan_down_at [OF this] obtain b where b: "b \<le> 9" "scan_down v (level3 i + 10 * a) 9 = Some b" "v ! (level3 i + 10 * a + b) \<noteq> 0"
    "\<forall>m. b < m \<and> m \<le> 9 \<longrightarrow> v ! (level3 i + 10 * a + m) = 0" by blast
  have "pre v i (10 * a + b + 1 + (9 - b)) = pre v i (10 * a + b + 1) + (\<Sum>k < 9 - b. v ! (level3 i + (10 * a + b + 1) + k))" by (rule pre_add)
  also have "(\<Sum>k < 9 - b. v ! (level3 i + (10 * a + b + 1) + k)) = 0"
  proof (rule sum.neutral, intro ballI)
    fix k assume "k \<in> {..<9 - b}"
    then have "b < b + 1 + k \<and> b + 1 + k \<le> 9" by auto
    then have "v ! (level3 i + 10 * a + (b + 1 + k)) = 0" using b(4) by blast
    then show "v ! (level3 i + (10 * a + b + 1) + k) = 0" by (simp add: add.assoc)
  qed
  also have "10 * a + b + 1 + (9 - b) = 10 * (a + 1)" using b(1) by simp
  finally have "pre v i (pos (a, b) + 1) = pre v i 100" using p by simp
  moreover have "at_cell v i (a, b)" using a' b(1,3) by (simp add: at_cell_def add.assoc)
  ultimately show ?thesis using a(2) b(2) by (intro exI [of _ "(a, b)"]) (simp add: last_cell_of_def)
qed

section \<open>The ranges of one order of magnitude\<close>

text \<open>What the inner loop returns: nothing taken, or the cells up to \<open>t\<close>.\<close>

lemma take_cells_at:
  assumes "segment_ok v" and "i < 7"
  shows "at_cell v i s \<Longrightarrow> \<exists>c s' t. take_cells v i (pre v i (pos s)) d s t0 = Some (c, s', t) \<and>
    (if c = pre v i (pos s) then s' = s \<and> t = t0
     else at_cell v i t \<and> pos s \<le> pos t \<and> c = pre v i (pos t + 1) \<and>
       (c = pre v i 100 \<or> at_cell v i s' \<and> pos t < pos s' \<and> c = pre v i (pos s')))"
proof (induction "100 - pos s" arbitrary: s d t0 rule: less_induct)
  case less
  let ?x = "v ! (level3 i + 10 * fst s + snd s)"
  have x: "?x \<noteq> 0" using less.prems by (simp add: at_cell_def add.assoc)
  have p: "pre v i (pos s) + ?x = pre v i (pos s + 1)" by (simp add: pre_Suc add.assoc)
  note c = level1_sum [OF assms]
  show ?case
  proof (cases "d + int ?x + d \<ge> 0")
    case True
    then show ?thesis by (subst take_cells.simps) (simp add: Let_def)
  next
    case False
    show ?thesis
    proof (cases "pre v i (pos s + 1) = pre v i 100")
      case True
      have "take_cells v i (pre v i (pos s)) d s t0 = Some (pre v i 100, s, s)"
        using False x p c True by (subst take_cells.simps) (simp add: Let_def)
      then show ?thesis using less.prems True at_cell_less [OF less.prems] by (intro exI [of _ "pre v i 100"] exI [of _ s]) simp
    next
      case ne: False
      have "pre v i (pos s + 1) \<le> pre v i 100" using pos_less [OF less.prems] by (intro pre_mono) simp
      with ne have lt: "pre v i (pos s + 1) < pre v i 100" by simp
      from next_cell_at [OF assms less.prems lt] obtain s1 where s1: "next_cell v i s = Some s1" "at_cell v i s1" "pos s < pos s1"
        "pre v i (pos s1) = pre v i (pos s + 1)" by blast
      have st: "take_cells v i (pre v i (pos s)) d s t0 = take_cells v i (pre v i (pos s1)) (d + int ?x) s1 s"
        using False x p c ne s1 by (subst take_cells.simps) (simp add: Let_def)
      have "100 - pos s1 < 100 - pos s" using s1(3) pos_less [OF s1(2)] by simp
      from less.hyps [OF this s1(2), of "d + int ?x" s] obtain e s' t where
        t: "take_cells v i (pre v i (pos s1)) (d + int ?x) s1 s = Some (e, s', t)"
          "if e = pre v i (pos s1) then s' = s1 \<and> t = s
           else at_cell v i t \<and> pos s1 \<le> pos t \<and> e = pre v i (pos t + 1) \<and>
             (e = pre v i 100 \<or> at_cell v i s' \<and> pos t < pos s' \<and> e = pre v i (pos s'))" by blast
      have "pre v i (pos s) < e"
      proof (cases "e = pre v i (pos s1)")
        case False
        then have "e = pre v i (pos t + 1)" "pos s + 1 \<le> pos t + 1" using t(2) s1(3) by auto
        then show ?thesis using at_cell_less [OF less.prems] pre_mono [of "pos s + 1" "pos t + 1" v i] by simp
      qed (use at_cell_less [OF less.prems] s1(4) in simp)
      then show ?thesis using st t s1 less.prems by (intro exI [of _ e] exI [of _ s'] exI [of _ t]) (auto split: if_splits)
    qed
  qed
qed

text \<open>Consecutive ranges from the cell \<open>p\<close> on.\<close>

fun ranges_from :: "nat list \<Rightarrow> nat \<Rightarrow> nat \<Rightarrow> ((nat \<times> nat) \<times> (nat \<times> nat) \<times> nat) list \<Rightarrow> bool" where
  "ranges_from v i p [] \<longleftrightarrow> True"
| "ranges_from v i p ((f, l, n) # rs) \<longleftrightarrow> at_cell v i f \<and> at_cell v i l \<and> p \<le> pos f \<and> pos f \<le> pos l \<and>
     n = (\<Sum>q \<in> {pos f..pos l}. v ! (level3 i + q)) \<and> ranges_from v i (pos l + 1) rs"

lemma pre_interval: "p \<le> q \<Longrightarrow> pre v i (q + 1) - pre v i p = (\<Sum>k \<in> {p..q}. v ! (level3 i + k))"
proof -
  assume "p \<le> q"
  then have "{..<q + 1} = {..<p} \<union> {p..q}" "{..<p} \<inter> {p..q} = {}" by auto
  then have "pre v i (q + 1) = pre v i p + (\<Sum>k \<in> {p..q}. v ! (level3 i + k))" unfolding pre_def by (simp add: sum.union_disjoint)
  then show ?thesis by simp
qed

lemma ranges_from_mono: "ranges_from v i p rs \<Longrightarrow> p' \<le> p \<Longrightarrow> ranges_from v i p' rs"
  by (cases "(v, i, p, rs)" rule: ranges_from.cases) auto

lemma ranges_from_append:
  "ranges_from v i p rs \<Longrightarrow> \<forall>(f, l, n) \<in> set rs. pos l < q \<Longrightarrow> p \<le> q \<Longrightarrow> ranges_from v i q us \<Longrightarrow> ranges_from v i p (rs @ us)"
proof (induction v i p rs rule: ranges_from.induct)
  case (1 v i p)
  then show ?case by (simp add: ranges_from_mono)
qed auto

lemma cut_ranges_at:
  assumes "segment_ok v" and "i < 7"
  shows "at_cell v i s \<Longrightarrow> \<exists>rs c s'. cut_ranges v i k js (pre v i (pos s)) (pre v i (pos s)) s = Some (rs, c, s') \<and>
    ranges_from v i (pos s) rs \<and> sum_list (map (snd \<circ> snd) rs) + pre v i (pos s) = c \<and> length rs \<le> length js \<and>
    (c = pre v i 100 \<or> at_cell v i s' \<and> pos s \<le> pos s' \<and> c = pre v i (pos s') \<and> (\<forall>(f, l, n) \<in> set rs. pos l < pos s'))"
proof (induction js arbitrary: s)
  case Nil
  then show ?case by simp
next
  case (Cons j js)
  note c = level1_sum [OF assms]
  let ?d = "int (pre v i (pos s)) - int (((j + 1) * v ! level1 i - 1) div k) - 1"
  from take_cells_at [OF assms Cons.prems, of ?d "(0, 0)"] obtain e s1 t where
    t: "take_cells v i (pre v i (pos s)) ?d s (0, 0) = Some (e, s1, t)"
      "if e = pre v i (pos s) then s1 = s \<and> t = (0, 0)
       else at_cell v i t \<and> pos s \<le> pos t \<and> e = pre v i (pos t + 1) \<and>
         (e = pre v i 100 \<or> at_cell v i s1 \<and> pos t < pos s1 \<and> e = pre v i (pos s1))" by blast
  show ?case
  proof (cases "e = pre v i (pos s)")
    case True
    then have "s1 = s" using t(2) by simp
    with t(1) True have "cut_ranges v i k (j # js) (pre v i (pos s)) (pre v i (pos s)) s = cut_ranges v i k js (pre v i (pos s)) (pre v i (pos s)) s"
      by (simp add: Let_def)
    then show ?thesis using Cons.IH [OF Cons.prems] by fastforce
  next
    case False
    with t(2) have t2: "at_cell v i t" "pos s \<le> pos t" "e = pre v i (pos t + 1)"
      "e = pre v i 100 \<or> at_cell v i s1 \<and> pos t < pos s1 \<and> e = pre v i (pos s1)" unfolding if_not_P [OF False] by blast+
    let ?r = "(s, t, e - pre v i (pos s))"
    have n: "e - pre v i (pos s) = (\<Sum>q \<in> {pos s..pos t}. v ! (level3 i + q))" using pre_interval [OF t2(2)] t2(3) by simp
    have le: "pre v i (pos s) \<le> e" using pre_mono [of "pos s" "pos t + 1" v i] t2(2,3) by simp
    show ?thesis
    proof (cases "e = pre v i 100")
      case True
      have "cut_ranges v i k (j # js) (pre v i (pos s)) (pre v i (pos s)) s = Some ([?r], e, s1)"
        using t(1) False True c by (simp add: Let_def)
      then show ?thesis using Cons.prems t2(1,2) n le True by simp
    next
      case ne: False
      then have s1: "at_cell v i s1" "pos t < pos s1" "e = pre v i (pos s1)" using t2(4) by simp_all
      from Cons.IH [OF s1(1)] obtain rs f s' where
        ih: "cut_ranges v i k js (pre v i (pos s1)) (pre v i (pos s1)) s1 = Some (rs, f, s')" "ranges_from v i (pos s1) rs"
          "sum_list (map (snd \<circ> snd) rs) + pre v i (pos s1) = f" "length rs \<le> length js"
          "f = pre v i 100 \<or> at_cell v i s' \<and> pos s1 \<le> pos s' \<and> f = pre v i (pos s') \<and> (\<forall>(f, l, n) \<in> set rs. pos l < pos s')" by blast
      have "cut_ranges v i k (j # js) (pre v i (pos s)) (pre v i (pos s)) s = Some (?r # rs, f, s')"
        using t(1) False ne c ih(1) s1(3) by (simp add: Let_def)
      moreover have "ranges_from v i (pos s) (?r # rs)"
        using Cons.prems t2(1,2) n ranges_from_mono [OF ih(2), of "pos t + 1"] s1(2) by simp
      moreover have "sum_list (map (snd \<circ> snd) (?r # rs)) + pre v i (pos s) = f" using ih(3) s1(3) le by simp
      moreover have "f = pre v i 100 \<or> at_cell v i s' \<and> pos s \<le> pos s' \<and> f = pre v i (pos s') \<and> (\<forall>(f, l, n) \<in> set (?r # rs). pos l < pos s')"
        using ih(5) s1(2) t2(2) by auto
      moreover have "length (?r # rs) \<le> length (j # js)" using ih(4) by simp
      ultimately show ?thesis by blast
    qed
  qed
qed

lemma level_ranges_at:
  assumes "segment_ok v" and "i < 7" and "k = 0 \<longleftrightarrow> v ! level1 i = 0"
  shows "\<exists>rs. level_ranges v i k = Some rs \<and> ranges_from v i 0 rs \<and> sum_list (map (snd \<circ> snd) rs) = v ! level1 i \<and> length rs \<le> k"
proof (cases "k = 0")
  case True
  then show ?thesis using assms(3) by (simp add: level_ranges_def)
next
  case False
  note c = level1_sum [OF assms(1,2)]
  have pos: "0 < pre v i 100" "pre v i (10 * 0) < pre v i 100" using False assms(3) c by (simp_all add: pre_def [of v i 0])
  from last_cell_at [OF assms(1,2) pos(1)] obtain e where e: "last_cell_of v i = Some e" "at_cell v i e" "pre v i (pos e + 1) = pre v i 100" by blast
  from first_cell_at [OF assms(1,2) _ pos(2)] obtain s where s: "first_cell v i 0 = Some s" "at_cell v i s" "pre v i (pos s) = 0"
    by (auto simp: pre_def)
  from cut_ranges_at [OF assms(1,2) s(2), of k "[0..<k - 1]"] obtain rs f s' where
    r: "cut_ranges v i k [0..<k - 1] 0 0 s = Some (rs, f, s')" "ranges_from v i (pos s) rs" "sum_list (map (snd \<circ> snd) rs) = f"
      "length rs \<le> k - 1" "f = pre v i 100 \<or> at_cell v i s' \<and> pos s \<le> pos s' \<and> f = pre v i (pos s') \<and> (\<forall>(f, l, n) \<in> set rs. pos l < pos s')"
    by (auto simp: s(3))
  show ?thesis
  proof (cases "f = pre v i 100")
    case True
    then show ?thesis using False e(1) s(1) r c ranges_from_mono [OF r(2), of 0] by (intro exI [of _ rs]) (simp add: level_ranges_def)
  next
    case ne: False
    let ?us = "[(s', e, pre v i 100 - f)]"
    from ne r(5) have s': "at_cell v i s'" "f = pre v i (pos s')" "\<forall>(f, l, n) \<in> set rs. pos l < pos s'" by simp_all
    have "pos s' \<le> pos e"
    proof (rule ccontr)
      assume "\<not> pos s' \<le> pos e"
      then have "pre v i (pos e + 1) \<le> pre v i (pos s')" by (intro pre_mono) simp
      moreover have "pre v i (pos s' + 1) \<le> pre v i 100" using pos_less [OF s'(1)] by (intro pre_mono) simp
      ultimately show False using at_cell_less [OF s'(1)] e(3) by simp
    qed
    then have "ranges_from v i (pos s') ?us" using s'(1,2) e(2,3) pre_interval [of "pos s'" "pos e" v i] by simp
    then have "ranges_from v i 0 (rs @ ?us)" using ranges_from_append [OF ranges_from_mono [OF r(2)] s'(3)] by simp
    moreover have "f \<le> pre v i 100" using s'(2) pos_less [OF s'(1)] by (simp add: pre_mono)
    ultimately show ?thesis using False ne e(1) s(1) r(1,3,4) c by (intro exI [of _ "rs @ ?us"]) (simp add: level_ranges_def)
  qed
qed

section \<open>The number of ranges\<close>

lemma best_split_at: "best_split c s = Some i \<Longrightarrow> i < 7 \<and> s ! i < c ! i"
proof -
  let ?f = "\<lambda>i (best :: (nat \<times> real) option). if c ! i \<le> s ! i then best
       else let reduce = real (c ! i) * real (c ! i) / real (s ! i) / real (s ! i + 1)
            in case best of None \<Rightarrow> Some (i, reduce) | Some (_, r) \<Rightarrow> if reduce > r then Some (i, reduce) else best"
  let ?good = "\<lambda>b :: (nat \<times> real) option. case b of None \<Rightarrow> True | Some (i, r) \<Rightarrow> i < 7 \<and> s ! i < c ! i"
  have step: "?good (?f j b)" if "j < 7" "?good b" for j b
  proof (cases b)
    case None
    then show ?thesis using that by (simp add: Let_def)
  next
    case (Some ir)
    then show ?thesis using that by (cases ir) (simp add: Let_def)
  qed
  have "?good (fold ?f js b)" if "\<forall>j \<in> set js. j < 7" "?good b" for js b
    using that
  proof (induction js arbitrary: b)
    case (Cons j js)
    then have "?good (?f j b)" by (intro step) simp_all
    from Cons.IH [OF _ this] Cons.prems(1) show ?case by simp
  qed simp
  from this [of "[0..<7]" None] show "best_split c s = Some i \<Longrightarrow> i < 7 \<and> s ! i < c ! i"
    by (auto simp: best_split_def LEVEL_1_OF_SEGMENT_TREE_def simp del: upt_conv_Cons upt_rec_numeral)
qed

lemma split_loop_at:
  "length s = 7 \<Longrightarrow> \<forall>i < 7. s ! i = 0 \<longleftrightarrow> c ! i = 0 \<Longrightarrow>
    length (split_loop c n s) = 7 \<and> (\<forall>i < 7. split_loop c n s ! i = 0 \<longleftrightarrow> c ! i = 0) \<and> sum_list (split_loop c n s) \<le> sum_list s + n"
proof (induction n arbitrary: s)
  case (Suc n)
  show ?case
  proof (cases "best_split c s")
    case (Some b)
    from best_split_at [OF this] have b: "b < 7" "c ! b \<noteq> 0" by auto
    let ?s = "s[b := s ! b + 1]"
    have "\<forall>i < 7. ?s ! i = 0 \<longleftrightarrow> c ! i = 0" using Suc.prems b by (auto simp: nth_list_update)
    moreover have "sum_list ?s = sum_list s + 1" using b Suc.prems(1) by (simp add: sum_list_update elem_le_sum_list)
    ultimately show ?thesis using Suc.IH [of ?s] Suc.prems(1) Some by simp
  qed (use Suc.prems in simp)
qed simp

lemma range_splits_at:
  assumes "length c = 7"
  shows "length (range_splits c) = 7" and "\<forall>i < 7. range_splits c ! i = 0 \<longleftrightarrow> c ! i = 0" and "sum_list (range_splits c) \<le> MAX_RANGE_NUMBER"
proof -
  let ?s = "map (\<lambda>c :: nat. if c \<noteq> 0 then 1 :: nat else 0) c"
  have "sum_list ?s \<le> length c" by (induction c) auto
  then have le: "sum_list ?s \<le> 7" using assms by simp
  have "length ?s = 7" "\<forall>i < 7. ?s ! i = 0 \<longleftrightarrow> c ! i = 0" using assms by simp_all
  from split_loop_at [OF this, of "7 - sum_list ?s"] le
  show "length (range_splits c) = 7" "\<forall>i < 7. range_splits c ! i = 0 \<longleftrightarrow> c ! i = 0" "sum_list (range_splits c) \<le> MAX_RANGE_NUMBER"
    by (simp_all add: range_splits_def MAX_RANGE_NUMBER_def Let_def)
qed

section \<open>Counting documents\<close>

text \<open>The values that are counted: positive ones, cut at the last cell.\<close>

definition counted_value :: "int option \<Rightarrow> nat option" where
  "counted_value x = (case x of Some y \<Rightarrow> if y > 0 then Some (nat (min y 999999999)) else None | None \<Rightarrow> None)"

definition counted_values :: "int option list \<Rightarrow> nat list" where
  "counted_values xs = List.map_filter counted_value xs"

lemma counted_less: "x \<in> set (counted_values xs) \<Longrightarrow> x < 10 ^ 9"
  by (induction xs) (auto simp: counted_values_def counted_value_def map_filter_simps split: option.splits if_splits)

lemma find_exponent_cases:
  "find_exponent x = (if x < 10 ^ 3 then 1 else if x < 10 ^ 4 then 2 else if x < 10 ^ 5 then 3 else if x < 10 ^ 6 then 4
     else if x < 10 ^ 7 then 5 else if x < 10 ^ 8 then 6 else if x < 10 ^ 9 then 7 else 8)"
  by (simp add: find_exponent_def bound_def)

lemma bound_atom: "i < 7 \<Longrightarrow> bound ! (i + 1) div 100 = 10 ^ (i + 1)"
proof -
  assume "i < 7"
  then have "i = 0 \<or> i = 1 \<or> i = 2 \<or> i = 3 \<or> i = 4 \<or> i = 5 \<or> i = 6" by linarith
  then show ?thesis by (elim disjE) (simp_all add: bound_def)
qed

definition level_of :: "nat \<Rightarrow> nat" where
  "level_of x = find_exponent x - 1"

lemma level_of_at:
  "x < 10 ^ 9 \<Longrightarrow> find_exponent x = level_of x + 1 \<and> level_of x < 7 \<and> (level_of x = 0 \<or> 10 ^ (level_of x + 2) \<le> x) \<and> x < 10 ^ (level_of x + 3)"
  by (auto simp: level_of_def find_exponent_cases)

lemma level_of_unique:
  assumes "x < 10 ^ 9" and "i = 0 \<or> 10 ^ (i + 2) \<le> x" and "x < 10 ^ (i + 3)"
  shows "level_of x = i"
proof -
  note l = level_of_at [OF assms(1)]
  have le: "k \<le> j" if "j < k \<Longrightarrow> x < 10 ^ (j + 3) \<and> 10 ^ (k + 2) \<le> x" for j k
  proof (rule ccontr)
    assume "\<not> k \<le> j"
    then have "(10 :: nat) ^ (j + 3) \<le> 10 ^ (k + 2)" by (intro power_increasing) auto
    then show False using that \<open>\<not> k \<le> j\<close> by auto
  qed
  have "level_of x \<le> i" by (rule le) (use l assms(3) in auto)
  moreover have "i \<le> level_of x" by (rule le) (use l assms(2) in auto)
  ultimately show ?thesis by simp
qed

lemma cell_index_at: "x < 10 ^ 9 \<Longrightarrow> cell_index x = 100 * level_of x + x div 10 ^ (level_of x + 1)"
  using level_of_at [of x] bound_atom [of "level_of x"] by (simp add: cell_index_def Let_def)

lemma cell_in_level: "x < 10 ^ 9 \<Longrightarrow> x div 10 ^ (level_of x + 1) < 100 \<and> (level_of x = 0 \<or> 10 \<le> x div 10 ^ (level_of x + 1))"
proof -
  assume "x < 10 ^ 9"
  note l = level_of_at [OF this]
  have p: "(10 :: nat) ^ (level_of x + 3) = 100 * 10 ^ (level_of x + 1)" "(10 :: nat) ^ (level_of x + 2) = 10 * 10 ^ (level_of x + 1)"
    by (simp_all add: numeral_3_eq_3 numeral_2_eq_2)
  have "x div 10 ^ (level_of x + 1) < 100" using l p(1) by (simp add: div_less_iff_less_mult)
  moreover have "level_of x = 0 \<or> 10 \<le> x div 10 ^ (level_of x + 1)" using l p(2) by (simp add: less_eq_div_iff_mult_less_eq)
  ultimately show ?thesis by simp
qed

lemma cell_index_less: "x < 10 ^ 9 \<Longrightarrow> cell_index x < 700"
  using cell_index_at [of x] cell_in_level [of x] level_of_at [of x] by linarith

text \<open>A run of cells of one level holds the numbers of an interval.\<close>

lemma cells_interval:
  assumes "x < 10 ^ 9" and "i < 7" and "p \<le> q" and "q < 100" and "i = 0 \<or> 10 \<le> p"
  shows "cell_index x \<in> {100 * i + p..100 * i + q} \<longleftrightarrow> 10 ^ (i + 1) * p \<le> x \<and> x \<le> 10 ^ (i + 1) * (q + 1) - 1"
proof -
  let ?m = "(10 :: nat) ^ (i + 1)"
  have m: "0 < ?m" by simp
  have iv: "?m * p \<le> x \<and> x \<le> ?m * (q + 1) - 1 \<longleftrightarrow> p \<le> x div ?m \<and> x div ?m \<le> q"
  proof -
    have "?m * p \<le> x \<longleftrightarrow> p \<le> x div ?m" by (simp only: less_eq_div_iff_mult_less_eq [OF m] mult.commute)
    moreover have "x \<le> ?m * (q + 1) - 1 \<longleftrightarrow> x < (q + 1) * ?m"
    proof -
      have "x \<le> M - 1 \<longleftrightarrow> x < M" if "0 < M" for M :: nat using that by linarith
      then show ?thesis using m by (simp only: mult.commute [of "q + 1"] mult_pos_pos add_pos_nonneg zero_less_one add_gr_0 simp_thms nat_0_less_mult_iff)
    qed
    moreover have "x < (q + 1) * ?m \<longleftrightarrow> x div ?m < q + 1" by (simp only: div_less_iff_less_mult [OF m])
    ultimately show ?thesis by linarith
  qed
  show ?thesis
  proof (cases "level_of x = i")
    case True
    then show ?thesis using iv cell_index_at [OF assms(1)] by auto
  next
    case False
    note c = cell_index_at [OF assms(1)] cell_in_level [OF assms(1)]
    have "cell_index x \<notin> {100 * i + p..100 * i + q}"
    proof
      assume "cell_index x \<in> {100 * i + p..100 * i + q}"
      then have "100 * level_of x + x div 10 ^ (level_of x + 1) < 100 * i + 100" "100 * i < 100 * level_of x + 100" using c assms(4) by auto
      then show False using False by linarith
    qed
    moreover have "\<not> (?m * p \<le> x \<and> x \<le> ?m * (q + 1) - 1)"
    proof
      assume "?m * p \<le> x \<and> x \<le> ?m * (q + 1) - 1"
      then have d: "p \<le> x div ?m" "x div ?m < 100" using iv assms(4) by auto
      have e: "(10 :: nat) ^ (i + 3) = 100 * ?m" "(10 :: nat) ^ (i + 2) = 10 * ?m" by (simp_all add: numeral_3_eq_3 numeral_2_eq_2)
      have up: "x < 10 ^ (i + 3)" using d(2) m unfolding e by (simp only: div_less_iff_less_mult)
      have low: "i = 0 \<or> 10 ^ (i + 2) \<le> x"
      proof (cases "i = 0")
        case False
        then have "10 \<le> x div ?m" using assms(5) d(1) by simp
        then show ?thesis unfolding e by (simp only: less_eq_div_iff_mult_less_eq [OF m] simp_thms)
      qed simp
      from level_of_unique [OF assms(1) low up] False show False by simp
    qed
    ultimately show ?thesis by blast
  qed
qed

text \<open>The cells after adding documents, and the sums over them.\<close>

definition cell_count :: "nat list \<Rightarrow> nat \<Rightarrow> nat" where
  "cell_count xs k = length (filter (\<lambda>x. cell_index x = k) xs)"

definition counts_of :: "nat list \<Rightarrow> nat list \<Rightarrow> bool" where
  "counts_of xs v \<longleftrightarrow> length v = 778 \<and> (\<forall>k < 700. v ! k = cell_count xs k) \<and> (\<forall>k. 700 \<le> k \<and> k < 778 \<longrightarrow> v ! k = 0)"

lemma range_addDoc_counts: "counts_of xs v \<Longrightarrow> counts_of (counted_values [x] @ xs) (range_addDoc x v)"
proof -
  assume v: "counts_of xs v"
  show ?thesis
  proof (cases "counted_value x")
    case None
    then have "range_addDoc x v = v" by (auto simp: counted_value_def range_addDoc_def split: option.splits if_splits)
    then show ?thesis using v None by (simp add: counted_values_def map_filter_simps)
  next
    case (Some y)
    then have u: "range_addDoc x v = v[cell_index y := v ! cell_index y + 1]"
      by (auto simp: counted_value_def range_addDoc_def bound_def LEVEL_1_OF_SEGMENT_TREE_def Let_def split: option.splits if_splits)
    have c: "counted_values [x] = [y]" using Some by (simp add: counted_values_def map_filter_simps)
    then have "y < 10 ^ 9" using counted_less [of y "[x]"] by simp
    from cell_index_less [OF this] show ?thesis using v unfolding c u
      by (auto simp: counts_of_def cell_count_def nth_list_update)
  qed
qed

lemma cell_count_append: "cell_count (xs @ ys) k = cell_count xs k + cell_count ys k"
  by (simp add: cell_count_def)

lemma counts_of_cong: "counts_of xs v \<Longrightarrow> mset xs = mset ys \<Longrightarrow> counts_of ys v"
proof -
  assume v: "counts_of xs v" and m: "mset xs = mset ys"
  have "cell_count ys k = cell_count xs k" for k unfolding cell_count_def using m by (metis mset_filter size_mset)
  then show ?thesis using v by (simp add: counts_of_def)
qed

lemma counted_values_Cons: "counted_values (x # xs) = counted_values [x] @ counted_values xs"
  by (simp add: counted_values_def map_filter_simps split: option.splits)

lemma range_docs_counts: "counts_of xs v \<Longrightarrow> counts_of (xs @ counted_values ds) (fold range_addDoc ds v)"
proof (induction ds arbitrary: xs v)
  case Nil
  then show ?case by (simp add: counted_values_def map_filter_simps)
next
  case (Cons d ds)
  from Cons.IH [OF range_addDoc_counts [OF Cons.prems]]
  have "counts_of ((counted_values [d] @ xs) @ counted_values ds) (fold range_addDoc ds (range_addDoc d v))" .
  from counts_of_cong [OF this, of "xs @ counted_values (d # ds)"] show ?case by (simp add: counted_values_Cons [of d ds])
qed

lemma range_counter0_counts: "counts_of [] range_counter0"
  by (simp add: counts_of_def range_counter0_def cell_count_def TREE_SIZE_def LEVEL_1_OF_SEGMENT_TREE_def)

lemma sum_list_take_drop: "s + n \<le> length v \<Longrightarrow> sum_list (take n (drop s v)) = (\<Sum>k < n. v ! (s + k))" for v :: "nat list"
proof (induction n)
  case (Suc n)
  then have "take (Suc n) (drop s v) = take n (drop s v) @ [v ! (s + n)]" by (simp add: take_Suc_conv_app_nth)
  then show ?case using Suc by simp
qed simp

lemma sum_rows:
  assumes "length v = 778" and "\<forall>k. 700 \<le> k \<and> k < 778 \<longrightarrow> v ! k = 0" and "n \<le> 77"
  shows "length (fold sum_row [0..<n] v) = 778 \<and> (\<forall>k < 700. fold sum_row [0..<n] v ! k = v ! k) \<and>
    (\<forall>m < n. fold sum_row [0..<n] v ! (700 + m) = (\<Sum>k < 10. fold sum_row [0..<n] v ! (10 * m + k))) \<and>
    (\<forall>k. 700 + n \<le> k \<and> k < 778 \<longrightarrow> fold sum_row [0..<n] v ! k = 0)"
  using assms(3)
proof (induction n)
  case 0
  then show ?case using assms(1,2) by simp
next
  case (Suc n)
  let ?w = "fold sum_row [0..<n] v" and ?S = "\<Sum>k < 10. fold sum_row [0..<n] v ! (10 * n + k)"
  note ih = Suc.IH [OF Suc_leD [OF Suc.prems]]
  have l: "length ?w = 778" and z: "?w ! (700 + n) = 0" using ih Suc.prems by simp_all
  have "sum_list (take 10 (drop (10 * n) ?w)) = ?S" using l Suc.prems by (intro sum_list_take_drop) simp
  then have u: "fold sum_row [0..<Suc n] v = ?w[700 + n := ?S]" using z by (simp add: sum_row_def LEVEL_1_OF_SEGMENT_TREE_def)
  have same: "(\<Sum>k < 10. ?w[700 + n := ?S] ! (10 * m + k)) = (\<Sum>k < 10. ?w ! (10 * m + k))" if "m \<le> n" for m
    using that Suc.prems by (intro sum.cong) (auto simp: nth_list_update)
  have "?w[700 + n := ?S] ! (700 + m) = (\<Sum>k < 10. ?w[700 + n := ?S] ! (10 * m + k))" if m: "m < Suc n" for m
  proof (cases "m = n")
    case True
    then show ?thesis using same [of n] l Suc.prems by simp
  next
    case False
    then show ?thesis using same [of m] ih m by simp
  qed
  then show ?case unfolding u using ih Suc.prems by (auto simp: nth_list_update)
qed

lemma range_sums_ok: "counts_of xs v \<Longrightarrow> segment_ok (range_sums v) \<and> (\<forall>k < 700. range_sums v ! k = cell_count xs k)"
proof -
  assume v: "counts_of xs v"
  let ?w = "fold sum_row [0..<77] v" and ?S = "\<Sum>i < 7. fold sum_row [0..<77] v ! (770 + i)"
  from v have "length v = 778" "\<forall>k. 700 \<le> k \<and> k < 778 \<longrightarrow> v ! k = 0" by (simp_all add: counts_of_def)
  from sum_rows [OF this, of 77] have w: "length ?w = 778" "\<forall>k < 700. ?w ! k = v ! k"
    "\<forall>m < 77. ?w ! (700 + m) = (\<Sum>k < 10. ?w ! (10 * m + k))" "?w ! 777 = 0" by simp_all
  have "sum_list (take 7 (drop 770 ?w)) = ?S" using w(1) by (intro sum_list_take_drop) simp
  then have u: "range_sums v = ?w[777 := ?S]" using w(4) by (simp add: range_sums_def LEVEL_1_OF_SEGMENT_TREE_def Let_def)
  have k: "?w[777 := ?S] ! k = ?w ! k" if "k < 777" for k using that by simp
  have "?w ! (770 + i) = (\<Sum>j < 10. ?w ! (700 + 10 * i + j))" if i: "i < 7" for i
  proof -
    have "70 + i < 77" using i by simp
    with w(3) have "?w ! (700 + (70 + i)) = (\<Sum>j < 10. ?w ! (10 * (70 + i) + j))" by blast
    moreover have "700 + (70 + i) = 770 + i" "10 * (70 + i) = 700 + 10 * i" by simp_all
    ultimately show ?thesis by simp
  qed
  then have "segment_ok (?w[777 := ?S])" using w(1,3) by (simp add: segment_ok_def TREE_SIZE_def LEVEL_1_OF_SEGMENT_TREE_def)
  then show ?thesis unfolding u using w(2) v by (simp add: counts_of_def)
qed

lemma sum_cell_counts: "finite A \<Longrightarrow> (\<Sum>k \<in> A. cell_count xs k) = length (filter (\<lambda>x. cell_index x \<in> A) xs)"
proof (induction xs)
  case (Cons x xs)
  have "(\<Sum>k \<in> A. cell_count (x # xs) k) = (\<Sum>k \<in> A. (if k = cell_index x then 1 else 0) + cell_count xs k)"
    by (rule sum.cong) (auto simp: cell_count_def)
  also have "\<dots> = (if cell_index x \<in> A then 1 else 0) + (\<Sum>k \<in> A. cell_count xs k)" using Cons.prems by (simp add: sum.distrib)
  finally show ?case using Cons by simp
qed (simp add: cell_count_def)

section \<open>The ranges of the tree\<close>

text \<open>What the ranges of one level say of the documents counted.\<close>

definition range_ok :: "nat list \<Rightarrow> nat \<times> nat \<times> nat \<Rightarrow> bool" where
  "range_ok xs r = (case r of (lo, hi, n) \<Rightarrow> lo \<le> hi \<and> 0 < n \<and> n = length (filter (\<lambda>x. lo \<le> x \<and> x \<le> hi) xs))"

lemma at_cell_value:
  assumes "\<forall>k < 700. v ! k = cell_count xs k" and "\<forall>x \<in> set xs. x < 10 ^ 9" and "i < 7" and "at_cell v i s"
  shows "i = 0 \<or> 10 \<le> pos s"
proof -
  have k: "level3 i + pos s < 700" using assms(3) pos_less [OF assms(4)] by (simp add: level3_def)
  then have "cell_count xs (level3 i + pos s) \<noteq> 0" using assms(1,4) by (simp add: at_cell_def)
  then obtain x where x: "x \<in> set xs" "cell_index x = 100 * i + pos s" unfolding cell_count_def level3_def by (auto simp: filter_empty_conv)
  have b: "x < 10 ^ 9" using assms(2) x(1) by simp
  note c = cell_index_at [OF b] cell_in_level [OF b]
  have "level_of x = i" using x(2) c pos_less [OF assms(4)] by linarith
  then show ?thesis using x(2) c by simp
qed

lemma ranges_from_ok:
  assumes "\<forall>k < 700. v ! k = cell_count xs k" and "\<forall>x \<in> set xs. x < 10 ^ 9" and "i < 7" and "ranges_from v i p rs"
  shows "(\<forall>r \<in> set (map (range_bounds i) rs). range_ok xs r \<and> 10 ^ (i + 1) * p \<le> fst r \<and> (i = 0 \<or> 10 ^ (i + 2) \<le> fst r) \<and> fst (snd r) < 10 ^ (i + 3)) \<and>
    sorted_wrt (\<lambda>r r'. fst (snd r) < fst r') (map (range_bounds i) rs)"
  using assms(4)
proof (induction rs arbitrary: p)
  case (Cons r rs)
  obtain f l n where r: "r = (f, l, n)" by (cases r)
  let ?m = "(10 :: nat) ^ (i + 1)"
  have c: "at_cell v i f" "at_cell v i l" "p \<le> pos f" "pos f \<le> pos l" "n = (\<Sum>q \<in> {pos f..pos l}. v ! (level3 i + q))" "ranges_from v i (pos l + 1) rs"
    using Cons.prems by (simp_all add: r)
  have l: "pos l < 100" by (rule pos_less [OF c(2)])
  have f: "i = 0 \<or> 10 \<le> pos f" by (rule at_cell_value [OF assms(1-3) c(1)])
  have b: "range_bounds i r = (?m * pos f, ?m * (pos l + 1) - 1, n)" using bound_atom [OF assms(3)] by (simp add: range_bounds_def r Let_def)
  have "n = (\<Sum>q \<in> {pos f..pos l}. cell_count xs (100 * i + q))"
    unfolding c(5) using assms(1,3) l by (intro sum.cong) (simp_all add: level3_def)
  also have "\<dots> = (\<Sum>k \<in> {100 * i + pos f..100 * i + pos l}. cell_count xs k)"
    using sum.shift_bounds_cl_nat_ivl [of "cell_count xs" "pos f" "100 * i" "pos l"] by (simp add: add.commute)
  also have "\<dots> = length (filter (\<lambda>x. ?m * pos f \<le> x \<and> x \<le> ?m * (pos l + 1) - 1) xs)"
    unfolding sum_cell_counts [OF finite_atLeastAtMost]
    using cells_interval [OF _ assms(3) c(4) l f] assms(2) by (intro arg_cong [where f = length] filter_cong) auto
  finally have n: "n = length (filter (\<lambda>x. ?m * pos f \<le> x \<and> x \<le> ?m * (pos l + 1) - 1) xs)" .
  have n0: "0 < n"
  proof -
    have "v ! (level3 i + pos f) \<le> n" unfolding c(5) using c(4) by (intro member_le_sum) auto
    then show ?thesis using c(1) by (simp add: at_cell_def)
  qed
  have le: "?m * pos f \<le> ?m * (pos l + 1) - 1"
  proof -
    have "?m * pos f \<le> ?m * pos l" using c(4) by (rule mult_le_mono2)
    moreover have "?m * (pos l + 1) = ?m * pos l + ?m" "0 < ?m" by simp_all
    ultimately show ?thesis by linarith
  qed
  have e: "(10 :: nat) ^ (i + 3) = ?m * 100" "(10 :: nat) ^ (i + 2) = ?m * 10" by (simp_all add: numeral_3_eq_3 numeral_2_eq_2)
  have hi: "?m * (pos l + 1) - 1 < 10 ^ (i + 3)"
  proof -
    have "?m * (pos l + 1) \<le> ?m * 100" using l by (intro mult_le_mono2) simp
    moreover have "0 < ?m * (pos l + 1)" by simp
    ultimately show ?thesis unfolding e by linarith
  qed
  have lo: "i = 0 \<or> 10 ^ (i + 2) \<le> ?m * pos f" using f unfolding e by (auto intro: mult_le_mono2)
  have first: "?m * p \<le> ?m * pos f" using c(3) by (rule mult_le_mono2)
  have nxt: "?m * p \<le> ?m * (pos l + 1)" using c(3,4) by (intro mult_le_mono2) simp
  from Cons.IH [OF c(6)] have ih: "\<forall>r \<in> set (map (range_bounds i) rs). range_ok xs r \<and> ?m * (pos l + 1) \<le> fst r \<and> (i = 0 \<or> 10 ^ (i + 2) \<le> fst r) \<and> fst (snd r) < 10 ^ (i + 3)"
    "sorted_wrt (\<lambda>r r'. fst (snd r) < fst r') (map (range_bounds i) rs)" by blast+
  have after: "?m * (pos l + 1) - 1 < y" if "?m * (pos l + 1) \<le> y" for y
  proof -
    have "0 < ?m * (pos l + 1)" by simp
    then show ?thesis using that by linarith
  qed
  have "range_ok xs (range_bounds i r)" unfolding b range_ok_def prod.case using n n0 le by blast
  then have "\<forall>r \<in> set (map (range_bounds i) (r # rs)). range_ok xs r \<and> ?m * p \<le> fst r \<and> (i = 0 \<or> 10 ^ (i + 2) \<le> fst r) \<and> fst (snd r) < 10 ^ (i + 3)"
    using ih(1) hi lo first nxt unfolding list.map list.set b by (auto intro: le_trans)
  moreover have "sorted_wrt (\<lambda>r r'. fst (snd r) < fst r') (map (range_bounds i) (r # rs))"
    unfolding list.map sorted_wrt.simps b fst_conv snd_conv using ih after by blast
  ultimately show ?case by blast
qed simp

lemma sorted_wrt_levels:
  "(\<And>i. i < n \<Longrightarrow> sorted_wrt P (L i)) \<Longrightarrow> (\<And>i j r r'. i < j \<Longrightarrow> j < n \<Longrightarrow> r \<in> set (L i) \<Longrightarrow> r' \<in> set (L j) \<Longrightarrow> P r r') \<Longrightarrow>
    sorted_wrt P (concat (map L [0..<n]))"
  by (induction n) (auto simp: sorted_wrt_append)

lemma sum_list_levels: "sum_list (map f (concat (map L [0..<n]))) = (\<Sum>i < n. sum_list (map f (L i)))" for f :: "'a \<Rightarrow> nat"
  by (induction n) simp_all

lemma tree_total:
  assumes "segment_ok v" and "\<forall>k < 700. v ! k = cell_count xs k" and "\<forall>x \<in> set xs. x < 10 ^ 9"
  shows "(\<Sum>i < 7. v ! level1 i) = length xs"
proof -
  have "pre v i 100 = (\<Sum>k \<in> {100 * i..<100 * i + 100}. v ! k)" for i
    using sum.shift_bounds_nat_ivl [of "(!) v" 0 "100 * i" 100] by (simp add: pre_def level3_def lessThan_atLeast0 add.commute)
  then have "(\<Sum>i < 7. v ! level1 i) = (\<Sum>i < 7. \<Sum>k \<in> {100 * i..<100 * i + 100}. v ! k)" using level1_sum [OF assms(1)] by simp
  also have "\<dots> = (\<Sum>k < 7 * 100. v ! k)" using sum.nat_group [of "(!) v" 100 7] by (simp add: mult.commute add.commute)
  also have "\<dots> = (\<Sum>k \<in> {..<700}. cell_count xs k)" using assms(2) by simp
  also have "\<dots> = length (filter (\<lambda>x. cell_index x \<in> {..<700}) xs)" by (rule sum_cell_counts) simp
  also have "filter (\<lambda>x. cell_index x \<in> {..<700}) xs = xs" using assms(3) cell_index_less by (auto simp: filter_id_conv)
  finally show ?thesis .
qed

lemma tree_ranges_ok:
  assumes "segment_ok v" and "\<forall>k < 700. v ! k = cell_count xs k" and "\<forall>x \<in> set xs. x < 10 ^ 9"
  shows "\<exists>rs. tree_ranges v = Some rs \<and> length rs \<le> MAX_RANGE_NUMBER \<and> sorted_wrt (\<lambda>r r'. fst (snd r) < fst r') rs \<and>
    (\<forall>r \<in> set rs. range_ok xs r) \<and> sum_list (map (snd \<circ> snd) rs) = length xs"
proof -
  let ?c = "take 7 (drop 770 v)"
  let ?k = "range_splits ?c"
  have c: "length ?c = 7" "\<And>i. i < 7 \<Longrightarrow> ?c ! i = v ! level1 i"
    using tree_length [OF assms(1)] by (simp_all add: level1_def LEVEL_1_OF_SEGMENT_TREE_def)
  note k = range_splits_at [OF c(1)]
  have "\<exists>R. level_ranges v i (?k ! i) = Some R \<and> ranges_from v i 0 R \<and> sum_list (map (snd \<circ> snd) R) = v ! level1 i \<and> length R \<le> ?k ! i"
    if "i < 7" for i using level_ranges_at [OF assms(1) that, of "?k ! i"] k(2) c(2) that by simp
  then obtain R where R: "\<And>i. i < 7 \<Longrightarrow> level_ranges v i (?k ! i) = Some (R i) \<and> ranges_from v i 0 (R i) \<and>
      sum_list (map (snd \<circ> snd) (R i)) = v ! level1 i \<and> length (R i) \<le> ?k ! i" by metis
  let ?L = "\<lambda>i. map (range_bounds i) (R i)"
  let ?rs = "concat (map ?L [0..<7])"
  have "map (\<lambda>i. map_option (map (range_bounds i)) (level_ranges v i (?k ! i))) [0..<7] = map Some (map ?L [0..<7])"
    unfolding map_map by (rule map_cong [OF refl]) (use R in simp)
  then have "those (map (\<lambda>i. map_option (map (range_bounds i)) (level_ranges v i (?k ! i))) [0..<7]) = Some (map ?L [0..<7])"
    by (simp only: those_eq_Some)
  then have t: "tree_ranges v = Some ?rs"
    unfolding tree_ranges_def Let_def level1_def LEVEL_1_OF_SEGMENT_TREE_def by (simp del: upt_rec_numeral upt_conv_Cons map_append)
  have ok: "\<And>i r. i < 7 \<Longrightarrow> r \<in> set (?L i) \<Longrightarrow> range_ok xs r \<and> (i = 0 \<or> 10 ^ (i + 2) \<le> fst r) \<and> fst (snd r) < 10 ^ (i + 3)"
    "\<And>i. i < 7 \<Longrightarrow> sorted_wrt (\<lambda>r r'. fst (snd r) < fst r') (?L i)"
    using ranges_from_ok [OF assms(2,3)] R by blast+
  have "fst (snd r) < fst r'" if ij: "i < j" "j < 7" "r \<in> set (?L i)" "r' \<in> set (?L j)" for i j r r'
  proof -
    have "fst (snd r) < 10 ^ (i + 3)" "10 ^ (j + 2) \<le> fst r'" using ok(1) [of i r] ok(1) [of j r'] ij by simp_all
    moreover have "(10 :: nat) ^ (i + 3) \<le> 10 ^ (j + 2)" using ij(1) by (intro power_increasing) auto
    ultimately show ?thesis by linarith
  qed
  with ok(2) have s: "sorted_wrt (\<lambda>r r'. fst (snd r) < fst r') ?rs" by (rule sorted_wrt_levels)
  have "length ?rs = (\<Sum>i < 7. length (R i))" by (simp only: length_concat map_map o_def length_map sum_list_distinct_conv_sum_set distinct_upt set_upt lessThan_atLeast0)
  also have "\<dots> \<le> (\<Sum>i < 7. ?k ! i)" using R by (intro sum_mono) simp
  also have "\<dots> = sum_list ?k" using k(1) by (simp only: sum_list_sum_nth lessThan_atLeast0)
  finally have len: "length ?rs \<le> MAX_RANGE_NUMBER" using k(3) by linarith
  have snd2: "snd (snd (range_bounds i r)) = snd (snd r)" for i r by (simp add: range_bounds_def Let_def split: prod.splits)
  have "sum_list (map (snd \<circ> snd) ?rs) = (\<Sum>i < 7. sum_list (map (snd \<circ> snd) (?L i)))"
    by (rule sum_list_levels)
  also have "\<dots> = (\<Sum>i < 7. v ! level1 i)" using R by (intro sum.cong) (simp_all add: o_def snd2)
  finally have "sum_list (map (snd \<circ> snd) ?rs) = length xs" using tree_total [OF assms] by simp
  moreover have "\<forall>r \<in> set ?rs. range_ok xs r"
  proof
    fix r assume "r \<in> set ?rs"
    then obtain i where "i < 7" "r \<in> set (?L i)" by (simp only: set_concat set_map set_upt) auto
    then show "range_ok xs r" using ok(1) by blast
  qed
  ultimately show ?thesis using t len s by blast
qed

text \<open>
  C13. Range groups of two workers. Two workers count the values of their documents (\<open>addDoc\<close>),
  sum up their trees (\<open>getGroupRep\<close>) and the trees are merged. The loops that cut the merged
  tree into ranges end and stay inside the vector; they yield at most 7 ranges in ascending
  order, without overlap. Every range has exactly as many documents as it says, at least one,
  and together the ranges have all documents of both workers with a positive value (values of
  a milliard and more count as the largest below).
\<close>

theorem ranges_count_documents:
  "\<exists>v rs. merge_tree (range_sums (fold range_addDoc ds range_counter0)) (range_sums (fold range_addDoc ds' range_counter0)) = Some v \<and>
    tree_ranges v = Some rs \<and> length rs \<le> MAX_RANGE_NUMBER \<and> sorted_wrt (\<lambda>(lo, hi, n) (lo', hi', n'). hi < lo') rs \<and>
    (\<forall>(lo, hi, n) \<in> set rs. lo \<le> hi \<and> 0 < n \<and> n = length (filter (\<lambda>x. lo \<le> x \<and> x \<le> hi) (counted_values (ds @ ds')))) \<and>
    sum_list (map (snd \<circ> snd) rs) = length (counted_values (ds @ ds'))"
proof -
  let ?t = "\<lambda>ds. range_sums (fold range_addDoc ds range_counter0)"
  have c: "counts_of (counted_values d) (fold range_addDoc d range_counter0)" for d
    using range_docs_counts [OF range_counter0_counts, of d] by simp
  note t = range_sums_ok [OF c]
  let ?v = "map2 (+) (?t ds) (?t ds')"
  have m: "merge_tree (?t ds) (?t ds') = Some ?v" using t [of ds] t [of ds'] by (intro merge_tree_added) (auto dest: segment_length)
  have v: "segment_ok ?v" using t [of ds] t [of ds'] by (intro segment_ok_add) auto
  have app: "counted_values (ds @ ds') = counted_values ds @ counted_values ds'"
  proof (induction ds)
    case (Cons d ds)
    then show ?case using counted_values_Cons [of d ds] counted_values_Cons [of d "ds @ ds'"] by simp
  qed (simp add: counted_values_def map_filter_simps)
  have "length (?t ds) = 778" "length (?t ds') = 778" using t [of ds] t [of ds'] tree_length by blast+
  then have "\<forall>k < 700. ?v ! k = cell_count (counted_values (ds @ ds')) k"
    using t [of ds] t [of ds'] unfolding app cell_count_append by simp
  from tree_ranges_ok [OF v this] counted_less obtain rs where rs: "tree_ranges ?v = Some rs" "length rs \<le> MAX_RANGE_NUMBER"
    "sorted_wrt (\<lambda>r r'. fst (snd r) < fst r') rs" "\<forall>r \<in> set rs. range_ok (counted_values (ds @ ds')) r"
    "sum_list (map (snd \<circ> snd) rs) = length (counted_values (ds @ ds'))" by blast
  have "(\<lambda>(lo :: nat, hi :: nat, n :: nat) (lo' :: nat, hi' :: nat, n' :: nat). hi < lo') = (\<lambda>r r'. fst (snd r) < fst r')"
    by (simp add: fun_eq_iff split: prod.splits)
  then show ?thesis using m rs unfolding range_ok_def by (intro exI [of _ ?v] exI [of _ rs]) auto
qed

theorem ranges_count_documents_witness:
  "\<exists>v rs. merge_tree (range_sums (fold range_addDoc [Some 5, None, Some 2000] range_counter0)) (range_sums (fold range_addDoc [Some (-1), Some 7] range_counter0)) = Some v \<and>
    tree_ranges v = Some rs \<and> sum_list (map (snd \<circ> snd) rs) = 3 \<and>
    (\<forall>(lo, hi, n) \<in> set rs. lo \<le> hi \<and> 0 < n \<and> n = length (filter (\<lambda>x. lo \<le> x \<and> x \<le> hi) [5, 2000, 7]))"
proof -
  have "counted_values ([Some 5, None, Some 2000] @ [Some (-1), Some 7]) = [5, 2000, 7]" by (simp add: counted_values_def counted_value_def map_filter_simps)
  with ranges_count_documents [of "[Some 5, None, Some 2000]" "[Some (-1), Some 7]"] show ?thesis by fastforce
qed

end
