(* ===== verification/SplitUstr.thy ===== *)
theory SplitUstr
  imports Prelude
begin

text \<open>
  \<^verbatim>\<open>src/source/core/mining-manager/util/split_ustr.cpp\<close>: the values of a group property come as
  paths, such as \<^verbatim>\<open>a>b,c\<close>, the attributes of a document as names and values, such as
  \<^verbatim>\<open>size:S|M,year:2011\<close>; a value in quotes may hold the separators. An iterator is the rest of the
  string. \<open>compact\<close>, the removal of blanks around a value without quotes, belongs to the string
  library and is the parameter \<open>trim\<close>.
\<close>

section \<open>The operations\<close>

definition QUOTE :: char where "QUOTE = CHR 0x22"

text \<open>A quoted value after its first quote, and what is left behind the last one.\<close>

fun parse_quoted :: "string \<Rightarrow> string \<times> string" where
  "parse_quoted [] = ([], [])"
| "parse_quoted [c] = (if c = QUOTE then ([], []) else ([c], []))"
| "parse_quoted (c # d # s) =
     (if c = QUOTE then (if d = QUOTE then let (out, r) = parse_quoted s in (d # out, r) else ([], d # s))
      else let (out, r) = parse_quoted (d # s) in (c # out, r))"

definition parse_ustr :: "(string \<Rightarrow> string) \<Rightarrow> string \<Rightarrow> string \<Rightarrow> string \<times> string" where
  "parse_ustr trim delimStr s =
     (let other = (\<lambda>c. c \<notin> set delimStr)
      in if s \<noteq> [] \<and> hd s = QUOTE then let (out, r) = parse_quoted (tl s) in (out, dropWhile other r)
         else (trim (takeWhile other s), dropWhile other s))"

definition push_value :: "'a list \<Rightarrow> 'a list list \<Rightarrow> 'a list list" where
  "push_value v vs = (if v \<noteq> [] then v # vs else vs)"

lemma parse_quoted_length: "length (snd (parse_quoted s)) \<le> length s"
  by (induction s rule: parse_quoted.induct) (auto simp: case_prod_beta Let_def)

lemma parse_ustr_length: "length (snd (parse_ustr trim ds s)) \<le> length s"
proof (cases "s \<noteq> [] \<and> hd s = QUOTE")
  case True
  have "length (dropWhile P (snd (parse_quoted (tl s)))) \<le> length s" for P
    using length_dropWhile_le [of P "snd (parse_quoted (tl s))"] parse_quoted_length [of "tl s"] by simp
  then show ?thesis using True by (simp add: parse_ustr_def Let_def case_prod_beta)
qed (auto simp: parse_ustr_def Let_def length_dropWhile_le)

text \<open>The loop \<open>while (it != endIt && *it == sep)\<close>: the values that follow and the rest.\<close>

function more_values :: "(string \<Rightarrow> string) \<Rightarrow> string \<Rightarrow> char \<Rightarrow> string \<Rightarrow> string list \<times> string" where
  "more_values trim delimStr sep s =
     (if s \<noteq> [] \<and> hd s = sep
      then let (v, r) = parse_ustr trim delimStr (tl s); (vs, r') = more_values trim delimStr sep r
           in (push_value v vs, r')
      else ([], s))"
  by auto
termination
proof (relation "measure (\<lambda>(trim, ds, sep, s). length s)")
  fix trim ds sep s x v r
  assume "s \<noteq> [] \<and> hd s = sep" "x = parse_ustr trim ds (tl s)" "(v, r) = x"
  then have "length r \<le> length (tl s)" "s \<noteq> []" using parse_ustr_length [of trim ds "tl s"] by (metis snd_conv)+
  then show "((trim, ds, sep, r), (trim, ds, sep, s)) \<in> measure (\<lambda>(trim, ds, sep, s). length s)" by (cases s) simp_all
qed simp

declare more_values.simps [simp del]

text \<open>A value and those that follow it.\<close>

definition value_list :: "(string \<Rightarrow> string) \<Rightarrow> string \<Rightarrow> char \<Rightarrow> string \<Rightarrow> string list \<times> string" where
  "value_list trim delimStr sep s =
     (let (v, r) = parse_ustr trim delimStr s; (vs, r') = more_values trim delimStr sep r in (push_value v vs, r'))"

lemma more_values_length: "length (snd (more_values trim ds sep s)) \<le> length s"
proof (induction "length s" arbitrary: s rule: less_induct)
  case less
  show ?case
  proof (cases "s \<noteq> [] \<and> hd s = sep")
    case True
    obtain v r where p: "parse_ustr trim ds (tl s) = (v, r)" by fastforce
    have l: "length r < length s" using parse_ustr_length [of trim ds "tl s"] p True by (cases s) simp_all
    have "snd (more_values trim ds sep s) = snd (more_values trim ds sep r)"
      using True p by (subst more_values.simps) (simp add: case_prod_beta)
    then show ?thesis using less.hyps [OF l] l by simp
  next
    case False
    then show ?thesis by (subst more_values.simps) auto
  qed
qed

lemma value_list_length: "length (snd (value_list trim ds sep s)) \<le> length s"
  using more_values_length [of trim ds sep "snd (parse_ustr trim ds s)"] parse_ustr_length [of trim ds s]
  by (simp add: value_list_def case_prod_beta)

function split_group_path :: "(string \<Rightarrow> string) \<Rightarrow> string \<Rightarrow> string list list" where
  "split_group_path trim s =
     (if s = [] then []
      else let (path, r) = value_list trim '',;>'' (CHR ''>'') s in push_value path (split_group_path trim (drop 1 r)))"
  by auto
termination
proof (relation "measure (\<lambda>(trim, s). length s)")
  fix trim s x path r
  assume "s \<noteq> []" "x = value_list trim '',;>'' (CHR ''>'') s" "(path, r) = x"
  then have "length r \<le> length s" "s \<noteq> []" using value_list_length [of trim "'',;>''" "CHR ''>''" s] by (metis snd_conv)+
  then show "((trim, drop 1 r), (trim, s)) \<in> measure (\<lambda>(trim, s). length s)" by (cases r; cases s) simp_all
qed simp

declare split_group_path.simps [simp del]

text \<open>A string without a colon, or with nothing before it, ends the loop.\<close>

function split_attr_pair :: "(string \<Rightarrow> string) \<Rightarrow> string \<Rightarrow> (string \<times> string list) list" where
  "split_attr_pair trim s =
     (if s = [] then []
      else let (name, r) = parse_ustr trim '':'' s
           in if r = [] \<or> name = [] then []
              else let (vs, r') = value_list trim '',|'' (CHR ''|'') (tl r)
                   in (if vs \<noteq> [] then (#) (name, vs) else id) (split_attr_pair trim (drop 1 r')))"
  by auto
termination
proof (relation "measure (\<lambda>(trim, s). length s)")
  fix trim s x name r y vs r'
  assume a: "s \<noteq> []" "x = parse_ustr trim '':'' s" "(name, r) = x" "\<not> (r = [] \<or> name = [])"
    "y = value_list trim '',|'' (CHR ''|'') (tl r)" "(vs, r') = y"
  have "length r \<le> length s" using a(2,3) parse_ustr_length [of trim "'':''" s] by (metis snd_conv)
  moreover have "length r' \<le> length (tl r)" using a(5,6) value_list_length [of trim "'',|''" "CHR ''|''" "tl r"] by (metis snd_conv)
  ultimately show "((trim, drop 1 r'), (trim, s)) \<in> measure (\<lambda>(trim, s). length s)" using a(1,4) by (cases r; cases s) simp_all
qed simp

declare split_attr_pair.simps [simp del]

section \<open>Printing and splitting\<close>

definition quote_value :: "string \<Rightarrow> string" where
  "quote_value v = QUOTE # concat (map (\<lambda>c. if c = QUOTE then [QUOTE, QUOTE] else [c]) v) @ [QUOTE]"

definition print_values :: "char \<Rightarrow> string list \<Rightarrow> string" where
  "print_values sep vs = join sep (map quote_value vs)"

lemma parse_quoted_value:
  "r = [] \<or> hd r \<noteq> QUOTE \<Longrightarrow> parse_quoted (concat (map (\<lambda>c. if c = QUOTE then [QUOTE, QUOTE] else [c]) v) @ QUOTE # r) = (v, r)"
proof (induction v)
  case Nil
  then show ?case by (cases r) auto
next
  case (Cons c v)
  let ?s = "concat (map (\<lambda>c. if c = QUOTE then [QUOTE, QUOTE] else [c]) v) @ QUOTE # r"
  obtain d t where s: "?s = d # t" by (cases ?s) auto
  show ?case
  proof (cases "c = QUOTE")
    case True
    then show ?thesis using Cons by simp
  next
    case False
    then show ?thesis using Cons s by simp
  qed
qed

text \<open>A quoted value followed by a separator, or by nothing, is read back.\<close>

lemma parse_ustr_value:
  assumes "r = [] \<or> hd r \<in> set ds" and "QUOTE \<notin> set ds"
  shows "parse_ustr trim ds (quote_value v @ r) = (v, r)"
proof -
  have "r = [] \<or> hd r \<noteq> QUOTE" using assms by auto
  from parse_quoted_value [OF this, of v] assms(1) show ?thesis
    by (cases r) (simp_all add: parse_ustr_def quote_value_def)
qed

lemma value_list_print:
  assumes "vs \<noteq> []" and "[] \<notin> set vs" and "sep \<in> set ds" and "QUOTE \<notin> set ds" and "r = [] \<or> hd r \<in> set ds \<and> hd r \<noteq> sep"
  shows "value_list trim ds sep (print_values sep vs @ r) = (vs, r)"
  using assms(1,2)
proof (induction vs)
  case (Cons v vs)
  have stop: "more_values trim ds sep r = ([], r)" using assms(5) by (subst more_values.simps) auto
  show ?case
  proof (cases vs)
    case Nil
    then show ?thesis using parse_ustr_value [OF _ assms(4), of r trim v] assms(5) stop Cons.prems
      by (auto simp: value_list_def print_values_def push_value_def)
  next
    case (Cons w ws)
    let ?s = "print_values sep vs @ r"
    have p: "print_values sep (v # vs) @ r = quote_value v @ sep # ?s" by (simp add: print_values_def Cons)
    have "value_list trim ds sep ?s = (vs, r)" using Cons.IH Cons.prems Cons by simp
    then have "more_values trim ds sep (sep # ?s) = (vs, r)" by (subst more_values.simps) (simp add: value_list_def)
    moreover have "parse_ustr trim ds (quote_value v @ sep # ?s) = (v, sep # ?s)" using assms(3,4) by (intro parse_ustr_value) auto
    ultimately show ?thesis unfolding p using Cons.prems by (auto simp: value_list_def push_value_def)
  qed
qed simp

lemma print_values_nonempty: "vs \<noteq> [] \<Longrightarrow> print_values sep vs \<noteq> []"
  by (cases "(sep, vs)" rule: join.cases) (auto simp: print_values_def quote_value_def)

lemma group_path_split:
  assumes "[] \<notin> set ps" and "\<forall>p \<in> set ps. [] \<notin> set p"
  shows "split_group_path trim (join (CHR '','') (map (print_values (CHR ''>'')) ps)) = ps"
  using assms
proof (induction ps)
  case Nil
  then show ?case by (simp add: split_group_path.simps)
next
  case (Cons p ps)
  let ?v = "value_list trim '',;>'' (CHR ''>'')"
  have q: "QUOTE \<notin> set '',;>''" by (simp add: QUOTE_def)
  have p: "p \<noteq> []" "[] \<notin> set p" using Cons.prems by auto
  have ne: "print_values (CHR ''>'') p \<noteq> []" using p(1) by (rule print_values_nonempty)
  show ?case
  proof (cases ps)
    case Nil
    have "?v (print_values (CHR ''>'') p @ []) = (p, [])" by (rule value_list_print [OF p _ q]) auto
    then show ?thesis using ne p(1) by (subst split_group_path.simps) (simp add: Nil push_value_def split_group_path.simps)
  next
    case (Cons p' ps')
    let ?s = "join (CHR '','') (map (print_values (CHR ''>'')) ps)"
    have "?v (print_values (CHR ''>'') p @ CHR '','' # ?s) = (p, CHR '','' # ?s)" by (rule value_list_print [OF p _ q]) auto
    then show ?thesis using ne p(1) Cons.IH Cons.prems by (subst split_group_path.simps) (simp add: Cons push_value_def)
  qed
qed

text \<open>
  C33. Group paths. Paths printed with all values in quotes, quotes doubled, \<^verbatim>\<open>>\<close> between the
  values of a path and a comma between the paths, are read back by \<open>split_group_path\<close>, whatever
  characters the values have, provided that no path and no value is empty.
\<close>

theorem group_path_roundtrip:
  assumes "[] \<notin> set ps" and "\<forall>p \<in> set ps. [] \<notin> set p"
  shows "split_group_path trim (join (CHR '','') (map (print_values (CHR ''>'')) ps)) = ps"
  by (rule group_path_split [OF assms])

theorem group_path_roundtrip_witness:
  "split_group_path id (join (CHR '','') (map (print_values (CHR ''>'')) [[''a,b'', ''c>'' @ [QUOTE]], [''d'']])) = [[''a,b'', ''c>'' @ [QUOTE]], [''d'']]"
  by (rule group_path_roundtrip) auto

definition print_attr :: "string \<times> string list \<Rightarrow> string" where
  "print_attr p = quote_value (fst p) @ CHR '':'' # print_values (CHR ''|'') (snd p)"

lemma attr_pair_roundtrip:
  "\<forall>p \<in> set ps. fst p \<noteq> [] \<and> snd p \<noteq> [] \<and> [] \<notin> set (snd p) \<Longrightarrow> split_attr_pair trim (join (CHR '','') (map print_attr ps)) = ps"
proof (induction ps)
  case Nil
  then show ?case by (simp add: split_attr_pair.simps)
next
  case (Cons p ps)
  obtain n vs where pv: "p = (n, vs)" by (cases p)
  let ?v = "value_list trim '',|'' (CHR ''|'')"
  have q: "QUOTE \<notin> set '',|''" "QUOTE \<notin> set '':''" by (simp_all add: QUOTE_def)
  have p: "n \<noteq> []" "vs \<noteq> []" "[] \<notin> set vs" using Cons.prems by (simp_all add: pv)
  have name: "parse_ustr trim '':'' (quote_value n @ CHR '':'' # t) = (n, CHR '':'' # t)" for t by (rule parse_ustr_value [OF _ q(2)]) simp
  show ?case
  proof (cases ps)
    case Nil
    have "?v (print_values (CHR ''|'') vs @ []) = (vs, [])" by (rule value_list_print [OF p(2,3) _ q(1)]) auto
    then show ?thesis using name p(1,2)
      by (subst split_attr_pair.simps) (simp add: Nil pv print_attr_def quote_value_def split_attr_pair.simps [of trim "[]"])
  next
    case (Cons p' ps')
    let ?s = "join (CHR '','') (map print_attr ps)"
    have j: "join (CHR '','') (map print_attr (p # ps)) = quote_value n @ CHR '':'' # print_values (CHR ''|'') vs @ CHR '','' # ?s"
      by (simp add: Cons pv print_attr_def)
    have "?v (print_values (CHR ''|'') vs @ CHR '','' # ?s) = (vs, CHR '','' # ?s)" by (rule value_list_print [OF p(2,3) _ q(1)]) auto
    then show ?thesis unfolding j using name [of "print_values (CHR ''|'') vs @ CHR '','' # ?s"] p(1,2) Cons.IH Cons.prems
      by (subst split_attr_pair.simps) (simp add: pv)
  qed
qed

end
