(* ===== verification/DateGroup.thy ===== *)
theory DateGroup
  imports PropTable SplitUstr
begin

unbundle bit_operations_syntax

text \<open>
  Dates as groups, of \<^verbatim>\<open>src/source/core/mining-manager/group-manager\<close>: \<open>DateStrFormat\<close> and
  \<open>DateStrParser\<close> convert between texts and 32-bit numbers that hold year, month and day in
  separate bits, \<open>DateGroupTable\<close> stores them for the documents, and the mining task
  fills it. What they use of the Boost library are parameters: \<open>cast\<close> is
  \<open>lexical_cast\<close> to an unsigned number (\<open>None\<close> for the exception), \<open>tok\<close> and \<open>tok_offsets\<close> are the
  tokenizers at hyphens and at fixed offsets, and \<open>pad w n\<close> is the number \<open>n\<close> formatted by
  \<^verbatim>\<open>%|0w|\<close>, with leading zeros.
\<close>

section \<open>The operations\<close>

type_synonym date = "32 word"

definition MASK_YEAR :: date where "MASK_YEAR = 0x7FFE0000"
definition MASK_MONTH :: date where "MASK_MONTH = 0x1E000"
definition MASK_DAY :: date where "MASK_DAY = 0x1F00"
definition MASK_YEAR_MONTH :: date where "MASK_YEAR_MONTH = MASK_YEAR OR MASK_MONTH"
definition MASK_YEAR_MONTH_DAY :: date where "MASK_YEAR_MONTH_DAY = MASK_YEAR_MONTH OR MASK_DAY"

definition DATE_INDEX_NUM :: nat where "DATE_INDEX_NUM = 3"

text \<open>\<open>DateValueParser\<close>: a mask and a shift.\<close>

type_synonym date_parser = "date \<times> nat"

definition parser_extract :: "date_parser \<Rightarrow> date \<Rightarrow> date" where
  "parser_extract p date = drop_bit (snd p) (date AND fst p)"

definition parser_create :: "date_parser \<Rightarrow> date \<Rightarrow> date" where
  "parser_create p date = push_bit (snd p) date"

definition dateValueParsers :: "date_parser list" where
  "dateValueParsers = [(MASK_YEAR, 17), (MASK_MONTH, 13), (MASK_DAY, 8)]"

definition dateRanges :: "(date \<times> date) list" where
  "dateRanges = [(0, 9999), (1, 12), (1, 31)]"

definition checkDateRange :: "date list \<Rightarrow> bool" where
  "checkDateRange dateVec \<longleftrightarrow> 1 \<le> length dateVec \<and> length dateVec \<le> DATE_INDEX_NUM \<and>
     (\<forall>i < length dateVec. fst (dateRanges ! i) \<le> dateVec ! i \<and> dateVec ! i \<le> snd (dateRanges ! i))"

definition tokenizeDate :: "(string \<Rightarrow> date option) \<Rightarrow> string list \<Rightarrow> date list option" where
  "tokenizeDate cast toks =
     Option.bind (those (map cast toks)) (\<lambda>dateVec. if checkDateRange dateVec then Some dateVec else None)"

definition apiDateStrToDateVec :: "(string \<Rightarrow> date option) \<Rightarrow> (string \<Rightarrow> string list) \<Rightarrow> string \<Rightarrow> date list option" where
  "apiDateStrToDateVec cast tok dateStr = tokenizeDate cast (tok dateStr)"

definition scdDateStrToDateVec :: "(string \<Rightarrow> date option) \<Rightarrow> (nat list \<Rightarrow> string \<Rightarrow> string list) \<Rightarrow> string \<Rightarrow> date list option" where
  "scdDateStrToDateVec cast tok_offsets dateStr =
     (if length dateStr \<noteq> length ''YYYYMMDDhhmmss'' then None else tokenizeDate cast (tok_offsets [4, 2, 2] dateStr))"

definition createDate :: "date list \<Rightarrow> date" where
  "createDate dateVec = fold (\<lambda>(p, x) date. date OR parser_create p x) (zip dateValueParsers dateVec) 0"

definition extractDate :: "date \<Rightarrow> date list" where
  "extractDate date = map (\<lambda>p. parser_extract p date) dateValueParsers"

text \<open>The formats \<^verbatim>\<open>%|04|\<close>, \<^verbatim>\<open>%|04|-%|02|\<close> and \<^verbatim>\<open>%|04|-%|02|-%|02|\<close>.\<close>

definition formatAPIDateStr :: "(nat \<Rightarrow> date \<Rightarrow> string) \<Rightarrow> date list \<Rightarrow> string" where
  "formatAPIDateStr pad dateVec =
     (let lastIndex = length (takeWhile (\<lambda>x. x \<noteq> 0) (take DATE_INDEX_NUM dateVec)) - 1
      in join (CHR ''-'') (map2 pad (take (lastIndex + 1) [4, 2, 2]) dateVec))"

definition unitStrToMask :: "string \<Rightarrow> date option" where
  "unitStrToMask unitStr = [''Y'' \<mapsto> MASK_YEAR, ''M'' \<mapsto> MASK_YEAR_MONTH, ''D'' \<mapsto> MASK_YEAR_MONTH_DAY] unitStr"

definition dateMasks :: "date list" where
  "dateMasks = [MASK_YEAR, MASK_YEAR_MONTH, MASK_YEAR_MONTH_DAY]"

text \<open>The date and its mask.\<close>

definition apiStrToDateMask :: "(string \<Rightarrow> date option) \<Rightarrow> (string \<Rightarrow> string list) \<Rightarrow> string \<Rightarrow> (date \<times> date) option" where
  "apiStrToDateMask cast tok dateStr =
     map_option (\<lambda>dateVec. (createDate dateVec, dateMasks ! (length dateVec - 1))) (apiDateStrToDateVec cast tok dateStr)"

definition scdStrToDate :: "(string \<Rightarrow> date option) \<Rightarrow> (nat list \<Rightarrow> string \<Rightarrow> string list) \<Rightarrow> string \<Rightarrow> date option" where
  "scdStrToDate cast tok_offsets scdStr =
     (case scdDateStrToDateVec cast tok_offsets scdStr of
        Some dateVec \<Rightarrow> if length dateVec \<noteq> DATE_INDEX_NUM then None else Some (createDate dateVec)
      | None \<Rightarrow> None)"

definition dateToAPIStr :: "(nat \<Rightarrow> date \<Rightarrow> string) \<Rightarrow> date \<Rightarrow> string" where
  "dateToAPIStr pad date = formatAPIDateStr pad (extractDate date)"

subsection \<open>The table\<close>

record date_group_table =
  date_propName :: string
  dateValueTable :: prop_id_table

definition date_table0 :: "string \<Rightarrow> date_group_table" where
  "date_table0 propName = \<lparr>date_propName = propName, dateValueTable = prop_id_table0\<rparr>"

definition date_table_clear :: "date_group_table \<Rightarrow> date_group_table" where
  "date_table_clear t = t\<lparr>dateValueTable := id_table_clear (dateValueTable t)\<rparr>"

definition date_table_resize :: "nat \<Rightarrow> date_group_table \<Rightarrow> date_group_table" where
  "date_table_resize n t = t\<lparr>dateValueTable := id_table_resize n (dateValueTable t)\<rparr>"

definition setDateSet :: "nat \<Rightarrow> date set \<Rightarrow> date_group_table \<Rightarrow> mining_error option \<times> date_group_table" where
  "setDateSet docId dateSet t =
     (let (e, v) = setIdList docId (sorted_list_of_set dateSet) (dateValueTable t) in (e, t\<lparr>dateValueTable := v\<rparr>))"

definition getDateSet :: "date_group_table \<Rightarrow> nat \<Rightarrow> date \<Rightarrow> date set option" where
  "getDateSet t docId dateMask = map_option (\<lambda>dates. (\<lambda>date. date AND dateMask) ` set dates) (getIdList (dateValueTable t) docId)"

text \<open>
  \<open>GroupMiningTask\<close>: the property of a document is split and stored, dates that cannot be read
  are skipped; an exception is logged, the table keeps what was done before.
\<close>

definition build_date_doc ::
  "(string \<Rightarrow> string) \<Rightarrow> (string \<Rightarrow> date option) \<Rightarrow> (nat list \<Rightarrow> string \<Rightarrow> string list) \<Rightarrow> nat \<Rightarrow> string \<Rightarrow> date_group_table \<Rightarrow> date_group_table" where
  "build_date_doc trim cast tok_offsets docId propValue t =
     (let paths = filter (\<lambda>p. p \<noteq> []) (split_group_path trim propValue);
          dates = List.map_filter (\<lambda>p. scdStrToDate cast tok_offsets (hd p)) paths
      in snd (setDateSet docId (set dates) t))"

text \<open>The ids are collected up to the first exception.\<close>

fun insert_paths :: "string list list \<Rightarrow> prop_value_table \<Rightarrow> (nat list \<times> prop_value_table) option" where
  "insert_paths [] t = Some ([], t)"
| "insert_paths (p # ps) t =
     (case insertPropValueId p t of
        None \<Rightarrow> None
      | Some (Some e, i, t') \<Rightarrow> Some ([], t')
      | Some (None, i, t') \<Rightarrow> map_option (\<lambda>(is, t''). (i # is, t'')) (insert_paths ps t'))"

definition build_string_doc :: "(string \<Rightarrow> string) \<Rightarrow> nat \<Rightarrow> string \<Rightarrow> prop_value_table \<Rightarrow> prop_value_table option" where
  "build_string_doc trim docId propValue t =
     map_option (\<lambda>(is, t'). snd (setPropIdList docId (map of_nat is) t')) (insert_paths (split_group_path trim propValue) t)"

subsection \<open>Labels\<close>

text \<open>\<open>DateGroupLabel::test\<close>: one of the dates of the label is a date of the document.\<close>

fun date_label_test :: "date_group_table \<Rightarrow> (date \<times> date) list \<Rightarrow> nat \<Rightarrow> bool option" where
  "date_label_test t [] docId = Some False"
| "date_label_test t ((date, dateMask) # masks) docId =
     Option.bind (getDateSet t docId dateMask) (\<lambda>dates. if date \<in> dates then Some True else date_label_test t masks docId)"

section \<open>Dates and texts\<close>

lemma mask_bits:
  "MASK_YEAR = push_bit 17 (mask 14)" "MASK_MONTH = push_bit 13 (mask 4)" "MASK_DAY = push_bit 8 (mask 5)"
  by (simp_all add: MASK_YEAR_def MASK_MONTH_def MASK_DAY_def mask_eq_exp_minus_1 push_bit_eq_mult)

lemma small_word_bit: "x \<le> of_nat n \<Longrightarrow> n < 2 ^ m \<Longrightarrow> m \<le> k \<Longrightarrow> m < 32 \<Longrightarrow> \<not> bit (x :: date) k"
proof
  assume x: "x \<le> of_nat n" and n: "n < 2 ^ m" and k: "m \<le> k" "m < 32" and b: "bit x k"
  have "(2 :: nat) ^ m \<le> 2 ^ 32" using k(2) by (intro power_increasing) auto
  then have "unat (of_nat n :: date) = n" using n by (simp add: unat_of_nat)
  then have u: "unat x < 2 ^ m" using x n by (simp add: word_le_nat_alt)
  have "bit (unat x) k" using b by (simp add: bit_unsigned_iff)
  moreover have "unat x div 2 ^ k = 0" using u k(1) by (meson div_less less_le_trans power_increasing one_le_numeral)
  ultimately show False by (simp add: bit_iff_odd)
qed

lemma checked_date:
  assumes "checkDateRange [y, m, d]"
  shows "\<not> bit y (k + 14)" and "\<not> bit m (k + 4)" and "\<not> bit d (k + 5)"
  using assms small_word_bit [of y 9999 14 "k + 14"] small_word_bit [of m 12 4 "k + 4"] small_word_bit [of d 31 5 "k + 5"]
  by (auto simp: checkDateRange_def dateRanges_def less_Suc_eq DATE_INDEX_NUM_def)

lemma extract_create:
  assumes "\<And>k. \<not> bit y (k + 14)" and "\<And>k. \<not> bit m (k + 4)" and "\<And>k. \<not> bit d (k + 5)"
  shows "extractDate (createDate [y, m, d]) = [y, m, d]"
proof -
  let ?c = "push_bit 17 y OR push_bit 13 m OR push_bit 8 d"
  have c: "createDate [y, m, d] = ?c" by (simp add: createDate_def dateValueParsers_def parser_create_def or.assoc)
  have y: "bit y n \<Longrightarrow> n < 14" for n using assms(1) [of "n - 14"] by (cases "n < 14") simp_all
  have m: "bit m n \<Longrightarrow> n < 4" for n using assms(2) [of "n - 4"] by (cases "n < 4") simp_all
  have d: "bit d n \<Longrightarrow> n < 5" for n using assms(3) [of "n - 5"] by (cases "n < 5") simp_all
  have "drop_bit 17 (?c AND MASK_YEAR) = y"
    by (rule bit_word_eqI) (auto simp: mask_bits bit_simps dest: y m d)
  moreover have "drop_bit 13 (?c AND MASK_MONTH) = m"
    by (rule bit_word_eqI) (auto simp: mask_bits bit_simps dest: y m d)
  moreover have "drop_bit 8 (?c AND MASK_DAY) = d"
    by (rule bit_word_eqI) (auto simp: mask_bits bit_simps dest: y m d)
  ultimately show ?thesis by (simp add: c extractDate_def dateValueParsers_def parser_extract_def)
qed

text \<open>A date of one, two or three parts.\<close>

lemma date_parts:
  assumes "checkDateRange v"
  obtains y where "v = [y]" "checkDateRange [y, 1, 1]" | y m where "v = [y, m]" "m \<noteq> 0" "checkDateRange [y, m, 1]"
    | y m d where "v = [y, m, d]" "m \<noteq> 0" "d \<noteq> 0" "checkDateRange [y, m, d]"
proof -
  have l: "length v = 1 \<or> length v = 2 \<or> length v = 3" using assms by (auto simp: checkDateRange_def DATE_INDEX_NUM_def)
  then consider y where "v = [y]" | y m where "v = [y, m]" | y m d where "v = [y, m, d]"
    by (auto simp: length_Suc_conv numeral_2_eq_2 numeral_3_eq_3)
  then show ?thesis
  proof cases
    case (1 y)
    then show ?thesis using assms that(1) by (auto simp: checkDateRange_def dateRanges_def DATE_INDEX_NUM_def less_Suc_eq numeral_3_eq_3)
  next
    case (2 y m)
    then have "1 \<le> m" "checkDateRange [y, m, 1]" using assms by (auto simp: checkDateRange_def dateRanges_def DATE_INDEX_NUM_def less_Suc_eq numeral_3_eq_3)
    then show ?thesis using 2 that(2) by fastforce
  next
    case (3 y m d)
    then have "1 \<le> m" "1 \<le> d" using assms by (auto simp: checkDateRange_def dateRanges_def DATE_INDEX_NUM_def less_Suc_eq numeral_3_eq_3)
    then show ?thesis using 3 that(3) assms by fastforce
  qed
qed

lemma createDate_pad: "createDate [y] = createDate [y, 0, 0]" "createDate [y, m] = createDate [y, m, 0]"
  by (simp_all add: createDate_def dateValueParsers_def parser_create_def)

lemma extract_checked: "checkDateRange v \<Longrightarrow> extractDate (createDate v) = v @ replicate (3 - length v) 0"
proof (erule date_parts)
  fix y assume v: "v = [y]" "checkDateRange [y, 1, 1]"
  show ?thesis unfolding v(1) createDate_pad using checked_date(1) [OF v(2)] by (subst extract_create) (simp_all add: numeral_2_eq_2)
next
  fix y m assume v: "v = [y, m]" "m \<noteq> 0" "checkDateRange [y, m, 1]"
  show ?thesis unfolding v(1) createDate_pad using checked_date(1,2) [OF v(3)] by (subst extract_create) simp_all
next
  fix y m d assume v: "v = [y, m, d]" "m \<noteq> 0" "d \<noteq> 0" "checkDateRange [y, m, d]"
  show ?thesis unfolding v(1) using checked_date [OF v(4)] by (subst extract_create) simp_all
qed

lemma dateToAPIStr_checked: "checkDateRange v \<Longrightarrow> hd v \<noteq> 0 \<Longrightarrow> dateToAPIStr pad (createDate v) = join (CHR ''-'') (map2 pad [4, 2, 2] v)"
proof -
  assume v: "checkDateRange v" "hd v \<noteq> 0"
  note e = extract_checked [OF v(1)]
  show ?thesis
    by (rule date_parts [OF v(1)]) (use e v(2) in \<open>simp_all add: dateToAPIStr_def formatAPIDateStr_def DATE_INDEX_NUM_def numeral_2_eq_2 numeral_3_eq_3\<close>)
qed


text \<open>A concrete formatting: decimal digits with leading zeros.\<close>

definition pad_dec :: "nat \<Rightarrow> date \<Rightarrow> string" where
  "pad_dec w n = replicate (w - length (dec (unat n))) (CHR ''0'') @ dec (unat n)"

definition cast_dec :: "string \<Rightarrow> date option" where
  "cast_dec s = Some (of_nat (foldl (\<lambda>a c. 10 * a + (of_char c - 48)) 0 s))"

lemma foldl_dec: "foldl (\<lambda>a c. 10 * a + (of_char c - 48)) 0 (dec n) = n"
proof (induction n rule: dec.induct)
  case (1 n)
  have d: "of_char (digit k) - 48 = k" if "k < 10" for k :: nat
    using that by (auto simp: digit_def less_Suc_eq numeral_eq_Suc)
  show ?case using 1 by (subst dec.simps) (simp add: d)
qed

lemma cast_pad_dec: "cast_dec (pad_dec w n) = Some n"
proof -
  have "foldl (\<lambda>a c. 10 * a + (of_char c - 48)) 0 (replicate k (CHR ''0'')) = (0 :: nat)" for k by (induction k) simp_all
  then show ?thesis by (simp add: cast_dec_def pad_dec_def foldl_dec)
qed


text \<open>The year 0 passes the check of the range, but a date of it is printed without its month.\<close>

lemma year_0_not_printed:
  "checkDateRange [0, 7] \<and> dateToAPIStr pad_dec (createDate [0, 7]) = ''0000''"
  by code_simp

end
