(* ===== verification/GroupCount.thy ===== *)
theory GroupCount
  imports RangeGroup DateGroup
begin

text \<open>
  The counters of \<^verbatim>\<open>src/source/core/mining-manager/group-manager\<close>: \<open>StringGroupCounter\<close>,
  \<open>NumericGroupCounter\<close>, \<open>DateGroupCounter\<close> and \<open>NumericRangeGroupCounter\<close> behind the interface
  \<open>GroupCounter\<close>. The template instances with plain counts are \<open>value_counter\<close>; those with
  \<open>SubGroupCounter\<close>, which keep a counter of another property for every value, hold counters of
  this kind, as \<open>GroupCounterLabelBuilder\<close> makes only such ones. A \<open>std::map\<close> is a list ordered by
  its keys; numbers of documents are read from a function that stands for the numeric table.
  What a sub counter adds up for the parents of its values when it is printed is not kept, as
  it is printed once.
\<close>

section \<open>The operations\<close>

datatype value_counter =
  StringCounter string prop_value_table "nat list"
| NumericCounter string "nat \<Rightarrow> real option" "(real \<times> nat) list"
| DateCounter date_group_table date "(date \<times> nat) list" nat

datatype group_counter =
  Single value_counter
| StringSub string prop_value_table "(nat \<times> value_counter) list"
| NumericSub string "nat \<Rightarrow> real option" "(real \<times> nat \<times> value_counter) list" value_counter
| DateSub date_group_table date "(date \<times> nat \<times> value_counter) list" nat value_counter
| RangeCounter string "nat \<Rightarrow> int option" "nat list"

definition new_string_counter :: "string \<Rightarrow> prop_value_table \<Rightarrow> value_counter" where
  "new_string_counter prop t = StringCounter prop t (replicate (length (propStrVec t)) 0)"

definition new_string_sub :: "string \<Rightarrow> prop_value_table \<Rightarrow> value_counter \<Rightarrow> group_counter" where
  "new_string_sub prop t sub = StringSub prop t (replicate (length (propStrVec t)) (0, sub))"

subsection \<open>Counting a document\<close>

fun count_add :: "'k::linorder \<Rightarrow> ('k \<times> nat) list \<Rightarrow> ('k \<times> nat) list" where
  "count_add k [] = [(k, 1)]"
| "count_add k ((k', n) # l) =
     (if k < k' then (k, 1) # (k', n) # l else if k = k' then (k', n + 1) # l else (k', n) # count_add k l)"

fun bump_all :: "nat list \<Rightarrow> nat list \<Rightarrow> nat list option" where
  "bump_all [] cs = Some cs"
| "bump_all (i # is) cs = (if i < length cs then bump_all is (cs[i := cs ! i + 1]) else None)"

text \<open>\<open>StringGroupCounter::addDoc\<close>, \<open>NumericGroupCounter::addDoc\<close> and \<open>DateGroupCounter::addDoc\<close> with plain counts.\<close>

definition string_addDoc :: "prop_value_table \<Rightarrow> nat \<Rightarrow> nat list \<Rightarrow> nat list option" where
  "string_addDoc t doc cs =
     Option.bind (getIdList (valueIdTable t) doc) (\<lambda>ids. if ids = [] then Some cs else bump_all (map unat ids @ [0]) cs)"

definition numeric_addDoc :: "(nat \<Rightarrow> real option) \<Rightarrow> nat \<Rightarrow> (real \<times> nat) list \<Rightarrow> (real \<times> nat) list" where
  "numeric_addDoc table doc l = (case table doc of Some x \<Rightarrow> count_add x l | None \<Rightarrow> l)"

definition date_addDoc :: "date_group_table \<Rightarrow> date \<Rightarrow> nat \<Rightarrow> (date \<times> nat) list \<times> nat \<Rightarrow> ((date \<times> nat) list \<times> nat) option" where
  "date_addDoc t dateMask doc c =
     map_option (\<lambda>dates. (fold count_add (sorted_list_of_set dates) (fst c), if dates \<noteq> {} then snd c + 1 else snd c))
       (getDateSet t doc dateMask)"

fun value_addDoc :: "nat \<Rightarrow> value_counter \<Rightarrow> value_counter option" where
  "value_addDoc doc (StringCounter prop t cs) = map_option (StringCounter prop t) (string_addDoc t doc cs)"
| "value_addDoc doc (NumericCounter prop table l) = Some (NumericCounter prop table (numeric_addDoc table doc l))"
| "value_addDoc doc (DateCounter t dateMask l totalCount) =
     map_option (\<lambda>(l', n). DateCounter t dateMask l' n) (date_addDoc t dateMask doc (l, totalCount))"

text \<open>The sub counter of a value: a new one is a copy of the default.\<close>

fun sub_add :: "nat \<Rightarrow> value_counter \<Rightarrow> 'k::linorder \<Rightarrow> ('k \<times> nat \<times> value_counter) list \<Rightarrow> ('k \<times> nat \<times> value_counter) list option" where
  "sub_add doc init k [] = map_option (\<lambda>c. [(k, 1, c)]) (value_addDoc doc init)"
| "sub_add doc init k ((k', n, c) # l) =
     (if k < k' then map_option (\<lambda>c'. (k, 1, c') # (k', n, c) # l) (value_addDoc doc init)
      else if k = k' then map_option (\<lambda>c'. (k', n + 1, c') # l) (value_addDoc doc c)
      else map_option ((#) (k', n, c)) (sub_add doc init k l))"

fun sub_add_all ::
  "nat \<Rightarrow> value_counter \<Rightarrow> 'k::linorder list \<Rightarrow> ('k \<times> nat \<times> value_counter) list \<Rightarrow> ('k \<times> nat \<times> value_counter) list option" where
  "sub_add_all doc init [] l = Some l"
| "sub_add_all doc init (k # ks) l = Option.bind (sub_add doc init k l) (sub_add_all doc init ks)"

fun sub_bump_all :: "nat \<Rightarrow> nat list \<Rightarrow> (nat \<times> value_counter) list \<Rightarrow> (nat \<times> value_counter) list option" where
  "sub_bump_all doc [] cs = Some cs"
| "sub_bump_all doc (i # is) cs =
     (if i < length cs
      then Option.bind (value_addDoc doc (snd (cs ! i))) (\<lambda>c. sub_bump_all doc is (cs[i := (fst (cs ! i) + 1, c)]))
      else None)"

text \<open>The same with sub counters.\<close>

definition string_sub_addDoc :: "prop_value_table \<Rightarrow> nat \<Rightarrow> (nat \<times> value_counter) list \<Rightarrow> (nat \<times> value_counter) list option" where
  "string_sub_addDoc t doc cs =
     Option.bind (getIdList (valueIdTable t) doc) (\<lambda>ids.
       if ids = [] then Some cs
       else Option.bind (sub_bump_all doc (map unat ids) cs) (\<lambda>cs'.
         if cs' = [] then None else Some (cs'[0 := (fst (cs' ! 0) + 1, snd (cs' ! 0))])))"

definition numeric_sub_addDoc ::
  "(nat \<Rightarrow> real option) \<Rightarrow> value_counter \<Rightarrow> nat \<Rightarrow> (real \<times> nat \<times> value_counter) list \<Rightarrow> (real \<times> nat \<times> value_counter) list option" where
  "numeric_sub_addDoc table init doc l = (case table doc of Some x \<Rightarrow> sub_add doc init x l | None \<Rightarrow> Some l)"

definition date_sub_addDoc ::
  "date_group_table \<Rightarrow> date \<Rightarrow> value_counter \<Rightarrow> nat \<Rightarrow> (date \<times> nat \<times> value_counter) list \<times> nat \<Rightarrow>
     ((date \<times> nat \<times> value_counter) list \<times> nat) option" where
  "date_sub_addDoc t dateMask init doc c =
     Option.bind (getDateSet t doc dateMask) (\<lambda>dates.
       map_option (\<lambda>l. (l, if dates \<noteq> {} then snd c + 1 else snd c)) (sub_add_all doc init (sorted_list_of_set dates) (fst c)))"

fun counter_addDoc :: "nat \<Rightarrow> group_counter \<Rightarrow> group_counter option" where
  "counter_addDoc doc (Single c) = map_option Single (value_addDoc doc c)"
| "counter_addDoc doc (StringSub prop t cs) = map_option (StringSub prop t) (string_sub_addDoc t doc cs)"
| "counter_addDoc doc (NumericSub prop table l init) =
     map_option (\<lambda>l'. NumericSub prop table l' init) (numeric_sub_addDoc table init doc l)"
| "counter_addDoc doc (DateSub t dateMask l totalCount init) =
     map_option (\<lambda>(l', n). DateSub t dateMask l' n init) (date_sub_addDoc t dateMask init doc (l, totalCount))"
| "counter_addDoc doc (RangeCounter prop table v) = Some (RangeCounter prop table (range_addDoc (table doc) v))"

subsection \<open>The result\<close>

text \<open>A count is added to the value and to all its parents.\<close>

fun add_to_all :: "nat \<Rightarrow> nat list \<Rightarrow> nat list \<Rightarrow> nat list option" where
  "add_to_all n [] cs = Some cs"
| "add_to_all n (i # is) cs = (if i < length cs then add_to_all n is (cs[i := cs ! i + n]) else None)"

fun parent_loop :: "prop_value_table \<Rightarrow> nat list \<Rightarrow> nat list \<Rightarrow> nat list \<Rightarrow> nat list option" where
  "parent_loop t counts [] new = Some new"
| "parent_loop t counts (i # is) new =
     (if counts ! i = 0 then parent_loop t counts is new
      else Option.bind (getParentIds (parentIdVec t) i) (\<lambda>ids.
           Option.bind (add_to_all (counts ! i) ids new) (parent_loop t counts is)))"

definition addCountForParentId :: "prop_value_table \<Rightarrow> nat list \<Rightarrow> nat list option" where
  "addCountForParentId t counts =
     (if counts = [] then Some counts
      else parent_loop t counts [1..<length counts] ((replicate (length counts) 0)[0 := counts ! 0]))"

text \<open>The entries of a \<open>std::map\<close> in the order of its keys.\<close>

definition map_entries :: "(string \<rightharpoonup> nat) \<Rightarrow> (string \<times> nat) list" where
  "map_entries m = map (\<lambda>s. (s, the (m s))) (sorted_list_of_set (dom m))"

text \<open>
  The tree of values in preorder, without the values that have no documents. The depth of the
  recursion is bounded by the first argument; the number of values is enough.
\<close>

fun appendGroupRep :: "nat \<Rightarrow> (string \<rightharpoonup> nat) list \<Rightarrow> nat list \<Rightarrow> nat \<Rightarrow> nat \<Rightarrow> string \<Rightarrow> ontology_item list option" where
  "appendGroupRep 0 cm counts pvId level valueStr = None"
| "appendGroupRep (Suc fuel) cm counts pvId level valueStr =
     Option.bind (vec_at counts pvId) (\<lambda>n. Option.bind (vec_at cm pvId) (\<lambda>m.
       map_option (\<lambda>ls. new_item level valueStr 0 n # concat ls)
         (those (map (\<lambda>(s, childId). Option.bind (vec_at counts childId) (\<lambda>k.
            if k \<noteq> 0 then appendGroupRep fuel cm counts childId (level + 1) s else Some [])) (map_entries m)))))"

text \<open>The children of the root, one level below the value of another property.\<close>

definition root_groups :: "prop_value_table \<Rightarrow> nat list \<Rightarrow> nat \<Rightarrow> ontology_item list option" where
  "root_groups t counts level =
     Option.bind (vec_at (childMapTable t) 0) (\<lambda>m.
       map_option concat (those (map (\<lambda>(s, childId). Option.bind (vec_at counts childId) (\<lambda>k.
         if k \<noteq> 0 then appendGroupRep (length counts) (childMapTable t) counts childId level s else Some [])) (map_entries m))))"

text \<open>\<open>getStringRep\<close> of the counters without sub counters.\<close>

definition string_getStringRep :: "prop_value_table \<Rightarrow> nat list \<Rightarrow> nat \<Rightarrow> ontology_item list option" where
  "string_getStringRep t cs level = Option.bind (addCountForParentId t cs) (\<lambda>counts. root_groups t counts level)"

definition numeric_getStringRep :: "(real \<times> nat) list \<Rightarrow> nat \<Rightarrow> ontology_item list" where
  "numeric_getStringRep l level = map (\<lambda>(x, n). new_item level (formatNumericToUStr x) 0 n) l"

definition date_getStringRep :: "(nat \<Rightarrow> date \<Rightarrow> string) \<Rightarrow> (date \<times> nat) list \<Rightarrow> nat \<Rightarrow> ontology_item list" where
  "date_getStringRep pad l level = map (\<lambda>(d, n). new_item level (dateToAPIStr pad d) 0 n) l"

definition getStringRep :: "(nat \<Rightarrow> date \<Rightarrow> string) \<Rightarrow> value_counter \<Rightarrow> nat \<Rightarrow> ontology_item list option" where
  "getStringRep pad c level =
     (case c of
        StringCounter prop t cs \<Rightarrow> string_getStringRep t cs level
      | NumericCounter prop table l \<Rightarrow> Some (numeric_getStringRep l level)
      | DateCounter t dateMask l totalCount \<Rightarrow> Some (date_getStringRep pad l level))"

text \<open>A value with a sub counter, followed by the groups of the sub counter.\<close>

definition sub_items :: "(nat \<Rightarrow> date \<Rightarrow> string) \<Rightarrow> nat \<Rightarrow> string \<Rightarrow> nat \<times> value_counter \<Rightarrow> ontology_item list option" where
  "sub_items pad level s nc = map_option (\<lambda>items. new_item level s 0 (fst nc) # items) (getStringRep pad (snd nc) (level + 1))"

fun appendSubRep ::
  "(nat \<Rightarrow> date \<Rightarrow> string) \<Rightarrow> nat \<Rightarrow> (string \<rightharpoonup> nat) list \<Rightarrow> (nat \<times> value_counter) list \<Rightarrow> nat \<Rightarrow> nat \<Rightarrow> string \<Rightarrow> ontology_item list option" where
  "appendSubRep pad 0 cm counts pvId level valueStr = None"
| "appendSubRep pad (Suc fuel) cm counts pvId level valueStr =
     Option.bind (vec_at counts pvId) (\<lambda>nc. Option.bind (vec_at cm pvId) (\<lambda>m.
       Option.bind (if pvId \<noteq> 0 then sub_items pad level valueStr nc else Some [new_item level valueStr 0 (fst nc)]) (\<lambda>items.
         map_option (\<lambda>ls. items @ concat ls)
           (those (map (\<lambda>(s, childId). Option.bind (vec_at counts childId) (\<lambda>kc.
              if fst kc \<noteq> 0 then appendSubRep pad fuel cm counts childId (level + 1) s else Some [])) (map_entries m))))))"

text \<open>\<open>getGroupRep\<close>: the counter afterwards and the representation.\<close>

definition append_items :: "ontology_item list \<Rightarrow> group_rep \<Rightarrow> group_rep" where
  "append_items items r = r\<lparr>stringGroupRep := stringGroupRep r @ items\<rparr>"

definition string_getGroupRep :: "string \<Rightarrow> prop_value_table \<Rightarrow> nat list \<Rightarrow> group_rep \<Rightarrow> (nat list \<times> group_rep) option" where
  "string_getGroupRep prop t cs r =
     Option.bind (addCountForParentId t cs) (\<lambda>counts.
       map_option (\<lambda>items. (counts, append_items items r)) (appendGroupRep (length counts) (childMapTable t) counts 0 0 prop))"

definition numeric_getGroupRep :: "string \<Rightarrow> (real \<times> nat) list \<Rightarrow> group_rep \<Rightarrow> group_rep" where
  "numeric_getGroupRep prop l r = r\<lparr>numericGroupRep := numericGroupRep r @ [(prop, l)]\<rparr>"

text \<open>A date counter prints its property and then, with or without sub counters, \<open>getStringRep\<close> at level 1.\<close>

definition date_getGroupRep :: "string \<Rightarrow> nat \<Rightarrow> ontology_item list \<Rightarrow> group_rep \<Rightarrow> group_rep" where
  "date_getGroupRep propName totalCount items r = append_items (new_item 0 propName 0 totalCount # items) r"

definition value_getGroupRep :: "(nat \<Rightarrow> date \<Rightarrow> string) \<Rightarrow> value_counter \<Rightarrow> group_rep \<Rightarrow> (value_counter \<times> group_rep) option" where
  "value_getGroupRep pad c r =
     (case c of
        StringCounter prop t cs \<Rightarrow> map_option (\<lambda>(counts, r'). (StringCounter prop t counts, r')) (string_getGroupRep prop t cs r)
      | NumericCounter prop table l \<Rightarrow> Some (c, numeric_getGroupRep prop l r)
      | DateCounter t dateMask l totalCount \<Rightarrow> Some (c, date_getGroupRep (date_propName t) totalCount (date_getStringRep pad l 1) r))"

definition numeric_sub_getGroupRep ::
  "(nat \<Rightarrow> date \<Rightarrow> string) \<Rightarrow> string \<Rightarrow> (real \<times> nat \<times> value_counter) list \<Rightarrow> group_rep \<Rightarrow> group_rep option" where
  "numeric_sub_getGroupRep pad prop l r =
     map_option (\<lambda>ls. append_items (new_item 0 prop 0 (sum_list (map (fst \<circ> snd) l)) # concat ls) r)
       (those (map (\<lambda>(x, nc). sub_items pad 1 (formatNumericToUStr x) nc) l))"

definition date_sub_getStringRep ::
  "(nat \<Rightarrow> date \<Rightarrow> string) \<Rightarrow> (date \<times> nat \<times> value_counter) list \<Rightarrow> nat \<Rightarrow> ontology_item list option" where
  "date_sub_getStringRep pad l level = map_option concat (those (map (\<lambda>(d, nc). sub_items pad level (dateToAPIStr pad d) nc) l))"

definition counter_getGroupRep :: "(nat \<Rightarrow> date \<Rightarrow> string) \<Rightarrow> group_counter \<Rightarrow> group_rep \<Rightarrow> (group_counter \<times> group_rep) option" where
  "counter_getGroupRep pad c r =
     (case c of
        Single s \<Rightarrow> map_option (\<lambda>(s', r'). (Single s', r')) (value_getGroupRep pad s r)
      | StringSub prop t cs \<Rightarrow> map_option (\<lambda>items. (c, append_items items r)) (appendSubRep pad (length cs) (childMapTable t) cs 0 0 prop)
      | NumericSub prop table l init \<Rightarrow> map_option (Pair c) (numeric_sub_getGroupRep pad prop l r)
      | DateSub t dateMask l totalCount init \<Rightarrow>
          map_option (\<lambda>items. (c, date_getGroupRep (date_propName t) totalCount items r)) (date_sub_getStringRep pad l 1)
      | RangeCounter prop table v \<Rightarrow> let (v', r') = range_getGroupRep prop v r in Some (RangeCounter prop table v', r'))"

section \<open>Counting strings\<close>

text \<open>The values of a document.\<close>

definition doc_vals :: "prop_value_table \<Rightarrow> nat \<Rightarrow> nat list" where
  "doc_vals t d = (case getIdList (valueIdTable t) d of Some ids \<Rightarrow> map unat ids | None \<Rightarrow> [])"

definition docs_ok :: "prop_value_table \<Rightarrow> nat list \<Rightarrow> bool" where
  "docs_ok t ds \<longleftrightarrow> pv_ok t \<and> id_table_ok (valueIdTable t) \<and> (\<forall>d \<in> set ds. \<forall>i \<in> set (doc_vals t d). 0 < i \<and> i < length (propStrVec t))"

definition add_docs :: "('c \<Rightarrow> 'c option) list \<Rightarrow> 'c \<Rightarrow> 'c option" where
  "add_docs fs c = fold (\<lambda>f c. Option.bind c f) fs (Some c)"

lemma add_docs_Nil [simp]: "add_docs [] c = Some c"
  by (simp add: add_docs_def)

lemma fold_bind_None: "fold (\<lambda>f c. Option.bind c f) fs None = None"
  by (induction fs) simp_all

lemma add_docs_Cons [simp]: "add_docs (f # fs) c = Option.bind (f c) (add_docs fs)"
  by (cases "f c") (simp_all add: add_docs_def fold_bind_None)

lemma bump_all_at:
  "\<forall>i \<in> set is. i < length cs \<Longrightarrow> \<exists>cs'. bump_all is cs = Some cs' \<and> length cs' = length cs \<and> (\<forall>k < length cs. cs' ! k = cs ! k + count_list is k)"
proof (induction "is" arbitrary: cs)
  case (Cons i "is")
  have "\<forall>j \<in> set is. j < length (cs[i := cs ! i + 1])" using Cons.prems by simp
  from Cons.IH [OF this] show ?case using Cons.prems by (auto simp: nth_list_update)
qed simp

lemma add_to_all_at:
  "\<forall>i \<in> set is. i < length cs \<Longrightarrow> distinct is \<Longrightarrow>
    \<exists>cs'. add_to_all n is cs = Some cs' \<and> length cs' = length cs \<and> (\<forall>k < length cs. cs' ! k = cs ! k + (if k \<in> set is then n else 0))"
proof (induction "is" arbitrary: cs)
  case (Cons i "is")
  have "\<forall>j \<in> set is. j < length (cs[i := cs ! i + n])" "distinct is" using Cons.prems by simp_all
  from Cons.IH [OF this] show ?case using Cons.prems by (auto simp: nth_list_update)
qed simp

lemma getIdList_doc_vals: "id_table_ok (valueIdTable t) \<Longrightarrow> \<exists>ids. getIdList (valueIdTable t) d = Some ids \<and> doc_vals t d = map unat ids"
  using getIdList_unpack [of "valueIdTable t" d] by (simp add: doc_vals_def)

text \<open>The counts after some documents: position 0 counts the documents that have a value.\<close>

definition value_count :: "prop_value_table \<Rightarrow> nat list \<Rightarrow> nat \<Rightarrow> nat" where
  "value_count t ds k = (if k = 0 then length (filter (\<lambda>d. doc_vals t d \<noteq> []) ds) else (\<Sum>d\<leftarrow>ds. count_list (doc_vals t d) k))"

lemma string_docs:
  assumes "docs_ok t ds" and "length cs = length (propStrVec t)"
  shows "\<exists>cs'. add_docs (map value_addDoc ds) (StringCounter prop t cs) = Some (StringCounter prop t cs') \<and> length cs' = length cs \<and>
    (\<forall>k < length cs. cs' ! k = cs ! k + value_count t ds k)"
  using assms
proof (induction ds arbitrary: cs)
  case Nil
  then show ?case by (simp add: value_count_def)
next
  case (Cons d ds)
  have t: "pv_ok t" "id_table_ok (valueIdTable t)" "docs_ok t ds" and v: "\<forall>i \<in> set (doc_vals t d). 0 < i \<and> i < length cs"
    using Cons.prems by (simp_all add: docs_ok_def)
  obtain ids where ids: "getIdList (valueIdTable t) d = Some ids" "doc_vals t d = map unat ids" using getIdList_doc_vals [OF t(2)] by blast
  have z: "0 < length cs" using t(1) Cons.prems(2) by (simp add: pv_ok_def)
  have "\<exists>cs1. value_addDoc d (StringCounter prop t cs) = Some (StringCounter prop t cs1) \<and> length cs1 = length cs \<and>
      (\<forall>k < length cs. cs1 ! k = cs ! k + (if k = 0 then (if doc_vals t d \<noteq> [] then 1 else 0) else count_list (doc_vals t d) k))"
  proof (cases "ids = []")
    case True
    then show ?thesis using ids by (simp add: string_addDoc_def)
  next
    case False
    have "\<forall>i \<in> set (doc_vals t d @ [0]). i < length cs" using v z by auto
    from bump_all_at [OF this] obtain cs1 where b: "bump_all (doc_vals t d @ [0]) cs = Some cs1" "length cs1 = length cs"
      "\<forall>k < length cs. cs1 ! k = cs ! k + count_list (doc_vals t d @ [0]) k" by blast
    have "count_list (doc_vals t d) 0 = 0" using v by (metis count_list_0_iff less_irrefl)
    then show ?thesis using False b ids by (auto simp: string_addDoc_def)
  qed
  then obtain cs1 where c: "value_addDoc d (StringCounter prop t cs) = Some (StringCounter prop t cs1)" "length cs1 = length cs"
    "\<forall>k < length cs. cs1 ! k = cs ! k + (if k = 0 then (if doc_vals t d \<noteq> [] then 1 else 0) else count_list (doc_vals t d) k)" by blast
  have "length cs1 = length (propStrVec t)" using c(2) Cons.prems(2) by simp
  from Cons.IH [OF t(3) this] c show ?case by (auto simp: value_count_def)
qed

subsection \<open>Parents\<close>

lemma getParentIds_ancestors:
  assumes "pv_ok t" and "i < length (propStrVec t)"
  shows "\<exists>ids. getParentIds (parentIdVec t) i = Some ids \<and> set ids = ancestors t i \<and> distinct ids"
  using assms(2)
proof (induction i rule: less_induct)
  case (less i)
  show ?case
  proof (cases "i = 0")
    case True
    then show ?thesis using assms(1) by simp
  next
    case False
    note st = path_of_step [OF assms(1) _ less.prems]
    have p: "parentIdVec t ! i < i" using st False by simp
    from less.IH [OF p] p less.prems obtain ids where ids: "getParentIds (parentIdVec t) (parentIdVec t ! i) = Some ids"
      "set ids = ancestors t (parentIdVec t ! i)" "distinct ids" by fastforce
    have "i < length (parentIdVec t)" using less.prems assms(1) by (simp add: pv_ok_def)
    then have g: "getParentIds (parentIdVec t) i = Some (i # ids)" using ids(1) False by (subst getParentIds.simps) (simp add: vec_at_def)
    obtain ids' where "getParentIds (parentIdVec t) (parentIdVec t ! i) = Some ids'" "\<forall>j \<in> set ids'. 0 < j \<and> j \<le> parentIdVec t ! i"
      using getParentIds_path [OF assms(1), of "parentIdVec t ! i"] p less.prems by fastforce
    then have "i \<notin> set ids" using ids(1) p by auto
    then show ?thesis using g ids ancestors_step [OF assms(1) _ less.prems] False by auto
  qed
qed

lemma ancestors_bounds: "k \<in> ancestors t i \<Longrightarrow> 0 < k \<and> k < length (propStrVec t)"
  by (simp add: ancestors_def)

lemma parent_loop_at:
  assumes "pv_ok t" and "length new = length (propStrVec t)" and "\<forall>i \<in> set is. i < length (propStrVec t)"
  shows "\<exists>new'. parent_loop t counts is new = Some new' \<and> length new' = length new \<and>
    (\<forall>k < length new. new' ! k = new ! k + (\<Sum>i\<leftarrow>is. if k \<in> ancestors t i then counts ! i else 0))"
  using assms(2,3)
proof (induction "is" arbitrary: new)
  case (Cons i "is")
  show ?case
  proof (cases "counts ! i = 0")
    case True
    then show ?thesis using Cons by simp
  next
    case False
    obtain ids where ids: "getParentIds (parentIdVec t) i = Some ids" "set ids = ancestors t i" "distinct ids"
      using getParentIds_ancestors [OF assms(1), of i] Cons.prems(2) by auto
    have "\<forall>j \<in> set ids. j < length new" using ids(2) ancestors_bounds Cons.prems(1) by auto
    from add_to_all_at [OF this ids(3), of "counts ! i"] obtain new1 where n: "add_to_all (counts ! i) ids new = Some new1" "length new1 = length new"
      "\<forall>k < length new. new1 ! k = new ! k + (if k \<in> ancestors t i then counts ! i else 0)" unfolding ids(2) by blast
    have "length new1 = length (propStrVec t)" using n(2) Cons.prems(1) by simp
    from Cons.IH [OF this] Cons.prems(2) obtain new2 where "parent_loop t counts is new1 = Some new2" "length new2 = length new1"
      "\<forall>k < length new1. new2 ! k = new1 ! k + (\<Sum>i\<leftarrow>is. if k \<in> ancestors t i then counts ! i else 0)" by auto
    then show ?thesis using False ids(1) n by simp
  qed
qed simp

text \<open>A value together with all below it.\<close>

definition subtree_count :: "prop_value_table \<Rightarrow> nat list \<Rightarrow> nat \<Rightarrow> nat" where
  "subtree_count t counts k = (\<Sum>i \<in> {1..<length counts}. if k \<in> ancestors t i then counts ! i else 0)"

lemma addCountForParentId_at:
  assumes "pv_ok t" and "length counts = length (propStrVec t)"
  shows "\<exists>new. addCountForParentId t counts = Some new \<and> length new = length counts \<and> new ! 0 = counts ! 0 \<and>
    (\<forall>k. 0 < k \<and> k < length counts \<longrightarrow> new ! k = subtree_count t counts k)"
proof -
  have z: "counts \<noteq> []" "0 < length counts" using assms by (auto simp: pv_ok_def)
  let ?new = "(replicate (length counts) 0)[0 := counts ! 0]"
  have "length ?new = length (propStrVec t)" "\<forall>i \<in> set [1..<length counts]. i < length (propStrVec t)" using assms(2) by simp_all
  from parent_loop_at [OF assms(1) this, of counts] obtain new where new: "parent_loop t counts [1..<length counts] ?new = Some new"
    "length new = length ?new" "\<forall>k < length ?new. new ! k = ?new ! k + (\<Sum>i\<leftarrow>[1..<length counts]. if k \<in> ancestors t i then counts ! i else 0)" by blast
  have "0 \<notin> ancestors t i" for i using ancestors_bounds by blast
  then have "new ! 0 = counts ! 0" using new(3) z(2) by simp
  moreover have "new ! k = subtree_count t counts k" if "0 < k" "k < length counts" for k
    using new(3) that by (simp add: subtree_count_def interv_sum_list_conv_sum_set_nat)
  ultimately show ?thesis using new z(1) by (simp add: addCountForParentId_def)
qed

lemma ancestors_self: "pv_ok t \<Longrightarrow> 0 < i \<Longrightarrow> i < length (propStrVec t) \<Longrightarrow> i \<in> ancestors t i"
  by (auto simp: ancestors_def)

lemma subtree_count_mono: "k \<in> ancestors t j \<Longrightarrow> subtree_count t counts j \<le> subtree_count t counts k"
  unfolding subtree_count_def using ancestors_trans by (intro sum_mono) auto

subsection \<open>The tree of the values\<close>

lemma map_entries_set: "finite (dom m) \<Longrightarrow> (s, c) \<in> set (map_entries m) \<longleftrightarrow> m s = Some c"
  by (auto simp: map_entries_def)

lemma map_entries_sorted: "sorted_wrt (<) (map fst (map_entries m))"
  by (simp add: map_entries_def o_def strict_sorted_list_of_set)

lemma child_finite: "pv_ok t \<Longrightarrow> i < length (propStrVec t) \<Longrightarrow> finite (dom (childMapTable t ! i))"
proof -
  assume t: "pv_ok t" "i < length (propStrVec t)"
  have "dom (childMapTable t ! i) \<subseteq> (!) (propStrVec t) ` {..<length (propStrVec t)}" using t by (auto simp: pv_ok_def)
  then show ?thesis by (rule finite_subset) simp
qed

text \<open>The tree that is printed, and that it is printed.\<close>

fun value_tree :: "nat \<Rightarrow> (string \<rightharpoonup> nat) list \<Rightarrow> nat list \<Rightarrow> nat \<Rightarrow> string \<Rightarrow> group_tree" where
  "value_tree 0 cm counts i s = Group s 0 (counts ! i) 0 []"
| "value_tree (Suc fuel) cm counts i s =
     Group s 0 (counts ! i) 0 (map (\<lambda>(s', c). value_tree fuel cm counts c s') (filter (\<lambda>(_, c). counts ! c \<noteq> 0) (map_entries (cm ! i))))"

lemma value_tree_text [simp]: "grp_text (value_tree fuel cm counts i s) = s" "grp_count (value_tree fuel cm counts i s) = counts ! i"
  by (cases fuel; simp)+

lemma entries_filter:
  "concat (map (\<lambda>(s, c). if n ! c \<noteq> (0 :: nat) then g (f c s) else []) es) = concat (map (g \<circ> (\<lambda>(s, c). f c s)) (filter (\<lambda>(_, c). n ! c \<noteq> 0) es))"
  by (induction es) auto

lemma appendGroupRep_tree:
  assumes "pv_ok t" and "length counts = length (propStrVec t)"
  shows "i < length counts \<Longrightarrow> length counts \<le> i + fuel \<Longrightarrow>
    appendGroupRep fuel (childMapTable t) counts i lv s = Some (flat_tree lv (value_tree fuel (childMapTable t) counts i s))"
proof (induction fuel arbitrary: i lv s)
  case (Suc fuel)
  let ?m = "childMapTable t ! i" and ?T = "\<lambda>(s', c). value_tree fuel (childMapTable t) counts c s'"
  let ?f = "\<lambda>(s', c). if counts ! c \<noteq> 0 then flat_tree (lv + 1) (value_tree fuel (childMapTable t) counts c s') else []"
  have v: "vec_at counts i = Some (counts ! i)" "vec_at (childMapTable t) i = Some ?m"
    using Suc.prems(1) assms by (simp_all add: pv_ok_def vec_at_def)
  have step: "Option.bind (vec_at counts c) (\<lambda>k. if k \<noteq> 0 then appendGroupRep fuel (childMapTable t) counts c (lv + 1) s' else Some []) = Some (?f (s', c))"
    if e: "(s', c) \<in> set (map_entries ?m)" for s' c
  proof -
    have "?m s' = Some c" using e map_entries_set [OF child_finite [OF assms(1)]] Suc.prems(1) assms(2) by simp
    then have c: "i < c" "c < length counts" using assms Suc.prems(1) unfolding pv_ok_def by auto
    then show ?thesis using Suc.IH [of c "lv + 1" s'] Suc.prems(2) by (simp add: vec_at_def)
  qed
  have "map (\<lambda>(s', c). Option.bind (vec_at counts c) (\<lambda>k. if k \<noteq> 0 then appendGroupRep fuel (childMapTable t) counts c (lv + 1) s' else Some [])) (map_entries ?m) =
      map Some (map ?f (map_entries ?m))" unfolding map_map by (rule map_cong [OF refl]) (use step in auto)
  then have "those (map (\<lambda>(s', c). Option.bind (vec_at counts c) (\<lambda>k. if k \<noteq> 0 then appendGroupRep fuel (childMapTable t) counts c (lv + 1) s' else Some [])) (map_entries ?m)) =
      Some (map ?f (map_entries ?m))" by (simp only: those_eq_Some)
  moreover have "concat (map ?f (map_entries ?m)) = concat (map (flat_tree (lv + 1) \<circ> ?T) (filter (\<lambda>(_, c). counts ! c \<noteq> 0) (map_entries ?m)))"
    by (rule entries_filter)
  ultimately show ?case unfolding appendGroupRep.simps v Option.bind.bind_lunit value_tree.simps flat_tree.simps by (simp add: new_item_def)
qed simp

lemma value_tree_ok: "tree_ok (value_tree fuel cm counts i s)"
proof (induction fuel arbitrary: i s)
  case (Suc fuel)
  let ?es = "filter (\<lambda>(_, c). counts ! c \<noteq> 0) (map_entries (cm ! i))"
  have "map grp_text (map (\<lambda>(s', c). value_tree fuel cm counts c s') es) = map fst es" for es by (induction es) auto
  moreover have "sorted_wrt (<) (map fst ?es)"
    using map_entries_sorted [of "cm ! i"] by (simp add: sorted_wrt_map sorted_wrt_filter)
  ultimately have "sorted_wrt (<) (map grp_text (map (\<lambda>(s', c). value_tree fuel cm counts c s') ?es))" by (simp only:)
  then show ?case unfolding value_tree.simps tree_ok.simps using Suc by (auto simp del: map_map)
qed simp

lemma count_at_none: "\<forall>t \<in> set F. grp_text t \<noteq> s \<Longrightarrow> count_at (s # p) F = 0"
  by (induction F) auto

lemma count_at_unique:
  assumes "distinct (map grp_text F)" and "t \<in> set F" and "grp_text t = s"
  shows "count_at (s # p) F = (if p = [] then grp_count t else count_at p (grp_children t))"
  using assms
proof (induction F)
  case (Cons u F)
  show ?case
  proof (cases "u = t")
    case True
    then have "s \<notin> grp_text ` set F" using Cons.prems by simp
    then have "\<forall>x \<in> set F. grp_text x \<noteq> s" by blast
    then show ?thesis using count_at_none [of F s p] True Cons.prems(3) by simp
  next
    case False
    then have "grp_text u \<noteq> s" using Cons.prems by auto
    then show ?thesis using Cons False by simp
  qed
qed simp

text \<open>At the path from a value to one below it the tree shows the count of the latter.\<close>

lemma value_tree_count:
  assumes "pv_ok t" and "length counts = length (propStrVec t)"
    and "\<And>j k. k \<in> ancestors t j \<Longrightarrow> j < length counts \<Longrightarrow> counts ! k = 0 \<Longrightarrow> counts ! j = 0"
  shows "i < length counts \<Longrightarrow> length counts \<le> i + fuel \<Longrightarrow> p \<noteq> [] \<Longrightarrow>
    (\<forall>j < length counts. path_of t j = path_of t i @ p \<longrightarrow> count_at p (grp_children (value_tree fuel (childMapTable t) counts i s)) = counts ! j) \<and>
    ((\<forall>j < length counts. path_of t j \<noteq> path_of t i @ p) \<longrightarrow> count_at p (grp_children (value_tree fuel (childMapTable t) counts i s)) = 0)"
proof (induction fuel arbitrary: i s p)
  case (Suc fuel)
  let ?m = "childMapTable t ! i" and ?cm = "childMapTable t"
  let ?F = "grp_children (value_tree (Suc fuel) ?cm counts i s)"
  obtain x q where p: "p = x # q" using Suc.prems(3) by (cases p) auto
  have i: "i < length (propStrVec t)" using Suc.prems(1) assms(2) by simp
  have F: "set ?F = {value_tree fuel ?cm counts c y |y c. ?m y = Some c \<and> counts ! c \<noteq> 0}"
    using map_entries_set [OF child_finite [OF assms(1) i]] by (auto simp: image_iff)
  have "tree_ok (value_tree (Suc fuel) ?cm counts i s)" by (rule value_tree_ok)
  then have "sorted_wrt (<) (map grp_text ?F)" by simp
  then have d: "distinct (map grp_text ?F)" by (simp add: strict_sorted_iff)
  have ch: "?m x = Some c \<longleftrightarrow> c < length counts \<and> path_of t c = path_of t i @ [x]" for c using child_path [OF assms(1) i] assms(2) by simp
  show ?case
  proof (cases "\<exists>c. ?m x = Some c \<and> counts ! c \<noteq> 0")
    case True
    then obtain c where c: "?m x = Some c" "counts ! c \<noteq> 0" by blast
    have lt: "i < c" "c < length counts" using c(1) assms(1,2) i unfolding pv_ok_def by auto
    have pc: "path_of t c = path_of t i @ [x]" using ch [of c] c(1) by blast
    have "value_tree fuel ?cm counts c x \<in> set ?F" using F c by blast
    from count_at_unique [OF d this, of x q] have ca: "count_at p ?F = (if q = [] then counts ! c else count_at q (grp_children (value_tree fuel ?cm counts c x)))"
      by (simp add: p)
    show ?thesis
    proof (cases "q = []")
      case True
      then show ?thesis using ca pc path_inj [OF assms(1)] lt(2) assms(2) unfolding p by (metis (no_types, lifting))
    next
      case False
      have "length counts \<le> c + fuel" using Suc.prems(2) lt(1) by simp
      from Suc.IH [OF lt(2) this False, of x] show ?thesis using ca False pc unfolding p by simp
    qed
  next
    case False
    have "\<forall>u \<in> set ?F. grp_text u \<noteq> x" using F False by auto
    then have z: "count_at p ?F = 0" unfolding p by (rule count_at_none)
    moreover have "counts ! j = 0" if j: "j < length counts" "path_of t j = path_of t i @ p" for j
    proof -
      have "path_of t j = (path_of t i @ [x]) @ q" using j(2) p by simp
      from path_prefix [OF assms(1) _ this] j(1) assms(2) obtain c where c: "c < length counts" "path_of t c = path_of t i @ [x]" by auto
      then have "counts ! c = 0" using False ch by blast
      moreover have "c \<noteq> 0"
      proof
        assume "c = 0"
        then show False using c path_of_Nil [OF assms(1), of c] assms(2) by simp
      qed
      then have "c \<in> ancestors t j" using c j(2) assms(2) p by (simp add: ancestors_def)
      ultimately show ?thesis using assms(3) j(1) by blast
    qed
    ultimately show ?thesis by simp
  qed
qed simp

section \<open>The groups of a string property\<close>

text \<open>The number of values of the documents at a path or below it.\<close>

definition path_count :: "prop_value_table \<Rightarrow> nat list \<Rightarrow> string list \<Rightarrow> nat" where
  "path_count t ds p = (\<Sum>d\<leftarrow>ds. length (filter (\<lambda>i. \<exists>q. path_of t i = p @ q) (doc_vals t d)))"

lemma sum_count_list: "finite A \<Longrightarrow> (\<Sum>i \<in> A. count_list xs i) = length (filter (\<lambda>i. i \<in> A) xs)"
proof (induction xs)
  case (Cons x xs)
  have "(\<Sum>i \<in> A. count_list (x # xs) i) = (\<Sum>i \<in> A. (if i = x then 1 else 0) + count_list xs i)" by (rule sum.cong) auto
  also have "\<dots> = (if x \<in> A then 1 else 0) + (\<Sum>i \<in> A. count_list xs i)" using Cons.prems by (simp add: sum.distrib)
  finally show ?case using Cons by simp
qed simp

lemma subtree_count_docs:
  assumes "docs_ok t ds" and "length cs = length (propStrVec t)" and "\<forall>k < length cs. cs ! k = value_count t ds k" and "0 < j" and "j < length cs"
  shows "subtree_count t cs j = path_count t ds (path_of t j)"
proof -
  let ?A = "{i \<in> {1..<length cs}. j \<in> ancestors t i}"
  have "subtree_count t cs j = (\<Sum>i \<in> ?A. cs ! i)" unfolding subtree_count_def by (rule sum.inter_filter [symmetric]) simp
  also have "\<dots> = (\<Sum>i \<in> ?A. \<Sum>d\<leftarrow>ds. count_list (doc_vals t d) i)" using assms(3) by (intro sum.cong) (auto simp: value_count_def)
  also have "\<dots> = (\<Sum>d\<leftarrow>ds. \<Sum>i \<in> ?A. count_list (doc_vals t d) i)" by (induction ds) (simp_all add: sum.distrib)
  also have "\<dots> = path_count t ds (path_of t j)"
  proof -
    have "(\<Sum>i \<in> ?A. count_list (doc_vals t d) i) = length (filter (\<lambda>i. \<exists>q. path_of t i = path_of t j @ q) (doc_vals t d))" if d: "d \<in> set ds" for d
    proof -
      have "i \<in> ?A \<longleftrightarrow> (\<exists>q. path_of t i = path_of t j @ q)" if i: "i \<in> set (doc_vals t d)" for i
      proof -
        have "0 < i" "i < length cs" using assms(1,2) d i by (auto simp: docs_ok_def)
        then show ?thesis using assms(2,4,5) by (auto simp: ancestors_def)
      qed
      then show ?thesis by (simp add: sum_count_list cong: filter_cong)
    qed
    then show ?thesis unfolding path_count_def by (simp cong: map_cong)
  qed
  finally show ?thesis .
qed

lemma path_count_none:
  assumes "docs_ok t ds" and "\<forall>j < length (propStrVec t). path_of t j \<noteq> p"
  shows "path_count t ds p = 0"
proof -
  have "filter (\<lambda>i. \<exists>q. path_of t i = p @ q) (doc_vals t d) = []" if d: "d \<in> set ds" for d
  proof -
    have "\<not> (\<exists>q. path_of t i = p @ q)" if i: "i \<in> set (doc_vals t d)" for i
    proof
      assume "\<exists>q. path_of t i = p @ q"
      moreover have "pv_ok t" "i < length (propStrVec t)" using assms(1) d i by (auto simp: docs_ok_def)
      ultimately show False using path_prefix assms(2) by blast
    qed
    then show ?thesis by (simp add: filter_empty_conv)
  qed
  then show ?thesis by (simp add: path_count_def cong: map_cong)
qed

text \<open>The tree of a string property after counting some documents.\<close>

lemma string_groups:
  assumes "docs_ok t ds"
  shows "\<exists>c c' T. add_docs (map value_addDoc ds) (new_string_counter prop t) = Some c \<and>
    value_getGroupRep pad c r = Some (c', append_items (flat 0 [T]) r) \<and> tree_ok T \<and> grp_text T = prop \<and>
    grp_count T = length (filter (\<lambda>d. doc_vals t d \<noteq> []) ds) \<and> (\<forall>p. p \<noteq> [] \<longrightarrow> count_at p (grp_children T) = path_count t ds p)"
proof -
  let ?n = "length (propStrVec t)" and ?cm = "childMapTable t"
  have t: "pv_ok t" using assms by (simp add: docs_ok_def)
  have z: "0 < ?n" using t by (simp add: pv_ok_def)
  from string_docs [OF assms, of "replicate ?n 0" "prop"] obtain cs where c: "add_docs (map value_addDoc ds) (new_string_counter prop t) = Some (StringCounter prop t cs)"
    "length cs = ?n" "\<forall>k < length cs. cs ! k = value_count t ds k" by (auto simp: new_string_counter_def)
  from addCountForParentId_at [OF t c(2)] obtain new where new: "addCountForParentId t cs = Some new" "length new = length cs" "new ! 0 = cs ! 0"
    "\<forall>k. 0 < k \<and> k < length cs \<longrightarrow> new ! k = subtree_count t cs k" by blast
  let ?T = "value_tree (length new) ?cm new 0 prop"
  have l: "length new = ?n" using new(2) c(2) by simp
  have a: "appendGroupRep (length new) ?cm new 0 0 prop = Some (flat_tree 0 ?T)" using z l by (intro appendGroupRep_tree [OF t l]) simp_all
  have mono: "new ! j = 0" if "k \<in> ancestors t j" "j < length new" "new ! k = 0" for j k
  proof -
    have "0 < j" using that(1) t by (cases "j = 0") auto
    then show ?thesis using that new(4) subtree_count_mono [OF that(1), of cs] ancestors_bounds [OF that(1)] l new(2) c(2) by auto
  qed
  have "count_at p (grp_children ?T) = path_count t ds p" if p: "p \<noteq> []" for p
  proof (cases "\<exists>j < length new. path_of t j = p")
    case True
    then obtain j where j: "j < length new" "path_of t j = p" by blast
    then have "0 < j" using p by (cases "j = 0") auto
    then have "new ! j = path_count t ds p" using new(2,4) j subtree_count_docs [OF assms c(2,3)] by auto
    moreover have "count_at p (grp_children ?T) = new ! j"
      using value_tree_count [OF t l mono, where i = 0 and fuel = "length new" and p = p and s = "prop"] j z l p by auto
    ultimately show ?thesis by simp
  next
    case False
    then have "count_at p (grp_children ?T) = 0" using value_tree_count [OF t l mono, where i = 0 and fuel = "length new" and p = p and s = "prop"] z l p by auto
    then show ?thesis using path_count_none [OF assms, of p] False l by auto
  qed
  moreover have "grp_count ?T = length (filter (\<lambda>d. doc_vals t d \<noteq> []) ds)" using new(3) c(2,3) z by (simp add: value_count_def)
  moreover have "value_getGroupRep pad (StringCounter prop t cs) r = Some (StringCounter prop t new, append_items (flat 0 [?T]) r)"
    using new(1) a by (simp add: value_getGroupRep_def string_getGroupRep_def)
  ultimately show ?thesis using c(1) value_tree_ok [of "length new" ?cm new 0 "prop"]
    by (intro exI [of _ "StringCounter prop t cs"] exI [of _ "StringCounter prop t new"] exI [of _ ?T]) simp
qed

section \<open>From the texts of the documents to their groups\<close>

lemma insert_path_length: "insert_path path i t = Some (e, j, t') \<Longrightarrow> length (propStrVec t') \<le> length (propStrVec t) + length path"
proof (induction path i t arbitrary: e j t' rule: insert_path.induct)
  case (2 s path pvId t)
  then show ?case by (fastforce simp: Let_def split: option.splits if_splits)
qed simp

lemma insert_paths_ok:
  assumes "pv_ok t" and "length (propStrVec t) + sum_list (map length ps) \<le> 2 ^ 32"
  shows "\<exists>is t'. insert_paths ps t = Some (is, t') \<and> pv_ok t' \<and> valueIdTable t' = valueIdTable t \<and>
    length (propStrVec t) \<le> length (propStrVec t') \<and> length (propStrVec t') \<le> length (propStrVec t) + sum_list (map length ps) \<and>
    (\<forall>k < length (propStrVec t). path_of t' k = path_of t k) \<and> (\<forall>i \<in> set is. i < length (propStrVec t')) \<and> map (path_of t') is = ps"
  using assms
proof (induction ps arbitrary: t)
  case (Cons p ps)
  have z: "0 < length (propStrVec t)" using Cons.prems(1) by (simp add: pv_ok_def)
  have b: "length (propStrVec t) + length p \<le> 2 ^ 32" using Cons.prems(2) by simp
  from insert_path_ok [OF Cons.prems(1) z b] obtain j t1 where t1: "insert_path p 0 t = Some (None, j, t1)" "pv_ok t1" "j < length (propStrVec t1)"
    "path_of t1 j = p" "valueIdTable t1 = valueIdTable t" "length (propStrVec t) \<le> length (propStrVec t1)"
    "\<forall>k < length (propStrVec t). path_of t1 k = path_of t k" by auto
  have l: "length (propStrVec t1) \<le> length (propStrVec t) + length p" by (rule insert_path_length [OF t1(1)])
  have "length (propStrVec t1) + sum_list (map length ps) \<le> 2 ^ 32" using l Cons.prems(2) by simp
  from Cons.IH [OF t1(2) this] obtain "is" t' where t': "insert_paths ps t1 = Some (is, t')" "pv_ok t'" "valueIdTable t' = valueIdTable t1"
    "length (propStrVec t1) \<le> length (propStrVec t')" "length (propStrVec t') \<le> length (propStrVec t1) + sum_list (map length ps)"
    "\<forall>k < length (propStrVec t1). path_of t' k = path_of t1 k" "\<forall>i \<in> set is. i < length (propStrVec t')" "map (path_of t') is = ps" by blast
  have "insert_paths (p # ps) t = Some (j # is, t')" using t1(1) t'(1) by (simp add: insertPropValueId_def)
  then show ?case using t1(3-7) t'(2-8) l by (intro exI [of _ "j # is"] exI [of _ t']) auto
qed simp

text \<open>The paths of the values of every document.\<close>

definition doc_paths :: "prop_value_table \<Rightarrow> nat \<Rightarrow> string list list" where
  "doc_paths t d = map (path_of t) (doc_vals t d)"

definition table_ok :: "prop_value_table \<Rightarrow> bool" where
  "table_ok t \<longleftrightarrow> pv_ok t \<and> id_table_ok (valueIdTable t) \<and> (\<forall>d. \<forall>i \<in> set (doc_vals t d). 0 < i \<and> i < length (propStrVec t))"

abbreviation table_size :: "prop_value_table \<Rightarrow> nat" where
  "table_size t \<equiv> length (propStrVec t) + length (multiValueTable (valueIdTable t))"

abbreviation paths_size :: "string list list \<Rightarrow> nat" where
  "paths_size ps \<equiv> sum_list (map length ps) + length ps + 1"

lemma table_ok0: "table_ok prop_value_table0" "table_size prop_value_table0 = 1" "doc_paths prop_value_table0 d = []"
proof -
  have "doc_vals prop_value_table0 d = []" for d
    using getIdList_unpack [OF id_table0_ok, of d] by (simp add: doc_vals_def prop_value_table0_def prop_id_table0_def unpack_def)
  then show "table_ok prop_value_table0" "table_size prop_value_table0 = 1" "doc_paths prop_value_table0 d = []"
    using pv_ok0 id_table0_ok by (simp_all add: table_ok_def doc_paths_def prop_value_table0_def prop_id_table0_def)
qed

lemma setIdList_size: "length (multiValueTable (snd (setIdList d ids t))) \<le> length (multiValueTable t) + length ids + 1"
  by (auto simp: setIdList_def Let_def split: list.splits)

lemma setIdList_succeeds:
  "length (multiValueTable t) < 2 ^ 31 \<Longrightarrow> \<forall>i \<in> set ids. unat i < 2 ^ 31 \<Longrightarrow> fst (setIdList d ids t) = None"
  by (auto simp: setIdList_def Let_def word_le_nat_alt split: list.splits)

lemma set_ids_small:
  assumes "id_table_ok t" and "length (multiValueTable t) < 2 ^ 31" and "length is < 2 ^ 31" and "\<forall>i \<in> set is. 0 < i \<and> i < 2 ^ 31"
  shows "\<exists>t'. setIdList d (map of_nat is) t = (None, t') \<and> id_table_ok t' \<and> length (multiValueTable t') \<le> length (multiValueTable t) + length is + 1 \<and>
    map_option (map unat) (getIdList t' d) = Some is \<and> (\<forall>d'. d' \<noteq> d \<longrightarrow> getIdList t' d' = getIdList t d')"
proof -
  let ?ids = "map of_nat is :: pvid list" and ?t' = "snd (setIdList d (map of_nat is) t)"
  have u: "unat (of_nat i :: pvid) = i" if "i \<in> set is" for i
  proof -
    have "i < 2 ^ LENGTH(32)" using assms(4) that by fastforce
    then show ?thesis by (simp add: unat_of_nat)
  qed
  have "fst (setIdList d ?ids t) = None" using assms(2,4) u by (intro setIdList_succeeds) auto
  then have s: "setIdList d ?ids t = (None, ?t')" by (metis prod.collapse)
  have "?ids \<noteq> [0]"
  proof
    assume "?ids = [0]"
    then obtain i where "is = [i]" "(of_nat i :: pvid) = 0" by (cases "is") auto
    then show False using u assms(4) by (metis gr_implies_not0 list.set_intros(1) unsigned_0)
  qed
  moreover have "length ?ids < 2 ^ 32" using assms(3) by simp
  ultimately have v: "id_table_ok ?t'" "getIdList ?t' d = Some ?ids" "\<forall>d'. d' \<noteq> d \<longrightarrow> getIdList ?t' d' = getIdList t d'"
    using setIdList_ok [OF assms(1) s] by blast+
  moreover have "map unat ?ids = is" using u by (simp add: map_idI)
  ultimately show ?thesis using s setIdList_size [of d ?ids t] by (intro exI [of _ ?t']) simp
qed

lemma build_string_doc_ok:
  assumes "table_ok t" and "table_size t + paths_size ps \<le> 2 ^ 31" and "[] \<notin> set ps" and "\<forall>p \<in> set ps. [] \<notin> set p"
  shows "\<exists>t'. build_string_doc trim d (join (CHR '','') (map (print_values (CHR ''>'')) ps)) t = Some t' \<and> table_ok t' \<and>
    table_size t' \<le> table_size t + paths_size ps \<and> doc_paths t' = (doc_paths t)(d := ps)"
proof -
  have t: "pv_ok t" "id_table_ok (valueIdTable t)" using assms(1) by (simp_all add: table_ok_def)
  have "length (propStrVec t) + sum_list (map length ps) \<le> 2 ^ 32" using assms(2) by simp
  from insert_paths_ok [OF t(1) this] obtain "is" t1 where t1: "insert_paths ps t = Some (is, t1)" "pv_ok t1" "valueIdTable t1 = valueIdTable t"
    "length (propStrVec t) \<le> length (propStrVec t1)" "length (propStrVec t1) \<le> length (propStrVec t) + sum_list (map length ps)"
    "\<forall>k < length (propStrVec t). path_of t1 k = path_of t k" "\<forall>i \<in> set is. i < length (propStrVec t1)" "map (path_of t1) is = ps" by blast
  have l: "length is = length ps" using t1(8) by (metis length_map)
  have pos: "0 < i" if "i \<in> set is" for i
  proof -
    have "path_of t1 i \<in> set ps" using that t1(8) by (metis image_eqI image_set)
    then show ?thesis using assms(3) by (cases "i = 0") auto
  qed
  have "length (multiValueTable (valueIdTable t)) < 2 ^ 31" "length is < 2 ^ 31" "\<forall>i \<in> set is. 0 < i \<and> i < 2 ^ 31"
    using assms(2) l pos t1(5,7) by auto
  from set_ids_small [OF t(2) this, of d] obtain v where v: "setIdList d (map of_nat is) (valueIdTable t) = (None, v)" "id_table_ok v"
    "length (multiValueTable v) \<le> length (multiValueTable (valueIdTable t)) + length is + 1" "map_option (map unat) (getIdList v d) = Some is"
    "\<forall>d'. d' \<noteq> d \<longrightarrow> getIdList v d' = getIdList (valueIdTable t) d'" by blast
  let ?t' = "t1\<lparr>valueIdTable := v\<rparr>"
  have nd: "doc_vals ?t' d = is" using v(4) by (auto simp: doc_vals_def)
  have od: "doc_vals ?t' d' = doc_vals t d'" if "d' \<noteq> d" for d' using v(5) that by (simp add: doc_vals_def)
  have pt: "path_of ?t' k = path_of t1 k" "length (propStrVec ?t') = length (propStrVec t1)" for k
  proof -
    have "node_path n ?t' k = node_path n t1 k" for n k by (induction n arbitrary: k) simp_all
    then show "path_of ?t' k = path_of t1 k" by simp
  qed simp
  have "pv_ok ?t'" using t1(2) by (simp add: pv_ok_def)
  moreover have "0 < i \<and> i < length (propStrVec ?t')" if i: "i \<in> set (doc_vals ?t' d')" for d' i
  proof (cases "d' = d")
    case True
    then show ?thesis using i nd pos t1(7) by auto
  next
    case False
    then have "0 < i \<and> i < length (propStrVec t)" using i od assms(1) unfolding table_ok_def by auto
    then show ?thesis using t1(4) by simp
  qed
  ultimately have "table_ok ?t'" using v(2) unfolding table_ok_def by simp
  moreover have "doc_paths ?t' = (doc_paths t)(d := ps)"
  proof
    fix d'
    show "doc_paths ?t' d' = ((doc_paths t)(d := ps)) d'"
    proof (cases "d' = d")
      case True
      then show ?thesis using nd t1(8) by (simp add: doc_paths_def pt)
    next
      case False
      have "path_of t1 i = path_of t i" if "i \<in> set (doc_vals t d')" for i using assms(1) that t1(6) unfolding table_ok_def by blast
      then show ?thesis using False od by (simp add: doc_paths_def pt)
    qed
  qed
  moreover have "table_size ?t' \<le> table_size t + paths_size ps"
    using v(3) t1(5) l by simp
  moreover have "build_string_doc trim d (join (CHR '','') (map (print_values (CHR ''>'')) ps)) t = Some ?t'"
    using t1(1) v(1) group_path_split [OF assms(3,4), of trim] by (simp add: build_string_doc_def setPropIdList_def t1(3))
  ultimately show ?thesis by blast
qed

lemma mine_docs_ok:
  assumes "table_ok t" and "distinct (map fst ds)" and "table_size t + (\<Sum>(d, ps)\<leftarrow>ds. paths_size ps) \<le> 2 ^ 31"
    and "\<forall>(d, ps) \<in> set ds. [] \<notin> set ps \<and> (\<forall>p \<in> set ps. [] \<notin> set p)"
  shows "\<exists>t'. add_docs (map (\<lambda>(d, ps). build_string_doc trim d (join (CHR '','') (map (print_values (CHR ''>'')) ps))) ds) t = Some t' \<and> table_ok t' \<and>
    (\<forall>(d, ps) \<in> set ds. doc_paths t' d = ps) \<and> (\<forall>d. d \<notin> fst ` set ds \<longrightarrow> doc_paths t' d = doc_paths t d)"
  using assms
proof (induction ds arbitrary: t)
  case (Cons x ds)
  obtain d ps where x: "x = (d, ps)" by (cases x)
  have p: "[] \<notin> set ps" "\<forall>p \<in> set ps. [] \<notin> set p" using Cons.prems(4) x by auto
  have "table_size t + paths_size ps \<le> 2 ^ 31" using Cons.prems(3) x by simp
  from build_string_doc_ok [OF Cons.prems(1) this p, of trim d] obtain t1 where
    t1: "build_string_doc trim d (join (CHR '','') (map (print_values (CHR ''>'')) ps)) t = Some t1" "table_ok t1"
      "table_size t1 \<le> table_size t + paths_size ps" "doc_paths t1 = (doc_paths t)(d := ps)" by blast
  have "table_size t1 + (\<Sum>(d, ps)\<leftarrow>ds. paths_size ps) \<le> 2 ^ 31" using t1(3) Cons.prems(3) x by simp
  with Cons.IH [OF t1(2), of] Cons.prems(2,4) obtain t' where
    t': "add_docs (map (\<lambda>(d, ps). build_string_doc trim d (join (CHR '','') (map (print_values (CHR ''>'')) ps))) ds) t1 = Some t'" "table_ok t'"
      "\<forall>(d, ps) \<in> set ds. doc_paths t' d = ps" "\<forall>d. d \<notin> fst ` set ds \<longrightarrow> doc_paths t' d = doc_paths t1 d" by auto
  have "d \<notin> fst ` set ds" using Cons.prems(2) x by simp
  then have "doc_paths t' d = ps" using t'(4) t1(4) by simp
  then show ?case using t' t1 x by (intro exI [of _ t']) auto
qed simp

text \<open>What a worker does for a group request: it mines the property of its documents and counts them.\<close>

definition worker_groups ::
  "(string \<Rightarrow> string) \<Rightarrow> (nat \<Rightarrow> date \<Rightarrow> string) \<Rightarrow> string \<Rightarrow> (nat \<times> string) list \<Rightarrow> group_rep option" where
  "worker_groups trim pad prop ds =
     Option.bind (add_docs (map (\<lambda>(d, text). build_string_doc trim d text) ds) prop_value_table0) (\<lambda>t.
     Option.bind (add_docs (map (counter_addDoc \<circ> fst) ds) (Single (new_string_counter prop t))) (\<lambda>c.
       map_option snd (counter_getGroupRep pad c group_rep0)))"

definition print_docs :: "(nat \<times> string list list) list \<Rightarrow> (nat \<times> string) list" where
  "print_docs ds = map (\<lambda>(d, ps). (d, join (CHR '','') (map (print_values (CHR ''>'')) ps))) ds"

definition texts_ok :: "(nat \<times> string list list) list \<Rightarrow> bool" where
  "texts_ok ds \<longleftrightarrow> distinct (map fst ds) \<and> 1 + (\<Sum>(d, ps)\<leftarrow>ds. paths_size ps) \<le> 2 ^ 31 \<and>
     (\<forall>(d, ps) \<in> set ds. [] \<notin> set ps \<and> (\<forall>p \<in> set ps. [] \<notin> set p))"

definition paths_below :: "string list \<Rightarrow> (nat \<times> string list list) list \<Rightarrow> nat" where
  "paths_below p ds = (\<Sum>(d, ps)\<leftarrow>ds. length (filter (\<lambda>v. take (length p) v = p) ps))"

lemma add_docs_single: "add_docs (map (counter_addDoc \<circ> f) ds) (Single c) = map_option Single (add_docs (map (value_addDoc \<circ> f) ds) c)"
proof (induction ds arbitrary: c)
  case (Cons d ds)
  then show ?case by (cases "value_addDoc (f d) c") simp_all
qed simp

lemma worker_tree:
  assumes "texts_ok ds"
  shows "\<exists>T. worker_groups trim pad prop (print_docs ds) = Some (append_items (flat 0 [T]) group_rep0) \<and> tree_ok T \<and> grp_text T = prop \<and>
    grp_count T = length (filter (\<lambda>(d, ps). ps \<noteq> []) ds) \<and> (\<forall>p. p \<noteq> [] \<longrightarrow> count_at p (grp_children T) = paths_below p ds)"
proof -
  have a: "distinct (map fst ds)" "table_size prop_value_table0 + (\<Sum>(d, ps)\<leftarrow>ds. paths_size ps) \<le> 2 ^ 31"
    "\<forall>(d, ps) \<in> set ds. [] \<notin> set ps \<and> (\<forall>p \<in> set ps. [] \<notin> set p)" using assms unfolding texts_ok_def table_ok0(2) by simp_all
  from mine_docs_ok [OF table_ok0(1) a, of trim] obtain t where
    t: "add_docs (map (\<lambda>(d, ps). build_string_doc trim d (join (CHR '','') (map (print_values (CHR ''>'')) ps))) ds) prop_value_table0 = Some t" "table_ok t"
      "\<forall>(d, ps) \<in> set ds. doc_paths t d = ps" by blast
  have m: "add_docs (map (\<lambda>(d, text). build_string_doc trim d text) (print_docs ds)) prop_value_table0 = Some t"
    using t(1) by (simp add: print_docs_def comp_def case_prod_unfold)
  have f: "map (value_addDoc \<circ> fst) (print_docs ds) = map value_addDoc (map fst ds)" by (simp add: print_docs_def split_beta)
  have "docs_ok t (map fst ds)" using t(2) by (simp add: table_ok_def docs_ok_def)
  from string_groups [OF this, of "prop" pad group_rep0] obtain c c' T where
    c: "add_docs (map value_addDoc (map fst ds)) (new_string_counter prop t) = Some c"
      "value_getGroupRep pad c group_rep0 = Some (c', append_items (flat 0 [T]) group_rep0)" "tree_ok T" "grp_text T = prop"
      "grp_count T = length (filter (\<lambda>d. doc_vals t d \<noteq> []) (map fst ds))"
      "\<forall>p. p \<noteq> [] \<longrightarrow> count_at p (grp_children T) = path_count t (map fst ds) p" by blast
  have v: "map (path_of t) (doc_vals t d) = ps" if "(d, ps) \<in> set ds" for d ps using t(3) that by (auto simp: doc_paths_def)
  have "(doc_vals t d \<noteq> []) = (ps \<noteq> [])" if "(d, ps) \<in> set ds" for d ps using v [OF that] by auto
  then have n: "length (filter (\<lambda>d. doc_vals t d \<noteq> []) (map fst ds)) = length (filter (\<lambda>(d, ps). ps \<noteq> []) ds)"
    by (auto simp: filter_map comp_def intro!: arg_cong [where f = length] filter_cong)
  have "path_count t (map fst ds) p = paths_below p ds" for p
  proof -
    have "length (filter (\<lambda>i. \<exists>q. path_of t i = p @ q) (doc_vals t d)) = length (filter (\<lambda>v. take (length p) v = p) ps)" if "(d, ps) \<in> set ds" for d ps
    proof -
      have "(\<exists>q. v = p @ q) \<longleftrightarrow> take (length p) v = p" for v :: "string list" by (metis append_eq_conv_conj append_take_drop_id)
      then show ?thesis unfolding v [OF that, symmetric] by (simp add: filter_map comp_def)
    qed
    then show ?thesis unfolding path_count_def paths_below_def map_map by (intro arg_cong [where f = sum_list] map_cong) auto
  qed
  moreover have "worker_groups trim pad prop (print_docs ds) = Some (append_items (flat 0 [T]) group_rep0)"
    unfolding worker_groups_def m Option.bind.bind_lunit add_docs_single f c(1) option.map counter_getGroupRep_def using c(2) by simp
  ultimately show ?thesis using c(3-6) n by (intro exI [of _ T]) simp
qed



end
