(* ===== verification/Spec2Isabelle.thy ===== *)
theory Spec2Isabelle
  imports ManualBidInfo AuctionStat RealtimeBid GeneticBid SponsoredSearch SponsoredDaily SponsoredFile HitQueues BoolQuery GroupCount
begin

text \<open>
  A model of the ad delivery engine of SF1-R. The sponsored search of
  \<^verbatim>\<open>src/source/core/ad-manager/sponsored-ad-search\<close>: advertisers bid on phrases; a query is
  cut into keywords, the ads whose phrases it covers are ranked by bid times quality, and
  impressions and clicks are logged and feed the automatic bids of the next day. The ad
  selector of \<^verbatim>\<open>src/source/core/ad-manager/AdSelector.cpp\<close>: users and ads belong to segments,
  a table of click rates by pairs of segments is recomputed in the background, and the ads of
  a search are chosen by it, with some left to chance. Around both, in
  \<^verbatim>\<open>src/source/core/ad-manager\<close>: \<open>AdIndexManager\<close> answers the searches and passes the stream of
  feedback (views and clicks) on to the parts, \<open>AdFeedbackMgr\<close> reads the messages and fetches
  the profile of the user, \<open>AdRecommender\<close> learns from them which ads to offer,
  \<open>AdMiningTask\<close> and \<open>DNFParser\<close> index the targeting formulas of new ads. Below them, in
  \<^verbatim>\<open>src/source/core/search-manager\<close>, boolean queries are evaluated by a tree of iterators over
  documents, and the hits are ranked in bounded queues. Beside the hits a search returns groups
  (facets): in \<^verbatim>\<open>src/source/core/mining-manager/group-manager\<close> the values of some properties
  are mined from the documents, the documents of a search are counted for them, and the counts
  of several workers are merged.

  \<^bold>\<open>Parts and theories.\<close>

  \<^item> \<open>Prelude\<close>: vectors (\<open>vec_at\<close>, \<open>resize\<close>, \<open>grow\<close>), \<open>std::map\<close> histograms, decimal
    printing, truncation of doubles, and their lemmas. \<open>ImageFile\<close>: the block format of all
    data files.
  \<^item> \<open>ManualBidInfo\<close> (\<open>AdManualBidInfoMgr\<close>): manual prices by campaign, ad and phrase, and
    campaign budgets. Lemmas: what a price is after setting and removing, no zero price is
    ever stored, load after save.
  \<^item> \<open>AuctionLog\<close>, \<open>AuctionStat\<close> (\<open>AdAuctionLogMgr\<close>): hourly records of impressions and
    clicks and their merged histories; the click rates, costs and landscapes computed from
    them. Lemmas: the counters agree with the cost histograms, each operation changes exactly
    its slot of the current hour, the histories are sums of the hourly records, averages lie
    within the costs paid.
  \<^item> \<open>QueryStat\<close>, \<open>Knapsack\<close>, \<open>UniformBid\<close>, \<open>RealtimeBid\<close>, \<open>Genetic\<close>, \<open>GeneticBid\<close>
    (\<open>AdBidStrategy\<close>): the three bidding strategies. Lemmas: the enumeration and the dynamic
    program are optimal, the convex hull is convex and the bids drawn from it are
    well formed, the genetic search terminates within its bound and never leaves the budget.
  \<^item> \<open>KeywordDict\<close>, \<open>Sponsored\<close>, \<open>SponsoredSearch\<close>, \<open>SponsoredDaily\<close>, \<open>SponsoredFile\<close>
    (\<open>AdSponsoredMgr\<close>): keyword numbering and bid phrases, the editing operations, search and
    ranking, mining and the daily recomputation of the bids, persistence. Lemmas: the
    invariant \<open>sponsored_ok\<close> of the tables is kept by every operation, what each operation
    changes, which ads a search returns and what they cost.
  \<^item> \<open>PropTable\<close> (\<open>PropIdTable\<close>, \<open>PropValueTable\<close> of the group manager): the packed lists of
    value ids of the documents and the tree of values, from which ads' features are read.
    Lemmas: what is set is read, the tree stays consistent, labels are ancestors.
  \<^item> \<open>Segments\<close>, \<open>AdSelector\<close>, \<open>AdSelect\<close> (\<open>AdSelector\<close>): segment strings and their
    enumeration, the history of click rates with its refresh and its files, and the selection.
    Lemmas: the enumeration ends and misses no combination, the segments of a user are among
    its keys, a refreshed history answers every known user and ad, what a selection returns.
  \<^item> \<open>Recommender\<close> (\<open>AdRecommender\<close>): latent vectors of user and ad features, their training by
    one gradient step per message and the recommendation. Lemmas: the vectors keep their
    dimension and bound, a step moves the score the right way.
  \<^item> \<open>Dnf\<close> (\<open>DNFParser\<close>, \<open>AdMiningTask\<close>): the parser of targeting formulas, with a round trip,
    and the mining of the index of formulas.
  \<^item> \<open>Feedback\<close> (\<open>AdFeedbackMgr\<close>): parsing of log messages, profiles from the server and their
    cache.
  \<^item> \<open>AdIndex\<close> (\<open>AdIndexManager\<close>): ranking and selection, the three searches, the stream of
    feedback, mining. Its state holds those of all the parts above. Lemmas: which ads a search
    answers with, every accepted click is charged once.
  \<^item> \<open>HeapQueue\<close> (\<open>PriorityQueue.h\<close> of the search manager), \<open>HitQueues\<close>: the bounded heap in an
    array, and the queues of hits as wrappers of it. Lemmas: the heap keeps the largest
    elements and returns them in order, so that a ranking lists the best ads first.
  \<^item> \<open>DocIterator\<close> (\<open>DocumentIterator\<close>, \<open>ANDDocumentIterator\<close>), \<open>OrIterator\<close>
    (\<open>ORDocumentIterator\<close>, \<open>NOTDocumentIterator\<close>), \<open>AllIterator\<close> (\<open>AllDocumentIterator\<close>),
    \<open>WandIterator\<close> (\<open>WANDDocumentIterator\<close>), \<open>BoolQuery\<close> (the leaves, \<open>DocumentIteratorContainer\<close>, whole queries): \<open>next\<close>, \<open>skipTo\<close> and \<open>add\<close>.
    The loops are partial functions with values in \<open>option\<close>; that they end is part of what is
    proved. Lemmas: an AND iterator delivers the intersection of its children less the negated
    ones, an OR iterator their union, a WAND iterator the documents for which the upper
    bounds of the children that have them exceed the threshold, all in ascending order, and all
    keep the contract that they need of their children; where \<open>skipTo\<close> does not keep it.
  \<^item> \<open>GroupRep\<close> (\<open>GroupRep\<close>), \<open>RangeGroup\<close> (\<open>NumericRangeGroupCounter\<close>), \<open>SplitUstr\<close>
    (\<^verbatim>\<open>util/split_ustr.cpp\<close>), \<open>DateGroup\<close> (\<open>DateStrFormat\<close>, \<open>DateStrParser\<close>, \<open>DateGroupTable\<close>,
    \<open>GroupMiningTask\<close>), \<open>GroupCount\<close> (\<open>StringGroupCounter\<close>, \<open>NumericGroupCounter\<close>,
    \<open>DateGroupCounter\<close>, \<open>SubGroupCounter\<close>): groups. A list of items with levels is the preorder of a
    forest (\<open>flat\<close>), and \<open>count_at\<close> reads the count at a path. Lemmas: merging adds the counts of
    every path, number and range; limiting keeps the largest groups; the ranges are disjoint and
    count the documents they contain; quoted paths and dates are read back as printed; from the
    texts of the documents of two workers to the merged tree the counts are those of the
    values at or below each path.

  \<^bold>\<open>Interfaces.\<close> \<open>id_dictionary\<close> (in \<open>KeywordDict\<close>) is the contract of a numbering of strings,
  interpreted by the keyword dictionary, the campaign dictionary and the numbering of the ad
  features in the recommender. \<open>priority_order\<close> (in \<open>HeapQueue\<close>) is what the heap needs of
  \<open>lessThan\<close>, interpreted by the order of the queue of an OR iterator. \<open>doc_stream\<close> and, with
  \<open>skipTo\<close>, \<open>doc_iterator\<close> (in \<open>DocIterator\<close>) are the contract of an iterator; \<open>iter_queue\<close> (in
  \<open>OrIterator\<close>) is what an OR iterator needs of its queue, interpreted by the heap of
  \<open>HeapQueue\<close>; \<open>or_union\<close> and \<open>and_not\<close> combine them for the two classes. They are interpreted
  in \<open>BoolQuery\<close> for the classes over posting lists.

  \<^bold>\<open>Conventions.\<close> A C++ \<open>int\<close> or \<open>size_t\<close> is an unbounded \<open>int\<close> or \<open>nat\<close>: no counter of these
  classes comes near its width, and the places where a difference of unsigned numbers wraps
  are written out. A \<open>double\<close> is a real number (in \<open>RealtimeBid\<close> with infinities and NaN):
  rounding is not modelled. \<open>None\<close> is undefined behaviour (an index out of range, a null
  pointer); a theorem that an operation returns \<open>Some\<close> therefore says that it stays inside its
  vectors. \<open>rand()\<close>, the time, the iteration order of hash maps, the tokenizer, the full-text
  search, the document store, the serialization library, the id manager, the record array, the
  click predictor, the JSON library, the profile cache and server, the DNF index, the numeric
  tables, the queue of the utility library, the readers of the inverted index, the queue of
  the index library, and number conversion, tokenizing and formatting of dates by Boost are
  parameters. Locks and log
  messages are left out: every operation runs atomically, as its locks intend. The genetic
  search is the only loop with fuel whose bound is that of the source; the depth of the recursion
  over a tree of values is bounded by the number of values, which is enough as children have
  greater ids than their parents.

  \<^bold>\<open>Not modelled.\<close> The servers, the distributed node management, indexing, document storage,
  query language, configuration and recommendation modules, which need files, sockets,
  Zookeeper or third-party libraries; they are listed with their reasons in the manifest.
\<close>

section \<open>Properties across the components\<close>

text \<open>
  C25. What the daily recomputation hands to the searches of the day. With the uniform strategy
  (and costs of clicks below the largest double), \<open>resetDailyLogStatisticalData\<close> on a
  well-formed manager returns, keeps it well formed, and leaves one used budget and one
  uniform bid entry per campaign and one click rate per ad; a campaign with manual prices
  gets no automatic bid, and every other campaign that has phrases gets two bids, the larger
  at least \<open>LOWEST_CLICK_COST\<close>, with probabilities that add up to 1, so that
  \<open>getAdBidPrice\<close> of each of its ads without a manual price returns one of the two, whatever
  \<open>rand()\<close> gives.
\<close>

theorem daily_uniform_bids:
  assumes "sponsored_ok m" and "bid_strategy_type m = UniformBid"
    and "\<forall>i < length (id_values (campaign_dict m)). \<forall>c \<in> set (orders i).
      px (the (aggregate (getBidStatisticalData (ad_log_mgr m) (bidkey_cpc_map keys (ad_log_mgr m))
        (ad_campaign_bid_phrase_list m ! i)) c)) < DBL_MAX"
  shows "\<exists>m'. reset_daily now env keys orders rnds reset_used m = Some m' \<and> sponsored_ok m' \<and>
    length (ad_budget_used_list m') = length (id_values (campaign_dict m)) \<and>
    length (ad_ctr_list m') = length (ad_bidphrase_list m) \<and>
    length (ad_uniform_bid_price_list m') = length (id_values (campaign_dict m)) \<and>
    (\<forall>i < length (id_values (campaign_dict m)).
       if automatic (manual_bidinfo_mgr m) (id_values (campaign_dict m)) (ad_campaign_bid_phrase_list m) i
       then ad_campaign_bid_phrase_list m ! i \<noteq> [] \<longrightarrow>
         (\<exists>b1 p1 b2 p2. ad_uniform_bid_price_list m' ! i = [(b1, p1), (b2, p2)] \<and> 0 \<le> p1 \<and> 0 \<le> p2 \<and>
            p1 + p2 = 1 \<and> LOWEST_CLICK_COST \<le> b2 \<and>
            (\<forall>a < length (ad_campaign_belong_list m'). ad_campaign_belong_list m' ! a = i \<longrightarrow>
               (\<forall>hit r. getAdBidPrice now (r mod 10000) a hit m' \<in> {Some b1, Some b2})))
       else ad_uniform_bid_price_list m' ! i = [])"
proof -
  let ?n = "length (id_values (campaign_dict m))"
  let ?auto = "automatic (manual_bidinfo_mgr m) (id_values (campaign_dict m)) (ad_campaign_bid_phrase_list m)"
  from reset_daily_uniform [OF assms(2,3)] obtain m' where r: "reset_daily now env keys orders rnds reset_used m = Some m'"
    and l: "length (ad_budget_used_list m') = ?n" "length (ad_ctr_list m') = length (ad_bidphrase_list m)"
      "length (ad_uniform_bid_price_list m') = ?n"
    and u: "\<forall>i < ?n. if ?auto i then ad_campaign_bid_phrase_list m ! i \<noteq> [] \<longrightarrow>
        bid_pair_ok LOWEST_CLICK_COST (ad_uniform_bid_price_list m' ! i) else ad_uniform_bid_price_list m' ! i = []"
    by blast
  have ok: "sponsored_ok m'" by (rule reset_daily_keeps_ok [OF r assms(1)])
  note f = reset_daily_frame [OF r]
  have price: "getAdBidPrice now (k mod 10000) a hit m' \<in> {Some b1, Some b2}"
    if "?auto i" "i < ?n" "ad_uniform_bid_price_list m' ! i = [(b1, p1), (b2, p2)]" "0 \<le> p1" "0 \<le> p2" "p1 + p2 = 1"
      "a < length (ad_campaign_belong_list m')" "ad_campaign_belong_list m' ! a = i" for i b1 p1 b2 p2 a hit k
  proof -
    have "getManualBidPrice (manual_bidinfo_mgr m') (id_values (campaign_dict m') ! i) a hit = 0"
      using automatic_no_manual [OF that(1)] f by simp
    then show ?thesis
      using getAdBidPrice_uniform [OF ok that(7) that(8) [symmetric] _ _ that(3-6), of now k hit] that(2) l(3) f assms(2)
      by simp
  qed
  have "if ?auto i then ad_campaign_bid_phrase_list m ! i \<noteq> [] \<longrightarrow>
         (\<exists>b1 p1 b2 p2. ad_uniform_bid_price_list m' ! i = [(b1, p1), (b2, p2)] \<and> 0 \<le> p1 \<and> 0 \<le> p2 \<and>
            p1 + p2 = 1 \<and> LOWEST_CLICK_COST \<le> b2 \<and>
            (\<forall>a < length (ad_campaign_belong_list m'). ad_campaign_belong_list m' ! a = i \<longrightarrow>
               (\<forall>hit r. getAdBidPrice now (r mod 10000) a hit m' \<in> {Some b1, Some b2})))
       else ad_uniform_bid_price_list m' ! i = []" if i: "i < ?n" for i
  proof (cases "?auto i \<and> ad_campaign_bid_phrase_list m ! i \<noteq> []")
    case True
    then have "bid_pair_ok LOWEST_CLICK_COST (ad_uniform_bid_price_list m' ! i)" using u i by auto
    then obtain b1 p1 b2 p2 where b: "ad_uniform_bid_price_list m' ! i = [(b1, p1), (b2, p2)]" "0 \<le> p1" "0 \<le> p2"
      "p1 + p2 = 1" "LOWEST_CLICK_COST \<le> b2" unfolding bid_pair_ok_def by blast
    have "\<forall>a < length (ad_campaign_belong_list m'). ad_campaign_belong_list m' ! a = i \<longrightarrow>
        (\<forall>hit r. getAdBidPrice now (r mod 10000) a hit m' \<in> {Some b1, Some b2})"
      using price [OF _ i b(1-4)] True by blast
    with b True show ?thesis by auto
  next
    case False
    then show ?thesis using u i by auto
  qed
  with r ok l show ?thesis by blast
qed

theorem daily_uniform_bids_witness:
  "let m = sponsored_init\<lparr>campaign_dict := \<lparr>id_values = [''c''], value_ids = [''c'' \<mapsto> 0]\<rparr>,
         ad_campaign_bid_phrase_list := [[''shoes '']], ad_campaign_belong_list := [0]\<rparr>
   in \<exists>m' b1 p1 b2 p2. reset_daily \<lparr>tm_year = 114, tm_yday = 3, tm_hour = 5\<rparr>
        \<lparr>pca = (\<lambda>t. []), adIdOf = (\<lambda>s. None), adStrIdOf = (\<lambda>a. None)\<rparr> [] (\<lambda>i. []) (\<lambda>i k. 0) True m = Some m' \<and>
      ad_uniform_bid_price_list m' ! 0 = [(b1, p1), (b2, p2)] \<and> LOWEST_CLICK_COST \<le> b2"
proof -
  let ?m = "sponsored_init\<lparr>campaign_dict := \<lparr>id_values = [''c''], value_ids = [''c'' \<mapsto> 0]\<rparr>,
         ad_campaign_bid_phrase_list := [[''shoes '']], ad_campaign_belong_list := [0]\<rparr>"
  have ok: "sponsored_ok ?m"
    by (auto simp: sponsored_ok_def sponsored_init_def tables_ok_def ads_ok_def dict_ok_def str_dict0_def sset_def)
  have s: "bid_strategy_type ?m = UniformBid" by (simp add: sponsored_init_def)
  have a: "automatic (manual_bidinfo_mgr ?m) (id_values (campaign_dict ?m)) (ad_campaign_bid_phrase_list ?m) 0"
    by (simp add: automatic_def sponsored_init_def hasManualBidPrice_def manual_bid_mgr_init_def)
  have n: "0 < length (id_values (campaign_dict ?m))" "ad_campaign_bid_phrase_list ?m ! 0 \<noteq> []" by simp_all
  have "\<forall>i < length (id_values (campaign_dict ?m)). \<forall>c \<in> set ((\<lambda>i. []) i).
      px (the (aggregate (getBidStatisticalData (ad_log_mgr ?m) (bidkey_cpc_map [] (ad_log_mgr ?m))
        (ad_campaign_bid_phrase_list ?m ! i)) c)) < DBL_MAX" by simp
  from daily_uniform_bids [OF ok s this] a n show ?thesis unfolding Let_def by (metis (no_types, lifting))
qed

end
